(* ===== verification/Shoal_Prelude.thy ===== *)
theory Shoal_Prelude
  imports Main "HOL-Library.Word" "HOL-Library.List_Lexorder" "HOL-Library.Product_Lexorder"
begin

text \<open>
  Shared vocabulary of the development: the Go types the storage engine uses
  (bytes, fixed-width integers, error values), the few functions of Go's standard
  library the code calls (\<^verbatim>\<open>bytes.Compare\<close>, \<^verbatim>\<open>bytes.Equal\<close>,
  \<^verbatim>\<open>io.ReadFull\<close>, \<^verbatim>\<open>errors.Is\<close>, \<^verbatim>\<open>binary.BigEndian\<close>), and the
  generic lemmas on lists, words and error results that the component theories use.
\<close>

unbundle bit_operations_syntax

section \<open>Types\<close>

type_synonym byte = "8 word"
type_synonym bytes = "byte list"
type_synonym int32 = "32 word"
type_synonym int64 = "64 word"

named_theorems res_simps \<open>rules that evaluate the error monad\<close>
named_theorems codec \<open>decode-after-encode rules of the byte codecs\<close>
named_theorems iter_simps \<open>rules of the iterator interface\<close>

section \<open>Errors\<close>

text \<open>
  Go error values: the sentinels the code compares against, a message built with
  \<^verbatim>\<open>fmt.Errorf\<close> or \<^verbatim>\<open>errors.New\<close> (numbers interpolated into the text are left
  out), a message that wraps another error with \<^verbatim>\<open>%w\<close>, the mark of a write that took effect
  although it reports an error, \<^verbatim>\<open>errors.Join\<close>, and the error types of the iterator registry, which carry the names and contexts they report.
\<close>

datatype go_err =
    EOF
  | ErrUnexpectedEOF
  | ErrVIntOverflow
  | ErrUnexpectedDelete
  | ErrParse
  | ErrEncryptedWAL
  | ErrHeaderIncomplete
  | Errorf string
  | Wrap string go_err
  | CommittedWriteError go_err
  | Joined "go_err list"
  | UnknownIteratorError string
  | UnsupportedIteratorClassError string string
  | UnsupportedIteratorContextError string string "string list"
  | UnsupportedIteratorOptionError string string string "string list"
  | UnsupportedIteratorConfigurationError string string go_err
  | UnsupportedStackContextError string
  | CapabilityVersionMismatchError int int string string
  | IteratorValidationError string string "go_err list"
  | StackValidationError string "go_err list"

text \<open>\<^verbatim>\<open>errors.Is\<close>: the error or one it wraps is the target.\<close>

fun errors_Is :: "go_err \<Rightarrow> go_err \<Rightarrow> bool" where
  "errors_Is (Wrap m e) t = (Wrap m e = t \<or> errors_Is e t)"
| "errors_Is (CommittedWriteError e) t = (CommittedWriteError e = t \<or> errors_Is e t)"
| "errors_Is (Joined es) t = (Joined es = t \<or> (\<exists>e\<in>set es. errors_Is e t))"
| "errors_Is (UnsupportedIteratorConfigurationError n c e) t =
     (UnsupportedIteratorConfigurationError n c e = t \<or> errors_Is e t)"
| "errors_Is (IteratorValidationError n c es) t =
     (IteratorValidationError n c es = t \<or> (\<exists>e\<in>set es. errors_Is e t))"
| "errors_Is (StackValidationError c es) t =
     (StackValidationError c es = t \<or> (\<exists>e\<in>set es. errors_Is e t))"
| "errors_Is e t = (e = t)"

type_synonym 'a res = "go_err + 'a"

text \<open>The early return \<^verbatim>\<open>if err != nil { return err }\<close>, and the same with a wrapped error.\<close>

fun rbind :: "'a res \<Rightarrow> ('a \<Rightarrow> 'b res) \<Rightarrow> 'b res" where
  "rbind (Inl e) f = Inl e"
| "rbind (Inr x) f = f x"

fun rwrap :: "string \<Rightarrow> 'a res \<Rightarrow> 'a res" where
  "rwrap m (Inl e) = Inl (Wrap m e)"
| "rwrap m (Inr x) = Inr x"

lemma rbind_Inr_iff [res_simps]: "rbind r f = Inr y \<longleftrightarrow> (\<exists>x. r = Inr x \<and> f x = Inr y)"
  by (cases r) auto

lemma rwrap_Inr_iff [res_simps, simp]: "rwrap m r = Inr y \<longleftrightarrow> r = Inr y"
  by (cases r) auto

section \<open>Lists\<close>

lemma filter_eq_takeWhile:
  assumes "\<forall>x\<in>set (dropWhile p xs). \<not> p x"
  shows "filter p xs = takeWhile p xs" and "filter (\<lambda>x. \<not> p x) xs = dropWhile p xs"
proof -
  have *: "\<forall>x\<in>set (takeWhile p xs). p x"
    by (auto dest: set_takeWhileD)
  have "filter q xs = filter q (takeWhile p xs) @ filter q (dropWhile p xs)" for q
    using filter_append [of q "takeWhile p xs" "dropWhile p xs"] by simp
  then show "filter p xs = takeWhile p xs" "filter (\<lambda>x. \<not> p x) xs = dropWhile p xs"
    using * assms filter_False [of "dropWhile p xs" p] filter_True [of "takeWhile p xs" p]
      filter_False [of "takeWhile p xs" "\<lambda>x. \<not> p x"] filter_True [of "dropWhile p xs" "\<lambda>x. \<not> p x"]
    by simp_all
qed

lemma dropWhile_dropWhile_imp: "(\<And>x. q x \<Longrightarrow> p x) \<Longrightarrow> dropWhile p (dropWhile q xs) = dropWhile p xs"
  by (induction xs) auto

lemma filter_dropWhile: "filter p (dropWhile (\<lambda>x. \<not> p x) xs) = filter p xs"
  by (induction xs) auto

section \<open>Byte strings\<close>

text \<open>
  \<^verbatim>\<open>bytes.Compare\<close>: lexicographic, a proper prefix first. A nil slice and an empty
  slice are the same value here, as they are for \<^verbatim>\<open>bytes.Compare\<close> and
  \<^verbatim>\<open>bytes.Equal\<close>.
\<close>

fun bytes_Compare :: "bytes \<Rightarrow> bytes \<Rightarrow> int" where
  "bytes_Compare [] [] = 0"
| "bytes_Compare [] (b # bs) = -1"
| "bytes_Compare (a # as) [] = 1"
| "bytes_Compare (a # as) (b # bs) =
     (if a < b then -1 else if b < a then 1 else bytes_Compare as bs)"

definition bytes_Equal :: "bytes \<Rightarrow> bytes \<Rightarrow> bool" where
  "bytes_Equal a b \<longleftrightarrow> a = b"

lemma bytes_Compare_order:
  "bytes_Compare a b = (if a < b then -1 else if a = b then 0 else 1)"
  by (induction a b rule: bytes_Compare.induct) (auto simp: not_less_iff_gr_or_eq)

text \<open>Appending a zero byte gives the least byte string above a given one.\<close>

lemma bytes_snoc_zero_successor: "a < b \<longleftrightarrow> a @ [0] \<le> (b :: bytes)"
proof (induction a arbitrary: b)
  case Nil
  then show ?case
    by (cases b) (auto simp: word_gt_0 neq_Nil_conv)
next
  case (Cons x a)
  then show ?case
    by (cases b) auto
qed

section \<open>Big-endian integers\<close>

text \<open>
  \<open>be_val\<close> is the number a big-endian byte string denotes, \<open>be_bytes n\<close> its
  inverse on \<open>n\<close> bytes: what \<^verbatim>\<open>binary.BigEndian\<close> reads and writes.
\<close>

fun be_val :: "bytes \<Rightarrow> nat" where
  "be_val [] = 0"
| "be_val (b # bs) = unat b * 256 ^ length bs + be_val bs"

fun be_bytes :: "nat \<Rightarrow> nat \<Rightarrow> bytes" where
  "be_bytes 0 m = []"
| "be_bytes (Suc n) m = of_nat (m div 256 ^ n) # be_bytes n m"

lemma length_be_bytes [simp]: "length (be_bytes n m) = n"
  by (induction n) auto

lemma unat_byte_less: "unat (b :: byte) < 256"
proof -
  have "unat b < 2 ^ LENGTH(8)" by (rule unsigned_less)
  then show ?thesis by simp
qed

lemma unat_byte_of_nat: "unat (of_nat m :: byte) = m mod 256"
  by (simp add: unat_of_nat)

lemma be_val_be_bytes: "be_val (be_bytes n m) = m mod 256 ^ n"
proof (induction n)
  case 0
  then show ?case by simp
next
  case (Suc n)
  have "m mod 256 ^ Suc n = m mod 256 ^ n + 256 ^ n * (m div 256 ^ n mod 256)"
    using mod_mult2_eq [of m "256 ^ n" 256] by (simp add: mult.commute)
  then show ?case
    using Suc by (simp add: unat_byte_of_nat)
qed

lemma be_val_be_bytes_32 [simp]: "be_val (be_bytes 4 (unat (v :: int32))) = unat v"
proof -
  have "unat v < 2 ^ LENGTH(32)" by (rule unsigned_less)
  then show ?thesis by (simp add: be_val_be_bytes)
qed

lemma be_val_be_bytes_64 [simp]: "be_val (be_bytes 8 (unat (v :: int64))) = unat v"
proof -
  have "unat v < 2 ^ LENGTH(64)" by (rule unsigned_less)
  then show ?thesis by (simp add: be_val_be_bytes)
qed

lemma sint_of_nat_64:
  assumes "n < 2 ^ 63"
  shows "sint (of_nat n :: int64) = int n"
proof -
  have "sint (word_of_int (int n) :: int64) = int n"
    unfolding sint_sbintrunc' using assms by (simp add: signed_take_bit_int_eq_self)
  then show ?thesis by simp
qed

lemma be_val_less: "be_val bs < 256 ^ length bs"
proof (induction bs)
  case (Cons b bs)
  have "unat b * 256 ^ length bs \<le> 255 * 256 ^ length bs"
    using unat_byte_less [of b] by simp
  with Cons have "unat b * 256 ^ length bs + be_val bs < 255 * 256 ^ length bs + 256 ^ length bs"
    by linarith
  then show ?case by simp
qed simp

lemma be_val_append: "be_val (as @ bs) = be_val as * 256 ^ length bs + be_val bs"
  by (induction as) (simp_all add: power_add algebra_simps)

text \<open>The accumulating loop \<^verbatim>\<open>i = (i << 8) | int64(b)\<close> computes the same number.\<close>

lemma push_bit_or_byte:
  "push_bit 8 (w :: 'a::len word) OR ucast (b :: byte) = push_bit 8 w + ucast b"
proof (rule disjunctive_add [symmetric])
  fix n
  show "\<not> bit (push_bit 8 w) n \<or> \<not> bit (ucast b :: 'a word) n"
    by (auto simp: bit_push_bit_iff bit_ucast_iff dest: bit_imp_le_length)
qed

lemma shift_accumulate:
  "foldl (\<lambda>i b. push_bit 8 i OR ucast b) (of_nat a :: 'a::len word) bs
     = of_nat (a * 256 ^ length bs + be_val bs)"
proof (induction bs arbitrary: a)
  case (Cons b bs)
  have "push_bit 8 (of_nat a :: 'a word) OR ucast b = of_nat (a * 256 + unat b)"
    unfolding push_bit_or_byte by (simp add: push_bit_eq_mult)
  then have "foldl (\<lambda>i b. push_bit 8 i OR ucast b) (of_nat a :: 'a word) (b # bs)
      = of_nat ((a * 256 + unat b) * 256 ^ length bs + be_val bs)"
    by (simp only: foldl_Cons Cons)
  also have "(a * 256 + unat b) * 256 ^ length bs + be_val bs
      = a * 256 ^ length (b # bs) + be_val (b # bs)"
    by (simp add: algebra_simps)
  finally show ?case .
qed simp

section \<open>Flag bits of a byte\<close>

text \<open>The constant \<^verbatim>\<open>1 << n\<close> as a byte.\<close>

definition flag :: "nat \<Rightarrow> byte" where
  "flag n = push_bit n 1"

lemma bit_flag: "bit (flag n) m \<longleftrightarrow> m = n \<and> n < 8"
  by (auto simp: flag_def bit_push_bit_iff bit_1_iff simp del: push_bit_of_1)

lemma flag_test [simp]: "w AND flag n \<noteq> 0 \<longleftrightarrow> bit w n" "w AND flag n = 0 \<longleftrightarrow> \<not> bit w n"
  unfolding flag_def using bit_iff_and_push_bit_not_eq_0 [of w n] by auto

lemma flag_test_eq [simp]: "n < 8 \<Longrightarrow> w AND flag n = flag n \<longleftrightarrow> bit w n"
  by (auto intro!: bit_word_eqI simp: bit_and_iff bit_flag) (metis bit_and_iff bit_flag)

lemma bit_or_flag [simp]: "bit (w OR flag n) m \<longleftrightarrow> bit w m \<or> m = n \<and> n < 8"
  by (auto simp: bit_or_iff bit_flag)

section \<open>Reading a byte stream\<close>

text \<open>
  An \<^verbatim>\<open>io.Reader\<close> over bytes in memory is the list of bytes not read yet.
  \<^verbatim>\<open>io.ReadFull\<close> of \<open>n\<close> bytes reads nothing at the end of input (EOF), or too few
  (ErrUnexpectedEOF); a read of no bytes never fails. A reader is not used after an
  error, so what an erring read consumed is not recorded.
\<close>

definition ReadByte :: "bytes \<Rightarrow> (byte \<times> bytes) res" where
  "ReadByte r = (case r of [] \<Rightarrow> Inl EOF | b # bs \<Rightarrow> Inr (b, bs))"

definition ReadFull :: "nat \<Rightarrow> bytes \<Rightarrow> (bytes \<times> bytes) res" where
  "ReadFull n r =
     (if n \<le> length r then Inr (take n r, drop n r)
      else if r = [] then Inl EOF else Inl ErrUnexpectedEOF)"

lemma ReadByte_Cons [simp, codec]: "ReadByte (b # bs) = Inr (b, bs)"
  by (simp add: ReadByte_def)

lemma ReadFull_append [simp, codec]: "length xs = n \<Longrightarrow> ReadFull n (xs @ r) = Inr (xs, r)"
  by (simp add: ReadFull_def)

lemma ReadFull_0 [simp]: "ReadFull 0 r = Inr ([], r)"
  by (simp add: ReadFull_def)

lemma ReadFull_Inr_iff [res_simps]:
  "ReadFull n r = Inr (x, r') \<longleftrightarrow> r = x @ r' \<and> length x = n"
  by (auto simp: ReadFull_def)

lemma ReadByte_Inr_iff [res_simps]: "ReadByte r = Inr (b, r') \<longleftrightarrow> r = b # r'"
  by (auto simp: ReadByte_def split: list.splits)

section \<open>Package strconv\<close>

text \<open>
  \<^verbatim>\<open>strconv.ParseInt(s, 10, 64)\<close>, which is also \<^verbatim>\<open>strconv.Atoi\<close> on a 64-bit platform:
  an optional sign and at least one decimal digit, in the range of \<^verbatim>\<open>int64\<close>.
\<close>

definition is_digit :: "char \<Rightarrow> bool" where
  "is_digit c \<longleftrightarrow> 48 \<le> (of_char c :: nat) \<and> (of_char c :: nat) \<le> 57"

definition decimal :: "string \<Rightarrow> int" where
  "decimal ds = foldl (\<lambda>n c. 10 * n + (of_char c - 48)) 0 ds"

definition ParseInt :: "string \<Rightarrow> int option" where
  "ParseInt s =
     (let neg = (s \<noteq> [] \<and> hd s = CHR ''-'');
          ds = (if s \<noteq> [] \<and> (hd s = CHR ''-'' \<or> hd s = CHR ''+'') then tl s else s);
          n = (if neg then - decimal ds else decimal ds)
      in if ds = [] \<or> \<not> list_all is_digit ds then None
         else if n < - (2 ^ 63) \<or> 2 ^ 63 \<le> n then None
         else Some n)"

definition ParseBool :: "string \<Rightarrow> bool option" where
  "ParseBool s =
     (if s \<in> {''1'', ''t'', ''T'', ''true'', ''TRUE'', ''True''} then Some True
      else if s \<in> {''0'', ''f'', ''F'', ''false'', ''FALSE'', ''False''} then Some False
      else None)"

lemma ParseInt_bounds: "ParseInt s = Some n \<Longrightarrow> - (2 ^ 63) \<le> n \<and> n < 2 ^ 63"
  by (auto simp: ParseInt_def Let_def split: if_splits)

end
