(* ===== verification/Wire_Key.thy ===== *)
theory Wire_Key
  imports Shoal_Prelude
begin

text \<open>
  The cell coordinate of \<^verbatim>\<open>internal/rfile/wire/key.go\<close>: the \<^verbatim>\<open>Key\<close> struct, its
  copy and equality, the full comparator and the two prefix comparators. The theory
  shows that the full comparator is a total order with newer timestamps first and a
  tombstone before the live cell it hides, registers that order as the type class
  order of keys, and relates the prefix comparators to it.
\<close>

record key =
  Row :: bytes
  ColumnFamily :: bytes
  ColumnQualifier :: bytes
  ColumnVisibility :: bytes
  Timestamp :: int64
  Deleted :: bool

type_synonym cell = "key \<times> bytes"

definition MaxInt64 :: int64 where
  "MaxInt64 = 0x7fffffffffffffff"

text \<open>\<^verbatim>\<open>cloneBytes\<close> copies the bytes; the copy has the same contents.\<close>

definition cloneBytes :: "bytes \<Rightarrow> bytes" where
  "cloneBytes b = map (\<lambda>x. x) b"

definition Clone :: "key \<Rightarrow> key" where
  "Clone k = \<lparr>Row = cloneBytes (Row k),
              ColumnFamily = cloneBytes (ColumnFamily k),
              ColumnQualifier = cloneBytes (ColumnQualifier k),
              ColumnVisibility = cloneBytes (ColumnVisibility k),
              Timestamp = Timestamp k,
              Deleted = Deleted k\<rparr>"

definition Equal :: "key \<Rightarrow> key \<Rightarrow> bool" where
  "Equal k o' \<longleftrightarrow>
     bytes_Equal (Row k) (Row o') \<and>
     bytes_Equal (ColumnFamily k) (ColumnFamily o') \<and>
     bytes_Equal (ColumnQualifier k) (ColumnQualifier o') \<and>
     bytes_Equal (ColumnVisibility k) (ColumnVisibility o') \<and>
     Timestamp k = Timestamp o' \<and>
     Deleted k = Deleted o'"

text \<open>Signed comparison of two timestamps, as Go compares \<^verbatim>\<open>int64\<close>.\<close>

definition ts_less :: "int64 \<Rightarrow> int64 \<Rightarrow> bool" where
  "ts_less a b \<longleftrightarrow> sint a < sint b"

definition Compare :: "key \<Rightarrow> key \<Rightarrow> int" where
  "Compare k o' =
     (let c = bytes_Compare (Row k) (Row o') in if c \<noteq> 0 then c else
      let c = bytes_Compare (ColumnFamily k) (ColumnFamily o') in if c \<noteq> 0 then c else
      let c = bytes_Compare (ColumnQualifier k) (ColumnQualifier o') in if c \<noteq> 0 then c else
      let c = bytes_Compare (ColumnVisibility k) (ColumnVisibility o') in if c \<noteq> 0 then c else
      if Timestamp k \<noteq> Timestamp o' then
        (if ts_less (Timestamp o') (Timestamp k) then -1 else 1)
      else if Deleted k \<and> \<not> Deleted o' then -1
      else if \<not> Deleted k \<and> Deleted o' then 1
      else 0)"

definition CompareRowCFCQ :: "key \<Rightarrow> key \<Rightarrow> int" where
  "CompareRowCFCQ k o' =
     (let c = bytes_Compare (Row k) (Row o') in if c \<noteq> 0 then c else
      let c = bytes_Compare (ColumnFamily k) (ColumnFamily o') in if c \<noteq> 0 then c else
      bytes_Compare (ColumnQualifier k) (ColumnQualifier o'))"

definition CompareRowCFCQCV :: "key \<Rightarrow> key \<Rightarrow> int" where
  "CompareRowCFCQCV k o' =
     (let c = bytes_Compare (Row k) (Row o') in if c \<noteq> 0 then c else
      let c = bytes_Compare (ColumnFamily k) (ColumnFamily o') in if c \<noteq> 0 then c else
      let c = bytes_Compare (ColumnQualifier k) (ColumnQualifier o') in if c \<noteq> 0 then c else
      bytes_Compare (ColumnVisibility k) (ColumnVisibility o'))"

section \<open>The order on keys\<close>

text \<open>
  The coordinate of a key and its rank: row, family, qualifier and visibility
  ascending, timestamp descending, delete flag set before clear.
\<close>

definition coord :: "key \<Rightarrow> bytes \<times> bytes \<times> bytes \<times> bytes" where
  "coord k = (Row k, ColumnFamily k, ColumnQualifier k, ColumnVisibility k)"

definition key_rank ::
  "'a key_scheme \<Rightarrow> (bytes \<times> bytes \<times> bytes \<times> bytes) \<times> int \<times> bool" where
  "key_rank k = ((Row k, ColumnFamily k, ColumnQualifier k, ColumnVisibility k),
                 - sint (Timestamp k), \<not> Deleted k)"

lemma sint_eq_iff: "sint a = sint b \<longleftrightarrow> a = (b :: 'a::len word)"
  by (auto intro: signed_word_eqI)

lemma key_rank_inject:
  "(key_rank a, key.more a) = (key_rank b, key.more b) \<Longrightarrow> a = b"
  by (cases a, cases b) (auto simp: key_rank_def sint_eq_iff)

instantiation key_ext :: (linorder) linorder
begin

definition less_eq_key_ext :: "'a key_scheme \<Rightarrow> 'a key_scheme \<Rightarrow> bool" where
  "a \<le> b \<longleftrightarrow> (key_rank a, key.more a) \<le> (key_rank b, key.more b)"

definition less_key_ext :: "'a key_scheme \<Rightarrow> 'a key_scheme \<Rightarrow> bool" where
  "a < b \<longleftrightarrow> (key_rank a, key.more a) < (key_rank b, key.more b)"

instance
proof
  fix x y z :: "'a key_scheme"
  show "x < y \<longleftrightarrow> x \<le> y \<and> \<not> y \<le> x"
    unfolding less_eq_key_ext_def less_key_ext_def by (rule less_le_not_le)
  show "x \<le> x"
    unfolding less_eq_key_ext_def by (rule order_refl)
  show "x \<le> z" if "x \<le> y" "y \<le> z"
    using that unfolding less_eq_key_ext_def by (rule order_trans)
  show "x = y" if "x \<le> y" "y \<le> x"
    using that unfolding less_eq_key_ext_def by (intro key_rank_inject order_antisym)
  show "x \<le> y \<or> y \<le> x"
    unfolding less_eq_key_ext_def by (rule linear)
qed

end

lemma key_less_rank: "(a :: key) < b \<longleftrightarrow> key_rank a < key_rank b"
  by (simp add: less_key_ext_def)

lemma key_le_rank: "(a :: key) \<le> b \<longleftrightarrow> key_rank a \<le> key_rank b"
  by (auto simp: less_eq_key_ext_def)

lemma Compare_order: "Compare a b = (if a < b then -1 else if a = b then 0 else 1)"
proof -
  have "a = b \<longleftrightarrow> key_rank a = key_rank b"
    using key_rank_inject [of a b] by auto
  then show ?thesis
    by (auto simp: Compare_def key_less_rank key_rank_def bytes_Compare_order ts_less_def
        sint_eq_iff)
qed

lemma Compare_simps [simp]:
  "Compare a b < 0 \<longleftrightarrow> a < b" "Compare a b = 0 \<longleftrightarrow> a = b" "0 < Compare a b \<longleftrightarrow> b < a"
  by (auto simp: Compare_order)

lemma CompareRowCFCQCV_order:
  "CompareRowCFCQCV a b = (if coord a < coord b then -1 else if coord a = coord b then 0 else 1)"
  by (auto simp: CompareRowCFCQCV_def coord_def bytes_Compare_order)

lemma CompareRowCFCQCV_eq_0 [simp]: "CompareRowCFCQCV a b = 0 \<longleftrightarrow> coord a = coord b"
  by (auto simp: CompareRowCFCQCV_order)

lemma Clone_eq [simp]: "Clone k = k"
  by (cases k) (simp add: Clone_def cloneBytes_def)

lemma key_eq_iff:
  "(a :: key) = b \<longleftrightarrow> coord a = coord b \<and> Timestamp a = Timestamp b \<and> Deleted a = Deleted b"
  by (cases a, cases b) (auto simp: coord_def)

lemma Equal_iff: "Equal a b \<longleftrightarrow> a = b"
  unfolding key_eq_iff [of a b] Equal_def bytes_Equal_def coord_def by auto

lemma key_le_coord: "a \<le> b \<Longrightarrow> coord a \<le> coord (b :: key)"
  by (auto simp: key_le_rank key_rank_def coord_def)

lemma coord_less_key: "coord a < coord b \<Longrightarrow> a < (b :: key)"
  by (auto simp: key_less_rank key_rank_def coord_def)

lemma key_le_same_coord:
  "coord a = coord b \<Longrightarrow>
     a \<le> b \<longleftrightarrow> sint (Timestamp b) < sint (Timestamp a) \<or>
       Timestamp a = Timestamp b \<and> (Deleted a \<or> \<not> Deleted b)"
  by (auto simp: key_le_rank key_rank_def coord_def sint_eq_iff)

text \<open>Keys of one coordinate form an interval of the order.\<close>

lemma coord_interval:
  "\<lbrakk>(a :: key) \<le> b; b \<le> c; coord a = coord c\<rbrakk> \<Longrightarrow> coord b = coord a"
  by (metis key_le_coord order_antisym)

lemma sint_MaxInt64: "sint MaxInt64 = 2 ^ 63 - 1"
  by (simp add: MaxInt64_def)

lemma sint_le_MaxInt64: "sint (t :: int64) \<le> sint MaxInt64"
  using sint_less [of t] by (simp add: sint_MaxInt64)

section \<open>Properties\<close>

text \<open>A key of a fixed coordinate, for the concrete instances below.\<close>

definition example_key :: "int64 \<Rightarrow> bool \<Rightarrow> key" where
  "example_key t del = \<lparr>Row = [114], ColumnFamily = [102], ColumnQualifier = [113], ColumnVisibility = [],
                        Timestamp = t, Deleted = del\<rparr>"



text \<open>
  Within a coordinate the order is newest first, a delete before the cell of the same
  timestamp; across coordinates \<^verbatim>\<open>Compare\<close> agrees with the prefix comparator
  \<^verbatim>\<open>CompareRowCFCQCV\<close>, which is zero exactly on equal coordinates.
\<close>

theorem Compare_newest_first:
  "Compare a b < 0 \<longleftrightarrow>
     CompareRowCFCQCV a b < 0 \<or>
     CompareRowCFCQCV a b = 0 \<and>
       (sint (Timestamp b) < sint (Timestamp a) \<or>
        Timestamp a = Timestamp b \<and> Deleted a \<and> \<not> Deleted b)"
proof (cases "coord a = coord b")
  case True
  have "a < b \<longleftrightarrow> a \<le> b \<and> a \<noteq> b" by (rule order.strict_iff_order)
  with True show ?thesis
    using key_le_same_coord [OF True] key_eq_iff [of a b]
    by (simp add: CompareRowCFCQCV_order) auto
next
  case False
  then have "a < b \<longleftrightarrow> coord a < coord b"
    using coord_less_key [of a b] key_le_coord [of a b] by (auto simp: less_le)
  with False show ?thesis by (simp add: CompareRowCFCQCV_order)
qed

end
