(* ===== verification/Wire_Varint.thy ===== *)
theory Wire_Varint
  imports Wire_Key
begin

text \<open>
  The Hadoop variable-length integer codec of
  \<^verbatim>\<open>internal/rfile/wire/varint.go\<close>. A value in $[-112, 127]$ is one byte; any other
  value is a header byte that carries its sign and magnitude length, then the big-endian
  magnitude. The theory shows that the writer's length loop ends, that the header bounds
  the encoding to nine bytes, and that the reader inverts the writer on every 64-bit value.
\<close>

section \<open>Decoder\<close>

definition DecodeVIntSize :: "byte \<Rightarrow> int" where
  "DecodeVIntSize first =
     (let v = sint first in
      if v \<ge> -112 then 1
      else if v < -120 then -119 - v
      else -111 - v)"

definition IsNegativeVInt :: "byte \<Rightarrow> bool" where
  "IsNegativeVInt first =
     (let v = sint first in v < -120 \<or> (v \<ge> -112 \<and> v < 0))"

text \<open>The loop \<^verbatim>\<open>for idx := 0; idx < size-1; idx++\<close> over the magnitude bytes.\<close>

fun read_magnitude :: "nat \<Rightarrow> int64 \<Rightarrow> bytes \<Rightarrow> (int64 \<times> bytes) res" where
  "read_magnitude 0 i r = Inr (i, r)"
| "read_magnitude (Suc n) i r =
     rbind (rwrap ''vint magnitude byte'' (ReadByte r))
       (\<lambda>(b, r). read_magnitude n (push_bit 8 i OR ucast b) r)"

text \<open>The result is the value, the number of bytes consumed and the rest of the input.\<close>

definition ReadVLong :: "bytes \<Rightarrow> (int64 \<times> int \<times> bytes) res" where
  "ReadVLong r =
     rbind (ReadByte r) (\<lambda>(first, r).
       let size = DecodeVIntSize first in
       if size = 1 then Inr (scast first, 1, r)
       else if size > 9 then Inl ErrVIntOverflow
       else rbind (read_magnitude (nat (size - 1)) 0 r) (\<lambda>(i, r).
         Inr (if IsNegativeVInt first then NOT i else i, size, r)))"

definition ReadVInt :: "bytes \<Rightarrow> (int32 \<times> int \<times> bytes) res" where
  "ReadVInt r =
     rbind (ReadVLong r) (\<lambda>(v, n, r).
       if sint v > 2147483647 \<or> sint v < -2147483648
       then Inl (Errorf ''rfile: vint does not fit in int32'')
       else Inr (ucast v, n, r))"

section \<open>Encoder\<close>

text \<open>
  The loop \<^verbatim>\<open>for tmp != 0 { tmp >>= 8; bytesNeeded++ }\<close>. The shift is arithmetic, so
  the loop would not end on a negative number; \<open>None\<close> is not returning.
\<close>

partial_function (option) bytesNeeded_loop :: "int64 \<Rightarrow> nat \<Rightarrow> nat option" where
  "bytesNeeded_loop tmp n =
     (if tmp \<noteq> 0 then bytesNeeded_loop (signed_drop_bit 8 tmp) (n + 1) else Some n)"

text \<open>
  The encoder applies the loop to a magnitude, which is never negative; there the
  arithmetic and the logical shift agree and the loop is this total function
  (\<open>bytesNeeded_loop_eq\<close> below).
\<close>

lemma unat_drop_bit_8: "unat (drop_bit 8 (w :: 'a::len word)) = unat w div 256"
  unfolding unat_drop_bit_eq by (simp add: drop_bit_eq_div)

function bytesNeeded :: "int64 \<Rightarrow> nat" where
  "bytesNeeded tmp = (if tmp = 0 then 0 else Suc (bytesNeeded (drop_bit 8 tmp)))"
  by auto
termination
proof (relation "measure unat")
  show "(drop_bit 8 tmp, tmp) \<in> measure unat" if "tmp \<noteq> 0" for tmp :: int64
    using that by (simp add: unat_drop_bit_8 unat_gt_0)
qed simp

declare bytesNeeded.simps [simp del]

definition WriteVLong :: "int64 \<Rightarrow> bytes" where
  "WriteVLong v =
     (if sint v \<ge> -112 \<and> sint v \<le> 127 then [ucast v]
      else
        let first = (-112 :: int);
            mag = v;
            (mag, first) = (if sint v < 0 then (NOT v, -120) else (mag, first));
            n = bytesNeeded mag;
            first = first - int n
        in word_of_int first #
           map (\<lambda>i. ucast (signed_drop_bit (8 * i) mag AND 0xff)) (rev [0..<n]))"

definition WriteVInt :: "int32 \<Rightarrow> bytes" where
  "WriteVInt v = WriteVLong (scast v)"

section \<open>The length loop\<close>

lemma signed_drop_bit_nonneg:
  assumes "0 \<le> sint (w :: int64)"
  shows "signed_drop_bit n w = drop_bit n w"
proof (rule bit_word_eqI)
  fix m
  have "\<not> bit w 63"
    using assms bit_last_iff [of w] by simp
  then show "bit (signed_drop_bit n w) m = bit (drop_bit n w) m" if "m < LENGTH(64)"
    using that by (auto simp: bit_signed_drop_bit_iff bit_drop_bit_eq not_le
        dest: bit_imp_le_length)
qed

lemma sint_drop_bit_nonneg: "0 \<le> sint (w :: int64) \<Longrightarrow> 0 \<le> sint (drop_bit n w)"
  by (metis signed_drop_bit_nonneg sint_signed_drop_bit_eq drop_bit_nonnegative_int_iff)

lemma bytesNeeded_loop_eq:
  "0 \<le> sint w \<Longrightarrow> bytesNeeded_loop w n = Some (n + bytesNeeded w)"
proof (induction w arbitrary: n rule: bytesNeeded.induct)
  case (1 w)
  show ?case
  proof (cases "w = 0")
    case True
    then show ?thesis
      by (simp add: bytesNeeded_loop.simps bytesNeeded.simps)
  next
    case False
    with "1" have "bytesNeeded_loop (drop_bit 8 w) (n + 1) = Some (n + 1 + bytesNeeded (drop_bit 8 w))"
      by (simp add: sint_drop_bit_nonneg)
    with False "1.prems" show ?thesis
      by (simp add: bytesNeeded_loop.simps [of w] bytesNeeded.simps [of w] signed_drop_bit_nonneg)
  qed
qed

lemma unat_less_bytesNeeded: "unat w < 256 ^ bytesNeeded w"
proof (induction w rule: bytesNeeded.induct)
  case (1 w)
  then show ?case
    by (cases "w = 0")
      (auto simp: bytesNeeded.simps [of w] unat_drop_bit_8 div_less_iff_less_mult mult.commute)
qed

lemma bytesNeeded_le: "unat w < 256 ^ n \<Longrightarrow> bytesNeeded w \<le> n"
proof (induction w arbitrary: n rule: bytesNeeded.induct)
  case (1 w)
  show ?case
  proof (cases "w = 0")
    case False
    with "1.prems" obtain m where n: "n = Suc m"
      by (cases n) (auto simp: unat_eq_0)
    with "1.prems" have "unat (drop_bit 8 w) < 256 ^ m"
      by (simp add: unat_drop_bit_8 div_less_iff_less_mult mult.commute)
    with "1.IH" False n show ?thesis
      by (simp add: bytesNeeded.simps [of w])
  qed (simp add: bytesNeeded.simps)
qed

lemma bytesNeeded_pos: "w \<noteq> 0 \<Longrightarrow> 0 < bytesNeeded w"
  by (simp add: bytesNeeded.simps)

lemma bytesNeeded_le_8: "bytesNeeded w \<le> 8"
proof (rule bytesNeeded_le)
  have "unat w < 2 ^ LENGTH(64)" by (rule unsigned_less)
  then show "unat w < 256 ^ 8" by simp
qed

section \<open>Reading back what was written\<close>

lemma ucast_and_0xff: "ucast ((x :: int64) AND 0xff) = (ucast x :: byte)"
proof -
  have m: "(0xff :: int64) = mask 8"
    by (simp add: mask_eq_exp_minus_1)
  show ?thesis
    unfolding m by (auto intro: bit_word_eqI simp: bit_ucast_iff bit_and_iff bit_mask_iff)
qed

lemma magnitude_byte:
  assumes "0 \<le> sint (w :: int64)"
  shows "ucast (signed_drop_bit (8 * i) w AND 0xff) = (of_nat (unat w div 256 ^ i) :: byte)"
proof -
  have "unat (drop_bit (8 * i) w) = unat w div 256 ^ i"
    unfolding unat_drop_bit_eq by (simp add: drop_bit_eq_div power_mult)
  then have "ucast (drop_bit (8 * i) w) = (of_nat (unat w div 256 ^ i) :: byte)"
    by (metis of_nat_unat)
  then show ?thesis
    unfolding ucast_and_0xff signed_drop_bit_nonneg [OF assms] .
qed

lemma be_bytes_eq_map: "be_bytes n m = map (\<lambda>i. of_nat (m div 256 ^ i)) (rev [0..<n])"
  by (induction n) auto

lemma read_magnitude_append:
  "length bs = n \<Longrightarrow>
     read_magnitude n i (bs @ r) = Inr (foldl (\<lambda>i b. push_bit 8 i OR ucast b) i bs, r)"
proof (induction n arbitrary: bs i)
  case (Suc n)
  then show ?case by (cases bs) auto
qed simp

lemma read_magnitude_be_bytes:
  "unat w < 256 ^ n \<Longrightarrow> read_magnitude n 0 (be_bytes n (unat w) @ r) = Inr (w, r)"
  using shift_accumulate [of 0 "be_bytes n (unat w)", where 'a = 64]
  by (simp add: read_magnitude_append be_val_be_bytes)

lemma sint_magnitude: "0 \<le> sint (if sint v < 0 then NOT v else (v :: int64))"
  using bit_last_iff [of v] bit_last_iff [of "NOT v"] by (auto simp: bit_not_iff)

lemma WriteVLong_multi:
  assumes "\<not> (sint v \<ge> -112 \<and> sint v \<le> 127)"
    and mag: "mag = (if sint v < 0 then NOT v else v)"
  shows "WriteVLong v =
    word_of_int ((if sint v < 0 then -120 else -112) - int (bytesNeeded mag)) #
    be_bytes (bytesNeeded mag) (unat mag)"
proof -
  have "0 \<le> sint mag"
    unfolding mag by (rule sint_magnitude)
  then show ?thesis
    using assms by (auto simp: WriteVLong_def Let_def be_bytes_eq_map magnitude_byte)
qed

lemma sint_byte_of_int: "-128 \<le> i \<Longrightarrow> i < 128 \<Longrightarrow> sint (word_of_int i :: byte) = i"
  by (simp add: sint_sbintrunc' signed_take_bit_int_eq_self)

lemma ReadVLong_small:
  assumes "-112 \<le> sint v" "sint v \<le> 127"
  shows "ReadVLong (ucast v # r) = Inr (v, 1, r)"
proof -
  have u: "ucast v = (scast v :: byte)"
    by (auto intro: bit_word_eqI simp: bit_ucast_iff bit_signed_iff)
  have "sint (word_of_int (sint v) :: byte) = sint v"
    using assms by (intro sint_byte_of_int) auto
  then have s: "sint (scast v :: byte) = sint v"
    by simp
  then have "scast (scast v :: byte) = v"
    by (metis of_int_sint scast_id)
  with s assms show ?thesis
    by (simp add: ReadVLong_def DecodeVIntSize_def u)
qed

lemma ReadVLong_WriteVLong [codec, simp]:
  "ReadVLong (WriteVLong v @ r) = Inr (v, int (length (WriteVLong v)), r)"
proof (cases "sint v \<ge> -112 \<and> sint v \<le> 127")
  case True
  then show ?thesis
    by (simp add: WriteVLong_def ReadVLong_small)
next
  case False
  define mag where "mag = (if sint v < 0 then NOT v else v)"
  define n where "n = bytesNeeded mag"
  define f where "f = (if sint v < 0 then -120 else -112) - int n"
  have "NOT v \<noteq> 0" if "sint v < -112"
  proof
    assume "NOT v = 0"
    then have "v = -1"
      by (metis bit.compl_zero bit.double_compl)
    with that show False by simp
  qed
  then have "mag \<noteq> 0"
    using False by (auto simp: mag_def)
  then have n: "0 < n" "n \<le> 8"
    unfolding n_def by (auto intro: bytesNeeded_pos bytesNeeded_le_8)
  have f: "sint (word_of_int f :: byte) = f"
    using n by (intro sint_byte_of_int) (auto simp: f_def)
  have size: "DecodeVIntSize (word_of_int f) = int n + 1"
    using n by (auto simp: DecodeVIntSize_def f Let_def) (auto simp: f_def split: if_splits)
  have neg: "IsNegativeVInt (word_of_int f) \<longleftrightarrow> sint v < 0"
    using n by (auto simp: IsNegativeVInt_def f Let_def) (auto simp: f_def split: if_splits)
  have rd: "read_magnitude n 0 (be_bytes n (unat mag) @ r) = Inr (mag, r)"
    unfolding n_def by (intro read_magnitude_be_bytes unat_less_bytesNeeded)
  have wr: "WriteVLong v = word_of_int f # be_bytes n (unat mag)"
    unfolding f_def n_def by (rule WriteVLong_multi [OF False mag_def])
  have "(if sint v < 0 then NOT mag else mag) = v"
    by (simp add: mag_def)
  then show ?thesis
    unfolding wr using n by (simp add: ReadVLong_def size neg rd Let_def)
qed

lemma length_WriteVLong: "1 \<le> length (WriteVLong v) \<and> length (WriteVLong v) \<le> 9"
  by (simp add: WriteVLong_def Let_def bytesNeeded_le_8)

text \<open>The first byte of an encoding tells its length.\<close>

lemma ReadVLong_size: "ReadVLong (b # r) = Inr (v, n, r') \<Longrightarrow> n = DecodeVIntSize b"
  by (auto simp: ReadVLong_def res_simps Let_def split: if_splits)

lemma DecodeVIntSize_hd: "DecodeVIntSize (hd (WriteVLong v)) = int (length (WriteVLong v))"
proof -
  obtain b bs where b: "WriteVLong v = b # bs"
    using length_WriteVLong [of v] by (cases "WriteVLong v") auto
  from ReadVLong_WriteVLong [of v "[]"] ReadVLong_size [of b bs v "int (length (WriteVLong v))" "[]"] b
  show ?thesis by simp
qed

lemma sint_scast_32_64: "sint (scast (v :: int32) :: int64) = sint v"
  by (simp add: sint_up_scast is_up)

lemma ReadVInt_WriteVInt [codec, simp]:
  "ReadVInt (WriteVInt v @ r) = Inr (v, int (length (WriteVInt v)), r)"
proof -
  have "-2147483648 \<le> sint v" "sint v \<le> 2147483647"
    using sint_greater_eq [of v] sint_less [of v] by simp_all
  moreover have "ucast (scast v :: int64) = v"
    by (auto intro: bit_word_eqI simp: bit_ucast_iff bit_signed_iff)
  ultimately show ?thesis
    by (simp add: ReadVInt_def WriteVInt_def sint_scast_32_64)
qed

section \<open>Properties\<close>

text \<open>
  C30: \<^verbatim>\<open>ReadVLong\<close> inverts \<^verbatim>\<open>WriteVLong\<close> on every 64-bit value, reports the bytes it
  consumed and leaves what follows untouched; the encoding has one to nine bytes, and its
  first byte alone gives that length. The 32-bit pair has the same property.
\<close>

theorem varint_roundtrip:
  "ReadVLong (WriteVLong v @ r) = Inr (v, int (length (WriteVLong v)), r) \<and>
   ReadVInt (WriteVInt w @ r) = Inr (w, int (length (WriteVInt w)), r) \<and>
   1 \<le> length (WriteVLong v) \<and> length (WriteVLong v) \<le> 9 \<and>
   DecodeVIntSize (hd (WriteVLong v)) = int (length (WriteVLong v))"
  using length_WriteVLong [of v] DecodeVIntSize_hd [of v] by simp

text \<open>
  The encoder's length loop, written with an arithmetic shift that never reaches zero
  from a negative number, returns on the magnitude the encoder gives it, after at most
  eight turns.
\<close>

theorem bytesNeeded_loop_returns:
  fixes v :: int64
  defines "mag \<equiv> (if sint v < 0 then NOT v else v)"
  shows "bytesNeeded_loop mag 0 = Some (bytesNeeded mag) \<and> bytesNeeded mag \<le> 8"
  using bytesNeeded_loop_eq [of mag 0] bytesNeeded_le_8 [of mag] sint_magnitude [of v]
  by (simp add: mag_def)

end
