(* ===== verification/Rel_Key.thy ===== *)
theory Rel_Key
  imports Wire_Data
begin

text \<open>
  The prefix-compressed key encoding of a data block, \<^verbatim>\<open>internal/rfile/relkey\<close>: the
  byte cursor (\<^verbatim>\<open>cursor.go\<close>), the block reader with its filter push-down
  (\<^verbatim>\<open>relkey.go\<close>) and the encoder (\<^verbatim>\<open>encode.go\<close>). The theory shows that the
  cursor's varint decoder is the reference decoder of \<open>Wire_Varint\<close>, that building a
  field in the reader's reused scratch buffer gives the value of a fresh buffer, and that
  the reader returns exactly the encoded cells its filter accepts.
\<close>

section \<open>The cursor\<close>

record rcursor =
  buf :: bytes
  pos :: nat

text \<open>
  Each method returns the value and the advanced cursor, or \<open>None\<close> where the code
  returns \<^verbatim>\<open>ok=false\<close>, after which the cursor is not used again.
\<close>

definition byteAt :: "rcursor \<Rightarrow> (byte \<times> rcursor) option" where
  "byteAt c = (if pos c \<ge> length (buf c) then None
               else Some (buf c ! pos c, c\<lparr>pos := pos c + 1\<rparr>))"

definition sliceN :: "int \<Rightarrow> rcursor \<Rightarrow> (bytes \<times> rcursor) option" where
  "sliceN n c =
     (if n < 0 then None
      else let end' = pos c + nat n in
        if end' > length (buf c) then None
        else Some (take (nat n) (drop (pos c) (buf c)), c\<lparr>pos := end'\<rparr>))"

definition skip :: "int \<Rightarrow> rcursor \<Rightarrow> rcursor option" where
  "skip n c =
     (if n < 0 then None
      else let end' = pos c + nat n in
        if end' > length (buf c) then None else Some (c\<lparr>pos := end'\<rparr>))"

definition int32be :: "rcursor \<Rightarrow> (int32 \<times> rcursor) option" where
  "int32be c =
     (if pos c + 4 > length (buf c) then None
      else Some (of_nat (be_val (take 4 (drop (pos c) (buf c)))), c\<lparr>pos := pos c + 4\<rparr>))"

definition vlong :: "rcursor \<Rightarrow> (int64 \<times> rcursor) option" where
  "vlong c =
     (if pos c \<ge> length (buf c) then None
      else
        let first = sint (buf c ! pos c);
            c = c\<lparr>pos := pos c + 1\<rparr>
        in if first \<ge> -112 then Some (word_of_int first, c)
           else
             let size = (if first < -120 then -119 - first else -111 - first);
                 mag = nat (size - 1)
             in if pos c + mag > length (buf c) then None
                else
                  let i = foldl (\<lambda>i k. push_bit 8 i OR ucast (buf c ! (pos c + k))) 0 [0..<mag];
                      c = c\<lparr>pos := pos c + mag\<rparr>
                  in Some (if first < -120 \<or> (first \<ge> -112 \<and> first < 0) then NOT i else i, c))"

definition vint :: "rcursor \<Rightarrow> (int32 \<times> rcursor) option" where
  "vint c =
     (case vlong c of
        None \<Rightarrow> None
      | Some (v, c) \<Rightarrow>
          if sint v > 2 ^ 31 - 1 \<or> sint v < - (2 ^ 31) then None else Some (ucast v, c))"

section \<open>Flag bits\<close>

definition RowSame :: byte where "RowSame = flag 0"
definition CFSame :: byte where "CFSame = flag 1"
definition CQSame :: byte where "CQSame = flag 2"
definition CVSame :: byte where "CVSame = flag 3"
definition TSSame :: byte where "TSSame = flag 4"
definition DeletedBit :: byte where "DeletedBit = flag 5"
definition PrefixCompressionEnabled :: byte where "PrefixCompressionEnabled = flag 7"

definition RowCommonPrefix :: byte where "RowCommonPrefix = flag 0"
definition CFCommonPrefix :: byte where "CFCommonPrefix = flag 1"
definition CQCommonPrefix :: byte where "CQCommonPrefix = flag 2"
definition CVCommonPrefix :: byte where "CVCommonPrefix = flag 3"
definition TSDiff :: byte where "TSDiff = flag 4"

section \<open>The reader\<close>

record reader =
  cur :: rcursor
  entries :: int
  read_count :: int
  prev :: key
  hasPrev :: bool
  current :: key
  accept :: "(key \<Rightarrow> bool) option"
  err :: "go_err option"

definition zero_key :: key where
  "zero_key = \<lparr>Row = [], ColumnFamily = [], ColumnQualifier = [], ColumnVisibility = [],
               Timestamp = 0, Deleted = False\<rparr>"

definition NewReader :: "bytes \<Rightarrow> int \<Rightarrow> reader" where
  "NewReader b n = \<lparr>cur = \<lparr>buf = b, pos = 0\<rparr>, entries = n, read_count = 0, prev = zero_key,
     hasPrev = False, current = zero_key, accept = None, err = None\<rparr>"

definition SetFilter :: "(key \<Rightarrow> bool) option \<Rightarrow> reader \<Rightarrow> reader" where
  "SetFilter f r = r\<lparr>accept := f\<rparr>"

definition Remaining :: "reader \<Rightarrow> int" where
  "Remaining r = entries r - read_count r"

definition Err :: "reader \<Rightarrow> go_err option" where
  "Err r = (case err r of None \<Rightarrow> None
            | Some e \<Rightarrow> if errors_Is e EOF then None else Some e)"

text \<open>\<^verbatim>\<open>field\<close>: unchanged from the previous key, shared prefix plus suffix, or new.\<close>

definition field ::
  "byte \<Rightarrow> byte \<Rightarrow> byte \<Rightarrow> byte \<Rightarrow> bytes \<Rightarrow> rcursor \<Rightarrow> (bytes \<times> rcursor) res" where
  "field fieldsSame fieldsPrefixed sameBit prefixBit prev' c =
     (if fieldsSame AND sameBit \<noteq> 0 then Inr (prev', c)
      else if fieldsPrefixed AND prefixBit \<noteq> 0 then
        (case vint c of
           None \<Rightarrow> Inl ErrUnexpectedEOF
         | Some (prefixLen, c) \<Rightarrow>
             if sint prefixLen < 0 \<or> sint prefixLen > int (length prev')
             then Inl (Errorf ''prefix len out of range'')
             else (case vint c of
                None \<Rightarrow> Inl ErrUnexpectedEOF
              | Some (suffixLen, c) \<Rightarrow>
                  if sint suffixLen < 0 then Inl (Errorf ''negative suffix len'')
                  else (case sliceN (sint suffixLen) c of
                     None \<Rightarrow> Inl ErrUnexpectedEOF
                   | Some (suffix, c) \<Rightarrow> Inr (take (nat (sint prefixLen)) prev' @ suffix, c))))
      else
        (case vint c of
           None \<Rightarrow> Inl ErrUnexpectedEOF
         | Some (n, c) \<Rightarrow>
             if sint n < 0 then Inl (Errorf ''negative field length'')
             else (case sliceN (sint n) c of
                None \<Rightarrow> Inl ErrUnexpectedEOF
              | Some (out, c) \<Rightarrow> Inr (out, c))))"

definition decode_timestamp ::
  "byte \<Rightarrow> byte \<Rightarrow> int64 \<Rightarrow> rcursor \<Rightarrow> (int64 \<times> rcursor) res" where
  "decode_timestamp fieldsSame fieldsPrefixed prevTs c =
     (if fieldsSame AND TSSame \<noteq> 0 then Inr (prevTs, c)
      else if fieldsPrefixed AND TSDiff \<noteq> 0 then
        (case vlong c of None \<Rightarrow> Inl ErrUnexpectedEOF
         | Some (delta, c) \<Rightarrow> Inr (delta + prevTs, c))
      else
        (case vlong c of None \<Rightarrow> Inl ErrUnexpectedEOF
         | Some (v, c) \<Rightarrow> Inr (v, c)))"

definition decodeKey :: "bool \<Rightarrow> key \<Rightarrow> rcursor \<Rightarrow> (key \<times> rcursor) res" where
  "decodeKey hasPrev' prev' c =
     (case byteAt c of
        None \<Rightarrow> Inl ErrUnexpectedEOF
      | Some (fieldsSame, c) \<Rightarrow>
        rbind (if fieldsSame AND PrefixCompressionEnabled \<noteq> 0
               then (case byteAt c of None \<Rightarrow> Inl ErrUnexpectedEOF | Some (b, c) \<Rightarrow> Inr (b, c))
               else Inr (0, c)) (\<lambda>(fieldsPrefixed, c).
        if \<not> hasPrev' \<and>
           (fieldsSame AND (RowSame OR CFSame OR CQSame OR CVSame OR TSSame) \<noteq> 0 \<or>
            fieldsPrefixed AND
              (RowCommonPrefix OR CFCommonPrefix OR CQCommonPrefix OR CVCommonPrefix OR TSDiff) \<noteq> 0)
        then Inl (Errorf ''relkey: first key in block has same/prefix bits set'')
        else
        rbind (rwrap ''row'' (field fieldsSame fieldsPrefixed RowSame RowCommonPrefix
                 (Row prev') c)) (\<lambda>(row, c).
        rbind (rwrap ''cf'' (field fieldsSame fieldsPrefixed CFSame CFCommonPrefix
                 (ColumnFamily prev') c)) (\<lambda>(cf, c).
        rbind (rwrap ''cq'' (field fieldsSame fieldsPrefixed CQSame CQCommonPrefix
                 (ColumnQualifier prev') c)) (\<lambda>(cq, c).
        rbind (rwrap ''cv'' (field fieldsSame fieldsPrefixed CVSame CVCommonPrefix
                 (ColumnVisibility prev') c)) (\<lambda>(cv, c).
        rbind (decode_timestamp fieldsSame fieldsPrefixed (Timestamp prev') c) (\<lambda>(ts, c).
        Inr (\<lparr>Row = row, ColumnFamily = cf, ColumnQualifier = cq, ColumnVisibility = cv,
              Timestamp = ts, Deleted = fieldsSame AND DeletedBit \<noteq> 0\<rparr>, c))))))))"

definition fail :: "reader \<Rightarrow> go_err \<Rightarrow> (key \<times> bytes) res \<times> reader" where
  "fail r e = (Inl e, r\<lparr>err := Some e\<rparr>)"

text \<open>
  The loop of \<^verbatim>\<open>NextView\<close>: it runs again after a rejected cell, and each turn counts
  one more cell of the block as read.
\<close>

function NextView_loop :: "reader \<Rightarrow> (key \<times> bytes) res \<times> reader" where
  "NextView_loop r =
     (if read_count r \<ge> entries r then fail r EOF
      else case decodeKey (hasPrev r) (prev r) (cur r) of
        Inl e \<Rightarrow> fail r e
      | Inr (k, c) \<Rightarrow>
          (case int32be c of
             None \<Rightarrow> fail (r\<lparr>current := k, cur := c\<rparr>) ErrUnexpectedEOF
           | Some (valLen, c) \<Rightarrow>
               if sint valLen < 0
               then fail (r\<lparr>current := k, cur := c\<rparr>) (Errorf ''relkey: negative value length'')
               else
                 let r = r\<lparr>current := k, cur := c, prev := k, hasPrev := True,
                           read_count := read_count r + 1\<rparr>
                 in if (case accept r of None \<Rightarrow> False | Some f \<Rightarrow> \<not> f k)
                    then (case skip (sint valLen) c of
                            None \<Rightarrow> fail r ErrUnexpectedEOF
                          | Some c \<Rightarrow> NextView_loop (r\<lparr>cur := c\<rparr>))
                    else (case sliceN (sint valLen) c of
                            None \<Rightarrow> fail r ErrUnexpectedEOF
                          | Some (val, c) \<Rightarrow> (Inr (k, val), r\<lparr>cur := c\<rparr>))))"
  by auto
termination
  by (relation "measure (\<lambda>r. nat (entries r - read_count r))") auto

declare NextView_loop.simps [simp del]

definition NextView :: "reader \<Rightarrow> (key \<times> bytes) res \<times> reader" where
  "NextView r = (case err r of Some e \<Rightarrow> (Inl e, r) | None \<Rightarrow> NextView_loop r)"

definition NextCell :: "reader \<Rightarrow> (key \<times> bytes) res \<times> reader" where
  "NextCell r =
     (case NextView r of
        (Inl e, r) \<Rightarrow> (Inl e, r)
      | (Inr (k, v), r) \<Rightarrow> (Inr (Clone k, cloneBytes v), r))"

section \<open>The encoder\<close>

function common_loop :: "bytes \<Rightarrow> bytes \<Rightarrow> nat \<Rightarrow> nat \<Rightarrow> nat" where
  "common_loop prev' cur' maxChecks common =
     (if common < maxChecks \<and> prev' ! common = cur' ! common
      then common_loop prev' cur' maxChecks (common + 1) else common)"
  by auto
termination
  by (relation "measure (\<lambda>(_, _, maxChecks, common). maxChecks - common)") auto

declare common_loop.simps [simp del]

text \<open>The result is the common length (-1 if equal) and the two updated flag bytes.\<close>

definition computeCommon ::
  "bytes \<Rightarrow> bytes \<Rightarrow> byte \<Rightarrow> byte \<Rightarrow> byte \<times> byte \<Rightarrow> int \<times> byte \<times> byte" where
  "computeCommon prev' cur' sameBit prefixBit flags =
     (let (fieldsSame, fieldsPrefixed) = flags in
      if bytes_Equal prev' cur' then (-1, fieldsSame OR sameBit, fieldsPrefixed)
      else
        let maxChecks = (if length cur' < length prev' then length cur' else length prev');
            common = common_loop prev' cur' maxChecks 0
        in if common > 1 then (int common, fieldsSame, fieldsPrefixed OR prefixBit)
           else (int common, fieldsSame, fieldsPrefixed))"

definition writeField ::
  "bytes \<Rightarrow> int \<Rightarrow> byte \<Rightarrow> byte \<Rightarrow> byte \<Rightarrow> byte \<Rightarrow> bytes" where
  "writeField f commonLen fieldsSame fieldsPrefixed sameBit prefixBit =
     (if fieldsSame AND sameBit = sameBit then []
      else if fieldsPrefixed AND prefixBit = prefixBit then
        WriteVInt (word_of_int commonLen) @ WriteVInt (word_of_int (int (length f) - commonLen)) @
        drop (nat commonLen) f
      else WriteVInt (of_nat (length f)) @ f)"

text \<open>The flag bytes, prefix lengths and timestamp difference \<^verbatim>\<open>EncodeKey\<close> computes first.\<close>

definition encode_flags ::
  "key option \<Rightarrow> key \<Rightarrow> byte \<times> byte \<times> int \<times> int \<times> int \<times> int \<times> int64" where
  "encode_flags prev' k =
     (let (fs, fp, rowP, cfP, cqP, cvP, tsDiff) =
        (case prev' of
           None \<Rightarrow> (0, 0, 0, 0, 0, 0, 0)
         | Some p \<Rightarrow>
             let (rowP, fl) = computeCommon (Row p) (Row k) RowSame RowCommonPrefix (0, 0);
                 (cfP, fl) = computeCommon (ColumnFamily p) (ColumnFamily k) CFSame CFCommonPrefix fl;
                 (cqP, fl) = computeCommon (ColumnQualifier p) (ColumnQualifier k)
                               CQSame CQCommonPrefix fl;
                 (cvP, fl) = computeCommon (ColumnVisibility p) (ColumnVisibility k)
                               CVSame CVCommonPrefix fl;
                 (fs, fp) = fl;
                 tsDiff = Timestamp k - Timestamp p;
                 (fs, fp) = (if tsDiff = 0 then (fs OR TSSame, fp) else (fs, fp OR TSDiff));
                 fs = (if fp \<noteq> 0 then fs OR PrefixCompressionEnabled else fs)
             in (fs, fp, rowP, cfP, cqP, cvP, tsDiff))
      in (if Deleted k then fs OR DeletedBit else fs, fp, rowP, cfP, cqP, cvP, tsDiff))"

definition EncodeKey :: "key option \<Rightarrow> key \<Rightarrow> bytes \<Rightarrow> bytes" where
  "EncodeKey prev' k value =
     (let (fs, fp, rowP, cfP, cqP, cvP, tsDiff) = encode_flags prev' k
      in [fs] @
         (if fs AND PrefixCompressionEnabled = PrefixCompressionEnabled then [fp] else []) @
         writeField (Row k) rowP fs fp RowSame RowCommonPrefix @
         writeField (ColumnFamily k) cfP fs fp CFSame CFCommonPrefix @
         writeField (ColumnQualifier k) cqP fs fp CQSame CQCommonPrefix @
         writeField (ColumnVisibility k) cvP fs fp CVSame CVCommonPrefix @
         (if fs AND TSSame = TSSame then []
          else if fp AND TSDiff = TSDiff then WriteVLong tsDiff
          else WriteVLong (Timestamp k)) @
         be_bytes 4 (unat (of_nat (length value) :: int32)) @ value)"

section \<open>The cursor against the reference decoder\<close>

definition rest :: "rcursor \<Rightarrow> bytes" where
  "rest c = drop (pos c) (buf c)"

definition advanced :: "rcursor \<Rightarrow> nat \<Rightarrow> rcursor" where
  "advanced c n = c\<lparr>pos := pos c + n\<rparr>"

lemma rest_advanced: "rest (advanced c n) = drop n (rest c)"
  by (simp add: rest_def advanced_def add.commute)

lemma rest_advanced_append [simp]:
  "rest c = xs @ r \<Longrightarrow> length xs = n \<Longrightarrow> rest (advanced c n) = r"
  by (simp add: rest_advanced)

lemma rest_advanced_Cons [simp]: "rest c = x # r \<Longrightarrow> rest (advanced c (Suc 0)) = r"
  by (simp add: rest_advanced)

lemma read_magnitude_short:
  "length r < n \<Longrightarrow> \<exists>e. read_magnitude n i r = Inl e"
proof (induction n arbitrary: i r)
  case (Suc n)
  then show ?case
    by (cases r) (auto simp: ReadByte_def)
qed simp

lemma foldl_nth_take:
  "m \<le> length xs \<Longrightarrow> foldl (\<lambda>i k. f i (xs ! k)) a [0..<m] = foldl f a (take m xs)"
  by (induction m) (auto simp: take_Suc_conv_app_nth)

lemma sint_byte_bounds: "-128 \<le> sint (b :: byte)" "sint (b :: byte) \<le> 127"
  using sint_greater_eq [of b] sint_less [of b] by simp_all

lemma DecodeVIntSize_bounds: "1 \<le> DecodeVIntSize b \<and> DecodeVIntSize b \<le> 9"
  using sint_byte_bounds [of b] by (auto simp: DecodeVIntSize_def Let_def)

lemma rest_Cons_iff:
  "rest c = b # bs \<longleftrightarrow>
     pos c < length (buf c) \<and> buf c ! pos c = b \<and> drop (Suc (pos c)) (buf c) = bs"
  unfolding rest_def
  by (metis Cons_nth_drop_Suc drop_all list.distinct(1) list.inject not_le)

lemma vlong_eq_ReadVLong:
  "vlong c = (case ReadVLong (rest c) of
      Inl e \<Rightarrow> None | Inr (v, n, r) \<Rightarrow> Some (v, advanced c (nat n)))"
proof (cases "rest c")
  case Nil
  then show ?thesis
    by (auto simp: vlong_def ReadVLong_def ReadByte_def rest_def)
next
  case (Cons b bs)
  note p = Cons [unfolded rest_Cons_iff]
  then have len: "length (buf c) = pos c + 1 + length bs"
    by auto
  show ?thesis
  proof (cases "sint b \<ge> -112")
    case True
    with Cons p show ?thesis
      by (simp add: vlong_def ReadVLong_def DecodeVIntSize_def advanced_def)
  next
    case False
    define m where "m = nat (DecodeVIntSize b - 1)"
    have size: "DecodeVIntSize b \<noteq> 1" "\<not> DecodeVIntSize b > 9" "DecodeVIntSize b = int m + 1"
        "(if sint b < -120 then -119 - sint b else -111 - sint b) = int m + 1"
      using False DecodeVIntSize_bounds [of b] sint_byte_bounds [of b]
      by (auto simp: DecodeVIntSize_def Let_def m_def)
    show ?thesis
    proof (cases "m \<le> length bs")
      case True
      have "foldl (\<lambda>i k. push_bit 8 i OR ucast (buf c ! (Suc (pos c) + k))) 0 [0..<m]
          = foldl (\<lambda>i b. push_bit 8 i OR ucast b) (0 :: int64) (take m bs)"
        using foldl_nth_take [of m bs "\<lambda>i b. push_bit 8 i OR ucast b"] True p by auto
      moreover have "read_magnitude m 0 bs
          = Inr (foldl (\<lambda>i b. push_bit 8 i OR ucast b) 0 (take m bs), drop m bs)"
        using True read_magnitude_append [of "take m bs" m 0 "drop m bs"] by simp
      ultimately show ?thesis
        using False True Cons p size len
        by (simp add: vlong_def ReadVLong_def IsNegativeVInt_def advanced_def Let_def)
    next
      case short: False
      then obtain e where "read_magnitude m 0 bs = Inl e"
        using read_magnitude_short [of bs m 0] by auto
      then show ?thesis
        using False short Cons p size len
        by (simp add: vlong_def ReadVLong_def Let_def)
    qed
  qed
qed

lemma vint_eq_ReadVInt:
  "vint c = (case ReadVInt (rest c) of
      Inl e \<Rightarrow> None | Inr (v, n, r) \<Rightarrow> Some (v, advanced c (nat n)))"
  by (auto simp: vint_def ReadVInt_def vlong_eq_ReadVLong split: sum.splits)

text \<open>A cursor inside its buffer with given bytes left.\<close>

definition at :: "rcursor \<Rightarrow> bytes \<Rightarrow> bool" where
  "at c xs \<longleftrightarrow> pos c \<le> length (buf c) \<and> rest c = xs"

lemma at_advanced: "at c (xs @ r) \<Longrightarrow> length xs = n \<Longrightarrow> at (advanced c n) r"
  by (auto simp: at_def rest_advanced)
    (auto simp: rest_def advanced_def dest!: arg_cong [where f = length])

lemma at_advanced_Cons: "at c (x # r) \<Longrightarrow> at (advanced c 1) r"
  using at_advanced [of c "[x]" r 1] by simp

lemma byteAt_at [codec]: "at c (b # r) \<Longrightarrow> byteAt c = Some (b, advanced c 1)"
  by (auto simp: at_def rest_Cons_iff byteAt_def advanced_def)

lemma vlong_at [codec]:
  "at c (WriteVLong v @ r) \<Longrightarrow> vlong c = Some (v, advanced c (length (WriteVLong v)))"
  by (simp add: at_def vlong_eq_ReadVLong)

lemma vint_at [codec]:
  "at c (WriteVInt v @ r) \<Longrightarrow> vint c = Some (v, advanced c (length (WriteVInt v)))"
  by (simp add: at_def vint_eq_ReadVInt)

lemma at_length: "at c (xs @ r) \<Longrightarrow> pos c + length xs \<le> length (buf c)"
  by (auto simp: at_def rest_def dest: arg_cong [where f = length])

lemma sliceN_at [codec]:
  "at c (xs @ r) \<Longrightarrow> sliceN (int (length xs)) c = Some (xs, advanced c (length xs))"
  using at_length [of c xs r] by (simp add: at_def sliceN_def rest_def advanced_def)

lemma skip_at [codec]:
  "at c (xs @ r) \<Longrightarrow> skip (int (length xs)) c = Some (advanced c (length xs))"
  using at_length [of c xs r] by (simp add: skip_def advanced_def)

lemma int32be_at [codec]:
  "at c (be_bytes 4 (unat v) @ r) \<Longrightarrow> int32be c = Some (v, advanced c 4)"
  using at_length [of c "be_bytes 4 (unat v)" r]
  by (simp add: at_def int32be_def rest_def advanced_def)

section \<open>One field\<close>

lemma common_loop_spec:
  "\<lbrakk>m \<le> length p; m \<le> length f; i \<le> m; take i p = take i f; common_loop p f m i = n\<rbrakk>
     \<Longrightarrow> n \<le> m \<and> take n p = take n f"
proof (induction p f m i rule: common_loop.induct)
  case (1 p f m i)
  show ?case
  proof (cases "i < m \<and> p ! i = f ! i")
    case True
    then have "take (i + 1) p = take (i + 1) f"
      using "1.prems" by (simp add: take_Suc_conv_app_nth)
    with True "1.prems" show ?thesis
      by (intro "1.IH") (auto simp: common_loop.simps [of p f m i])
  next
    case False
    with "1.prems" show ?thesis
      by (auto simp: common_loop.simps [of p f m i])
  qed
qed

text \<open>
  What the encoder's flags say of one field: the same-bit only if the field is unchanged,
  the prefix-bit only with a length that is a common prefix of the two values.
\<close>

definition flags_ok :: "nat \<Rightarrow> byte \<Rightarrow> byte \<Rightarrow> int \<Rightarrow> bytes \<Rightarrow> bytes \<Rightarrow> bool" where
  "flags_ok n fs fp cl p f \<longleftrightarrow>
     (bit fs n \<longrightarrow> p = f) \<and>
     (bit fp n \<longrightarrow> 0 \<le> cl \<and> cl \<le> int (length p) \<and> cl \<le> int (length f) \<and>
                  take (nat cl) p = take (nat cl) f)"

lemma field_writeField:
  assumes ok: "flags_ok n fs fp cl p f" and n: "n < 8" and len: "length f < 2 ^ 31"
    and at: "at c (writeField f cl fs fp (flag n) (flag n) @ r)"
  shows "field fs fp (flag n) (flag n) p c
    = Inr (f, advanced c (length (writeField f cl fs fp (flag n) (flag n))))"
proof -
  have adv: "advanced (advanced c i) j = advanced c (i + j)" for c i j
    by (simp add: advanced_def add.assoc)
  show ?thesis
  proof (cases "bit fs n")
    case True
    with ok n show ?thesis
      by (simp add: field_def writeField_def flags_ok_def advanced_def)
  next
    case ns: False
    show ?thesis
    proof (cases "bit fp n")
      case True
      define a b where "a = nat cl" and "b = length f - a"
      have cl: "cl = int a" "a \<le> length p" "a \<le> length f" "take a p = take a f"
        using True ok by (auto simp: flags_ok_def a_def)
      then have b: "int (length f) - cl = int b" "length (drop a f) = b"
        by (simp_all add: b_def of_nat_diff)
      have W: "writeField f cl fs fp (flag n) (flag n)
          = WriteVInt (of_nat a) @ WriteVInt (of_nat b) @ drop a f"
        using ns True n cl(1) b(1) by (simp add: writeField_def)
      have s: "sint (of_nat a :: int32) = int a" "sint (of_nat b :: int32) = int b"
        using cl b_def len by (intro sint_of_nat_32; linarith)+
      note a1 = at [unfolded W append_assoc]
      note a2 = at_advanced [OF a1 refl]
      note a3 = at_advanced [OF a2 refl, unfolded adv]
      show ?thesis
        using ns True cl unfolding W
        by (simp add: field_def vint_at [OF a1] vint_at [OF a2] sliceN_at [OF a3, unfolded b] s b
            adv add.assoc del: length_drop)
    next
      case False
      have W: "writeField f cl fs fp (flag n) (flag n) = WriteVInt (of_nat (length f)) @ f"
        using ns False n by (simp add: writeField_def)
      note a1 = at [unfolded W append_assoc]
      note a2 = at_advanced [OF a1 refl]
      show ?thesis
        using ns False unfolding W
        by (simp add: field_def vint_at [OF a1] sliceN_at [OF a2] sint_of_nat_32 [OF len] adv)
    qed
  qed
qed

lemma computeCommon_flags:
  assumes cc: "computeCommon p f (flag n) (flag n) (fs, fp) = (cl, fs', fp')"
    and n: "n < 8" "\<not> bit fs n" "\<not> bit fp n"
  shows "flags_ok n fs' fp' cl p f"
    and "m \<noteq> n \<Longrightarrow> bit fs' m = bit fs m" and "m \<noteq> n \<Longrightarrow> bit fp' m = bit fp m"
proof -
  define M where "M = (if length f < length p then length f else length p)"
  define k where "k = common_loop p f M 0"
  have M: "M \<le> length p" "M \<le> length f"
    by (simp_all add: M_def)
  then have k: "k \<le> M" "take k p = take k f"
    using common_loop_spec [of M p f 0 k] by (simp_all add: k_def)
  have "computeCommon p f (flag n) (flag n) (fs, fp) = (if p = f then (-1, fs OR flag n, fp)
      else if k > 1 then (int k, fs, fp OR flag n) else (int k, fs, fp))"
    by (simp only: computeCommon_def bytes_Equal_def M_def k_def Let_def prod.case)
  with cc show "flags_ok n fs' fp' cl p f"
    and "m \<noteq> n \<Longrightarrow> bit fs' m = bit fs m" and "m \<noteq> n \<Longrightarrow> bit fp' m = bit fp m"
    using n k M by (auto simp: flags_ok_def split: if_splits)
qed

lemma field_step:
  assumes "at c (writeField f cl fs fp (flag n) (flag n) @ r)"
    and "flags_ok n fs fp cl p f" "n < 8" "length f < 2 ^ 31"
  obtains c' where "field fs fp (flag n) (flag n) p c = Inr (f, c')" "at c' r"
  using assms field_writeField at_advanced by blast

section \<open>One cell\<close>

lemmas same_bits = RowSame_def CFSame_def CQSame_def CVSame_def TSSame_def DeletedBit_def
  PrefixCompressionEnabled_def
lemmas prefix_bits = RowCommonPrefix_def CFCommonPrefix_def CQCommonPrefix_def CVCommonPrefix_def
  TSDiff_def

text \<open>What the two flag bytes of a cell tell its decoder.\<close>

definition cell_flags_ok :: "byte \<Rightarrow> byte \<Rightarrow> int \<Rightarrow> int \<Rightarrow> int \<Rightarrow> int \<Rightarrow> int64 \<Rightarrow> key \<Rightarrow> key \<Rightarrow> bool" where
  "cell_flags_ok fs fp rowP cfP cqP cvP d p k \<longleftrightarrow>
     flags_ok 0 fs fp rowP (Row p) (Row k) \<and>
     flags_ok 1 fs fp cfP (ColumnFamily p) (ColumnFamily k) \<and>
     flags_ok 2 fs fp cqP (ColumnQualifier p) (ColumnQualifier k) \<and>
     flags_ok 3 fs fp cvP (ColumnVisibility p) (ColumnVisibility k) \<and>
     (bit fs 4 \<longrightarrow> Timestamp k = Timestamp p) \<and>
     (bit fp 4 \<longrightarrow> d + Timestamp p = Timestamp k) \<and>
     (bit fs 5 \<longleftrightarrow> Deleted k) \<and> (bit fs 7 \<longleftrightarrow> fp \<noteq> 0)"

lemma flags_ok_cong:
  "bit fs n = bit fs' n \<Longrightarrow> bit fp n = bit fp' n \<Longrightarrow> flags_ok n fs fp = flags_ok n fs' fp'"
  by (auto simp: flags_ok_def fun_eq_iff)

lemma encode_flags_Some:
  assumes "encode_flags (Some p) k = (fs, fp, rowP, cfP, cqP, cvP, d)"
  shows "cell_flags_ok fs fp rowP cfP cqP cvP d p k"
proof -
  obtain rowP' a1 b1 where 1: "computeCommon (Row p) (Row k) (flag 0) (flag 0) (0, 0) = (rowP', a1, b1)"
    by (metis prod_cases3)
  obtain cfP' a2 b2 where 2: "computeCommon (ColumnFamily p) (ColumnFamily k) (flag 1) (flag 1) (a1, b1)
      = (cfP', a2, b2)"
    by (metis prod_cases3)
  obtain cqP' a3 b3 where 3: "computeCommon (ColumnQualifier p) (ColumnQualifier k) (flag 2) (flag 2)
      (a2, b2) = (cqP', a3, b3)"
    by (metis prod_cases3)
  obtain cvP' a4 b4 where 4: "computeCommon (ColumnVisibility p) (ColumnVisibility k) (flag 3) (flag 3)
      (a3, b3) = (cvP', a4, b4)"
    by (metis prod_cases3)
  define ts where "ts = (Timestamp k = Timestamp p)"
  define fp' where "fp' = (if ts then b4 else b4 OR flag 4)"
  define fs1 where "fs1 = (if ts then a4 OR flag 4 else a4)"
  define fs2 where "fs2 = (if fp' \<noteq> 0 then fs1 OR flag 7 else fs1)"
  have eqs: "rowP = rowP'" "cfP = cfP'" "cqP = cqP'" "cvP = cvP'" "d = Timestamp k - Timestamp p"
      "fp = fp'" "fs = (if Deleted k then fs2 OR flag 5 else fs2)"
    using assms unfolding encode_flags_def same_bits prefix_bits
    by (auto simp add: 1 2 3 4 Let_def fs2_def fs1_def fp'_def ts_def simp del: One_nat_def
        split: if_splits)
  note c1 = computeCommon_flags [OF 1, simplified]
  have n1: "\<not> bit a1 m" "\<not> bit b1 m" if "m > 0" for m
    using that c1(2,3) by simp_all
  note c2 = computeCommon_flags [OF 2 _ n1, simplified]
  have n2: "\<not> bit a2 m" "\<not> bit b2 m" if "m > 1" for m
    using that c2(2,3) [of m] n1 [of m] by simp_all
  note c3 = computeCommon_flags [OF 3 _ n2, simplified]
  have n3: "\<not> bit a3 m" "\<not> bit b3 m" if "m > 2" for m
    using that c3(2,3) [of m] n2 [of m] by simp_all
  note c4 = computeCommon_flags [OF 4 _ n3, simplified]
  have n4: "\<not> bit a4 m" "\<not> bit b4 m" if "m > 3" for m
    using that c4(2,3) [of m] n3 [of m] by simp_all
  have same: "bit fs m = bit a4 m" "bit fp m = bit b4 m" if "m < 4" for m
    using that by (auto simp: eqs fs2_def fs1_def fp'_def)
  have "flags_ok 0 fs fp = flags_ok 0 a1 b1" "flags_ok 1 fs fp = flags_ok 1 a2 b2"
    "flags_ok 2 fs fp = flags_ok 2 a3 b3" "flags_ok 3 fs fp = flags_ok 3 a4 b4"
    using c2(2,3) c3(2,3) c4(2,3) by (intro flags_ok_cong; simp add: same)+
  then show ?thesis
    using c1(1) c2(1) c3(1) c4(1) n4
    by (auto simp: cell_flags_ok_def eqs(1-5) simp del: One_nat_def)
      (auto simp: eqs fs2_def fs1_def fp'_def ts_def split: if_splits)
qed

lemma encode_flags_None:
  "encode_flags None k = (if Deleted k then flag 5 else 0, 0, 0, 0, 0, 0, 0)"
  by (simp add: encode_flags_def DeletedBit_def)

lemma encode_flags_ok:
  assumes "encode_flags prev' k = (fs, fp, rowP, cfP, cqP, cvP, d)" "prev' = None \<or> prev' = Some p"
  shows "cell_flags_ok fs fp rowP cfP cqP cvP d p k"
  using assms encode_flags_Some [of p k]
  by (auto simp: encode_flags_None cell_flags_ok_def flags_ok_def bit_flag split: if_splits)

lemma first_key_flags:
  "(if d then flag 5 else 0) AND (RowSame OR CFSame OR CQSame OR CVSame OR TSSame) = 0"
  unfolding same_bits by (rule bit_word_eqI) (auto simp: bit_and_iff bit_or_iff bit_flag)

definition key_fits :: "key \<Rightarrow> bool" where
  "key_fits k \<longleftrightarrow> length (Row k) < 2 ^ 31 \<and> length (ColumnFamily k) < 2 ^ 31 \<and>
     length (ColumnQualifier k) < 2 ^ 31 \<and> length (ColumnVisibility k) < 2 ^ 31"

lemma timestamp_step:
  assumes "at c ((if bit fs 4 then [] else if bit fp 4 then WriteVLong d
                  else WriteVLong ts) @ r)"
    and "bit fs 4 \<longrightarrow> ts = t" "bit fp 4 \<longrightarrow> d + t = ts"
  obtains c' where "decode_timestamp fs fp t c = Inr (ts, c')" "at c' r"
proof (cases "bit fs 4 \<or> \<not> bit fp 4")
  case True
  with assms that vlong_at [of c ts r] at_advanced [of c "WriteVLong ts" r, OF _ refl]
  show ?thesis by (auto simp: decode_timestamp_def TSSame_def TSDiff_def split: if_splits)
next
  case False
  with assms that vlong_at [of c d r] at_advanced [of c "WriteVLong d" r, OF _ refl]
  show ?thesis by (auto simp: decode_timestamp_def TSSame_def TSDiff_def)
qed

lemma decodeKey_EncodeKey:
  assumes at: "at c (EncodeKey prev' k v @ r)" and fits: "key_fits k"
    and prev: "prev' = (if hp then Some p else None)"
  obtains c' where "decodeKey hp p c = Inr (k, c')"
    "at c' (be_bytes 4 (unat (of_nat (length v) :: int32)) @ v @ r)"
proof -
  obtain fs fp rowP cfP cqP cvP d where
    fl: "encode_flags prev' k = (fs, fp, rowP, cfP, cqP, cvP, d)"
    by (metis prod_cases7)
  then have ok: "cell_flags_ok fs fp rowP cfP cqP cvP d p k"
    using prev by (intro encode_flags_ok) auto
  let ?val = "be_bytes 4 (unat (of_nat (length v) :: int32)) @ v @ r"
  let ?ts = "if bit fs 4 then [] else if bit fp 4 then WriteVLong d else WriteVLong (Timestamp k)"
  let ?body = "writeField (Row k) rowP fs fp (flag 0) (flag 0) @
      writeField (ColumnFamily k) cfP fs fp (flag 1) (flag 1) @
      writeField (ColumnQualifier k) cqP fs fp (flag 2) (flag 2) @
      writeField (ColumnVisibility k) cvP fs fp (flag 3) (flag 3) @ ?ts @ ?val"
  have E: "EncodeKey prev' k v @ r = fs # (if bit fs 7 then [fp] else []) @ ?body"
    by (simp add: EncodeKey_def fl same_bits prefix_bits)
  have a1: "at (advanced c 1) ((if bit fs 7 then [fp] else []) @ ?body)"
    using at unfolding E by (rule at_advanced_Cons)
  define c1 where "c1 = (if bit fs 7 then advanced (advanced c 1) 1 else advanced c 1)"
  have fp: "(if fs AND flag 7 \<noteq> 0 then (case byteAt (advanced c 1) of None \<Rightarrow> Inl ErrUnexpectedEOF
      | Some (b, c) \<Rightarrow> Inr (b, c)) else Inr (0, advanced c 1)) = Inr (fp, c1)"
    using a1 ok by (auto simp: c1_def byteAt_at cell_flags_ok_def)
  have b0: "at c1 ?body"
    using a1 at_advanced_Cons [of "advanced c 1"] by (auto simp: c1_def split: if_splits)
  have first: "\<not> (\<not> hp \<and> (fs AND (RowSame OR CFSame OR CQSame OR CVSame OR TSSame) \<noteq> 0 \<or>
      fp AND (RowCommonPrefix OR CFCommonPrefix OR CQCommonPrefix OR CVCommonPrefix OR TSDiff) \<noteq> 0))"
    using fl prev first_key_flags [of "Deleted k"] by (auto simp: encode_flags_None)
  note f = ok [unfolded cell_flags_ok_def] fits [unfolded key_fits_def]
  obtain c2 where r2: "field fs fp (flag 0) (flag 0) (Row p) c1 = Inr (Row k, c2)" and
    b2: "at c2 (writeField (ColumnFamily k) cfP fs fp (flag 1) (flag 1) @
      writeField (ColumnQualifier k) cqP fs fp (flag 2) (flag 2) @
      writeField (ColumnVisibility k) cvP fs fp (flag 3) (flag 3) @ ?ts @ ?val)"
    using field_step [OF b0] f by auto
  obtain c3 where r3: "field fs fp (flag 1) (flag 1) (ColumnFamily p) c2 = Inr (ColumnFamily k, c3)"
    and b3: "at c3 (writeField (ColumnQualifier k) cqP fs fp (flag 2) (flag 2) @
      writeField (ColumnVisibility k) cvP fs fp (flag 3) (flag 3) @ ?ts @ ?val)"
    using field_step [OF b2] f by auto
  obtain c4 where r4: "field fs fp (flag 2) (flag 2) (ColumnQualifier p) c3
      = Inr (ColumnQualifier k, c4)"
    and b4: "at c4 (writeField (ColumnVisibility k) cvP fs fp (flag 3) (flag 3) @ ?ts @ ?val)"
    using field_step [OF b3] f by auto
  obtain c5 where r5: "field fs fp (flag 3) (flag 3) (ColumnVisibility p) c4
      = Inr (ColumnVisibility k, c5)" and b5: "at c5 (?ts @ ?val)"
    using field_step [OF b4] f by auto
  obtain c6 where r6: "decode_timestamp fs fp (Timestamp p) c5 = Inr (Timestamp k, c6)"
    and b6: "at c6 ?val"
    using timestamp_step [OF b5] f by metis
  have del: "bit fs 5 = Deleted k"
    using f by simp
  have "decodeKey hp p c = Inr (\<lparr>Row = Row k, ColumnFamily = ColumnFamily k,
      ColumnQualifier = ColumnQualifier k, ColumnVisibility = ColumnVisibility k,
      Timestamp = Timestamp k, Deleted = Deleted k\<rparr>, c6)"
    unfolding decodeKey_def byteAt_at [OF at [unfolded E]] option.case prod.case
      PrefixCompressionEnabled_def fp rbind.simps if_not_P [OF first]
    unfolding same_bits prefix_bits using r2 r3 r4 r5 r6 del
    by (simp del: One_nat_def)
  then show ?thesis
    using that b6 by simp
qed

section \<open>One block\<close>

text \<open>
  The block an RFile writer fills: \<^verbatim>\<open>Append\<close> encodes every cell against the key
  before it, the first cell of the block against none.
\<close>

fun EncodeCells :: "key option \<Rightarrow> cell list \<Rightarrow> bytes" where
  "EncodeCells prev' [] = []"
| "EncodeCells prev' ((k, v) # cs) = EncodeKey prev' k v @ EncodeCells (Some k) cs"

text \<open>At most \<open>n\<close> calls of \<^verbatim>\<open>Next\<close>: the cells returned and the error that ended the run.\<close>

fun drain_block :: "nat \<Rightarrow> reader \<Rightarrow> cell list \<times> go_err option" where
  "drain_block 0 r = ([], None)"
| "drain_block (Suc n) r =
     (case NextCell r of
        (Inl e, r) \<Rightarrow> ([], Some e)
      | (Inr c, r) \<Rightarrow> (let (cs, e) = drain_block n r in (c # cs, e)))"

definition cell_fits :: "cell \<Rightarrow> bool" where
  "cell_fits c \<longleftrightarrow> key_fits (fst c) \<and> length (snd c) < 2 ^ 31"

definition accepts :: "(key \<Rightarrow> bool) option \<Rightarrow> cell \<Rightarrow> bool" where
  "accepts f c = (case f of None \<Rightarrow> True | Some p \<Rightarrow> p (fst c))"

text \<open>A reader that owes exactly the cells \<open>cs\<close>.\<close>

definition reader_at :: "reader \<Rightarrow> cell list \<Rightarrow> bool" where
  "reader_at r cs \<longleftrightarrow>
     err r = None \<and> entries r = read_count r + int (length cs) \<and>
     at (cur r) (EncodeCells (if hasPrev r then Some (prev r) else None) cs) \<and>
     (\<forall>c\<in>set cs. cell_fits c)"

lemma NextView_loop_Cons:
  assumes r: "reader_at r ((k, v) # cs)"
  obtains r' where "reader_at r' cs" "accept r' = accept r"
    "NextView_loop r = (if accepts (accept r) (k, v) then (Inr (k, v), r') else NextView_loop r')"
proof -
  note r' = r [unfolded reader_at_def, simplified]
  obtain c where dec: "decodeKey (hasPrev r) (prev r) (cur r) = Inr (k, c)"
    and at: "at c (be_bytes 4 (unat (of_nat (length v) :: int32)) @ v @ EncodeCells (Some k) cs)"
    using decodeKey_EncodeKey [of "cur r" "if hasPrev r then Some (prev r) else None" k v
        "EncodeCells (Some k) cs" "hasPrev r" "prev r"] r' by (auto simp: cell_fits_def)
  note at2 = at_advanced [OF at, of 4, simplified]
  note at3 = at_advanced [OF at2 refl]
  have len: "sint (of_nat (length v) :: int32) = int (length v)"
    using r' by (intro sint_of_nat_32) (auto simp: cell_fits_def)
  let ?r' = "r\<lparr>current := k, prev := k, hasPrev := True, read_count := read_count r + 1,
      cur := advanced (advanced c 4) (length v)\<rparr>"
  have "reader_at ?r' cs" "accept ?r' = accept r"
    using r' at3 by (simp_all add: reader_at_def)
  moreover have "NextView_loop r = (if accepts (accept r) (k, v) then (Inr (k, v), ?r')
      else NextView_loop ?r')"
    using r' dec
    by (simp add: NextView_loop.simps [of r] int32be_at [OF at] len skip_at [OF at2]
        sliceN_at [OF at2] accepts_def Let_def split: option.splits)
  ultimately show ?thesis
    using that by blast
qed

lemma NextView_loop_spec:
  assumes "reader_at r cs"
  shows "case dropWhile (\<lambda>c. \<not> accepts (accept r) c) cs of
      [] \<Rightarrow> fst (NextView_loop r) = Inl EOF
    | c # cs' \<Rightarrow> \<exists>r'. NextView_loop r = (Inr c, r') \<and> reader_at r' cs' \<and> accept r' = accept r"
  using assms
proof (induction cs arbitrary: r)
  case Nil
  then show ?case
    by (simp add: reader_at_def NextView_loop.simps fail_def)
next
  case (Cons c cs)
  obtain k v where c: "c = (k, v)" by fastforce
  obtain r' where r': "reader_at r' cs" "accept r' = accept r"
    "NextView_loop r = (if accepts (accept r) (k, v) then (Inr (k, v), r') else NextView_loop r')"
    using NextView_loop_Cons [OF Cons.prems [unfolded c]] by metis
  then show ?case
    using Cons.IH [OF r'(1)]
    by (cases "accepts (accept r) (k, v)") (simp_all add: c cong: list.case_cong)
qed

lemma NextCell_eq:
  "err r = None \<Longrightarrow> NextCell r = NextView_loop r"
  by (auto simp: NextCell_def NextView_def cloneBytes_def split: prod.splits sum.splits)

lemma drain_block_reader_at:
  "\<lbrakk>reader_at r cs; length cs < n\<rbrakk>
     \<Longrightarrow> drain_block n r = (filter (accepts (accept r)) cs, Some EOF)"
proof (induction n arbitrary: r cs)
  case (Suc n)
  have err: "err r = None"
    using Suc.prems by (simp add: reader_at_def)
  have fd: "filter P (dropWhile (\<lambda>x. \<not> P x) xs) = filter P xs" for P :: "cell \<Rightarrow> bool" and xs
    by (induction xs) auto
  show ?case
  proof (cases "dropWhile (\<lambda>c. \<not> accepts (accept r) c) cs")
    case Nil
    then have "filter (accepts (accept r)) cs = []"
      using fd [of "accepts (accept r)" cs] by simp
    moreover have "fst (NextView_loop r) = Inl EOF"
      using NextView_loop_spec [OF Suc.prems(1)] unfolding Nil by simp
    ultimately show ?thesis
      by (cases "NextView_loop r") (simp add: NextCell_eq [OF err])
  next
    case (Cons c cs')
    then have f: "filter (accepts (accept r)) cs = c # filter (accepts (accept r)) cs'"
      using fd [of "accepts (accept r)" cs] hd_dropWhile [of "\<lambda>c. \<not> accepts (accept r) c" cs] by auto
    have "length cs' < length cs"
      using Cons length_dropWhile_le [of "\<lambda>c. \<not> accepts (accept r) c" cs] by simp
    then show ?thesis
      using NextView_loop_spec [OF Suc.prems(1)] Cons Suc.IH Suc.prems f
      by (fastforce simp: NextCell_eq [OF err])
  qed
qed simp

lemma reader_at_NewReader:
  "(\<forall>c\<in>set cs. cell_fits c) \<Longrightarrow>
     reader_at (SetFilter f (NewReader (EncodeCells None cs) (int (length cs)))) cs"
  by (simp add: reader_at_def SetFilter_def NewReader_def at_def rest_def)

section \<open>The scratch buffer\<close>

text \<open>
  \<^verbatim>\<open>field\<close> builds a prefixed field in a per-field buffer it reuses, which the previous
  key may alias. A field value is here either in the immutable block or the first
  \<open>n\<close> bytes of the field's scratch array; the array is a list as long as its capacity.
\<close>

datatype slice = InBlock bytes | InScratch nat

fun view_slice :: "bytes \<Rightarrow> slice \<Rightarrow> bytes" where
  "view_slice scratch (InBlock b) = b"
| "view_slice scratch (InScratch n) = take n scratch"

text \<open>Go's \<^verbatim>\<open>copy(dst[i:], src)\<close> into an array, which has memmove semantics.\<close>

definition copy_at :: "nat \<Rightarrow> bytes \<Rightarrow> bytes \<Rightarrow> bytes" where
  "copy_at i src dst = take i dst @ take (length dst - i) src @ drop (i + length src) dst"

text \<open>The code from \<^verbatim>\<open>need := ...\<close> to \<^verbatim>\<open>return buf\<close>.\<close>

definition build_prefixed :: "bytes \<Rightarrow> slice \<Rightarrow> nat \<Rightarrow> bytes \<Rightarrow> bytes \<times> slice" where
  "build_prefixed scratch prev' prefixLen suffix =
     (let need = prefixLen + length suffix;
          buf' = (if length scratch < need
                  then copy_at 0 (take prefixLen (view_slice scratch prev')) (replicate need 0)
                  else copy_at 0 (take prefixLen (view_slice scratch prev')) scratch);
          buf' = copy_at prefixLen suffix buf'
      in (buf', InScratch need))"

lemma build_prefixed_value:
  assumes "prefixLen \<le> length (view_slice scratch prev')"
  shows "(case build_prefixed scratch prev' prefixLen suffix of
      (scratch', out) \<Rightarrow> view_slice scratch' out)
    = take prefixLen (view_slice scratch prev') @ suffix"
  using assms by (auto simp: build_prefixed_def copy_at_def Let_def)

section \<open>Properties\<close>

text \<open>
  C19: the block codec is lossless. A reader over the bytes that \<^verbatim>\<open>EncodeKey\<close> appends for a
  sequence of cells, each relative to the one before, returns exactly the cells its filter
  accepts, in order, and then EOF: shared prefixes, repeated fields and timestamp
  differences (which may wrap) are undone, and skipped cells do not disturb the ones after
  them.
\<close>

theorem block_roundtrip:
  assumes "\<forall>c\<in>set cs. cell_fits c" "length cs < n"
  shows "drain_block n (SetFilter f (NewReader (EncodeCells None cs) (int (length cs)))) =
    (filter (accepts f) cs, Some EOF)"
  using drain_block_reader_at [OF reader_at_NewReader [OF assms(1), of f] assms(2)]
  by (simp add: SetFilter_def NewReader_def)

theorem block_roundtrip_witness:
  "drain_block 3 (SetFilter (Some (\<lambda>k. \<not> Deleted k)) (NewReader
     (EncodeCells None [(example_key 9 True, []), (example_key 7 False, [1])]) 2)) =
   ([(example_key 7 False, [1])], Some EOF)"
proof -
  let ?cs = "[(example_key 9 True, []), (example_key 7 False, [1])]"
  have "\<forall>c\<in>set ?cs. cell_fits c"
    by (simp add: cell_fits_def key_fits_def example_key_def)
  moreover have "filter (accepts (Some (\<lambda>k. \<not> Deleted k))) ?cs = [(example_key 7 False, [1])]"
    by (simp add: accepts_def example_key_def)
  ultimately show ?thesis
    using block_roundtrip [of ?cs 3 "Some (\<lambda>k. \<not> Deleted k)"] by simp
qed

text \<open>
  The reader's inlined variable-length decoder \<^verbatim>\<open>rcursor.vlong\<close> is \<^verbatim>\<open>wire.ReadVLong\<close>
  on the unread bytes: same value, same number of bytes consumed, and it fails exactly
  when the reference decoder does, so it never reads past the block.
\<close>

theorem vlong_refines_ReadVLong:
  "vlong c = (case ReadVLong (rest c) of
      Inl e \<Rightarrow> None | Inr (v, n, r) \<Rightarrow> Some (v, advanced c (nat n))) \<and>
   vint c = (case ReadVInt (rest c) of
      Inl e \<Rightarrow> None | Inr (v, n, r) \<Rightarrow> Some (v, advanced c (nat n)))"
  using vlong_eq_ReadVLong vint_eq_ReadVInt by blast

text \<open>
  Rebuilding a prefix-compressed field in the reader's scratch buffer is safe although
  the previous field may alias that buffer: the result is the previous field's prefix
  followed by the suffix.
\<close>

theorem build_prefixed_correct:
  assumes "prefixLen \<le> length (view_slice scratch prev')"
  shows "(case build_prefixed scratch prev' prefixLen suffix of
      (scratch', out) \<Rightarrow> view_slice scratch' out) = take prefixLen (view_slice scratch prev') @ suffix"
  by (rule build_prefixed_value [OF assms])

end
