(* ===== verification/Iter_Core.thy ===== *)
theory Iter_Core
  imports Wire_Key
begin

text \<open>
  The iterator runtime of \<^verbatim>\<open>internal/iterrt\<close>: key ranges and the column-family
  filter, the interface \<^verbatim>\<open>SortedKeyValueIterator\<close>, and its in-memory leaf
  \<^verbatim>\<open>SliceSource\<close>.

  A Go interface value is an object and its method table. The table is the record
  \<open>skvi\<close> of functions on the object's state; an iterator that wraps a source takes the
  source's table as an argument and holds the source's state. A method returns the new
  state and Go's error; \<open>None\<close> is a call that does not return (it loops, or dereferences
  a nil key).

  The contract of the interface is the locale \<open>skvi\<close>: \<open>view\<close> gives the cells a seek
  exposes, \<open>rem\<close> the cells left at the current position, and the methods are the
  obvious operations on these lists. \<open>SliceSource\<close> is proved to satisfy it, and every
  iterator theory proves that its iterator satisfies it over any source that does.
\<close>

section \<open>Ranges\<close>

record range =
  Start :: "key option"
  StartInclusive :: bool
  InfiniteStart :: bool
  End :: "key option"
  EndInclusive :: bool
  InfiniteEnd :: bool

definition InfiniteRange :: range where
  "InfiniteRange = \<lparr>Start = None, StartInclusive = False, InfiniteStart = True,
                    End = None, EndInclusive = False, InfiniteEnd = True\<rparr>"

definition AfterKey :: "key \<Rightarrow> range" where
  "AfterKey k = \<lparr>Start = Some k, StartInclusive = False, InfiniteStart = False,
                 End = None, EndInclusive = False, InfiniteEnd = True\<rparr>"

definition BeforeStart :: "range \<Rightarrow> key \<Rightarrow> bool" where
  "BeforeStart r k =
     (if InfiniteStart r then False
      else case Start r of
        None \<Rightarrow> False
      | Some s \<Rightarrow> let c = Compare k s in c < 0 \<or> (c = 0 \<and> \<not> StartInclusive r))"

definition AfterEnd :: "range \<Rightarrow> key \<Rightarrow> bool" where
  "AfterEnd r k =
     (if InfiniteEnd r then False
      else case End r of
        None \<Rightarrow> False
      | Some e \<Rightarrow> let c = Compare k e in c > 0 \<or> (c = 0 \<and> \<not> EndInclusive r))"

definition Contains :: "range \<Rightarrow> key \<Rightarrow> bool" where
  "Contains r k =
     (if (case Start r of
            None \<Rightarrow> False
          | Some s \<Rightarrow> \<not> InfiniteStart r \<and>
              (let c = Compare k s in c < 0 \<or> (c = 0 \<and> \<not> StartInclusive r)))
      then False
      else if (case End r of
            None \<Rightarrow> False
          | Some e \<Rightarrow> \<not> InfiniteEnd r \<and>
              (let c = Compare k e in c > 0 \<or> (c = 0 \<and> \<not> EndInclusive r)))
      then False
      else True)"

text \<open>\<^verbatim>\<open>cfAllowed\<close>: an empty family list admits nothing if inclusive, everything if not.\<close>

definition cfAllowed :: "bytes \<Rightarrow> bytes list \<Rightarrow> bool \<Rightarrow> bool" where
  "cfAllowed cf families inclusive =
     (if length families = 0 then \<not> inclusive
      else let in' = (\<exists>f\<in>set families. f = cf) in if inclusive then in' else \<not> in')"

section \<open>The interface\<close>

datatype IteratorScope = ScopeScan | ScopeMinc | ScopeMajc

fun scope_String :: "IteratorScope \<Rightarrow> string" where
  "scope_String ScopeScan = ''scan''"
| "scope_String ScopeMinc = ''minc''"
| "scope_String ScopeMajc = ''majc''"

record environment =
  Scope :: IteratorScope
  FullMajorCompaction :: bool
  Authorizations :: "bytes list option"

type_synonym options = "string \<rightharpoonup> string"
type_synonym 's step = "('s \<times> go_err option) option"

record 's skvi =
  Seek :: "range \<Rightarrow> bytes list \<Rightarrow> bool \<Rightarrow> 's \<Rightarrow> 's step"
  Next :: "'s \<Rightarrow> 's step"
  HasTop :: "'s \<Rightarrow> bool"
  GetTopKey :: "'s \<Rightarrow> key option"
  GetTopValue :: "'s \<Rightarrow> bytes"

text \<open>The loop \<^verbatim>\<open>for src.HasTop() && p(src.GetTopKey()) { src.Next() }\<close>, with early return.\<close>

partial_function (option) skip_while :: "'s skvi \<Rightarrow> (key \<Rightarrow> bool) \<Rightarrow> 's \<Rightarrow> 's step" where
  "skip_while ops p s =
     (if \<not> HasTop ops s then Some (s, None)
      else case GetTopKey ops s of
        None \<Rightarrow> None
      | Some k \<Rightarrow>
          if \<not> p k then Some (s, None)
          else (case Next ops s of
            None \<Rightarrow> None
          | Some (s', e) \<Rightarrow>
              (case e of None \<Rightarrow> skip_while ops p s' | Some x \<Rightarrow> Some (s', Some x))))"

text \<open>
  The loop every consumer runs after a seek:
  \<^verbatim>\<open>for it.HasTop() { emit(it.GetTopKey(), it.GetTopValue()); it.Next() }\<close>.
  The result is the cells emitted and the error that stopped the loop, if one did.
\<close>

partial_function (option) drain_loop ::
  "'s skvi \<Rightarrow> cell list \<Rightarrow> 's \<Rightarrow> (cell list \<times> go_err option) option" where
  "drain_loop ops out s =
     (if \<not> HasTop ops s then Some (out, None)
      else case GetTopKey ops s of
        None \<Rightarrow> None
      | Some k \<Rightarrow>
          (case Next ops s of
            None \<Rightarrow> None
          | Some (s', e) \<Rightarrow>
              (case e of
                 None \<Rightarrow> drain_loop ops (out @ [(k, GetTopValue ops s)]) s'
               | Some x \<Rightarrow> Some (out @ [(k, GetTopValue ops s)], Some x))))"

section \<open>Cells a seek selects\<close>

definition selects :: "range \<Rightarrow> bytes list \<Rightarrow> bool \<Rightarrow> cell \<Rightarrow> bool" where
  "selects r cfs inclusive c \<longleftrightarrow>
     \<not> BeforeStart r (fst c) \<and> \<not> AfterEnd r (fst c) \<and> cfAllowed (ColumnFamily (fst c)) cfs inclusive"

abbreviation sorted_cells :: "cell list \<Rightarrow> bool" where
  "sorted_cells cs \<equiv> sorted (map fst cs)"

lemma Contains_iff: "Contains r k \<longleftrightarrow> \<not> BeforeStart r k \<and> \<not> AfterEnd r k"
  by (auto simp: Contains_def BeforeStart_def AfterEnd_def Let_def split: option.splits)

lemma BeforeStart_iff:
  "BeforeStart r k \<longleftrightarrow> \<not> InfiniteStart r \<and>
     (\<exists>s. Start r = Some s \<and> (k < s \<or> k = s \<and> \<not> StartInclusive r))"
  by (auto simp: BeforeStart_def Let_def split: option.splits)

lemma AfterEnd_iff:
  "AfterEnd r k \<longleftrightarrow> \<not> InfiniteEnd r \<and>
     (\<exists>e. End r = Some e \<and> (e < k \<or> k = e \<and> \<not> EndInclusive r))"
  by (auto simp: AfterEnd_def Let_def split: option.splits)

lemma AfterEnd_mono: "AfterEnd r k \<Longrightarrow> k \<le> k' \<Longrightarrow> AfterEnd r k'"
  by (auto simp: AfterEnd_iff)

lemma BeforeStart_mono: "BeforeStart r k' \<Longrightarrow> k \<le> k' \<Longrightarrow> BeforeStart r k"
  by (auto simp: BeforeStart_iff)

lemma selects_InfiniteRange [simp]: "selects InfiniteRange [] False = (\<lambda>_. True)"
  by (auto simp: selects_def InfiniteRange_def BeforeStart_def AfterEnd_def cfAllowed_def)

lemma sorted_cells_filter [simp]: "sorted_cells cs \<Longrightarrow> sorted_cells (filter P cs)"
  by (metis sorted_wrt_filter sorted_wrt_map)

lemma sorted_cells_drop: "sorted_cells cs \<Longrightarrow> sorted_cells (drop n cs)"
  by (metis drop_map sorted_wrt_drop)

section \<open>The contract\<close>

locale skvi =
  fixes ops :: "'s skvi"
    and wf :: "'s \<Rightarrow> bool"
    and ready :: "'s \<Rightarrow> bool"
    and rem :: "'s \<Rightarrow> cell list"
    and view :: "'s \<Rightarrow> range \<Rightarrow> bytes list \<Rightarrow> bool \<Rightarrow> cell list"
  assumes ready_wf: "ready s \<Longrightarrow> wf s"
    and seek_law: "wf s \<Longrightarrow> \<exists>s'. Seek ops r cfs inclusive s = Some (s', None) \<and> ready s' \<and>
      rem s' = view s r cfs inclusive \<and> view s' = view s"
    and next_law: "\<lbrakk>ready s; rem s = c # cs\<rbrakk> \<Longrightarrow> \<exists>s'. Next ops s = Some (s', None) \<and> ready s' \<and>
      rem s' = cs \<and> view s' = view s"
    and top_law: "ready s \<Longrightarrow> HasTop ops s \<longleftrightarrow> rem s \<noteq> []"
    and key_law: "\<lbrakk>ready s; rem s = c # cs\<rbrakk> \<Longrightarrow> GetTopKey ops s = Some (fst c)"
    and value_law: "\<lbrakk>ready s; rem s = c # cs\<rbrakk> \<Longrightarrow> GetTopValue ops s = snd c"
    and sorted_law: "ready s \<Longrightarrow> sorted_cells (rem s)"
begin

lemma skip_while_spec:
  "ready s \<Longrightarrow> \<exists>s'. skip_while ops p s = Some (s', None) \<and> ready s' \<and>
     rem s' = dropWhile (\<lambda>c. p (fst c)) (rem s) \<and> view s' = view s"
proof (induction "rem s" arbitrary: s)
  case Nil
  then show ?case
    using top_law [of s] by (auto simp: skip_while.simps)
next
  case (Cons c cs)
  note rem = Cons.hyps(2) [symmetric]
  have top: "HasTop ops s" "GetTopKey ops s = Some (fst c)"
    using top_law key_law Cons.prems rem by auto
  show ?case
  proof (cases "p (fst c)")
    case True
    obtain s' where s': "Next ops s = Some (s', None)" "ready s'" "rem s' = cs" "view s' = view s"
      using next_law [OF Cons.prems rem] by blast
    with Cons.hyps(1) [of s'] top True rem show ?thesis
      by (auto simp: skip_while.simps [of ops p s])
  next
    case False
    with top rem Cons.prems show ?thesis
      by (auto simp: skip_while.simps [of ops p s])
  qed
qed

lemma drain_loop_spec: "ready s \<Longrightarrow> drain_loop ops out s = Some (out @ rem s, None)"
proof (induction "rem s" arbitrary: s out)
  case Nil
  then show ?case
    using top_law [of s] by (auto simp: drain_loop.simps)
next
  case (Cons c cs)
  note rem = Cons.hyps(2) [symmetric]
  obtain s' where s': "Next ops s = Some (s', None)" "ready s'" "rem s' = cs"
    using next_law [OF Cons.prems rem] by blast
  with Cons.hyps(1) [of s'] top_law key_law value_law Cons.prems rem show ?case
    by (auto simp: drain_loop.simps [of ops out s])
qed

lemma scan_spec:
  assumes "wf s"
  shows "\<exists>s'. Seek ops r cfs inclusive s = Some (s', None) \<and>
    drain_loop ops [] s' = Some (view s r cfs inclusive, None)"
  using seek_law [OF assms, of r cfs inclusive] drain_loop_spec by fastforce

lemma view_sorted: "wf s \<Longrightarrow> sorted_cells (view s r cfs inclusive)"
  using seek_law [of s r cfs inclusive] sorted_law by force

end

section \<open>SliceSource\<close>

record slice_source =
  cells :: "cell list"
  spos :: nat
  srng :: range
  scfs :: "bytes list"
  sinclusive :: bool

definition zero_range :: range where
  "zero_range = \<lparr>Start = None, StartInclusive = False, InfiniteStart = False,
                 End = None, EndInclusive = False, InfiniteEnd = False\<rparr>"

definition NewSliceSource :: "cell list \<Rightarrow> slice_source" where
  "NewSliceSource cs = \<lparr>cells = cs, spos = 0, srng = zero_range, scfs = [], sinclusive = False\<rparr>"

definition slice_Init :: "'a option \<Rightarrow> options \<Rightarrow> environment \<Rightarrow> slice_source \<Rightarrow> slice_source res" where
  "slice_Init source options env s =
     (if source \<noteq> None
      then Inl (Errorf ''iterrt: SliceSource is a leaf iterator, source must be nil'') else Inr s)"

function slice_skip :: "slice_source \<Rightarrow> slice_source" where
  "slice_skip s =
     (if spos s < length (cells s) then
        let k = fst (cells s ! spos s) in
        if BeforeStart (srng s) k then slice_skip (s\<lparr>spos := spos s + 1\<rparr>)
        else if AfterEnd (srng s) k then s\<lparr>spos := length (cells s)\<rparr>
        else if \<not> cfAllowed (ColumnFamily k) (scfs s) (sinclusive s)
        then slice_skip (s\<lparr>spos := spos s + 1\<rparr>)
        else s
      else s)"
  by auto
termination
  by (relation "measure (\<lambda>s. length (cells s) - spos s)") auto

declare slice_skip.simps [simp del]

definition slice_Seek :: "range \<Rightarrow> bytes list \<Rightarrow> bool \<Rightarrow> slice_source \<Rightarrow> slice_source step" where
  "slice_Seek r cfs inclusive s =
     Some (slice_skip (s\<lparr>srng := r, scfs := cfs, sinclusive := inclusive, spos := 0\<rparr>), None)"

definition slice_Next :: "slice_source \<Rightarrow> slice_source step" where
  "slice_Next s =
     (if spos s \<ge> length (cells s)
      then Some (s, Some (Errorf ''iterrt: SliceSource.Next called without a top''))
      else Some (slice_skip (s\<lparr>spos := spos s + 1\<rparr>), None))"

definition slice_HasTop :: "slice_source \<Rightarrow> bool" where
  "slice_HasTop s \<longleftrightarrow> spos s < length (cells s)"

definition slice_GetTopKey :: "slice_source \<Rightarrow> key option" where
  "slice_GetTopKey s = (if spos s \<ge> length (cells s) then None else Some (fst (cells s ! spos s)))"

definition slice_GetTopValue :: "slice_source \<Rightarrow> bytes" where
  "slice_GetTopValue s = (if spos s \<ge> length (cells s) then [] else snd (cells s ! spos s))"

definition slice_DeepCopy :: "slice_source \<Rightarrow> slice_source" where
  "slice_DeepCopy s = NewSliceSource (cells s)"

definition slice_skvi :: "slice_source skvi" where
  "slice_skvi = \<lparr>Seek = slice_Seek, Next = slice_Next, HasTop = slice_HasTop,
                 GetTopKey = slice_GetTopKey, GetTopValue = slice_GetTopValue\<rparr>"

definition slice_rem :: "slice_source \<Rightarrow> cell list" where
  "slice_rem s = filter (selects (srng s) (scfs s) (sinclusive s)) (drop (spos s) (cells s))"

definition slice_wf :: "slice_source \<Rightarrow> bool" where
  "slice_wf s \<longleftrightarrow> sorted_cells (cells s)"

definition slice_ready :: "slice_source \<Rightarrow> bool" where
  "slice_ready s \<longleftrightarrow> slice_wf s \<and>
     (spos s < length (cells s) \<longrightarrow> selects (srng s) (scfs s) (sinclusive s) (cells s ! spos s))"

definition slice_view :: "slice_source \<Rightarrow> range \<Rightarrow> bytes list \<Rightarrow> bool \<Rightarrow> cell list" where
  "slice_view s r cfs inclusive = filter (selects r cfs inclusive) (cells s)"

lemma filter_selects_AfterEnd:
  assumes "sorted_cells (c # cs)" "AfterEnd r (fst c)"
  shows "filter (selects r cfs inclusive) (c # cs) = []"
  using assms AfterEnd_mono by (auto simp: selects_def filter_empty_conv)

lemma slice_skip_spec:
  "slice_wf s \<Longrightarrow> slice_ready (slice_skip s) \<and> slice_rem (slice_skip s) = slice_rem s \<and>
     cells (slice_skip s) = cells s"
proof (induction s rule: slice_skip.induct)
  case (1 s)
  show ?case
  proof (cases "spos s < length (cells s)")
    case True
    let ?c = "cells s ! spos s" and ?rest = "drop (Suc (spos s)) (cells s)"
    have d: "drop (spos s) (cells s) = ?c # ?rest"
      using True by (simp add: Cons_nth_drop_Suc)
    have sorted: "sorted_cells (?c # ?rest)"
      using "1.prems" sorted_cells_drop [of "cells s" "spos s"] by (simp add: slice_wf_def d)
    have wf: "slice_wf (s\<lparr>spos := spos s + 1\<rparr>)"
      using "1.prems" by (simp add: slice_wf_def)
    consider (before) "BeforeStart (srng s) (fst ?c)"
      | (after) "\<not> BeforeStart (srng s) (fst ?c)" "AfterEnd (srng s) (fst ?c)"
      | (family) "\<not> BeforeStart (srng s) (fst ?c)" "\<not> AfterEnd (srng s) (fst ?c)"
          "\<not> cfAllowed (ColumnFamily (fst ?c)) (scfs s) (sinclusive s)"
      | (top) "selects (srng s) (scfs s) (sinclusive s) ?c"
      by (auto simp: selects_def)
    then show ?thesis
    proof cases
      case before
      then have "slice_skip s = slice_skip (s\<lparr>spos := spos s + 1\<rparr>)"
        using True by (simp add: slice_skip.simps [of s])
      moreover have "slice_rem (s\<lparr>spos := spos s + 1\<rparr>) = slice_rem s"
        using before d by (simp add: slice_rem_def selects_def)
      ultimately show ?thesis
        using "1.IH"(1) [OF True refl before] wf by simp
    next
      case after
      then have "slice_skip s = s\<lparr>spos := length (cells s)\<rparr>"
        using True by (simp add: slice_skip.simps [of s])
      with after "1.prems" filter_selects_AfterEnd [OF sorted] d show ?thesis
        by (simp add: slice_rem_def slice_ready_def slice_wf_def)
    next
      case family
      then have "slice_skip s = slice_skip (s\<lparr>spos := spos s + 1\<rparr>)"
        using True by (simp add: slice_skip.simps [of s])
      moreover have "slice_rem (s\<lparr>spos := spos s + 1\<rparr>) = slice_rem s"
        using family d by (simp add: slice_rem_def selects_def)
      ultimately show ?thesis
        using "1.IH"(2) [OF True refl family] wf by simp
    next
      case top
      then have "slice_skip s = s"
        using True by (simp add: slice_skip.simps [of s] selects_def)
      with top "1.prems" show ?thesis
        by (simp add: slice_ready_def)
    qed
  next
    case False
    then have "slice_skip s = s"
      by (simp add: slice_skip.simps [of s])
    with False "1.prems" show ?thesis
      by (simp add: slice_ready_def)
  qed
qed

lemma slice_skip_fields [simp]:
  "srng (slice_skip s) = srng s" "scfs (slice_skip s) = scfs s"
  "sinclusive (slice_skip s) = sinclusive s" "cells (slice_skip s) = cells s"
  by (induction s rule: slice_skip.induct; subst slice_skip.simps; simp add: Let_def)+

lemma slice_rem_ready:
  "slice_ready s \<Longrightarrow> slice_rem s =
     (if spos s < length (cells s)
      then cells s ! spos s # slice_rem (s\<lparr>spos := spos s + 1\<rparr>) else [])"
  by (auto simp: slice_ready_def slice_rem_def simp flip: Cons_nth_drop_Suc)

lemmas slice_defs = slice_skvi_def slice_HasTop_def slice_GetTopKey_def slice_GetTopValue_def

interpretation slice: skvi slice_skvi slice_wf slice_ready slice_rem slice_view
proof
  fix s r cfs inclusive
  assume "slice_wf s"
  then have wf: "slice_wf (s\<lparr>srng := r, scfs := cfs, sinclusive := inclusive, spos := 0\<rparr>)"
    by (simp add: slice_wf_def)
  from slice_skip_spec [OF this]
  show "\<exists>s'. Seek slice_skvi r cfs inclusive s = Some (s', None) \<and> slice_ready s' \<and>
      slice_rem s' = slice_view s r cfs inclusive \<and> slice_view s' = slice_view s"
    by (auto simp: slice_skvi_def slice_Seek_def slice_rem_def slice_view_def fun_eq_iff)
next
  fix s c cs
  assume r: "slice_ready s" "slice_rem s = c # cs"
  then have "spos s < length (cells s)" and cs: "cs = slice_rem (s\<lparr>spos := spos s + 1\<rparr>)"
    and c: "c = cells s ! spos s"
    by (auto simp: slice_rem_ready split: if_splits)
  moreover have "slice_wf (s\<lparr>spos := spos s + 1\<rparr>)"
    using r by (simp add: slice_ready_def slice_wf_def)
  ultimately show "\<exists>s'. Next slice_skvi s = Some (s', None) \<and> slice_ready s' \<and> slice_rem s' = cs \<and>
      slice_view s' = slice_view s"
    using slice_skip_spec [of "s\<lparr>spos := spos s + 1\<rparr>"]
    by (auto simp: slice_skvi_def slice_Next_def slice_view_def fun_eq_iff)
  show "GetTopKey slice_skvi s = Some (fst c)" "GetTopValue slice_skvi s = snd c"
    using c \<open>spos s < length (cells s)\<close> by (simp_all add: slice_defs)
next
  fix s
  assume "slice_ready s"
  then show "HasTop slice_skvi s \<longleftrightarrow> slice_rem s \<noteq> []"
    by (simp add: slice_rem_ready slice_defs)
  show "sorted_cells (slice_rem s)"
    using \<open>slice_ready s\<close> by (simp add: slice_rem_def slice_ready_def slice_wf_def sorted_cells_drop)
qed (simp add: slice_ready_def)

section \<open>Properties\<close>

text \<open>
  Seeking a \<^verbatim>\<open>SliceSource\<close> over sorted cells to any range and family set and draining
  it returns exactly the cells of the slice that the range contains and the families
  admit, in order and without an error.
\<close>

theorem slice_scan_selects:
  assumes "sorted_cells cs"
  shows "\<exists>s. slice_Seek r cfs inclusive (NewSliceSource cs) = Some (s, None) \<and>
    drain_loop slice_skvi [] s =
      Some (filter (\<lambda>c. Contains r (fst c) \<and> cfAllowed (ColumnFamily (fst c)) cfs inclusive) cs, None)"
proof -
  have "slice_wf (NewSliceSource cs)"
    using assms by (simp add: slice_wf_def NewSliceSource_def)
  from slice.scan_spec [OF this, of r cfs inclusive] show ?thesis
    by (simp add: slice_skvi_def slice_view_def NewSliceSource_def selects_def [abs_def] Contains_iff)
qed

end
