(* ===== verification/Cell_Spec.thy ===== *)
theory Cell_Spec
  imports Iter_Core "HOL-Library.Sublist" "HOL-Library.Multiset"
begin

text \<open>
  The abstract store. A sorted cell list is cut into runs, one for each coordinate
  (row, family, qualifier, visibility), and the engine's semantics are stated run by
  run: \<open>versions n\<close> keeps the first \<open>n\<close> cells of each run, \<open>suppress propagate\<close> drops
  what follows the first tombstone of a run and, unless tombstones are propagated, the
  tombstone too. \<open>merge2\<close> and \<open>merge_all\<close> merge sorted streams, earlier streams first
  among identical keys.

  The lemmas are the algebra these operations satisfy. They rest on one principle:
  two sorted lists are equal if they agree on every coordinate.
\<close>

section \<open>Runs\<close>

abbreviation same_coord :: "cell \<Rightarrow> cell \<Rightarrow> bool" where
  "same_coord c d \<equiv> coord (fst d) = coord (fst c)"

function per_coord :: "(cell list \<Rightarrow> cell list) \<Rightarrow> cell list \<Rightarrow> cell list" where
  "per_coord f [] = []"
| "per_coord f (c # cs) = f (c # takeWhile (same_coord c) cs) @ per_coord f (dropWhile (same_coord c) cs)"
  by pat_completeness auto
termination
  by (relation "measure (length \<circ> snd)") (auto simp: le_imp_less_Suc length_dropWhile_le)

definition versions :: "nat \<Rightarrow> cell list \<Rightarrow> cell list" where
  "versions n = per_coord (take n)"

fun suppress_run :: "bool \<Rightarrow> cell list \<Rightarrow> cell list" where
  "suppress_run propagate [] = []"
| "suppress_run propagate (c # cs) =
     (if Deleted (fst c) then (if propagate then [c] else []) else c # suppress_run propagate cs)"

definition suppress :: "bool \<Rightarrow> cell list \<Rightarrow> cell list" where
  "suppress propagate = per_coord (suppress_run propagate)"

abbreviation at_coord :: "bytes \<times> bytes \<times> bytes \<times> bytes \<Rightarrow> cell list \<Rightarrow> cell list" where
  "at_coord x cs \<equiv> filter (\<lambda>c. coord (fst c) = x) cs"

lemma sorted_cells_Cons:
  "sorted_cells (c # cs) \<longleftrightarrow> (\<forall>d\<in>set cs. fst c \<le> fst d) \<and> sorted_cells cs"
  by auto

lemma sorted_cells_dropWhile: "sorted_cells cs \<Longrightarrow> sorted_cells (dropWhile p cs)"
  by (metis dropWhile_eq_drop sorted_cells_drop)

lemma sorted_cells_tl: "sorted_cells (c # cs) \<Longrightarrow> sorted_cells cs"
  by simp

text \<open>In a sorted list the cells of a coordinate are contiguous.\<close>

lemma dropWhile_same_coord:
  assumes "sorted_cells (c # cs)"
  shows "\<forall>d\<in>set (dropWhile (same_coord c) cs). coord (fst c) < coord (fst d)"
  using assms
proof (induction cs)
  case (Cons d cs)
  then have ih: "\<forall>d\<in>set (dropWhile (same_coord c) cs). coord (fst c) < coord (fst d)"
    and le: "coord (fst c) \<le> coord (fst d)" and ds: "\<forall>e\<in>set cs. coord (fst d) \<le> coord (fst e)"
    by (auto simp: key_le_coord)
  show ?case
  proof (cases "same_coord c d")
    case False
    with le ds have "coord (fst c) < coord (fst d)" by simp
    with False ds show ?thesis by auto
  qed (use ih in simp)
qed simp

lemma run_eq_at_coord:
  assumes "sorted_cells (c # cs)"
  shows "takeWhile (same_coord c) cs = at_coord (coord (fst c)) cs"
    and "dropWhile (same_coord c) cs = filter (\<lambda>d. coord (fst d) \<noteq> coord (fst c)) cs"
proof -
  have "\<forall>d\<in>set (dropWhile (same_coord c) cs). coord (fst d) \<noteq> coord (fst c)"
    using dropWhile_same_coord [OF assms] by force
  from filter_eq_takeWhile [OF this]
  show "takeWhile (same_coord c) cs = at_coord (coord (fst c)) cs"
    "dropWhile (same_coord c) cs = filter (\<lambda>d. coord (fst d) \<noteq> coord (fst c)) cs"
    by simp_all
qed

text \<open>
  A run function that invents no cell acts on each coordinate alone, and a sorted list
  is determined by its coordinates.
\<close>

definition run_op :: "(cell list \<Rightarrow> cell list) \<Rightarrow> bool" where
  "run_op f \<longleftrightarrow> f [] = [] \<and> (\<forall>cs. subseq (f cs) cs)"

lemma run_op_subset: "run_op f \<Longrightarrow> set (f cs) \<subseteq> set cs"
  unfolding run_op_def by (auto dest: list_emb_set)

lemma run_op_take [simp]: "run_op (take n)"
  by (simp add: run_op_def prefix_imp_subseq take_is_prefix)

lemma run_op_suppress [simp]: "run_op (suppress_run propagate)"
proof -
  have "subseq (suppress_run propagate cs) cs" for cs
    by (induction cs) auto
  then show ?thesis by (simp add: run_op_def)
qed

lemma at_coord_per_coord:
  assumes "run_op f"
  shows "sorted_cells cs \<Longrightarrow> at_coord x (per_coord f cs) = f (at_coord x cs)"
  using assms
proof (induction f cs rule: per_coord.induct)
  case (2 f c cs)
  let ?r = "c # takeWhile (same_coord c) cs" and ?rest = "dropWhile (same_coord c) cs"
  note run = run_eq_at_coord [OF "2.prems"(1)]
  have nil: "f [] = []"
    using "2.prems"(2) by (simp add: run_op_def)
  have r: "\<forall>d\<in>set (f ?r). coord (fst d) = coord (fst c)"
    using run_op_subset [OF "2.prems"(2), of ?r] by (auto dest: set_takeWhileD)
  have rest: "at_coord x (per_coord f ?rest) = f (at_coord x ?rest)"
    using "2.IH" [OF sorted_cells_dropWhile [OF sorted_cells_tl [OF "2.prems"(1)]] "2.prems"(2)] .
  show ?case
  proof (cases "coord (fst c) = x")
    case True
    have "at_coord x (f ?r) = f ?r" by (rule filter_True) (use r True in blast)
    moreover have "at_coord x ?rest = []"
      unfolding run(2) using True by (simp add: filter_empty_conv)
    moreover have "c # takeWhile (same_coord c) cs = at_coord x (c # cs)"
      using run(1) True by simp
    ultimately show ?thesis
      unfolding per_coord.simps filter_append rest by (simp only: nil append_Nil2)
  next
    case False
    have "at_coord x (f ?r) = []" by (rule filter_False) (use r False in metis)
    moreover have "at_coord x ?rest = at_coord x cs"
      unfolding run(2) filter_filter by (rule filter_cong) (use False in auto)
    ultimately show ?thesis
      unfolding per_coord.simps filter_append rest using False by simp
  qed
qed (simp add: run_op_def)

lemma sorted_cells_subseq: "subseq cs ds \<Longrightarrow> sorted_cells ds \<Longrightarrow> sorted_cells cs"
proof (induction rule: list_emb.induct)
  case (list_emb_Cons2 c d cs ds)
  moreover have "set cs \<subseteq> set ds"
    using list_emb_Cons2.hyps(2) by (auto dest: list_emb_set)
  ultimately show ?case by auto
qed auto

lemma per_coord_subseq:
  assumes "run_op f"
  shows "subseq (per_coord f cs) cs"
  using assms
proof (induction f cs rule: per_coord.induct)
  case (2 f c cs)
  then have "subseq (f (c # takeWhile (same_coord c) cs) @ per_coord f (dropWhile (same_coord c) cs))
     ((c # takeWhile (same_coord c) cs) @ dropWhile (same_coord c) cs)"
    by (intro list_emb_append_mono) (auto simp: run_op_def)
  then show ?case by simp
qed simp

lemma sorted_per_coord [simp]: "run_op f \<Longrightarrow> sorted_cells cs \<Longrightarrow> sorted_cells (per_coord f cs)"
  using per_coord_subseq sorted_cells_subseq by blast

lemma sorted_coord_eqI:
  assumes "sorted_cells cs" "sorted_cells ds" "\<And>x. at_coord x cs = at_coord x ds"
  shows "cs = ds"
  using assms
proof (induction cs arbitrary: ds)
  case Nil
  show ?case
  proof (cases ds)
    case (Cons d ds')
    with Nil.prems(3) [of "coord (fst d)"] show ?thesis by simp
  qed simp
next
  case (Cons c cs)
  let ?x = "coord (fst c)"
  obtain d ds' where ds: "ds = d # ds'"
    using Cons.prems(3) [of ?x] by (cases ds) auto
  have "c \<in> set (at_coord ?x ds)"
    unfolding Cons.prems(3) [of ?x, symmetric] by simp
  then have c: "c \<in> set ds" by simp
  have "d \<in> set (at_coord (coord (fst d)) (c # cs))"
    unfolding Cons.prems(3) [of "coord (fst d)"] ds by simp
  then have "d \<in> set (c # cs)" unfolding set_filter by blast
  with c have "fst c \<le> fst d" "fst d \<le> fst c"
    using Cons.prems(1,2) unfolding ds sorted_cells_Cons by fastforce+
  then have "coord (fst d) = ?x" by force
  with Cons.prems(3) [of ?x] have "d = c" unfolding ds by (simp only: filter.simps refl if_True list.inject)
  moreover have "cs = ds'"
  proof (rule Cons.IH)
    show "at_coord x cs = at_coord x ds'" for x
      using Cons.prems(3) [of x] unfolding ds \<open>d = c\<close>
      by (cases "coord (fst c) = x") (simp_all only: filter.simps refl if_True if_False list.inject)
  qed (use Cons.prems(1,2) ds in auto)
  ultimately show ?case using ds by simp
qed

section \<open>Ranges of a sorted list\<close>

lemma filter_downward:
  assumes "sorted_cells cs" and down: "\<And>c d. Q d \<Longrightarrow> fst c \<le> fst d \<Longrightarrow> Q c"
  shows "filter Q cs = takeWhile Q cs" "filter (\<lambda>c. \<not> Q c) cs = dropWhile Q cs"
proof -
  have "\<forall>d\<in>set (dropWhile Q cs). \<not> Q d"
    using assms(1)
  proof (induction cs)
    case (Cons c cs)
    show ?case
    proof (cases "Q c")
      case True
      then show ?thesis
        using Cons.IH [OF sorted_cells_tl [OF Cons.prems]] by (simp only: dropWhile.simps if_True)
    next
      case False
      moreover have "\<not> Q d" if "d \<in> set cs" for d
        using Cons.prems False that down [of d c] by auto
      ultimately show ?thesis by simp
    qed
  qed simp
  then show "filter Q cs = takeWhile Q cs" "filter (\<lambda>c. \<not> Q c) cs = dropWhile Q cs"
    by (rule filter_eq_takeWhile)+
qed

lemma filter_not_AfterEnd:
  assumes "sorted_cells cs"
  shows "filter (\<lambda>c. \<not> AfterEnd r (fst c)) cs = takeWhile (\<lambda>c. \<not> AfterEnd r (fst c)) cs"
  using filter_downward(1) [OF assms, of "\<lambda>c. \<not> AfterEnd r (fst c)"] AfterEnd_mono by blast

lemma filter_not_BeforeStart:
  assumes "sorted_cells cs"
  shows "filter (\<lambda>c. \<not> BeforeStart r (fst c)) cs = dropWhile (\<lambda>c. BeforeStart r (fst c)) cs"
  using filter_downward(2) [OF assms, of "\<lambda>c. BeforeStart r (fst c)"] BeforeStart_mono by blast

section \<open>Merging sorted streams\<close>

fun merge2 :: "cell list \<Rightarrow> cell list \<Rightarrow> cell list" where
  "merge2 [] ds = ds"
| "merge2 (c # cs) [] = c # cs"
| "merge2 (c # cs) (d # ds) =
     (if fst c \<le> fst d then c # merge2 cs (d # ds) else d # merge2 (c # cs) ds)"

definition merge_all :: "cell list list \<Rightarrow> cell list" where
  "merge_all css = foldr merge2 css []"

lemma merge_all_simps [simp]:
  "merge_all [] = []" "merge_all (cs # css) = merge2 cs (merge_all css)"
  by (simp_all add: merge_all_def)

lemma merge2_Nil2 [simp]: "merge2 cs [] = cs"
  by (cases cs) auto

lemma mset_merge2 [simp]: "mset (merge2 cs ds) = mset cs + mset ds"
  by (induction cs ds rule: merge2.induct) auto

lemma set_merge2 [simp]: "set (merge2 cs ds) = set cs \<union> set ds"
  by (metis mset_merge2 set_mset_mset set_mset_union)

lemma sorted_merge2 [simp]: "sorted_cells cs \<Longrightarrow> sorted_cells ds \<Longrightarrow> sorted_cells (merge2 cs ds)"
  by (induction cs ds rule: merge2.induct) (auto simp: sorted_cells_Cons dest: order_trans)

lemma sorted_merge_all [simp]: "\<forall>cs\<in>set css. sorted_cells cs \<Longrightarrow> sorted_cells (merge_all css)"
  by (induction css) auto

lemma mset_merge_all: "mset (merge_all css) = sum_list (map mset css)"
  by (induction css) auto

lemma merge2_Cons_all_le: "\<forall>d\<in>set ds. fst c \<le> fst d \<Longrightarrow> merge2 (c # cs) ds = c # merge2 cs ds"
  by (cases ds) auto

lemma merge2_Cons_all_greater: "\<forall>c\<in>set cs. fst d < fst c \<Longrightarrow> merge2 cs (d # ds) = d # merge2 cs ds"
  by (cases cs) auto

lemma filter_merge2:
  "sorted_cells cs \<Longrightarrow> sorted_cells ds \<Longrightarrow> filter P (merge2 cs ds) = merge2 (filter P cs) (filter P ds)"
proof (induction cs ds rule: merge2.induct)
  case (3 c cs d ds)
  show ?case
  proof (cases "fst c \<le> fst d")
    case True
    with "3.prems"(2) have le: "\<forall>e\<in>set (filter P (d # ds)). fst c \<le> fst e" by auto
    have "filter P (merge2 cs (d # ds)) = merge2 (filter P cs) (filter P (d # ds))"
      using "3.IH"(1) [OF True] "3.prems" by simp
    with True merge2_Cons_all_le [OF le] show ?thesis by (cases "P c") auto
  next
    case False
    with "3.prems"(1) have gt: "\<forall>e\<in>set (filter P (c # cs)). fst d < fst e" by auto
    have "filter P (merge2 (c # cs) ds) = merge2 (filter P (c # cs)) (filter P ds)"
      using "3.IH"(2) [OF False] "3.prems" by simp
    with False merge2_Cons_all_greater [OF gt] show ?thesis by (cases "P d") auto
  qed
qed auto

lemma filter_merge_all:
  "\<forall>cs\<in>set css. sorted_cells cs \<Longrightarrow> filter P (merge_all css) = merge_all (map (filter P) css)"
  by (induction css) (auto simp: filter_merge2)

lemma merge2_append:
  "\<forall>c\<in>set cs. \<forall>d\<in>set ds. fst c \<le> fst d \<Longrightarrow> merge2 cs ds = cs @ ds"
  by (induction cs) (auto simp: merge2_Cons_all_le)

text \<open>Identical keys come out in the order of the streams they come from.\<close>

lemma merge_all_stable:
  assumes "\<forall>cs\<in>set css. sorted_cells cs"
  shows "filter (\<lambda>c. fst c = k) (merge_all css) = concat (map (filter (\<lambda>c. fst c = k)) css)"
proof -
  have "merge_all (map (filter (\<lambda>c. fst c = k)) css) = concat (map (filter (\<lambda>c. fst c = k)) css)"
  proof (induction css)
    case (Cons cs css)
    then show ?case
      by (simp only: list.map merge_all_simps concat.simps) (rule merge2_append, auto)
  qed simp
  with filter_merge_all [OF assms] show ?thesis by simp
qed

lemma merge2_assoc: "merge2 (merge2 as bs) cs = merge2 as (merge2 bs cs)"
proof (induction as bs arbitrary: cs rule: merge2.induct)
  case (3 a as b bs)
  show ?case
  proof (induction cs)
    case (Cons c cs)
    then show ?case
      using "3.IH" by (auto split: if_splits)
  qed simp
qed auto

section \<open>The algebra of versions and tombstones\<close>

lemma take_merge2:
  "n \<le> m \<Longrightarrow> take n (merge2 (take m cs) ds) = take n (merge2 cs ds)"
  "n \<le> m \<Longrightarrow> take n (merge2 cs (take m ds)) = take n (merge2 cs ds)"
proof (induction cs ds arbitrary: n m rule: merge2.induct)
  case (3 c cs d ds)
  {
    case 1
    then show ?case
      using "3.IH"(1) "3.IH"(3) [of "n - 1" m] by (cases n; cases m) (auto split: if_splits)
  next
    case 2
    then show ?case
      using "3.IH"(4) "3.IH"(2) [of "n - 1" m] by (cases n; cases m) (auto split: if_splits)
  }
qed auto

lemma suppress_run_idem [simp]: "suppress_run p (suppress_run True cs) = suppress_run p cs"
  by (induction cs) auto

lemma suppress_run_merge2:
  "suppress_run p (merge2 (suppress_run True cs) ds) = suppress_run p (merge2 cs ds)"
  "suppress_run p (merge2 cs (suppress_run True ds)) = suppress_run p (merge2 cs ds)"
  by (induction cs ds rule: merge2.induct) auto

text \<open>
  Two per-coordinate operations on a merge agree if they agree on the merge of two runs;
  with it, compacting one input of a merge does not change what a reader of the merge sees.
\<close>

lemma per_coord_merge2_eqI:
  assumes "run_op f" "run_op g" "run_op h" "sorted_cells cs" "sorted_cells ds"
    and "\<And>as bs. f (merge2 (g as) (h bs)) = f (merge2 as bs)"
  shows "per_coord f (merge2 (per_coord g cs) (per_coord h ds)) = per_coord f (merge2 cs ds)"
proof (rule sorted_coord_eqI)
  fix x
  have "at_coord x (per_coord f (merge2 (per_coord g cs) (per_coord h ds))) =
      f (merge2 (g (at_coord x cs)) (h (at_coord x ds)))"
    using assms(1-5) by (simp add: at_coord_per_coord filter_merge2)
  also have "\<dots> = at_coord x (per_coord f (merge2 cs ds))"
    using assms by (simp add: at_coord_per_coord filter_merge2)
  finally show "at_coord x (per_coord f (merge2 (per_coord g cs) (per_coord h ds))) =
      at_coord x (per_coord f (merge2 cs ds))" .
qed (use assms in simp_all)

lemma versions_merge2:
  assumes "sorted_cells cs" "sorted_cells ds"
  shows "versions n (merge2 (versions n cs) (versions n ds)) = versions n (merge2 cs ds)"
  unfolding versions_def using assms by (intro per_coord_merge2_eqI) (simp_all add: take_merge2)

lemma suppress_merge2:
  assumes "sorted_cells cs" "sorted_cells ds"
  shows "suppress p (merge2 (suppress True cs) (suppress True ds)) = suppress p (merge2 cs ds)"
  unfolding suppress_def using assms by (intro per_coord_merge2_eqI) (simp_all add: suppress_run_merge2)

lemma sorted_versions [simp]: "sorted_cells cs \<Longrightarrow> sorted_cells (versions n cs)"
  by (simp add: versions_def)

lemma sorted_suppress [simp]: "sorted_cells cs \<Longrightarrow> sorted_cells (suppress p cs)"
  by (simp add: suppress_def)

lemma at_coord_versions: "sorted_cells cs \<Longrightarrow> at_coord x (versions n cs) = take n (at_coord x cs)"
  by (simp add: versions_def at_coord_per_coord)

lemma at_coord_suppress:
  "sorted_cells cs \<Longrightarrow> at_coord x (suppress p cs) = suppress_run p (at_coord x cs)"
  by (simp add: suppress_def at_coord_per_coord)

lemma per_coord_Nil [simp]: "versions n [] = []" "suppress p [] = []"
  by (simp_all add: versions_def suppress_def)

lemma suppress_idem: "sorted_cells cs \<Longrightarrow> suppress p (suppress True cs) = suppress p cs"
  using suppress_merge2 [of cs "[]" p] by simp

lemma versions_idem: "sorted_cells cs \<Longrightarrow> versions n (versions n cs) = versions n cs"
  using versions_merge2 [of cs "[]" n] by simp

lemma suppress_merge_all:
  "\<forall>cs\<in>set css. sorted_cells cs \<Longrightarrow>
     suppress p (merge_all (map (suppress True) css)) = suppress p (merge_all css)"
proof (induction css arbitrary: p)
  case (Cons cs css)
  let ?m = "merge_all css" and ?m' = "merge_all (map (suppress True) css)"
  have sorted: "sorted_cells cs" "sorted_cells ?m" "sorted_cells ?m'"
    using Cons.prems by auto
  have "suppress p (merge2 (suppress True cs) ?m') =
      suppress p (merge2 (suppress True (suppress True cs)) (suppress True ?m'))"
    using sorted by (simp add: suppress_merge2)
  also have "\<dots> = suppress p (merge2 (suppress True cs) (suppress True ?m))"
    using Cons sorted by (simp add: suppress_idem)
  also have "\<dots> = suppress p (merge2 cs ?m)"
    using sorted by (simp add: suppress_merge2)
  finally show ?case by simp
qed simp

lemma versions_merge_all:
  "\<forall>cs\<in>set css. sorted_cells cs \<Longrightarrow>
     versions n (merge_all (map (versions n) css)) = versions n (merge_all css)"
proof (induction css)
  case (Cons cs css)
  let ?m = "merge_all css" and ?m' = "merge_all (map (versions n) css)"
  have sorted: "sorted_cells cs" "sorted_cells ?m" "sorted_cells ?m'"
    using Cons.prems by auto
  have "versions n (merge2 (versions n cs) ?m') =
      versions n (merge2 (versions n (versions n cs)) (versions n ?m'))"
    using sorted by (simp add: versions_merge2)
  also have "\<dots> = versions n (merge2 (versions n cs) (versions n ?m))"
    using Cons sorted by (simp add: versions_idem)
  also have "\<dots> = versions n (merge2 cs ?m)"
    using sorted by (simp add: versions_merge2)
  finally show ?case by simp
qed simp

end
