(* ===== verification/Iter_Versioning.thy ===== *)
theory Iter_Versioning
  imports Cell_Spec
begin

text \<open>
  \<^verbatim>\<open>VersioningIterator\<close> of \<^verbatim>\<open>internal/iterrt/versioning.go\<close>: it surfaces the first
  \<open>maxVersions\<close> cells of each coordinate. Over any lawful source it is a lawful
  iterator, and its view is \<open>versions maxVersions\<close> of the source's view.
\<close>

section \<open>The iterator\<close>

record 's versioning =
  v_source :: 's
  v_maxVersions :: int
  v_coord :: "key option"
  v_numVersions :: int
  v_err :: "go_err option"

definition VersioningOption :: string where
  "VersioningOption = ''maxVersions''"

definition NewVersioningIterator :: "'s \<Rightarrow> 's versioning" where
  "NewVersioningIterator source =
     \<lparr>v_source = source, v_maxVersions = 1, v_coord = None, v_numVersions = 0, v_err = None\<rparr>"

text \<open>The iterator a failed \<^verbatim>\<open>Init\<close> leaves behind is discarded by every caller.\<close>

definition versioning_Init :: "'s option \<Rightarrow> options \<Rightarrow> environment \<Rightarrow> 's versioning res" where
  "versioning_Init source options env =
     (case source of
        None \<Rightarrow> Inl (Errorf ''iterrt: VersioningIterator requires a non-nil source'')
      | Some src \<Rightarrow>
          rbind (case options VersioningOption of
                   None \<Rightarrow> Inr 1
                 | Some s \<Rightarrow>
                     if s = '''' then Inr 1
                     else (case ParseInt s of
                         None \<Rightarrow> Inl (Errorf (''iterrt: VersioningIterator bad integer maxVersions: '' @ s))
                       | Some n \<Rightarrow> Inr n))
            (\<lambda>n. if n < 1
                 then Inl (Errorf ''iterrt: maxVersions for versioning iterator must be >= 1'')
                 else Inr ((NewVersioningIterator src)\<lparr>v_maxVersions := n\<rparr>)))"

definition resetRun :: "'s skvi \<Rightarrow> 's versioning \<Rightarrow> 's versioning" where
  "resetRun src v =
     v\<lparr>v_coord := (if HasTop src (v_source v) then map_option Clone (GetTopKey src (v_source v)) else None),
       v_numVersions := 1\<rparr>"

definition versioning_Seek ::
  "'s skvi \<Rightarrow> range \<Rightarrow> bytes list \<Rightarrow> bool \<Rightarrow> 's versioning \<Rightarrow> 's versioning step" where
  "versioning_Seek src r columnFamilies inclusive v =
     (case Seek src r columnFamilies inclusive (v_source v) of
        None \<Rightarrow> None
      | Some (s, Some e) \<Rightarrow> Some (v\<lparr>v_source := s, v_err := Some e\<rparr>, Some e)
      | Some (s, None) \<Rightarrow> Some (resetRun src (v\<lparr>v_source := s, v_err := None\<rparr>), None))"

text \<open>
  The loop's test reads \<^verbatim>\<open>skip != nil\<close> before it compares; with a nil \<open>skip\<close> the loop
  does not run.
\<close>

definition versioning_skipCoordinate :: "'s skvi \<Rightarrow> 's versioning \<Rightarrow> 's versioning step" where
  "versioning_skipCoordinate src v =
     (case Next src (v_source v) of
        None \<Rightarrow> None
      | Some (s, Some e) \<Rightarrow> Some (v\<lparr>v_source := s, v_err := Some e\<rparr>, Some e)
      | Some (s, None) \<Rightarrow>
          (case v_coord v of
             None \<Rightarrow> Some (v\<lparr>v_source := s\<rparr>, None)
           | Some skip \<Rightarrow>
               (case skip_while src (\<lambda>k. CompareRowCFCQCV k skip = 0) s of
                  None \<Rightarrow> None
                | Some (s', Some e) \<Rightarrow> Some (v\<lparr>v_source := s', v_err := Some e\<rparr>, Some e)
                | Some (s', None) \<Rightarrow> Some (v\<lparr>v_source := s'\<rparr>, None))))"

definition versioning_Next :: "'s skvi \<Rightarrow> 's versioning \<Rightarrow> 's versioning step" where
  "versioning_Next src v =
     (case v_err v of
        Some e \<Rightarrow> Some (v, Some e)
      | None \<Rightarrow>
          if \<not> HasTop src (v_source v)
          then Some (v, Some (Errorf ''iterrt: VersioningIterator.Next called without a top''))
          else if v_numVersions v \<ge> v_maxVersions v then
            (case versioning_skipCoordinate src v of
               None \<Rightarrow> None
             | Some (v', Some e) \<Rightarrow> Some (v', Some e)
             | Some (v', None) \<Rightarrow> Some (resetRun src v', None))
          else
            (case Next src (v_source v) of
               None \<Rightarrow> None
             | Some (s, Some e) \<Rightarrow> Some (v\<lparr>v_source := s, v_err := Some e\<rparr>, Some e)
             | Some (s, None) \<Rightarrow>
                 let v' = v\<lparr>v_source := s\<rparr> in
                 if \<not> HasTop src s then Some (v', None)
                 else (case v_coord v of
                     None \<Rightarrow> Some (resetRun src v', None)
                   | Some c \<Rightarrow>
                       (case GetTopKey src s of
                          None \<Rightarrow> None
                        | Some k \<Rightarrow>
                            if CompareRowCFCQCV k c = 0
                            then Some (v'\<lparr>v_numVersions := v_numVersions v + 1\<rparr>, None)
                            else Some (resetRun src v', None)))))"

definition versioning_HasTop :: "'s skvi \<Rightarrow> 's versioning \<Rightarrow> bool" where
  "versioning_HasTop src v \<longleftrightarrow> v_err v = None \<and> HasTop src (v_source v)"

definition versioning_GetTopKey :: "'s skvi \<Rightarrow> 's versioning \<Rightarrow> key option" where
  "versioning_GetTopKey src v =
     (if \<not> HasTop src (v_source v) then None else GetTopKey src (v_source v))"

definition versioning_GetTopValue :: "'s skvi \<Rightarrow> 's versioning \<Rightarrow> bytes" where
  "versioning_GetTopValue src v =
     (if \<not> HasTop src (v_source v) then [] else GetTopValue src (v_source v))"

text \<open>\<^verbatim>\<open>DeepCopy\<close>, over the source's own deep copy.\<close>

definition versioning_DeepCopy :: "('s \<Rightarrow> 's) \<Rightarrow> 's versioning \<Rightarrow> 's versioning" where
  "versioning_DeepCopy copy v =
     \<lparr>v_source = copy (v_source v), v_maxVersions = v_maxVersions v, v_coord = None,
      v_numVersions = 0, v_err = None\<rparr>"

definition versioning_skvi :: "'s skvi \<Rightarrow> 's versioning skvi" where
  "versioning_skvi src =
     \<lparr>Seek = versioning_Seek src, Next = versioning_Next src, HasTop = versioning_HasTop src,
      GetTopKey = versioning_GetTopKey src, GetTopValue = versioning_GetTopValue src\<rparr>"

section \<open>Correctness over any lawful source\<close>

lemma versioning_skvi_sel [simp]:
  "Seek (versioning_skvi src) = versioning_Seek src" "Next (versioning_skvi src) = versioning_Next src"
  "HasTop (versioning_skvi src) = versioning_HasTop src"
  "GetTopKey (versioning_skvi src) = versioning_GetTopKey src"
  "GetTopValue (versioning_skvi src) = versioning_GetTopValue src"
  by (simp_all add: versioning_skvi_def)

text \<open>What is left of a run of which the current cell is number \<open>m\<close>, and of the runs after it.\<close>

fun versions_from :: "nat \<Rightarrow> nat \<Rightarrow> cell list \<Rightarrow> cell list" where
  "versions_from n m [] = []"
| "versions_from n m (c # cs) =
     take (Suc n - m) (c # takeWhile (same_coord c) cs) @ versions n (dropWhile (same_coord c) cs)"

lemma versions_from_1: "versions_from n 1 cs = versions n cs"
  by (cases cs) (simp_all add: versions_def)

lemma versions_from_same:
  assumes "same_coord c d" "m < n"
  shows "versions_from n m (c # d # cs) = c # versions_from n (Suc m) (d # cs)"
  using assms by (simp add: Suc_diff_le take_Cons')

lemma versions_from_other:
  assumes "\<not> same_coord c d" "1 \<le> m" "m \<le> n"
  shows "versions_from n m (c # d # cs) = c # versions n (d # cs)"
  using assms by (simp add: Suc_diff_le take_Cons')

lemma versions_from_last: "1 \<le> m \<Longrightarrow> m \<le> n \<Longrightarrow> versions_from n m [c] = [c]"
  by (simp add: Suc_diff_le take_Cons')

lemma versions_from_full:
  assumes "1 \<le> n"
  shows "versions_from n n (c # cs) = c # versions n (dropWhile (same_coord c) cs)"
  using assms by (simp add: Suc_diff_le take_Cons')

definition versioning_wf :: "('s \<Rightarrow> bool) \<Rightarrow> 's versioning \<Rightarrow> bool" where
  "versioning_wf wf' v \<longleftrightarrow> wf' (v_source v) \<and> 1 \<le> v_maxVersions v"

definition versioning_ready :: "('s \<Rightarrow> bool) \<Rightarrow> ('s \<Rightarrow> cell list) \<Rightarrow> 's versioning \<Rightarrow> bool" where
  "versioning_ready ready rem v \<longleftrightarrow>
     ready (v_source v) \<and> v_err v = None \<and> 1 \<le> v_numVersions v \<and> v_numVersions v \<le> v_maxVersions v \<and>
     (rem (v_source v) \<noteq> [] \<longrightarrow>
        map_option coord (v_coord v) = Some (coord (fst (hd (rem (v_source v))))))"

definition versioning_rem :: "('s \<Rightarrow> cell list) \<Rightarrow> 's versioning \<Rightarrow> cell list" where
  "versioning_rem rem v =
     versions_from (nat (v_maxVersions v)) (nat (v_numVersions v)) (rem (v_source v))"

definition versioning_view ::
  "('s \<Rightarrow> range \<Rightarrow> bytes list \<Rightarrow> bool \<Rightarrow> cell list) \<Rightarrow>
   's versioning \<Rightarrow> range \<Rightarrow> bytes list \<Rightarrow> bool \<Rightarrow> cell list" where
  "versioning_view view v r cfs inclusive =
     versions (nat (v_maxVersions v)) (view (v_source v) r cfs inclusive)"

lemmas versioning_abs =
  versioning_wf_def versioning_ready_def versioning_rem_def versioning_view_def

lemma versions_from_subseq: "subseq (versions_from n m cs) cs"
proof (cases cs)
  case (Cons c ds)
  have "subseq (take (Suc n - m) (c # takeWhile (same_coord c) ds) @ versions n (dropWhile (same_coord c) ds))
    ((c # takeWhile (same_coord c) ds) @ dropWhile (same_coord c) ds)"
    by (rule list_emb_append_mono)
      (simp_all add: prefix_imp_subseq take_is_prefix versions_def per_coord_subseq)
  with Cons show ?thesis by simp
qed simp

context skvi
begin

lemma resetRun_spec:
  assumes "ready (v_source v)" "v_err v = None" "1 \<le> v_maxVersions v"
  shows "versioning_ready ready rem (resetRun ops v)"
    and "versioning_rem rem (resetRun ops v) = versions (nat (v_maxVersions v)) (rem (v_source v))"
    and "v_source (resetRun ops v) = v_source v" "v_maxVersions (resetRun ops v) = v_maxVersions v"
proof -
  have "map_option coord (v_coord (resetRun ops v)) = Some (coord (fst (hd (rem (v_source v)))))"
    if "rem (v_source v) \<noteq> []"
    using that top_law [OF assms(1)] key_law [OF assms(1)]
    by (cases "rem (v_source v)") (simp_all add: resetRun_def)
  with assms show "versioning_ready ready rem (resetRun ops v)"
    by (simp add: versioning_ready_def) (simp add: resetRun_def)
  show "versioning_rem rem (resetRun ops v) = versions (nat (v_maxVersions v)) (rem (v_source v))"
    using versions_from_1 by (simp add: versioning_rem_def resetRun_def)
qed (simp_all add: resetRun_def)

lemma versioning_seek:
  assumes "versioning_wf wf v"
  shows "\<exists>v'. versioning_Seek ops r cfs inclusive v = Some (v', None) \<and>
    versioning_ready ready rem v' \<and> versioning_rem rem v' = versioning_view view v r cfs inclusive \<and>
    versioning_view view v' = versioning_view view v"
proof -
  from assms obtain s where s: "Seek ops r cfs inclusive (v_source v) = Some (s, None)" "ready s"
      "rem s = view (v_source v) r cfs inclusive" "view s = view (v_source v)"
    using seek_law [of "v_source v" r cfs inclusive] by (auto simp: versioning_wf_def)
  with assms resetRun_spec [of "v\<lparr>v_source := s, v_err := None\<rparr>"] show ?thesis
    by (simp add: versioning_Seek_def versioning_view_def versioning_wf_def fun_eq_iff)
qed

lemma versioning_next_full:
  assumes v: "versioning_ready ready rem v" and cs: "rem (v_source v) = c # cs"
    and full: "v_numVersions v = v_maxVersions v"
  shows "\<exists>v'. versioning_Next ops v = Some (v', None) \<and> versioning_ready ready rem v' \<and>
    versioning_rem rem v' = versions (nat (v_maxVersions v)) (dropWhile (same_coord c) cs) \<and>
    view (v_source v') = view (v_source v) \<and> v_maxVersions v' = v_maxVersions v"
proof -
  obtain k where k: "v_coord v = Some k" "coord k = coord (fst c)"
    using v cs by (auto simp: versioning_ready_def)
  have src: "ready (v_source v)" "v_err v = None" "1 \<le> v_maxVersions v" "HasTop ops (v_source v)"
    using v cs top_law full by (auto simp: versioning_ready_def)
  obtain s where s: "Next ops (v_source v) = Some (s, None)" "ready s" "rem s = cs" "view s = view (v_source v)"
    using next_law [OF src(1) cs] by blast
  obtain s' where s': "skip_while ops (\<lambda>j. CompareRowCFCQCV j k = 0) s = Some (s', None)" "ready s'"
      "rem s' = dropWhile (same_coord c) cs" "view s' = view s"
    using skip_while_spec [OF s(2), of "\<lambda>j. CompareRowCFCQCV j k = 0"] s(3) k(2) by auto
  have "versioning_Next ops v = Some (resetRun ops (v\<lparr>v_source := s'\<rparr>), None)"
    using src full s s' k by (simp add: versioning_Next_def versioning_skipCoordinate_def)
  with resetRun_spec [of "v\<lparr>v_source := s'\<rparr>"] src s s' show ?thesis by simp
qed

lemma versioning_next_budget:
  assumes v: "versioning_ready ready rem v" and cs: "rem (v_source v) = c # cs"
    and budget: "v_numVersions v < v_maxVersions v"
  shows "\<exists>v'. versioning_Next ops v = Some (v', None) \<and> versioning_ready ready rem v' \<and>
    c # versioning_rem rem v' = versioning_rem rem v \<and>
    view (v_source v') = view (v_source v) \<and> v_maxVersions v' = v_maxVersions v"
proof -
  let ?n = "nat (v_maxVersions v)" and ?m = "nat (v_numVersions v)"
  obtain k where k: "v_coord v = Some k" "coord k = coord (fst c)"
    using v cs by (auto simp: versioning_ready_def)
  have src: "ready (v_source v)" "v_err v = None" "HasTop ops (v_source v)" "1 \<le> ?m" "?m < ?n"
    "1 \<le> v_numVersions v" "1 \<le> v_maxVersions v" "?m \<le> ?n"
    using v cs top_law budget by (auto simp: versioning_ready_def)
  obtain s where s: "Next ops (v_source v) = Some (s, None)" "ready s" "rem s = cs" "view s = view (v_source v)"
    using next_law [OF src(1) cs] by blast
  let ?v = "v\<lparr>v_source := s\<rparr>"
  show ?thesis
  proof (cases cs)
    case Nil
    then have "versioning_Next ops v = Some (?v, None)"
      using src budget s top_law [OF s(2)] by (simp add: versioning_Next_def)
    with Nil src s cs budget versions_from_last [OF src(4,8)] show ?thesis
      by (simp add: versioning_ready_def versioning_rem_def)
  next
    case (Cons d ds)
    have top: "HasTop ops s" "GetTopKey ops s = Some (fst d)"
      using top_law [OF s(2)] key_law [OF s(2)] s(3) Cons by simp_all
    show ?thesis
    proof (cases "same_coord c d")
      case True
      have "versioning_Next ops v = Some (?v\<lparr>v_numVersions := v_numVersions v + 1\<rparr>, None)"
        using src budget s top k True by (simp add: versioning_Next_def Let_def)
      with versions_from_same [OF True src(5)] src s cs Cons k True budget show ?thesis
        by (simp add: versioning_ready_def versioning_rem_def nat_add_distrib del: versions_from.simps)
    next
      case False
      have "versioning_Next ops v = Some (resetRun ops ?v, None)"
        using src budget s top k False by (simp add: versioning_Next_def Let_def)
      with versions_from_other [OF False src(4,8)] resetRun_spec [of ?v] src s cs Cons show ?thesis
        by (simp add: versioning_rem_def del: versions_from.simps)
    qed
  qed
qed

lemma versioning_rem_Cons:
  assumes "versioning_ready ready rem v"
  shows "versioning_rem rem v = [] \<longleftrightarrow> rem (v_source v) = []"
    and "rem (v_source v) = c # cs \<Longrightarrow> \<exists>ds. versioning_rem rem v = c # ds"
proof -
  have pos: "Suc (nat (v_maxVersions v)) - nat (v_numVersions v) =
      Suc (nat (v_maxVersions v) - nat (v_numVersions v))"
    using assms by (auto simp: versioning_ready_def)
  then show "versioning_rem rem v = [] \<longleftrightarrow> rem (v_source v) = []"
    by (cases "rem (v_source v)") (simp_all add: versioning_rem_def)
  show "rem (v_source v) = c # cs \<Longrightarrow> \<exists>ds. versioning_rem rem v = c # ds"
    using pos by (simp add: versioning_rem_def)
qed

lemma versioning_next:
  assumes "versioning_ready ready rem v" "versioning_rem rem v = c # cs"
  shows "\<exists>v'. versioning_Next ops v = Some (v', None) \<and> versioning_ready ready rem v' \<and>
    versioning_rem rem v' = cs \<and> versioning_view view v' = versioning_view view v"
proof -
  obtain ds where ds: "rem (v_source v) = c # ds"
    using versioning_rem_Cons [OF assms(1)] assms(2) by (cases "rem (v_source v)") fastforce+
  show ?thesis
  proof (cases "v_numVersions v < v_maxVersions v")
    case True
    from versioning_next_budget [OF assms(1) ds this] assms(2) show ?thesis
      by (auto simp: versioning_view_def fun_eq_iff)
  next
    case False
    then have full: "v_numVersions v = v_maxVersions v" and "1 \<le> nat (v_maxVersions v)"
      using assms(1) by (auto simp: versioning_ready_def)
    then have "cs = versions (nat (v_maxVersions v)) (dropWhile (same_coord c) ds)"
      using assms(2) versions_from_full [of "nat (v_maxVersions v)" c ds] ds full
      by (simp add: versioning_rem_def del: versions_from.simps)
    with versioning_next_full [OF assms(1) ds full] show ?thesis
      by (auto simp: versioning_view_def fun_eq_iff)
  qed
qed

lemma versioning_lawful:
  "skvi (versioning_skvi ops) (versioning_wf wf) (versioning_ready ready rem)
     (versioning_rem rem) (versioning_view view)"
proof
  fix v assume v: "versioning_ready ready rem v"
  show "versioning_wf wf v"
    using v ready_wf by (auto simp: versioning_abs)
  show "HasTop (versioning_skvi ops) v \<longleftrightarrow> versioning_rem rem v \<noteq> []"
    using v top_law versioning_rem_Cons(1) [OF v] by (auto simp: versioning_HasTop_def versioning_ready_def)
  show "sorted_cells (versioning_rem rem v)"
    using v sorted_law sorted_cells_subseq [OF versions_from_subseq]
    by (auto simp: versioning_rem_def versioning_ready_def)
next
  fix v c cs assume v: "versioning_ready ready rem v" "versioning_rem rem v = c # cs"
  then obtain ds where "rem (v_source v) = c # ds"
    using versioning_rem_Cons [OF v(1)] by (cases "rem (v_source v)") fastforce+
  then show "GetTopKey (versioning_skvi ops) v = Some (fst c)"
    "GetTopValue (versioning_skvi ops) v = snd c"
    using v(1) top_law key_law value_law
    by (auto simp: versioning_GetTopKey_def versioning_GetTopValue_def versioning_ready_def)
qed (simp_all add: versioning_seek versioning_next)

end

interpretation versioning_slice: skvi "versioning_skvi slice_skvi" "versioning_wf slice_wf"
  "versioning_ready slice_ready slice_rem" "versioning_rem slice_rem" "versioning_view slice_view"
  by (rule slice.versioning_lawful)

section \<open>Properties\<close>

text \<open>
  C23: a scan through a \<^verbatim>\<open>VersioningIterator\<close> that \<^verbatim>\<open>Init\<close> accepted returns, at every
  coordinate, the first \<open>n\<close> of the cells the range selects there (the newest, since a
  coordinate is sorted newest first), in key order and without an error, where \<open>n\<close> is the
  option \<^verbatim>\<open>maxVersions\<close>, or 1 if it is not set.
\<close>

theorem versioning_scan:
  assumes "sorted_cells cs" "versioning_Init (Some (NewSliceSource cs)) options env = Inr v"
  shows "\<exists>v' out. versioning_Seek slice_skvi r cfs inclusive v = Some (v', None) \<and>
    drain_loop (versioning_skvi slice_skvi) [] v' = Some (out, None) \<and> sorted_cells out \<and>
    (\<forall>x. at_coord x out = take (nat (v_maxVersions v)) (at_coord x (filter (selects r cfs inclusive) cs))) \<and>
    1 \<le> v_maxVersions v \<and>
    (options VersioningOption = None \<longrightarrow> v_maxVersions v = 1) \<and>
    (\<forall>s. options VersioningOption = Some s \<longrightarrow> (if s = '''' then v_maxVersions v = 1 else ParseInt s = Some (v_maxVersions v)))"
proof -
  let ?sel = "filter (selects r cfs inclusive) cs"
  have v: "v_source v = NewSliceSource cs" "1 \<le> v_maxVersions v"
    using assms(2) by (auto simp: versioning_Init_def NewVersioningIterator_def res_simps split: if_splits)
  have opt: "options VersioningOption = None \<longrightarrow> v_maxVersions v = 1"
    "options VersioningOption = Some s \<longrightarrow> (if s = '''' then v_maxVersions v = 1 else ParseInt s = Some (v_maxVersions v))" for s
    using assms(2)
    by (auto simp: versioning_Init_def NewVersioningIterator_def res_simps split: if_splits option.splits)
  have "versioning_wf slice_wf v"
    using assms(1) v by (simp add: versioning_wf_def slice_wf_def NewSliceSource_def)
  from versioning_slice.scan_spec [OF this, of r cfs inclusive] v
  obtain v' where v': "versioning_Seek slice_skvi r cfs inclusive v = Some (v', None)"
    "drain_loop (versioning_skvi slice_skvi) [] v' = Some (versions (nat (v_maxVersions v)) ?sel, None)"
    by (auto simp: versioning_view_def slice_view_def NewSliceSource_def)
  have "sorted_cells ?sel" using assms(1) by simp
  then have "sorted_cells (versions n ?sel)" "at_coord x (versions n ?sel) = take n (at_coord x ?sel)" for n x
    by (simp_all add: at_coord_versions del: filter_filter)
  note out = v' this v(2) opt
  show ?thesis
    by (intro exI [of _ v'] exI [of _ "versions (nat (v_maxVersions v)) ?sel"] conjI allI) (rule out)+
qed

theorem versioning_scan_witness:
  "\<exists>v'. versioning_Seek slice_skvi InfiniteRange [] False
       (NewVersioningIterator (NewSliceSource [(example_key 9 False, [2]), (example_key 7 False, [1])])) =
       Some (v', None) \<and>
     (\<exists>out. drain_loop (versioning_skvi slice_skvi) [] v' = Some (out, None) \<and>
        at_coord (coord (example_key 9 False)) out = [(example_key 9 False, [2])])"
proof -
  let ?cs = "[(example_key 9 False, [2]), (example_key 7 False, [1])]"
  let ?env = "\<lparr>Scope = ScopeScan, FullMajorCompaction = False, Authorizations = None\<rparr>"
  have "sorted_cells ?cs" by code_simp
  moreover have "versioning_Init (Some (NewSliceSource ?cs)) Map.empty ?env = Inr (NewVersioningIterator (NewSliceSource ?cs))"
    by (simp add: versioning_Init_def NewVersioningIterator_def)
  ultimately obtain v' out where *: "versioning_Seek slice_skvi InfiniteRange [] False
        (NewVersioningIterator (NewSliceSource ?cs)) = Some (v', None)"
      "drain_loop (versioning_skvi slice_skvi) [] v' = Some (out, None)"
      "at_coord (coord (example_key 9 False)) out =
        take (nat (v_maxVersions (NewVersioningIterator (NewSliceSource ?cs))))
          (at_coord (coord (example_key 9 False)) (filter (selects InfiniteRange [] False) ?cs))"
    using versioning_scan [of ?cs Map.empty ?env _ InfiniteRange "[]" False] by blast
  have "take (nat (v_maxVersions (NewVersioningIterator (NewSliceSource ?cs))))
      (at_coord (coord (example_key 9 False)) (filter (selects InfiniteRange [] False) ?cs)) =
    [(example_key 9 False, [2])]"
    by (simp add: coord_def example_key_def NewVersioningIterator_def)
  with * show ?thesis by metis
qed

end
