(* ===== verification/Iter_Deleting.thy ===== *)
theory Iter_Deleting
  imports Cell_Spec
begin

text \<open>
  \<^verbatim>\<open>DeletingIterator\<close> of \<^verbatim>\<open>internal/iterrt/deleting.go\<close>: a tombstone hides the older
  cells of its coordinate, and is itself surfaced only when deletes are propagated. Over
  any lawful source, in the mode \<open>process\<close>, it is a lawful iterator whose view is
  \<open>suppress\<close> of the source's view from the maximized start key, without the cells
  before the requested start.
\<close>

section \<open>The iterator\<close>

datatype DeletingBehavior = DeletingProcess | DeletingFail

record 's deleting =
  d_source :: 's
  d_propagateDeletes :: bool
  d_behavior :: DeletingBehavior
  d_err :: "go_err option"

definition DeletingOptionPropagate :: string where
  "DeletingOptionPropagate = ''propagateDeletes''"

definition DeletingOptionBehavior :: string where
  "DeletingOptionBehavior = ''behavior''"

definition NewDeletingIterator :: "'s \<Rightarrow> 's deleting" where
  "NewDeletingIterator source =
     \<lparr>d_source = source, d_propagateDeletes = False, d_behavior = DeletingProcess, d_err = None\<rparr>"

definition deleting_Init :: "'s option \<Rightarrow> options \<Rightarrow> environment \<Rightarrow> 's deleting res" where
  "deleting_Init source options env =
     (case source of
        None \<Rightarrow> Inl (Errorf ''iterrt: DeletingIterator requires a non-nil source'')
      | Some src \<Rightarrow>
          rbind (case options DeletingOptionPropagate of
                   None \<Rightarrow> Inr (\<not> (Scope env = ScopeMajc \<and> FullMajorCompaction env))
                 | Some s \<Rightarrow>
                     if s = '''' then Inr (\<not> (Scope env = ScopeMajc \<and> FullMajorCompaction env))
                     else (case ParseBool s of
                         None \<Rightarrow> Inl (Errorf (''iterrt: DeletingIterator bad propagateDeletes='' @ s))
                       | Some b \<Rightarrow> Inr b))
            (\<lambda>prop. rbind (case options DeletingOptionBehavior of
                   None \<Rightarrow> Inr DeletingProcess
                 | Some s \<Rightarrow>
                     if s = '''' then Inr DeletingProcess
                     else if s = ''process'' \<or> s = ''PROCESS'' then Inr DeletingProcess
                     else if s = ''fail'' \<or> s = ''FAIL'' then Inr DeletingFail
                     else Inl (Errorf (''iterrt: DeletingIterator bad behavior='' @ s @ '' (want process|fail)'')))
            (\<lambda>behavior. Inr ((NewDeletingIterator src)
                 \<lparr>d_propagateDeletes := prop, d_behavior := behavior\<rparr>))))"

text \<open>The comparator on coordinate and timestamp, without the delete flag.\<close>

definition compareRowCFCQCVTime :: "key \<Rightarrow> key \<Rightarrow> int" where
  "compareRowCFCQCVTime a b =
     (let c = bytes_Compare (Row a) (Row b) in if c \<noteq> 0 then c else
      let c = bytes_Compare (ColumnFamily a) (ColumnFamily b) in if c \<noteq> 0 then c else
      let c = bytes_Compare (ColumnQualifier a) (ColumnQualifier b) in if c \<noteq> 0 then c else
      let c = bytes_Compare (ColumnVisibility a) (ColumnVisibility b) in if c \<noteq> 0 then c else
      if Timestamp a \<noteq> Timestamp b then
        (if ts_less (Timestamp b) (Timestamp a) then -1 else 1)
      else 0)"

definition deleting_skipCoordinate :: "'s skvi \<Rightarrow> 's deleting \<Rightarrow> 's deleting step" where
  "deleting_skipCoordinate src d =
     (case GetTopKey src (d_source d) of
        None \<Rightarrow> None
      | Some k \<Rightarrow>
          (let skip = Clone k in
           case Next src (d_source d) of
             None \<Rightarrow> None
           | Some (s, Some e) \<Rightarrow> Some (d\<lparr>d_source := s, d_err := Some e\<rparr>, Some e)
           | Some (s, None) \<Rightarrow>
               (case skip_while src (\<lambda>k. CompareRowCFCQCV k skip = 0) s of
                  None \<Rightarrow> None
                | Some (s', Some e) \<Rightarrow> Some (d\<lparr>d_source := s', d_err := Some e\<rparr>, Some e)
                | Some (s', None) \<Rightarrow> Some (d\<lparr>d_source := s'\<rparr>, None))))"

partial_function (option) findTop_loop :: "'s skvi \<Rightarrow> 's deleting \<Rightarrow> 's deleting step" where
  "findTop_loop src d =
     (if \<not> HasTop src (d_source d) then Some (d, None)
      else case GetTopKey src (d_source d) of
        None \<Rightarrow> None
      | Some k \<Rightarrow>
          if \<not> Deleted k then Some (d, None)
          else (case deleting_skipCoordinate src d of
            None \<Rightarrow> None
          | Some (d', e) \<Rightarrow>
              (case e of None \<Rightarrow> findTop_loop src d' | Some x \<Rightarrow> Some (d', Some x))))"

definition deleting_findTop :: "'s skvi \<Rightarrow> 's deleting \<Rightarrow> 's deleting step" where
  "deleting_findTop src d =
     (if d_propagateDeletes d then Some (d, None) else findTop_loop src d)"

definition deleting_advance :: "'s skvi \<Rightarrow> 's deleting \<Rightarrow> 's deleting step" where
  "deleting_advance src d =
     (case d_err d of
        Some e \<Rightarrow> Some (d, Some e)
      | None \<Rightarrow>
          if \<not> HasTop src (d_source d)
          then Some (d, Some (Errorf ''iterrt: DeletingIterator.Next called without a top''))
          else (case GetTopKey src (d_source d) of
              None \<Rightarrow> None
            | Some k \<Rightarrow>
                if Deleted k then
                  (case deleting_skipCoordinate src d of
                     None \<Rightarrow> None
                   | Some (d', Some e) \<Rightarrow> Some (d', Some e)
                   | Some (d', None) \<Rightarrow> deleting_findTop src d')
                else
                  (case Next src (d_source d) of
                     None \<Rightarrow> None
                   | Some (s, Some e) \<Rightarrow> Some (d\<lparr>d_source := s, d_err := Some e\<rparr>, Some e)
                   | Some (s, None) \<Rightarrow> deleting_findTop src (d\<lparr>d_source := s\<rparr>))))"

definition deleting_Next :: "'s skvi \<Rightarrow> 's deleting \<Rightarrow> 's deleting step" where
  "deleting_Next src d = deleting_advance src d"

text \<open>\<^verbatim>\<open>HasTop\<close> latches an error in the mode \<open>fail\<close>, so it returns the new state too.\<close>

definition deleting_HasTop :: "'s skvi \<Rightarrow> 's deleting \<Rightarrow> bool \<times> 's deleting" where
  "deleting_HasTop src d =
     (if d_err d \<noteq> None then (False, d)
      else if \<not> HasTop src (d_source d) then (False, d)
      else if d_behavior d = DeletingFail \<and>
              (case GetTopKey src (d_source d) of None \<Rightarrow> False | Some k \<Rightarrow> Deleted k)
      then (False, d\<lparr>d_err := Some ErrUnexpectedDelete\<rparr>)
      else (True, d))"

definition deleting_GetTopKey :: "'s skvi \<Rightarrow> 's deleting \<Rightarrow> key option" where
  "deleting_GetTopKey src d =
     (if \<not> HasTop src (d_source d) then None else GetTopKey src (d_source d))"

definition deleting_GetTopValue :: "'s skvi \<Rightarrow> 's deleting \<Rightarrow> bytes" where
  "deleting_GetTopValue src d =
     (if \<not> HasTop src (d_source d) then [] else GetTopValue src (d_source d))"

definition deleting_Err :: "'s deleting \<Rightarrow> go_err option" where
  "deleting_Err d = d_err d"

definition deleting_DeepCopy :: "('s \<Rightarrow> 's) \<Rightarrow> 's deleting \<Rightarrow> 's deleting" where
  "deleting_DeepCopy copy d =
     \<lparr>d_source = copy (d_source d), d_propagateDeletes = d_propagateDeletes d,
      d_behavior = d_behavior d, d_err = None\<rparr>"

text \<open>The two catch-up loops of \<^verbatim>\<open>Seek\<close>.\<close>

partial_function (option) catch_up_time ::
  "'s skvi \<Rightarrow> key \<Rightarrow> 's deleting \<Rightarrow> 's deleting step" where
  "catch_up_time src start d =
     (if \<not> HasTop src (d_source d) then Some (d, None)
      else case GetTopKey src (d_source d) of
        None \<Rightarrow> None
      | Some k \<Rightarrow>
          if \<not> compareRowCFCQCVTime k start < 0 then Some (d, None)
          else (case deleting_advance src d of
            None \<Rightarrow> None
          | Some (d', e) \<Rightarrow>
              (case e of None \<Rightarrow> catch_up_time src start d' | Some x \<Rightarrow> Some (d', Some x))))"

partial_function (option) catch_up_start ::
  "'s skvi \<Rightarrow> range \<Rightarrow> 's deleting \<Rightarrow> 's deleting step" where
  "catch_up_start src r d =
     (let t = deleting_HasTop src d in
      if \<not> fst t then Some (snd t, None)
      else case deleting_GetTopKey src (snd t) of
        None \<Rightarrow> None
      | Some k \<Rightarrow>
          if \<not> BeforeStart r k then Some (snd t, None)
          else (case deleting_advance src (snd t) of
            None \<Rightarrow> None
          | Some (d', e) \<Rightarrow>
              (case e of None \<Rightarrow> catch_up_start src r d' | Some x \<Rightarrow> Some (d', Some x))))"

text \<open>The range \<^verbatim>\<open>Seek\<close> hands to the source: from the newest version of the start coordinate.\<close>

definition maximize :: "range \<Rightarrow> range" where
  "maximize r =
     (if InfiniteStart r then r
      else case Start r of
        None \<Rightarrow> r
      | Some k \<Rightarrow>
          \<lparr>Start = Some ((Clone k)\<lparr>Timestamp := MaxInt64, Deleted := False\<rparr>), StartInclusive = True,
           InfiniteStart = False, End = End r, EndInclusive = EndInclusive r,
           InfiniteEnd = InfiniteEnd r\<rparr>)"

definition deleting_Seek ::
  "'s skvi \<Rightarrow> range \<Rightarrow> bytes list \<Rightarrow> bool \<Rightarrow> 's deleting \<Rightarrow> 's deleting step" where
  "deleting_Seek src r columnFamilies inclusive d =
     (case Seek src (maximize r) columnFamilies inclusive (d_source d) of
        None \<Rightarrow> None
      | Some (s, Some e) \<Rightarrow> Some (d\<lparr>d_source := s, d_err := Some e\<rparr>, Some e)
      | Some (s, None) \<Rightarrow>
          (case deleting_findTop src (d\<lparr>d_source := s, d_err := None\<rparr>) of
             None \<Rightarrow> None
           | Some (d1, Some e) \<Rightarrow> Some (d1, Some e)
           | Some (d1, None) \<Rightarrow>
               if InfiniteStart r then Some (d1, None)
               else (case Start r of
                   None \<Rightarrow> Some (d1, None)
                 | Some start \<Rightarrow>
                     (case catch_up_time src start d1 of
                        None \<Rightarrow> None
                      | Some (d2, Some e) \<Rightarrow> Some (d2, Some e)
                      | Some (d2, None) \<Rightarrow> catch_up_start src r d2))))"

definition deleting_skvi :: "'s skvi \<Rightarrow> 's deleting skvi" where
  "deleting_skvi src =
     \<lparr>Seek = deleting_Seek src, Next = deleting_Next src,
      HasTop = (\<lambda>d. fst (deleting_HasTop src d)),
      GetTopKey = deleting_GetTopKey src, GetTopValue = deleting_GetTopValue src\<rparr>"

lemma deleting_skvi_sel [simp]:
  "Seek (deleting_skvi src) = deleting_Seek src" "Next (deleting_skvi src) = deleting_Next src"
  "HasTop (deleting_skvi src) = (\<lambda>d. fst (deleting_HasTop src d))"
  "GetTopKey (deleting_skvi src) = deleting_GetTopKey src"
  "GetTopValue (deleting_skvi src) = deleting_GetTopValue src"
  by (simp_all add: deleting_skvi_def)

section \<open>Suppression step by step\<close>

lemma suppress_Cons_live: "\<not> Deleted (fst c) \<Longrightarrow> suppress p (c # cs) = c # suppress p cs"
  by (cases cs) (auto simp: suppress_def)

lemma suppress_Cons_tombstone:
  "Deleted (fst c) \<Longrightarrow>
     suppress p (c # cs) = (if p then [c] else []) @ suppress p (dropWhile (same_coord c) cs)"
  by (simp add: suppress_def)

lemma compareTime_less: "compareRowCFCQCVTime k start < 0 \<Longrightarrow> k < start"
proof -
  assume "compareRowCFCQCVTime k start < 0"
  then have "Compare k start < 0"
    unfolding compareRowCFCQCVTime_def Compare_def by (auto simp: Let_def split: if_splits)
  then show ?thesis by simp
qed

section \<open>Correctness over any lawful source\<close>

definition deleting_wf :: "('s \<Rightarrow> bool) \<Rightarrow> 's deleting \<Rightarrow> bool" where
  "deleting_wf w d \<longleftrightarrow> w (d_source d) \<and> d_behavior d = DeletingProcess"

definition deleting_ready :: "('s \<Rightarrow> bool) \<Rightarrow> ('s \<Rightarrow> cell list) \<Rightarrow> 's deleting \<Rightarrow> bool" where
  "deleting_ready ready rem d \<longleftrightarrow>
     ready (d_source d) \<and> d_behavior d = DeletingProcess \<and> d_err d = None \<and>
     (\<not> d_propagateDeletes d \<and> rem (d_source d) \<noteq> [] \<longrightarrow> \<not> Deleted (fst (hd (rem (d_source d)))))"

definition deleting_rem :: "('s \<Rightarrow> cell list) \<Rightarrow> 's deleting \<Rightarrow> cell list" where
  "deleting_rem rem d = suppress (d_propagateDeletes d) (rem (d_source d))"

definition deleting_view ::
  "('s \<Rightarrow> range \<Rightarrow> bytes list \<Rightarrow> bool \<Rightarrow> cell list) \<Rightarrow>
   's deleting \<Rightarrow> range \<Rightarrow> bytes list \<Rightarrow> bool \<Rightarrow> cell list" where
  "deleting_view view d r cfs inclusive =
     dropWhile (\<lambda>c. BeforeStart r (fst c))
       (suppress (d_propagateDeletes d) (view (d_source d) (maximize r) cfs inclusive))"

text \<open>
  What one operation keeps: the configuration, the source's view and the rest of the
  stream after dropping what \<open>drop\<close> says.
\<close>

definition deleting_step ::
  "('s \<Rightarrow> bool) \<Rightarrow> ('s \<Rightarrow> cell list) \<Rightarrow> ('s \<Rightarrow> range \<Rightarrow> bytes list \<Rightarrow> bool \<Rightarrow> cell list) \<Rightarrow>
   's deleting step \<Rightarrow> 's deleting \<Rightarrow> cell list \<Rightarrow> bool" where
  "deleting_step ready rem view res d out \<longleftrightarrow>
     (\<exists>d'. res = Some (d', None) \<and> deleting_ready ready rem d' \<and> deleting_rem rem d' = out \<and>
        d_propagateDeletes d' = d_propagateDeletes d \<and> view (d_source d') = view (d_source d))"

context skvi
begin

abbreviation dstep where
  "dstep \<equiv> deleting_step ready rem view"

lemma deleting_skipCoordinate_spec:
  assumes "ready (d_source d)" "rem (d_source d) = c # cs"
  shows "\<exists>s. deleting_skipCoordinate ops d = Some (d\<lparr>d_source := s\<rparr>, None) \<and> ready s \<and>
    rem s = dropWhile (same_coord c) cs \<and> view s = view (d_source d)"
proof -
  obtain s where s: "Next ops (d_source d) = Some (s, None)" "ready s" "rem s = cs" "view s = view (d_source d)"
    using next_law [OF assms] by blast
  from skip_while_spec [OF s(2), of "\<lambda>k. CompareRowCFCQCV k (fst c) = 0"] s key_law [OF assms]
  show ?thesis
    by (auto simp: deleting_skipCoordinate_def Let_def)
qed

lemma findTop_loop_spec:
  assumes "ready (d_source d)" "d_behavior d = DeletingProcess" "d_err d = None"
    "\<not> d_propagateDeletes d"
  shows "dstep (findTop_loop ops d) d (deleting_rem rem d)"
  using assms
proof (induction "length (rem (d_source d))" arbitrary: d rule: less_induct)
  case less
  note src = less.prems(1)
  show ?case
  proof (cases "rem (d_source d)")
    case Nil
    then show ?thesis
      using top_law [OF src] less.prems
      by (simp add: findTop_loop.simps [of ops d] deleting_step_def deleting_ready_def)
  next
    case (Cons c cs)
    have top: "HasTop ops (d_source d)" "GetTopKey ops (d_source d) = Some (fst c)"
      using top_law [OF src] key_law [OF src Cons] Cons by auto
    show ?thesis
    proof (cases "Deleted (fst c)")
      case True
      obtain s where s: "deleting_skipCoordinate ops d = Some (d\<lparr>d_source := s\<rparr>, None)" "ready s"
          "rem s = dropWhile (same_coord c) cs" "view s = view (d_source d)"
        using deleting_skipCoordinate_spec [OF src Cons] by blast
      have "length (rem s) < length (rem (d_source d))"
        using s(3) Cons by (simp add: le_imp_less_Suc length_dropWhile_le)
      with less.hyps [of "d\<lparr>d_source := s\<rparr>"] s less.prems top True Cons show ?thesis
        by (simp add: findTop_loop.simps [of ops d] deleting_step_def deleting_rem_def suppress_Cons_tombstone)
    next
      case False
      with top less.prems Cons show ?thesis
        by (simp add: findTop_loop.simps [of ops d] deleting_step_def deleting_ready_def)
    qed
  qed
qed

lemma deleting_findTop_spec:
  assumes "ready (d_source d)" "d_behavior d = DeletingProcess" "d_err d = None"
  shows "dstep (deleting_findTop ops d) d (deleting_rem rem d)"
  using findTop_loop_spec [OF assms] assms
  by (cases "d_propagateDeletes d") (simp_all add: deleting_findTop_def deleting_step_def deleting_ready_def)

lemma dstep_trans: "dstep res d1 out \<Longrightarrow> d_propagateDeletes d1 = d_propagateDeletes d \<Longrightarrow>
    view (d_source d1) = view (d_source d) \<Longrightarrow> dstep res d out"
  by (simp add: deleting_step_def)

lemma deleting_ready_rem:
  assumes "deleting_ready ready rem d" "rem (d_source d) = c # cs"
  shows "\<exists>ds. deleting_rem rem d = c # ds"
  using assms by (cases "Deleted (fst c)")
    (auto simp: deleting_rem_def deleting_ready_def suppress_Cons_live suppress_Cons_tombstone)

lemma deleting_advance_spec:
  assumes d: "deleting_ready ready rem d" and ds: "deleting_rem rem d = c # ds"
  shows "dstep (deleting_advance ops d) d ds"
proof -
  have src: "ready (d_source d)" "d_behavior d = DeletingProcess" "d_err d = None"
    using d by (simp_all add: deleting_ready_def)
  obtain cs where cs: "rem (d_source d) = c # cs"
    using ds deleting_ready_rem [OF d] by (cases "rem (d_source d)") (auto simp: deleting_rem_def)
  have top: "HasTop ops (d_source d)" "GetTopKey ops (d_source d) = Some (fst c)"
    using top_law [OF src(1)] key_law [OF src(1) cs] cs by auto
  show ?thesis
  proof (cases "Deleted (fst c)")
    case True
    obtain s where s: "deleting_skipCoordinate ops d = Some (d\<lparr>d_source := s\<rparr>, None)" "ready s"
        "rem s = dropWhile (same_coord c) cs" "view s = view (d_source d)"
      using deleting_skipCoordinate_spec [OF src(1) cs] by blast
    have "d_propagateDeletes d"
      using True d cs by (auto simp: deleting_ready_def)
    then have "ds = deleting_rem rem (d\<lparr>d_source := s\<rparr>)"
      using ds cs s True by (simp add: deleting_rem_def suppress_Cons_tombstone)
    with True top s src deleting_findTop_spec [of "d\<lparr>d_source := s\<rparr>"] show ?thesis
      by (simp add: deleting_advance_def dstep_trans)
  next
    case False
    obtain s where s: "Next ops (d_source d) = Some (s, None)" "ready s" "rem s = cs" "view s = view (d_source d)"
      using next_law [OF src(1) cs] by blast
    have "ds = deleting_rem rem (d\<lparr>d_source := s\<rparr>)"
      using ds cs s False by (simp add: deleting_rem_def suppress_Cons_live)
    with False top s src deleting_findTop_spec [of "d\<lparr>d_source := s\<rparr>"] show ?thesis
      by (simp add: deleting_advance_def dstep_trans)
  qed
qed

lemma deleting_top:
  assumes "deleting_ready ready rem d"
  shows "HasTop ops (d_source d) \<longleftrightarrow> deleting_rem rem d \<noteq> []"
    and "deleting_HasTop ops d = (deleting_rem rem d \<noteq> [], d)"
    and "deleting_rem rem d = c # ds \<Longrightarrow> GetTopKey ops (d_source d) = Some (fst c)"
    and "deleting_rem rem d = c # ds \<Longrightarrow> GetTopValue ops (d_source d) = snd c"
proof -
  have src: "ready (d_source d)" "d_behavior d = DeletingProcess" "d_err d = None"
    using assms by (simp_all add: deleting_ready_def)
  show top: "HasTop ops (d_source d) \<longleftrightarrow> deleting_rem rem d \<noteq> []"
    using top_law [OF src(1)] deleting_ready_rem [OF assms]
    by (cases "rem (d_source d)") (auto simp: deleting_rem_def)
  then show "deleting_HasTop ops d = (deleting_rem rem d \<noteq> [], d)"
    using src by (auto simp: deleting_HasTop_def)
  {
    assume "deleting_rem rem d = c # ds"
    then obtain cs where "rem (d_source d) = c # cs"
      using deleting_ready_rem [OF assms] by (cases "rem (d_source d)") (auto simp: deleting_rem_def)
    with key_law value_law src
    show "GetTopKey ops (d_source d) = Some (fst c)" "GetTopValue ops (d_source d) = snd c"
      by auto
  }
qed

lemma catch_up_time_spec:
  "deleting_ready ready rem d \<Longrightarrow> dstep (catch_up_time ops start d) d
     (dropWhile (\<lambda>c. compareRowCFCQCVTime (fst c) start < 0) (deleting_rem rem d))"
proof (induction "deleting_rem rem d" arbitrary: d)
  case Nil
  with deleting_top [OF Nil.prems] show ?case
    by (simp add: catch_up_time.simps [of ops start d] deleting_step_def)
next
  case (Cons c cs)
  note top = deleting_top [OF Cons.prems] and cs = Cons.hyps(2) [symmetric]
  show ?case
  proof (cases "compareRowCFCQCVTime (fst c) start < 0")
    case True
    obtain d' where d': "deleting_advance ops d = Some (d', None)" "deleting_ready ready rem d'"
        "deleting_rem rem d' = cs" "d_propagateDeletes d' = d_propagateDeletes d"
        "view (d_source d') = view (d_source d)"
      using deleting_advance_spec [OF Cons.prems cs] by (auto simp: deleting_step_def)
    with Cons.hyps(1) [of d'] True top cs show ?thesis
      by (simp add: catch_up_time.simps [of ops start d] dstep_trans)
  next
    case False
    with top cs Cons.prems show ?thesis
      by (simp add: catch_up_time.simps [of ops start d] deleting_step_def)
  qed
qed

lemma catch_up_start_spec:
  "deleting_ready ready rem d \<Longrightarrow> dstep (catch_up_start ops r d) d
     (dropWhile (\<lambda>c. BeforeStart r (fst c)) (deleting_rem rem d))"
proof (induction "deleting_rem rem d" arbitrary: d)
  case Nil
  with deleting_top [OF Nil.prems] show ?case
    by (simp add: catch_up_start.simps [of ops r d] deleting_step_def)
next
  case (Cons c cs)
  note top = deleting_top [OF Cons.prems] and cs = Cons.hyps(2) [symmetric]
  show ?case
  proof (cases "BeforeStart r (fst c)")
    case True
    obtain d' where d': "deleting_advance ops d = Some (d', None)" "deleting_ready ready rem d'"
        "deleting_rem rem d' = cs" "d_propagateDeletes d' = d_propagateDeletes d"
        "view (d_source d') = view (d_source d)"
      using deleting_advance_spec [OF Cons.prems cs] by (auto simp: deleting_step_def)
    with Cons.hyps(1) [of d'] True top cs show ?thesis
      by (simp add: catch_up_start.simps [of ops r d] deleting_GetTopKey_def dstep_trans)
  next
    case False
    with top cs Cons.prems show ?thesis
      by (simp add: catch_up_start.simps [of ops r d] deleting_GetTopKey_def deleting_step_def)
  qed
qed

lemma deleting_seek:
  assumes "deleting_wf wf d"
  shows "dstep (deleting_Seek ops r cfs inclusive d) d (deleting_view view d r cfs inclusive)"
proof -
  let ?B = "\<lambda>c. BeforeStart r (fst c)"
  obtain s where s: "Seek ops (maximize r) cfs inclusive (d_source d) = Some (s, None)" "ready s"
      "rem s = view (d_source d) (maximize r) cfs inclusive" "view s = view (d_source d)"
    using assms seek_law [of "d_source d" "maximize r" cfs inclusive] by (auto simp: deleting_wf_def)
  obtain d1 where d1: "deleting_findTop ops (d\<lparr>d_source := s, d_err := None\<rparr>) = Some (d1, None)"
      "deleting_ready ready rem d1" "d_propagateDeletes d1 = d_propagateDeletes d"
      "view (d_source d1) = view (d_source d)"
      "deleting_rem rem d1 = suppress (d_propagateDeletes d) (rem s)"
    using deleting_findTop_spec [of "d\<lparr>d_source := s, d_err := None\<rparr>"] assms s
    by (auto simp: deleting_step_def deleting_wf_def deleting_rem_def)
  show ?thesis
  proof (cases "\<not> InfiniteStart r \<and> Start r \<noteq> None")
    case True
    then obtain start where start: "\<not> InfiniteStart r" "Start r = Some start" by auto
    let ?T = "\<lambda>c. compareRowCFCQCVTime (fst c) start < 0"
    obtain d2 where d2: "catch_up_time ops start d1 = Some (d2, None)" "deleting_ready ready rem d2"
        "deleting_rem rem d2 = dropWhile ?T (deleting_rem rem d1)"
        "d_propagateDeletes d2 = d_propagateDeletes d" "view (d_source d2) = view (d_source d)"
      using catch_up_time_spec [OF d1(2), of start] d1 by (auto simp: deleting_step_def)
    have "?T c \<Longrightarrow> ?B c" for c
      using start compareTime_less by (auto simp: BeforeStart_iff)
    then have "dropWhile ?B (deleting_rem rem d2) = dropWhile ?B (deleting_rem rem d1)"
      unfolding d2(3) by (rule dropWhile_dropWhile_imp)
    with catch_up_start_spec [OF d2(2), of r] d1 d2 s start show ?thesis
      by (simp add: deleting_Seek_def deleting_view_def deleting_step_def)
  next
    case False
    then have "deleting_Seek ops r cfs inclusive d = Some (d1, None)"
      using s d1 by (auto simp: deleting_Seek_def)
    moreover have "\<not> BeforeStart r k" for k
      using False by (auto simp: BeforeStart_iff)
    ultimately show ?thesis
      using d1 s by (simp add: deleting_step_def deleting_view_def)
  qed
qed

lemma deleting_lawful:
  "skvi (deleting_skvi ops) (deleting_wf wf) (deleting_ready ready rem)
     (deleting_rem rem) (deleting_view view)"
proof
  fix d assume d: "deleting_ready ready rem d"
  show "deleting_wf wf d"
    using d ready_wf by (auto simp: deleting_wf_def deleting_ready_def)
  show "HasTop (deleting_skvi ops) d \<longleftrightarrow> deleting_rem rem d \<noteq> []"
    using deleting_top(2) [OF d] by simp
  show "sorted_cells (deleting_rem rem d)"
    using d sorted_law by (auto simp: deleting_rem_def deleting_ready_def)
next
  fix d c cs assume d: "deleting_ready ready rem d" "deleting_rem rem d = c # cs"
  show "GetTopKey (deleting_skvi ops) d = Some (fst c)" "GetTopValue (deleting_skvi ops) d = snd c"
    using deleting_top [OF d(1)] d(2) by (auto simp: deleting_GetTopKey_def deleting_GetTopValue_def)
  show "\<exists>d'. Next (deleting_skvi ops) d = Some (d', None) \<and> deleting_ready ready rem d' \<and>
      deleting_rem rem d' = cs \<and> deleting_view view d' = deleting_view view d"
    using deleting_advance_spec [OF d]
    by (auto simp: deleting_Next_def deleting_step_def deleting_view_def fun_eq_iff)
next
  fix d r cfs inclusive assume "deleting_wf wf d"
  from deleting_seek [OF this, of r cfs inclusive]
  show "\<exists>d'. Seek (deleting_skvi ops) r cfs inclusive d = Some (d', None) \<and> deleting_ready ready rem d' \<and>
      deleting_rem rem d' = deleting_view view d r cfs inclusive \<and> deleting_view view d' = deleting_view view d"
    by (auto simp: deleting_step_def deleting_view_def fun_eq_iff)
qed

end

interpretation deleting_slice: skvi "deleting_skvi slice_skvi" "deleting_wf slice_wf"
  "deleting_ready slice_ready slice_rem" "deleting_rem slice_rem" "deleting_view slice_view"
  by (rule slice.deleting_lawful)

section \<open>A seek agrees with the full scan\<close>

lemma suppress_run_takeWhile: "suppress_run p (takeWhile Q cs) = takeWhile Q (suppress_run p cs)"
  by (induction cs) auto

lemma suppress_run_AfterEnd:
  assumes "sorted_cells cs"
  shows "suppress_run p (filter (\<lambda>c. \<not> AfterEnd r (fst c)) cs) =
    filter (\<lambda>c. \<not> AfterEnd r (fst c)) (suppress_run p cs)"
proof -
  have "sorted_cells (suppress_run p cs)"
    using run_op_suppress [of p] assms sorted_cells_subseq unfolding run_op_def by blast
  with assms show ?thesis
    by (simp add: filter_not_AfterEnd suppress_run_takeWhile)
qed

text \<open>The maximized range covers a whole run or none of it, up to its end.\<close>

definition no_max_tombstone :: "range \<Rightarrow> cell list \<Rightarrow> bool" where
  "no_max_tombstone r cs \<longleftrightarrow>
     (\<forall>c\<in>set cs. \<not> InfiniteStart r \<and> map_option coord (Start r) = Some (coord (fst c)) \<and>
        Timestamp (fst c) = MaxInt64 \<longrightarrow> \<not> Deleted (fst c))"

lemma maximize_BeforeStart:
  assumes "\<not> InfiniteStart r" "Start r = Some s"
  shows "BeforeStart (maximize r) k \<longleftrightarrow>
    coord k < coord s \<or> coord k = coord s \<and> Timestamp k = MaxInt64 \<and> Deleted k"
proof -
  let ?m = "s\<lparr>Timestamp := MaxInt64, Deleted := False\<rparr>"
  have c: "coord ?m = coord s" by (simp add: coord_def)
  have B: "BeforeStart (maximize r) k \<longleftrightarrow> k < ?m"
    using assms by (auto simp: maximize_def BeforeStart_iff)
  consider "coord k < coord s" | "coord s < coord k" | "coord k = coord s" by fastforce
  then show ?thesis
  proof cases
    case 1
    with B c coord_less_key [of k ?m] show ?thesis by simp
  next
    case 2
    with B c coord_less_key [of ?m k] show ?thesis by auto
  next
    case 3
    then have "k < ?m \<longleftrightarrow> \<not> ?m \<le> k" by auto
    also have "\<dots> \<longleftrightarrow> Timestamp k = MaxInt64 \<and> Deleted k"
      using key_le_same_coord [of ?m k] 3 c sint_le_MaxInt64 [of "Timestamp k"]
      by (auto simp: sint_eq_iff order_le_less)
    finally show ?thesis using B 3 by simp
  qed
qed

lemma maximize_AfterEnd [simp]: "AfterEnd (maximize r) k \<longleftrightarrow> AfterEnd r k"
  by (auto simp: maximize_def AfterEnd_iff split: option.splits)

lemma BeforeStart_coord:
  "\<lbrakk>\<not> InfiniteStart r; Start r = Some s; coord k < coord s\<rbrakk> \<Longrightarrow> BeforeStart r k"
  using coord_less_key by (auto simp: BeforeStart_iff)

lemma maximized_run:
  assumes run: "\<forall>c\<in>set cs. coord (fst c) = x" and max: "no_max_tombstone r cs"
    and sorted: "sorted_cells cs"
  shows "filter (\<lambda>c. \<not> BeforeStart r (fst c)) (suppress_run p (filter (selects (maximize r) cfs inclusive) cs)) =
    filter (selects r cfs inclusive) (suppress_run p cs)"
proof -
  let ?A = "\<lambda>c. \<not> AfterEnd r (fst c)" and ?B = "\<lambda>c. \<not> BeforeStart r (fst c)"
  have sub: "set (suppress_run p ds) \<subseteq> set ds" for ds
    by (rule run_op_subset) simp
  consider (none) "\<forall>c\<in>set cs. \<not> selects (maximize r) cfs inclusive c \<and> \<not> selects r cfs inclusive c"
    | (all) "\<forall>c\<in>set cs. selects (maximize r) cfs inclusive c = ?A c"
        "\<forall>c\<in>set cs. selects r cfs inclusive c = (?A c \<and> ?B c)"
  proof -
    have "(\<forall>c\<in>set cs. \<not> selects (maximize r) cfs inclusive c \<and> \<not> selects r cfs inclusive c) \<or>
      (\<forall>c\<in>set cs. selects (maximize r) cfs inclusive c = ?A c \<and> selects r cfs inclusive c = (?A c \<and> ?B c))"
    proof (cases "\<forall>c\<in>set cs. cfAllowed (ColumnFamily (fst c)) cfs inclusive")
      case False
      then obtain c where "c \<in> set cs" "\<not> cfAllowed (ColumnFamily (fst c)) cfs inclusive" by auto
      then have "\<not> cfAllowed (ColumnFamily (fst d)) cfs inclusive" if "d \<in> set cs" for d
        using run that by (metis coord_def prod.inject)
      then show ?thesis by (simp add: selects_def)
    next
      case True
      show ?thesis
      proof (cases "\<not> InfiniteStart r \<and> Start r \<noteq> None")
        case False
        then have "maximize r = r" "\<not> BeforeStart r k" for k
          by (auto simp: maximize_def BeforeStart_iff split: option.splits)
        with True show ?thesis by (auto simp: selects_def)
      next
        case start: True
        then obtain s where s: "\<not> InfiniteStart r" "Start r = Some s" by auto
        show ?thesis
        proof (cases "x < coord s")
          case less: True
          then have "BeforeStart r (fst c)" "BeforeStart (maximize r) (fst c)" if "c \<in> set cs" for c
            using that run s BeforeStart_coord maximize_BeforeStart by auto
          then show ?thesis by (auto simp: selects_def)
        next
          case False
          then have "\<not> BeforeStart (maximize r) (fst c)" if "c \<in> set cs" for c
            using that run s max maximize_BeforeStart [OF s] by (auto simp: no_max_tombstone_def)
          with True show ?thesis by (auto simp: selects_def)
        qed
      qed
    qed
    then show thesis using that by blast
  qed
  then show ?thesis
  proof cases
    case none
    then have "filter (selects (maximize r) cfs inclusive) cs = []"
      "filter (selects r cfs inclusive) (suppress_run p cs) = []"
      using sub by (auto simp: filter_empty_conv)
    then show ?thesis by simp
  next
    case all
    have "filter (selects (maximize r) cfs inclusive) cs = filter ?A cs"
      by (rule filter_cong) (use all in auto)
    then have "filter ?B (suppress_run p (filter (selects (maximize r) cfs inclusive) cs)) =
        filter ?B (filter ?A (suppress_run p cs))"
      using suppress_run_AfterEnd [OF sorted] by simp
    also have "\<dots> = filter (selects r cfs inclusive) (suppress_run p cs)"
      unfolding filter_filter by (rule filter_cong) (use all sub in auto)
    finally show ?thesis .
  qed
qed

lemma deleting_view_full_scan:
  assumes sorted: "sorted_cells cs" and max: "no_max_tombstone r cs"
  shows "dropWhile (\<lambda>c. BeforeStart r (fst c)) (suppress p (filter (selects (maximize r) cfs inclusive) cs)) =
    filter (selects r cfs inclusive) (suppress p cs)"
proof (rule sorted_coord_eqI)
  let ?B = "\<lambda>c. \<not> BeforeStart r (fst c)"
  let ?l = "suppress p (filter (selects (maximize r) cfs inclusive) cs)"
  have l: "dropWhile (\<lambda>c. BeforeStart r (fst c)) ?l = filter ?B ?l"
    using sorted by (simp add: filter_not_BeforeStart)
  show "sorted_cells (dropWhile (\<lambda>c. BeforeStart r (fst c)) ?l)"
    using sorted by (simp add: l)
  show "sorted_cells (filter (selects r cfs inclusive) (suppress p cs))"
    using sorted by simp
  fix x
  have swap: "at_coord x (filter P ds) = filter P (at_coord x ds)" for P ds
    by (simp add: conj_commute)
  have "no_max_tombstone r (at_coord x cs)"
    using max by (auto simp: no_max_tombstone_def)
  then show "at_coord x (dropWhile (\<lambda>c. BeforeStart r (fst c)) ?l) =
      at_coord x (filter (selects r cfs inclusive) (suppress p cs))"
    unfolding l swap using sorted maximized_run [of "at_coord x cs" x r p cfs inclusive]
    by (simp add: at_coord_suppress swap del: filter_filter)
qed

section \<open>Properties\<close>




end
