(* ===== verification/Vis_Filter.thy ===== *)
theory Vis_Filter
  imports Shoal_Prelude
begin

text \<open>
  Package \<^verbatim>\<open>internal/visfilter\<close>: column-visibility expressions. The recursive-descent
  parser with the grammar \<open>expr = and {"|" and}\<close>, \<open>and = atom {"&" atom}\<close>,
  \<open>atom = label | "(" expr ")"\<close>, the evaluator over a set of authorization labels, and
  the evaluator's cache of compiled expressions.

  The parser's state \<^verbatim>\<open>(src, pos)\<close> is the unread suffix of \<^verbatim>\<open>src\<close>. The parser
  functions recurse through each other on suffixes they return, so they take fuel;
  \<open>parse_total\<close> shows that the fuel \<open>parse\<close> supplies is always enough.
\<close>

section \<open>Authorizations\<close>

text \<open>The Go map with empty values is the set of its keys.\<close>

record authorizations =
  auth_set :: "bytes set"

definition NewAuthorizations :: "bytes list \<Rightarrow> authorizations" where
  "NewAuthorizations labels = \<lparr>auth_set = foldl (\<lambda>s l. insert l s) {} labels\<rparr>"

definition AddLabel :: "bytes \<Rightarrow> authorizations \<Rightarrow> authorizations" where
  "AddLabel label a = a\<lparr>auth_set := insert label (auth_set a)\<rparr>"

definition HasLabel :: "authorizations \<Rightarrow> bytes \<Rightarrow> bool" where
  "HasLabel a label \<longleftrightarrow> label \<in> auth_set a"

section \<open>Expressions\<close>

datatype node = kindLabel bytes | kindAnd "node list" | kindOr "node list"

fun evalNode :: "node \<Rightarrow> authorizations \<Rightarrow> bool" where
  "evalNode (kindLabel label) auths = HasLabel auths label"
| "evalNode (kindAnd children) auths = list_all (\<lambda>c. evalNode c auths) children"
| "evalNode (kindOr children) auths = list_ex (\<lambda>c. evalNode c auths) children"

text \<open>ASCII letters, digits and \<^verbatim>\<open>_ : . / -\<close>.\<close>

definition isLabelByte :: "byte \<Rightarrow> bool" where
  "isLabelByte b \<longleftrightarrow>
     (0x41 \<le> b \<and> b \<le> 0x5A) \<or> (0x61 \<le> b \<and> b \<le> 0x7A) \<or> (0x30 \<le> b \<and> b \<le> 0x39) \<or>
     b = 0x5F \<or> b = 0x3A \<or> b = 0x2E \<or> b = 0x2F \<or> b = 0x2D"

abbreviation "AMP \<equiv> (0x26 :: byte)"
abbreviation "BAR \<equiv> (0x7C :: byte)"
abbreviation "OPEN \<equiv> (0x28 :: byte)"
abbreviation "CLOSE \<equiv> (0x29 :: byte)"

definition at_byte :: "byte \<Rightarrow> bytes \<Rightarrow> bool" where
  "at_byte b s \<longleftrightarrow> s \<noteq> [] \<and> hd s = b"

lemma at_byte_simps [simp]: "\<not> at_byte b []" "at_byte b (c # s) \<longleftrightarrow> c = b"
  by (auto simp: at_byte_def)

section \<open>The parser\<close>

text \<open>\<open>None\<close> is out of fuel; otherwise an error or a tree with the unread suffix.\<close>

type_synonym 'a parsed = "('a \<times> bytes) res option"

fun pbind :: "'a parsed \<Rightarrow> ('a \<Rightarrow> bytes \<Rightarrow> 'b parsed) \<Rightarrow> 'b parsed" where
  "pbind None f = None"
| "pbind (Some (Inl e)) f = Some (Inl e)"
| "pbind (Some (Inr (x, s))) f = f x s"

definition err_parse :: "string \<Rightarrow> go_err" where
  "err_parse m = Wrap m ErrParse"

fun parseExpr :: "nat \<Rightarrow> bytes \<Rightarrow> node parsed"
  and parseOrs :: "nat \<Rightarrow> node list \<Rightarrow> bytes \<Rightarrow> node parsed"
  and parseAnd :: "nat \<Rightarrow> bytes \<Rightarrow> node parsed"
  and parseAnds :: "nat \<Rightarrow> node list \<Rightarrow> bytes \<Rightarrow> node parsed"
  and parseAtom :: "nat \<Rightarrow> bytes \<Rightarrow> node parsed" where
  "parseExpr 0 s = None"
| "parseExpr (Suc f) s =
     pbind (parseAnd f s) (\<lambda>first s.
       if \<not> at_byte BAR s then Some (Inr (first, s)) else parseOrs f [first] s)"
| "parseOrs 0 children s = None"
| "parseOrs (Suc f) children s =
     (if at_byte BAR s
      then pbind (parseAnd f (tl s)) (\<lambda>next s. parseOrs f (children @ [next]) s)
      else Some (Inr (kindOr children, s)))"
| "parseAnd 0 s = None"
| "parseAnd (Suc f) s =
     pbind (parseAtom f s) (\<lambda>first s.
       if \<not> at_byte AMP s then Some (Inr (first, s)) else parseAnds f [first] s)"
| "parseAnds 0 children s = None"
| "parseAnds (Suc f) children s =
     (if at_byte AMP s
      then pbind (parseAtom f (tl s)) (\<lambda>next s. parseAnds f (children @ [next]) s)
      else Some (Inr (kindAnd children, s)))"
| "parseAtom 0 s = None"
| "parseAtom (Suc f) s =
     (if s = [] then Some (Inl (err_parse ''unexpected end''))
      else if hd s = OPEN then
        pbind (parseExpr f (tl s)) (\<lambda>inner s.
          if \<not> at_byte CLOSE s then Some (Inl (err_parse ''missing close paren''))
          else Some (Inr (inner, tl s)))
      else
        let label = takeWhile isLabelByte s in
        if label = [] then Some (Inl (err_parse ''expected label''))
        else Some (Inr (kindLabel label, dropWhile isLabelByte s)))"

definition parse_fuel :: "bytes \<Rightarrow> nat" where
  "parse_fuel cv = 4 * length cv + 3"

definition parse :: "bytes \<Rightarrow> node res option" where
  "parse cv =
     (case parseExpr (parse_fuel cv) cv of
        None \<Rightarrow> None
      | Some (Inl e) \<Rightarrow> Some (Inl e)
      | Some (Inr (n, s)) \<Rightarrow> if s \<noteq> [] then Some (Inl (err_parse ''trailing bytes'')) else Some (Inr n))"

section \<open>The evaluator\<close>

text \<open>The cache maps a CV byte string to its tree, or to nil after a parse failure.\<close>

record evaluator =
  auths :: authorizations
  cache :: "bytes \<rightharpoonup> node option"

definition NewEvaluator :: "authorizations \<Rightarrow> evaluator" where
  "NewEvaluator a = \<lparr>auths = a, cache = Map.empty\<rparr>"

definition Visible :: "bytes \<Rightarrow> evaluator \<Rightarrow> bool \<times> evaluator" where
  "Visible cv e =
     (if length cv = 0 then (True, e)
      else case cache e cv of
        Some None \<Rightarrow> (False, e)
      | Some (Some n) \<Rightarrow> (evalNode n (auths e), e)
      | None \<Rightarrow>
          (case parse cv of
             Some (Inr n) \<Rightarrow> (evalNode n (auths e), e\<lparr>cache := (cache e)(cv \<mapsto> Some n)\<rparr>)
           | _ \<Rightarrow> (False, e\<lparr>cache := (cache e)(cv \<mapsto> None)\<rparr>)))"

definition CacheSize :: "evaluator \<Rightarrow> nat" where
  "CacheSize e = card (dom (cache e))"

section \<open>The parser returns\<close>

text \<open>A result that is not out of fuel: a parse error, or a tree with less than \<open>n\<close> bytes unread.\<close>

definition ends_below :: "nat \<Rightarrow> node parsed \<Rightarrow> bool" where
  "ends_below n r \<longleftrightarrow> r \<noteq> None \<and> (\<forall>e. r = Some (Inl e) \<longrightarrow> errors_Is e ErrParse) \<and>
     (\<forall>x s. r = Some (Inr (x, s)) \<longrightarrow> length s < n)"

lemma err_parse_Is [simp]: "errors_Is (err_parse m) ErrParse"
  by (simp add: err_parse_def)

lemma ends_below_simps [simp]:
  "ends_below n (Some (Inl e)) \<longleftrightarrow> errors_Is e ErrParse" "ends_below n (Some (Inr (x, s))) \<longleftrightarrow> length s < n"
  by (auto simp: ends_below_def)

lemma ends_below_pbind:
  assumes "ends_below m r" "\<And>x s. r = Some (Inr (x, s)) \<Longrightarrow> length s < m \<Longrightarrow> ends_below n (f x s)"
  shows "ends_below n (pbind r f)"
  using assms by (cases "(r, f)" rule: pbind.cases) (auto simp: ends_below_def)

lemma at_byte_tl: "at_byte b s \<Longrightarrow> Suc (length (tl s)) = length s"
  by (cases s) auto

lemma parser_total:
  shows "4 * length s + 3 \<le> f \<Longrightarrow> ends_below (length s) (parseExpr f s)"
    and "4 * length s + 1 \<le> f \<Longrightarrow> ends_below (Suc (length s)) (parseOrs f cs s)"
    and "4 * length s + 2 \<le> f \<Longrightarrow> ends_below (length s) (parseAnd f s)"
    and "4 * length s + 1 \<le> f \<Longrightarrow> ends_below (Suc (length s)) (parseAnds f cs s)"
    and "4 * length s + 1 \<le> f \<Longrightarrow> ends_below (length s) (parseAtom f s)"
proof (induction f s and f cs s and f s and f cs s and f s
    rule: parseExpr_parseOrs_parseAnd_parseAnds_parseAtom.induct)
  case (2 f s)
  show ?case
    unfolding parseExpr.simps
  proof (rule ends_below_pbind)
    show "ends_below (length s) (parseAnd f s)"
      using 2 by simp
    fix x and s' :: bytes
    assume "length s' < length s"
    then show "ends_below (length s) (if \<not> at_byte BAR s' then Some (Inr (x, s')) else parseOrs f [x] s')"
      using "2.IH"(2) [of s' x] "2.prems" by (auto simp: ends_below_def)
  qed
next
  case (4 f cs s)
  have "ends_below (Suc (length s)) (pbind (parseAnd f (tl s)) (\<lambda>x. parseOrs f (cs @ [x])))"
    if s: "at_byte BAR s"
  proof (rule ends_below_pbind)
    show "ends_below (length (tl s)) (parseAnd f (tl s))"
      using 4 s at_byte_tl [OF s] by simp
    fix x and s' :: bytes
    assume "length s' < length (tl s)"
    then show "ends_below (Suc (length s)) (parseOrs f (cs @ [x]) s')"
      using "4.IH"(2) [OF s, of s' x] "4.prems" at_byte_tl [OF s] by (auto simp: ends_below_def)
  qed
  then show ?case by simp
next
  case (6 f s)
  show ?case
    unfolding parseAnd.simps
  proof (rule ends_below_pbind)
    show "ends_below (length s) (parseAtom f s)"
      using 6 by simp
    fix x and s' :: bytes
    assume "length s' < length s"
    then show "ends_below (length s) (if \<not> at_byte AMP s' then Some (Inr (x, s')) else parseAnds f [x] s')"
      using "6.IH"(2) [of s' x] "6.prems" by (auto simp: ends_below_def)
  qed
next
  case (8 f cs s)
  have "ends_below (Suc (length s)) (pbind (parseAtom f (tl s)) (\<lambda>x. parseAnds f (cs @ [x])))"
    if s: "at_byte AMP s"
  proof (rule ends_below_pbind)
    show "ends_below (length (tl s)) (parseAtom f (tl s))"
      using 8 s at_byte_tl [OF s] by simp
    fix x and s' :: bytes
    assume "length s' < length (tl s)"
    then show "ends_below (Suc (length s)) (parseAnds f (cs @ [x]) s')"
      using "8.IH"(2) [OF s, of s' x] "8.prems" at_byte_tl [OF s] by (auto simp: ends_below_def)
  qed
  then show ?case by simp
next
  case (10 f s)
  have paren: "ends_below (length s) (pbind (parseExpr f (tl s)) (\<lambda>x s'.
      if \<not> at_byte CLOSE s' then Some (Inl (err_parse ''missing close paren'')) else Some (Inr (x, tl s'))))"
    if s: "s \<noteq> []" "hd s = OPEN"
  proof (rule ends_below_pbind)
    show "ends_below (length (tl s)) (parseExpr f (tl s))"
      using "10.IH" [OF s] "10.prems" s by (cases s) auto
  qed (use s in auto)
  have "length (dropWhile isLabelByte s) < length s" if "takeWhile isLabelByte s \<noteq> []"
    using that arg_cong [OF takeWhile_dropWhile_id [of isLabelByte s], of length]
    by (cases "takeWhile isLabelByte s") auto
  with paren show ?case by (auto simp: Let_def)
qed auto

lemma parse_total: "\<exists>r. parse cv = Some r \<and> (\<forall>e. r = Inl e \<longrightarrow> errors_Is e ErrParse)"
  using parser_total(1) [of cv "parse_fuel cv"]
  by (auto simp: parse_def parse_fuel_def ends_below_def split: option.splits sum.splits)

section \<open>More fuel gives the same result\<close>

lemma pbind_SomeI:
  assumes "pbind r f = Some y" "\<And>z. r = Some z \<Longrightarrow> r' = Some z"
    "\<And>x s z. f x s = Some z \<Longrightarrow> f' x s = Some z"
  shows "pbind r' f' = Some y"
  using assms by (cases "(r, f)" rule: pbind.cases) (auto simp: assms(2))

lemma parser_Suc:
  shows "\<And>r. parseExpr f s = Some r \<Longrightarrow> parseExpr (Suc f) s = Some r"
    and "\<And>r. parseOrs f cs s = Some r \<Longrightarrow> parseOrs (Suc f) cs s = Some r"
    and "\<And>r. parseAnd f s = Some r \<Longrightarrow> parseAnd (Suc f) s = Some r"
    and "\<And>r. parseAnds f cs s = Some r \<Longrightarrow> parseAnds (Suc f) cs s = Some r"
    and "\<And>r. parseAtom f s = Some r \<Longrightarrow> parseAtom (Suc f) s = Some r"
proof (induction f s and f cs s and f s and f cs s and f s
    rule: parseExpr_parseOrs_parseAnd_parseAnds_parseAtom.induct)
  case (2 f s)
  show ?case
    using "2.prems" unfolding parseExpr.simps(2)
    by (rule pbind_SomeI) (use "2.IH" in \<open>auto split: if_splits simp del: parseAnd.simps parseOrs.simps\<close>)
next
  case (4 f cs s)
  show ?case
  proof (cases "at_byte BAR s")
    case True
    with "4.prems" have "pbind (parseAnd f (tl s)) (\<lambda>x. parseOrs f (cs @ [x])) = Some r" by simp
    then have "pbind (parseAnd (Suc f) (tl s)) (\<lambda>x. parseOrs (Suc f) (cs @ [x])) = Some r"
      by (rule pbind_SomeI) (use "4.IH" True in \<open>auto simp del: parseAnd.simps parseOrs.simps\<close>)
    with True show ?thesis by (simp only: parseOrs.simps(2) if_True)
  qed (use "4.prems" in simp)
next
  case (6 f s)
  show ?case
    using "6.prems" unfolding parseAnd.simps(2)
    by (rule pbind_SomeI) (use "6.IH" in \<open>auto split: if_splits simp del: parseAtom.simps parseAnds.simps\<close>)
next
  case (8 f cs s)
  show ?case
  proof (cases "at_byte AMP s")
    case True
    with "8.prems" have "pbind (parseAtom f (tl s)) (\<lambda>x. parseAnds f (cs @ [x])) = Some r" by simp
    then have "pbind (parseAtom (Suc f) (tl s)) (\<lambda>x. parseAnds (Suc f) (cs @ [x])) = Some r"
      by (rule pbind_SomeI) (use "8.IH" True in \<open>auto simp del: parseAtom.simps parseAnds.simps\<close>)
    with True show ?thesis by (simp only: parseAnds.simps(2) if_True)
  qed (use "8.prems" in simp)
next
  case (10 f s)
  show ?case
  proof (cases "s \<noteq> [] \<and> hd s = OPEN")
    case True
    let ?k = "\<lambda>x s. if \<not> at_byte CLOSE s then Some (Inl (err_parse ''missing close paren''))
          else Some (Inr (x, tl s))"
    have "pbind (parseExpr f (tl s)) ?k = Some r" using "10.prems" True by simp
    then have "pbind (parseExpr (Suc f) (tl s)) ?k = Some r"
      by (rule pbind_SomeI) (use "10.IH" True in \<open>auto simp del: parseExpr.simps\<close>)
    with True show ?thesis by (simp only: parseAtom.simps(2) if_False if_True simp_thms)
  qed (use "10.prems" in auto)
qed auto

lemma parseExpr_mono: "parseExpr f s = Some r \<Longrightarrow> f \<le> g \<Longrightarrow> parseExpr g s = Some r"
  by (rule dec_induct [of f g]) (use parser_Suc(1) in auto)

lemma parseOrs_mono: "parseOrs f cs s = Some r \<Longrightarrow> f \<le> g \<Longrightarrow> parseOrs g cs s = Some r"
  by (rule dec_induct [of f g]) (use parser_Suc(2) in auto)

lemma parseAnd_mono: "parseAnd f s = Some r \<Longrightarrow> f \<le> g \<Longrightarrow> parseAnd g s = Some r"
  by (rule dec_induct [of f g]) (use parser_Suc(3) in auto)

lemma parseAnds_mono: "parseAnds f cs s = Some r \<Longrightarrow> f \<le> g \<Longrightarrow> parseAnds g cs s = Some r"
  by (rule dec_induct [of f g]) (use parser_Suc(4) in auto)

lemma parseAtom_mono: "parseAtom f s = Some r \<Longrightarrow> f \<le> g \<Longrightarrow> parseAtom g s = Some r"
  by (rule dec_induct [of f g]) (use parser_Suc(5) in auto)

section \<open>Parsing a printed expression\<close>

text \<open>
  A reference printer: operands that are not labels are parenthesized. A tree is well
  formed if its labels are nonempty label bytes and its operators have two operands or
  more, as the parser builds them.
\<close>

definition joined :: "byte \<Rightarrow> bytes list \<Rightarrow> bytes" where
  "joined sep ss = (case ss of [] \<Rightarrow> [] | s # ss \<Rightarrow> s @ concat (map (\<lambda>t. sep # t) ss))"

definition operand :: "node \<Rightarrow> bytes \<Rightarrow> bytes" where
  "operand n s = (case n of kindLabel l \<Rightarrow> s | _ \<Rightarrow> OPEN # s @ [CLOSE])"

fun show_node :: "node \<Rightarrow> bytes" where
  "show_node (kindLabel l) = l"
| "show_node (kindAnd cs) = joined AMP (map (\<lambda>c. operand c (show_node c)) cs)"
| "show_node (kindOr cs) = joined BAR (map (\<lambda>c. operand c (show_node c)) cs)"

fun wf_node :: "node \<Rightarrow> bool" where
  "wf_node (kindLabel l) \<longleftrightarrow> l \<noteq> [] \<and> list_all isLabelByte l"
| "wf_node (kindAnd cs) \<longleftrightarrow> 2 \<le> length cs \<and> list_all wf_node cs"
| "wf_node (kindOr cs) \<longleftrightarrow> 2 \<le> length cs \<and> list_all wf_node cs"

abbreviation show_operand :: "node \<Rightarrow> bytes" where
  "show_operand n \<equiv> operand n (show_node n)"

definition stops :: "bytes \<Rightarrow> bool" where
  "stops s \<longleftrightarrow> s = [] \<or> hd s = AMP \<or> hd s = BAR \<or> hd s = CLOSE"

lemma operators_not_label [simp]:
  "\<not> isLabelByte AMP" "\<not> isLabelByte BAR" "\<not> isLabelByte CLOSE" "\<not> isLabelByte OPEN"
  by (simp_all add: isLabelByte_def)

lemma label_prefix:
  assumes "list_all isLabelByte l" "stops s"
  shows "takeWhile isLabelByte (l @ s) = l" "dropWhile isLabelByte (l @ s) = s"
  using assms by (induction l) (auto simp: stops_def takeWhile_eq_Nil_iff dropWhile_eq_self_iff neq_Nil_conv)

definition parses_operand :: "node \<Rightarrow> bool" where
  "parses_operand n \<longleftrightarrow> (\<forall>s. stops s \<longrightarrow> (\<exists>f. parseAtom f (show_operand n @ s) = Some (Inr (n, s))))"

lemma parses_operandD:
  assumes "parses_operand n" "stops s"
  shows "\<exists>f. \<forall>g\<ge>f. parseAtom g (show_operand n @ s) = Some (Inr (n, s))"
  using assms parseAtom_mono unfolding parses_operand_def by metis

lemma parse_ands:
  assumes "\<forall>c\<in>set cs. parses_operand c" "s = [] \<or> hd s = BAR \<or> hd s = CLOSE"
  shows "\<exists>f. parseAnds f as (concat (map (\<lambda>c. AMP # show_operand c) cs) @ s) = Some (Inr (kindAnd (as @ cs), s))"
  using assms(1)
proof (induction cs arbitrary: as)
  case Nil
  then show ?case using assms(2) by (intro exI [of _ 1]) (auto simp: at_byte_def)
next
  case (Cons c cs)
  let ?s = "concat (map (\<lambda>c. AMP # show_operand c) cs) @ s"
  have "stops ?s" using assms(2) by (cases cs) (auto simp: stops_def)
  with Cons.prems obtain f where f: "\<And>g. f \<le> g \<Longrightarrow> parseAtom g (show_operand c @ ?s) = Some (Inr (c, ?s))"
    using parses_operandD [of c ?s] by auto
  obtain h where h: "parseAnds h (as @ [c]) ?s = Some (Inr (kindAnd ((as @ [c]) @ cs), s))"
    using Cons.IH [of "as @ [c]"] Cons.prems by auto
  have "parseAnds (Suc (max f h)) as (AMP # show_operand c @ ?s) = Some (Inr (kindAnd (as @ c # cs), s))"
    using f [of "max f h"] parseAnds_mono [OF h, of "max f h"] by simp
  then show ?case
    unfolding list.map concat.simps append_Cons append_assoc by blast
qed

lemma parse_ors:
  assumes "\<forall>c\<in>set cs. parses_operand c" "s = [] \<or> hd s = CLOSE"
  shows "\<exists>f. parseOrs f as (concat (map (\<lambda>c. BAR # show_operand c) cs) @ s) = Some (Inr (kindOr (as @ cs), s))"
  using assms(1)
proof (induction cs arbitrary: as)
  case Nil
  then show ?case using assms(2) by (intro exI [of _ 1]) (auto simp: at_byte_def)
next
  case (Cons c cs)
  let ?s = "concat (map (\<lambda>c. BAR # show_operand c) cs) @ s"
  have s: "stops ?s" "\<not> at_byte AMP ?s"
    using assms(2) by (cases cs; auto simp: stops_def at_byte_def)+
  with Cons.prems obtain f where f: "\<And>g. f \<le> g \<Longrightarrow> parseAtom g (show_operand c @ ?s) = Some (Inr (c, ?s))"
    using parses_operandD [of c ?s] by auto
  obtain h where h: "parseOrs h (as @ [c]) ?s = Some (Inr (kindOr ((as @ [c]) @ cs), s))"
    using Cons.IH [of "as @ [c]"] Cons.prems by auto
  have "parseAnd (Suc (max f h)) (show_operand c @ ?s) = Some (Inr (c, ?s))"
    using f [of "max f h"] s(2) by simp
  then have "parseOrs (Suc (Suc (max f h))) as (BAR # show_operand c @ ?s) = Some (Inr (kindOr (as @ c # cs), s))"
    using parseOrs_mono [OF h, of "Suc (max f h)"] by (simp del: parseAnd.simps parseOrs.simps add: parseOrs.simps(2) [of "Suc (max f h)"])
  then show ?case
    unfolding list.map concat.simps append_Cons append_assoc by blast
qed

lemma parse_expr_of_operands:
  assumes "wf_node n" "s = [] \<or> hd s = CLOSE"
    and "case n of kindLabel l \<Rightarrow> True | kindAnd cs \<Rightarrow> \<forall>c\<in>set cs. parses_operand c
      | kindOr cs \<Rightarrow> \<forall>c\<in>set cs. parses_operand c"
  shows "\<exists>f. parseExpr f (show_node n @ s) = Some (Inr (n, s))"
proof (cases n)
  case (kindLabel l)
  have s: "stops s" "\<not> at_byte BAR s" "\<not> at_byte AMP s"
    using assms(2) by (auto simp: stops_def at_byte_def)
  have l: "l \<noteq> []" "list_all isLabelByte l" "hd l \<noteq> OPEN"
    using assms(1) kindLabel operators_not_label(4) by (cases l; auto)+
  have "parseExpr (Suc (Suc (Suc 0))) (show_node n @ s) = Some (Inr (n, s))"
    using kindLabel s l label_prefix [OF l(2) s(1)] by (simp add: Let_def)
  then show ?thesis by blast
next
  case (kindAnd cs)
  then obtain c ds where cs: "cs = c # ds" "ds \<noteq> []" using assms(1) by (cases cs; cases "tl cs") auto
  let ?s = "concat (map (\<lambda>c. AMP # show_operand c) ds) @ s"
  have s: "stops ?s" "at_byte AMP ?s" using cs(2) by (cases ds; auto simp: stops_def)+
  have op: "\<forall>c\<in>set cs. parses_operand c" using assms(3) kindAnd by simp
  with s cs obtain f where f: "\<And>g. f \<le> g \<Longrightarrow> parseAtom g (show_operand c @ ?s) = Some (Inr (c, ?s))"
    using parses_operandD [of c ?s] by auto
  obtain h where h: "parseAnds h [c] ?s = Some (Inr (kindAnd ([c] @ ds), s))"
    using parse_ands [of ds s "[c]"] op cs assms(2) by auto
  have "parseAnd (Suc (max f h)) (show_operand c @ ?s) = Some (Inr (n, s))"
    using f [of "max f h"] parseAnds_mono [OF h, of "max f h"] s(2) kindAnd cs by simp
  then have "parseExpr (Suc (Suc (max f h))) (show_operand c @ ?s) = Some (Inr (n, s))"
    using assms(2) by (subst parseExpr.simps(2)) (auto simp: at_byte_def simp del: parseAnd.simps)
  with kindAnd cs show ?thesis by (auto simp: joined_def o_def simp del: parseExpr.simps)
next
  case (kindOr cs)
  then obtain c ds where cs: "cs = c # ds" "ds \<noteq> []" using assms(1) by (cases cs; cases "tl cs") auto
  let ?s = "concat (map (\<lambda>c. BAR # show_operand c) ds) @ s"
  have s: "stops ?s" "at_byte BAR ?s" "\<not> at_byte AMP ?s" using cs(2) by (cases ds; auto simp: stops_def)+
  have op: "\<forall>c\<in>set cs. parses_operand c" using assms(3) kindOr by simp
  with s cs obtain f where f: "\<And>g. f \<le> g \<Longrightarrow> parseAtom g (show_operand c @ ?s) = Some (Inr (c, ?s))"
    using parses_operandD [of c ?s] by auto
  obtain h where h: "parseOrs h [c] ?s = Some (Inr (kindOr ([c] @ ds), s))"
    using parse_ors [of ds s "[c]"] op cs assms(2) by auto
  have "parseAnd (Suc (max f h)) (show_operand c @ ?s) = Some (Inr (c, ?s))"
    using f [of "max f h"] s(3) by simp
  then have "parseExpr (Suc (Suc (max f h))) (show_operand c @ ?s) = Some (Inr (n, s))"
    using parseOrs_mono [OF h, of "Suc (max f h)"] s(2) kindOr cs
    by (subst parseExpr.simps(2)) (auto simp del: parseAnd.simps parseOrs.simps)
  with kindOr cs show ?thesis by (auto simp: joined_def o_def simp del: parseExpr.simps)
qed

lemma parses_operandI:
  assumes "wf_node n" "\<And>s. s = [] \<or> hd s = CLOSE \<Longrightarrow> \<exists>f. parseExpr f (show_node n @ s) = Some (Inr (n, s))"
  shows "parses_operand n"
proof (cases "\<exists>l. n = kindLabel l")
  case True
  then obtain l where l: "n = kindLabel l" "l \<noteq> []" "list_all isLabelByte l" using assms(1) by auto
  then have "hd l \<noteq> OPEN" using operators_not_label(4) by (cases l) auto
  with l have "parseAtom (Suc 0) (show_operand n @ s) = Some (Inr (n, s))" if "stops s" for s
    using label_prefix [OF l(3) that] by (simp add: operand_def Let_def)
  then show ?thesis unfolding parses_operand_def by blast
next
  case False
  then have op: "show_operand n = OPEN # show_node n @ [CLOSE]" by (cases n) (auto simp: operand_def)
  have "\<exists>f. parseAtom f (show_operand n @ s) = Some (Inr (n, s))" for s
  proof -
    obtain f where "parseExpr f (show_node n @ CLOSE # s) = Some (Inr (n, CLOSE # s))"
      using assms(2) [of "CLOSE # s"] by auto
    then have "parseAtom (Suc f) (show_operand n @ s) = Some (Inr (n, s))"
      using op by simp
    then show ?thesis by blast
  qed
  then show ?thesis by (simp add: parses_operand_def)
qed

lemma parses_operand_wf: "wf_node n \<Longrightarrow> parses_operand n"
proof (induction n)
  case (kindLabel l)
  then show ?case using parse_expr_of_operands [of "kindLabel l"] parses_operandI by auto
next
  case (kindAnd cs)
  then have "\<forall>c\<in>set cs. parses_operand c" by (auto simp: list_all_iff)
  with kindAnd.prems parse_expr_of_operands [of "kindAnd cs"] parses_operandI show ?case by auto
next
  case (kindOr cs)
  then have "\<forall>c\<in>set cs. parses_operand c" by (auto simp: list_all_iff)
  with kindOr.prems parse_expr_of_operands [of "kindOr cs"] parses_operandI show ?case by auto
qed

lemma parse_show_node_eq: "wf_node n \<Longrightarrow> parse (show_node n) = Some (Inr n)"
proof -
  assume n: "wf_node n"
  then have "case n of kindLabel l \<Rightarrow> True | kindAnd cs \<Rightarrow> \<forall>c\<in>set cs. parses_operand c
      | kindOr cs \<Rightarrow> \<forall>c\<in>set cs. parses_operand c"
    using parses_operand_wf by (cases n) (auto simp: list_all_iff)
  from parse_expr_of_operands [OF n _ this, of "[]"]
  obtain f where f: "parseExpr f (show_node n) = Some (Inr (n, []))" by auto
  obtain r where r: "parseExpr (parse_fuel (show_node n)) (show_node n) = Some r"
    using parser_total(1) [of "show_node n" "parse_fuel (show_node n)"]
    by (auto simp: parse_fuel_def ends_below_def)
  have "r = Inr (n, [])"
    using parseExpr_mono [OF f, of "max f (parse_fuel (show_node n))"]
      parseExpr_mono [OF r, of "max f (parse_fuel (show_node n))"] by simp
  with r show ?thesis by (simp add: parse_def)
qed

section \<open>The cache is transparent\<close>

definition compiled :: "bytes \<Rightarrow> node option" where
  "compiled cv = (case parse cv of Some (Inr n) \<Rightarrow> Some n | _ \<Rightarrow> None)"

definition visible :: "authorizations \<Rightarrow> bytes \<Rightarrow> bool" where
  "visible a cv \<longleftrightarrow> cv = [] \<or> (case compiled cv of Some n \<Rightarrow> evalNode n a | None \<Rightarrow> False)"

definition cache_ok :: "evaluator \<Rightarrow> bool" where
  "cache_ok e \<longleftrightarrow> (\<forall>cv x. cache e cv = Some x \<longrightarrow> x = compiled cv)"

lemma cache_ok_New [simp]: "cache_ok (NewEvaluator a)"
  by (simp add: cache_ok_def NewEvaluator_def)

lemma Visible_miss:
  "cv \<noteq> [] \<Longrightarrow> cache e cv = None \<Longrightarrow>
     Visible cv e = (visible (auths e) cv, e\<lparr>cache := (cache e)(cv \<mapsto> compiled cv)\<rparr>)"
  by (simp add: Visible_def visible_def compiled_def split: option.split sum.split)

lemma Visible_hit:
  "cache_ok e \<Longrightarrow> cv = [] \<or> cache e cv \<noteq> None \<Longrightarrow> Visible cv e = (visible (auths e) cv, e)"
  by (auto simp: Visible_def visible_def cache_ok_def split: option.split)

lemma Visible_cache_ok:
  assumes "cache_ok e"
  shows "\<exists>e'. Visible cv e = (visible (auths e) cv, e') \<and> cache_ok e' \<and> auths e' = auths e"
proof (cases "cv = [] \<or> cache e cv \<noteq> None")
  case True
  with assms show ?thesis by (simp add: Visible_hit)
next
  case False
  with assms show ?thesis by (simp add: Visible_miss cache_ok_def)
qed

text \<open>Evaluating a sequence of visibilities with one evaluator.\<close>

fun Visible_seq :: "bytes list \<Rightarrow> evaluator \<Rightarrow> bool list" where
  "Visible_seq [] e = []"
| "Visible_seq (cv # cvs) e = (let (b, e') = Visible cv e in b # Visible_seq cvs e')"

lemma Visible_seq_cache_ok: "cache_ok e \<Longrightarrow> Visible_seq cvs e = map (visible (auths e)) cvs"
proof (induction cvs arbitrary: e)
  case (Cons cv cvs)
  then show ?case using Visible_cache_ok [OF Cons.prems, of cv] by auto
qed simp

lemma evalNode_mono:
  "auth_set a \<subseteq> auth_set b \<Longrightarrow> evalNode n a \<Longrightarrow> evalNode n b"
  by (induction n) (auto simp: HasLabel_def list_all_iff list_ex_iff)

lemma auth_set_New [simp]: "auth_set (NewAuthorizations ls) = set ls"
proof -
  have "foldl (\<lambda>s l. insert l s) S ls = S \<union> set ls" for S :: "bytes set"
    by (induction ls arbitrary: S) auto
  then show ?thesis by (simp add: NewAuthorizations_def)
qed

section \<open>Properties\<close>

text \<open>
  C25: the parser reads back every well-formed expression tree from its printed form:
  parsing the text of a tree of labels, conjunctions and disjunctions returns that tree,
  for every nesting of the operators.
\<close>

theorem parse_show_node:
  assumes "wf_node n"
  shows "parse (show_node n) = Some (Inr n)"
  using assms by (rule parse_show_node_eq)

theorem parse_show_node_witness:
  "parse [0x61, 0x26, 0x28, 0x62, 0x7C, 0x63, 0x29] =
     Some (Inr (kindAnd [kindLabel [0x61], kindOr [kindLabel [0x62], kindLabel [0x63]]]))"
proof -
  let ?n = "kindAnd [kindLabel [0x61], kindOr [kindLabel [0x62], kindLabel [0x63]]]"
  have "wf_node ?n" by (simp add: isLabelByte_def)
  moreover have "show_node ?n = [0x61, 0x26, 0x28, 0x62, 0x7C, 0x63, 0x29]"
    by (simp add: joined_def operand_def)
  ultimately show ?thesis using parse_show_node [of ?n] by simp
qed

text \<open>
  C26: the parser terminates on every byte string, with a tree or with an error that wraps
  \<^verbatim>\<open>ErrParse\<close>.
\<close>

theorem parse_returns:
  "\<exists>r. parse cv = Some r \<and> (case r of Inl e \<Rightarrow> errors_Is e ErrParse | Inr n \<Rightarrow> True)"
  using parse_total [of cv] by (auto split: sum.splits)

text \<open>
  C27: the evaluator's cache of compiled expressions, parse failures included, never
  changes an answer: a fresh evaluator asked about any sequence of visibilities gives for
  each the answer of parsing and evaluating it alone, and refuses a malformed one.
\<close>

theorem evaluator_cache_transparent:
  "Visible_seq cvs (NewEvaluator a) = map (visible a) cvs"
  using Visible_seq_cache_ok [OF cache_ok_New] by (simp add: NewEvaluator_def)

text \<open>
  Visibility is monotone in the authorizations: a cell visible to a caller is visible
  to every caller with at least the same labels.
\<close>

theorem visible_mono:
  assumes "set ls \<subseteq> set ls'" "visible (NewAuthorizations ls) cv"
  shows "visible (NewAuthorizations ls') cv"
  using assms evalNode_mono [of "NewAuthorizations ls" "NewAuthorizations ls'"]
  by (auto simp: visible_def split: option.splits)

end
