(* ===== verification/Iter_Filters.thy ===== *)
theory Iter_Filters
  imports Iter_Core Vis_Filter
begin

text \<open>
  The iterators that only leave cells out: \<^verbatim>\<open>AsOfIterator\<close> (\<^verbatim>\<open>internal/iterrt/asof.go\<close>),
  \<^verbatim>\<open>VisibilityFilter\<close> (\<^verbatim>\<open>internal/iterrt/visibility.go\<close>), \<^verbatim>\<open>tombstonesOnly\<close> and the
  transparent \<^verbatim>\<open>tombstoneCounter\<close> (\<^verbatim>\<open>internal/compaction/compaction.go\<close>). What they
  share is the locale \<open>filtering\<close>: after a seek or a step of the source, a loop advances
  to the next cell to keep. In that locale the iterator is proved lawful with the view
  \<open>filter keep\<close> of the source's view.
\<close>

section \<open>The shape of a filtering iterator\<close>

locale filtering = skvi ops wf ready rem view
  for ops :: "'s skvi" and wf ready :: "'s \<Rightarrow> bool" and rem :: "'s \<Rightarrow> cell list"
    and view :: "'s \<Rightarrow> range \<Rightarrow> bytes list \<Rightarrow> bool \<Rightarrow> cell list" +
  fixes fops :: "'t skvi"
    and src :: "'t \<Rightarrow> 's"
    and conf :: "'t \<Rightarrow> bool"
    and ok :: "'t \<Rightarrow> bool"
    and keep :: "'t \<Rightarrow> cell \<Rightarrow> bool"
  assumes ok_conf: "ok t \<Longrightarrow> conf t"
    and f_seek: "\<lbrakk>conf t; Seek ops r cfs inclusive (src t) = Some (s, None); ready s; view s = view (src t)\<rbrakk> \<Longrightarrow>
      \<exists>t'. Seek fops r cfs inclusive t = Some (t', None) \<and> ok t' \<and> ready (src t') \<and>
        rem (src t') = dropWhile (\<lambda>c. \<not> keep t c) (rem s) \<and> keep t' = keep t \<and> view (src t') = view (src t)"
    and f_next: "\<lbrakk>ok t; Next ops (src t) = Some (s, None); HasTop ops (src t); ready s; view s = view (src t)\<rbrakk> \<Longrightarrow>
      \<exists>t'. Next fops t = Some (t', None) \<and> ok t' \<and> ready (src t') \<and>
        rem (src t') = dropWhile (\<lambda>c. \<not> keep t c) (rem s) \<and> keep t' = keep t \<and> view (src t') = view (src t)"
    and f_top: "ok t \<Longrightarrow> HasTop fops t \<longleftrightarrow> HasTop ops (src t)"
    and f_key: "ok t \<Longrightarrow> HasTop ops (src t) \<Longrightarrow> GetTopKey fops t = GetTopKey ops (src t)"
    and f_value: "ok t \<Longrightarrow> HasTop ops (src t) \<Longrightarrow> GetTopValue fops t = GetTopValue ops (src t)"
begin

definition f_wf :: "'t \<Rightarrow> bool" where
  "f_wf t \<longleftrightarrow> conf t \<and> wf (src t)"

definition f_ready :: "'t \<Rightarrow> bool" where
  "f_ready t \<longleftrightarrow> ok t \<and> ready (src t) \<and> (rem (src t) \<noteq> [] \<longrightarrow> keep t (hd (rem (src t))))"

definition f_rem :: "'t \<Rightarrow> cell list" where
  "f_rem t = filter (keep t) (rem (src t))"

definition f_view :: "'t \<Rightarrow> range \<Rightarrow> bytes list \<Rightarrow> bool \<Rightarrow> cell list" where
  "f_view t r cfs inclusive = filter (keep t) (view (src t) r cfs inclusive)"

lemma f_rem_ready: "f_ready t \<Longrightarrow> f_rem t = c # cs \<Longrightarrow>
    \<exists>ds. rem (src t) = c # ds \<and> cs = filter (keep t) ds"
  by (cases "rem (src t)") (auto simp: f_ready_def f_rem_def)

lemma f_after:
  assumes "ok t'" "ready (src t')" "rem (src t') = dropWhile (\<lambda>c. \<not> keep t c) cs" "keep t' = keep t"
  shows "f_ready t'" "f_rem t' = filter (keep t) cs"
proof -
  show "f_ready t'"
    using assms hd_dropWhile [of "\<lambda>c. \<not> keep t c" cs] by (simp add: f_ready_def)
  show "f_rem t' = filter (keep t) cs"
    using assms(3,4) by (simp add: f_rem_def filter_dropWhile)
qed

lemma lawful: "skvi fops f_wf f_ready f_rem f_view"
proof
  fix t assume t: "f_ready t"
  show "f_wf t" using t ready_wf ok_conf by (auto simp: f_wf_def f_ready_def)
  show "HasTop fops t \<longleftrightarrow> f_rem t \<noteq> []"
    using t f_top top_law by (cases "rem (src t)") (auto simp: f_ready_def f_rem_def)
  show "sorted_cells (f_rem t)"
    using t sorted_law by (simp add: f_ready_def f_rem_def)
next
  fix t r cfs inclusive assume t: "f_wf t"
  obtain s where s: "Seek ops r cfs inclusive (src t) = Some (s, None)" "ready s"
      "rem s = view (src t) r cfs inclusive" "view s = view (src t)"
    using t seek_law [of "src t" r cfs inclusive] by (auto simp: f_wf_def)
  obtain t' where t': "Seek fops r cfs inclusive t = Some (t', None)" "ok t'" "ready (src t')"
      "rem (src t') = dropWhile (\<lambda>c. \<not> keep t c) (rem s)" "keep t' = keep t" "view (src t') = view (src t)"
    using t f_seek [OF _ s(1,2,4)] by (auto simp: f_wf_def)
  then have "f_view t' = f_view t" by (intro ext) (simp add: f_view_def)
  with t' f_after [of t' t "rem s"] s(3)
  show "\<exists>t'. Seek fops r cfs inclusive t = Some (t', None) \<and> f_ready t' \<and>
      f_rem t' = f_view t r cfs inclusive \<and> f_view t' = f_view t"
    by (auto simp: f_view_def)
next
  fix t c cs assume t: "f_ready t" "f_rem t = c # cs"
  then obtain ds where ds: "rem (src t) = c # ds" "cs = filter (keep t) ds"
    using f_rem_ready by blast
  have ok: "ok t" "ready (src t)" using t by (simp_all add: f_ready_def)
  have top: "HasTop ops (src t)" using top_law [OF ok(2)] ds by simp
  show "GetTopKey fops t = Some (fst c)" "GetTopValue fops t = snd c"
    using f_key f_value key_law value_law ok top ds by auto
  obtain s where s: "Next ops (src t) = Some (s, None)" "ready s" "rem s = ds" "view s = view (src t)"
    using next_law [OF ok(2) ds(1)] by blast
  obtain t' where t': "Next fops t = Some (t', None)" "ok t'" "ready (src t')"
      "rem (src t') = dropWhile (\<lambda>c. \<not> keep t c) (rem s)" "keep t' = keep t" "view (src t') = view (src t)"
    using f_next [OF ok(1) s(1) top s(2,4)] by auto
  then have "f_view t' = f_view t" by (intro ext) (simp add: f_view_def)
  with t' f_after [of t' t "rem s"] s(3) ds(2)
  show "\<exists>t'. Next fops t = Some (t', None) \<and> f_ready t' \<and> f_rem t' = cs \<and> f_view t' = f_view t"
    by auto
qed

end

section \<open>AsOfIterator\<close>

record 's asof =
  a_source :: 's
  a_ceiling :: int64
  a_err :: "go_err option"

definition AsOfOption :: string where
  "AsOfOption = ''asOfTimestamp''"

definition asof_Init :: "'s option \<Rightarrow> options \<Rightarrow> environment \<Rightarrow> 's asof res" where
  "asof_Init source options env =
     (case source of
        None \<Rightarrow> Inl (Errorf ''iterrt: AsOfIterator requires a non-nil source'')
      | Some src \<Rightarrow>
          (case options AsOfOption of
             None \<Rightarrow> Inr \<lparr>a_source = src, a_ceiling = 0, a_err = None\<rparr>
           | Some s \<Rightarrow>
               if s = '''' then Inr \<lparr>a_source = src, a_ceiling = 0, a_err = None\<rparr>
               else (case ParseInt s of
                   None \<Rightarrow> Inl (Errorf (''iterrt: AsOfIterator bad integer asOfTimestamp: '' @ s))
                 | Some n \<Rightarrow>
                     Inr \<lparr>a_source = src, a_ceiling = (if n > 0 then word_of_int n else 0), a_err = None\<rparr>)))"

definition asof_active :: "'s asof \<Rightarrow> bool" where
  "asof_active a \<longleftrightarrow> ts_less 0 (a_ceiling a)"

definition asof_findTop :: "'s skvi \<Rightarrow> 's asof \<Rightarrow> 's asof step" where
  "asof_findTop src a =
     (if \<not> asof_active a then Some (a, None)
      else case skip_while src (\<lambda>k. ts_less (a_ceiling a) (Timestamp k)) (a_source a) of
        None \<Rightarrow> None
      | Some (s, Some e) \<Rightarrow> Some (a\<lparr>a_source := s, a_err := Some e\<rparr>, Some e)
      | Some (s, None) \<Rightarrow> Some (a\<lparr>a_source := s\<rparr>, None))"

definition asof_Seek :: "'s skvi \<Rightarrow> range \<Rightarrow> bytes list \<Rightarrow> bool \<Rightarrow> 's asof \<Rightarrow> 's asof step" where
  "asof_Seek src r columnFamilies inclusive a =
     (case Seek src r columnFamilies inclusive (a_source a) of
        None \<Rightarrow> None
      | Some (s, Some e) \<Rightarrow> Some (a\<lparr>a_source := s, a_err := Some e\<rparr>, Some e)
      | Some (s, None) \<Rightarrow> asof_findTop src (a\<lparr>a_source := s, a_err := None\<rparr>))"

definition asof_Next :: "'s skvi \<Rightarrow> 's asof \<Rightarrow> 's asof step" where
  "asof_Next src a =
     (case a_err a of
        Some e \<Rightarrow> Some (a, Some e)
      | None \<Rightarrow>
          if \<not> HasTop src (a_source a)
          then Some (a, Some (Errorf ''iterrt: AsOfIterator.Next called without a top''))
          else (case Next src (a_source a) of
              None \<Rightarrow> None
            | Some (s, Some e) \<Rightarrow> Some (a\<lparr>a_source := s, a_err := Some e\<rparr>, Some e)
            | Some (s, None) \<Rightarrow> asof_findTop src (a\<lparr>a_source := s\<rparr>)))"

definition asof_HasTop :: "'s skvi \<Rightarrow> 's asof \<Rightarrow> bool" where
  "asof_HasTop src a \<longleftrightarrow> a_err a = None \<and> HasTop src (a_source a)"

definition asof_GetTopKey :: "'s skvi \<Rightarrow> 's asof \<Rightarrow> key option" where
  "asof_GetTopKey src a = (if \<not> HasTop src (a_source a) then None else GetTopKey src (a_source a))"

definition asof_GetTopValue :: "'s skvi \<Rightarrow> 's asof \<Rightarrow> bytes" where
  "asof_GetTopValue src a = (if \<not> HasTop src (a_source a) then [] else GetTopValue src (a_source a))"

definition asof_DeepCopy :: "('s \<Rightarrow> 's) \<Rightarrow> 's asof \<Rightarrow> 's asof" where
  "asof_DeepCopy copy a = \<lparr>a_source = copy (a_source a), a_ceiling = a_ceiling a, a_err = None\<rparr>"

definition asof_skvi :: "'s skvi \<Rightarrow> 's asof skvi" where
  "asof_skvi src =
     \<lparr>Seek = asof_Seek src, Next = asof_Next src, HasTop = asof_HasTop src,
      GetTopKey = asof_GetTopKey src, GetTopValue = asof_GetTopValue src\<rparr>"

definition asof_ok :: "'s asof \<Rightarrow> bool" where
  "asof_ok a \<longleftrightarrow> a_err a = None"

definition asof_keep :: "'s asof \<Rightarrow> cell \<Rightarrow> bool" where
  "asof_keep a c \<longleftrightarrow> \<not> asof_active a \<or> \<not> ts_less (a_ceiling a) (Timestamp (fst c))"

lemmas asof_defs = asof_skvi_def asof_Seek_def asof_Next_def asof_findTop_def asof_HasTop_def
  asof_GetTopKey_def asof_GetTopValue_def asof_ok_def asof_keep_def asof_active_def

context skvi
begin

lemma asof_findTop_spec:
  assumes "ready (a_source a)" "a_err a = None"
  shows "\<exists>s. asof_findTop ops a = Some (a\<lparr>a_source := s\<rparr>, None) \<and> ready s \<and>
    rem s = dropWhile (\<lambda>c. \<not> asof_keep a c) (rem (a_source a)) \<and> view s = view (a_source a)"
proof (cases "asof_active a")
  case True
  with skip_while_spec [OF assms(1), of "\<lambda>k. ts_less (a_ceiling a) (Timestamp k)"] show ?thesis
    by (auto simp: asof_findTop_def asof_keep_def)
next
  case False
  with assms show ?thesis
    by (intro exI [of _ "a_source a"]) (simp add: asof_findTop_def asof_keep_def)
qed

lemma asof_filtering:
  "filtering ops wf ready rem view (asof_skvi ops) a_source (\<lambda>_. True) asof_ok asof_keep"
proof
  have keep: "asof_keep (a\<lparr>a_source := s\<rparr>) = asof_keep a" for a :: "'s asof" and s
    by (simp add: asof_keep_def asof_active_def fun_eq_iff)
  have keep': "asof_keep (a\<lparr>a_err := e\<rparr>) = asof_keep a" for a :: "'s asof" and e
    by (simp add: asof_keep_def asof_active_def fun_eq_iff)
  fix a :: "'s asof" and r cfs inclusive s
  assume s: "ready s" "view s = view (a_source a)"
  {
    assume "Seek ops r cfs inclusive (a_source a) = Some (s, None)"
    with s asof_findTop_spec [of "a\<lparr>a_source := s, a_err := None\<rparr>"]
    show "\<exists>a'. Seek (asof_skvi ops) r cfs inclusive a = Some (a', None) \<and> asof_ok a' \<and> ready (a_source a') \<and>
        rem (a_source a') = dropWhile (\<lambda>c. \<not> asof_keep a c) (rem s) \<and> asof_keep a' = asof_keep a \<and>
        view (a_source a') = view (a_source a)"
      by (auto simp: asof_skvi_def asof_Seek_def asof_ok_def keep keep')
  next
    assume "Next ops (a_source a) = Some (s, None)" "asof_ok a" "HasTop ops (a_source a)"
    with s asof_findTop_spec [of "a\<lparr>a_source := s\<rparr>"]
    show "\<exists>a'. Next (asof_skvi ops) a = Some (a', None) \<and> asof_ok a' \<and> ready (a_source a') \<and>
        rem (a_source a') = dropWhile (\<lambda>c. \<not> asof_keep a c) (rem s) \<and> asof_keep a' = asof_keep a \<and>
        view (a_source a') = view (a_source a)"
      by (auto simp: asof_skvi_def asof_Next_def asof_ok_def keep keep')
  }
qed (simp_all add: asof_defs)

lemmas asof_lawful = filtering.lawful [OF asof_filtering]

end

interpretation asof_slice: filtering slice_skvi slice_wf slice_ready slice_rem slice_view
  "asof_skvi slice_skvi" a_source "\<lambda>_. True" asof_ok asof_keep
  by (rule slice.asof_filtering)

section \<open>VisibilityFilter\<close>

text \<open>\<^verbatim>\<open>eval\<close> is nil when the filter is inactive.\<close>

record 's visibility =
  vf_source :: 's
  vf_active :: bool
  vf_eval :: "evaluator option"
  vf_err :: "go_err option"

definition visibility_Init :: "'s option \<Rightarrow> options \<Rightarrow> environment \<Rightarrow> 's visibility res" where
  "visibility_Init source options env =
     (case source of
        None \<Rightarrow> Inl (Errorf ''iterrt: VisibilityFilter requires a non-nil source'')
      | Some src \<Rightarrow>
          Inr \<lparr>vf_source = src,
               vf_active = (Scope env = ScopeScan \<and> Authorizations env \<noteq> None),
               vf_eval = (if Scope env = ScopeScan
                          then map_option (\<lambda>ls. NewEvaluator (NewAuthorizations ls)) (Authorizations env)
                          else None),
               vf_err = None\<rparr>)"

text \<open>The loop of \<^verbatim>\<open>skipInvisible\<close>; the evaluator's cache grows as it runs.\<close>

partial_function (option) invisible_loop ::
  "'s skvi \<Rightarrow> evaluator \<Rightarrow> 's \<Rightarrow> (evaluator \<times> 's \<times> go_err option) option" where
  "invisible_loop src ev s =
     (if \<not> HasTop src s then Some (ev, s, None)
      else case GetTopKey src s of
        None \<Rightarrow> None
      | Some k \<Rightarrow>
          (let v = Visible (ColumnVisibility k) ev in
           if fst v then Some (snd v, s, None)
           else (case Next src s of
               None \<Rightarrow> None
             | Some (s', e) \<Rightarrow>
                 (case e of
                    None \<Rightarrow> invisible_loop src (snd v) s'
                  | Some x \<Rightarrow> Some (snd v, s', Some x)))))"

definition skipInvisible :: "'s skvi \<Rightarrow> 's visibility \<Rightarrow> 's visibility step" where
  "skipInvisible src vf =
     (if \<not> vf_active vf then Some (vf, None)
      else case vf_eval vf of
        None \<Rightarrow> None
      | Some ev \<Rightarrow>
          (case invisible_loop src ev (vf_source vf) of
             None \<Rightarrow> None
           | Some (ev', s, Some e) \<Rightarrow>
               Some (vf\<lparr>vf_source := s, vf_eval := Some ev', vf_err := Some e\<rparr>, Some e)
           | Some (ev', s, None) \<Rightarrow> Some (vf\<lparr>vf_source := s, vf_eval := Some ev'\<rparr>, None)))"

definition visibility_Seek ::
  "'s skvi \<Rightarrow> range \<Rightarrow> bytes list \<Rightarrow> bool \<Rightarrow> 's visibility \<Rightarrow> 's visibility step" where
  "visibility_Seek src r columnFamilies inclusive vf =
     (case Seek src r columnFamilies inclusive (vf_source vf) of
        None \<Rightarrow> None
      | Some (s, Some e) \<Rightarrow> Some (vf\<lparr>vf_source := s, vf_err := Some e\<rparr>, Some e)
      | Some (s, None) \<Rightarrow> skipInvisible src (vf\<lparr>vf_source := s, vf_err := None\<rparr>))"

definition visibility_Next :: "'s skvi \<Rightarrow> 's visibility \<Rightarrow> 's visibility step" where
  "visibility_Next src vf =
     (case vf_err vf of
        Some e \<Rightarrow> Some (vf, Some e)
      | None \<Rightarrow>
          if \<not> HasTop src (vf_source vf)
          then Some (vf, Some (Errorf ''iterrt: VisibilityFilter.Next called without a top''))
          else (case Next src (vf_source vf) of
              None \<Rightarrow> None
            | Some (s, Some e) \<Rightarrow> Some (vf\<lparr>vf_source := s, vf_err := Some e\<rparr>, Some e)
            | Some (s, None) \<Rightarrow> skipInvisible src (vf\<lparr>vf_source := s\<rparr>)))"

definition visibility_HasTop :: "'s skvi \<Rightarrow> 's visibility \<Rightarrow> bool" where
  "visibility_HasTop src vf \<longleftrightarrow> vf_err vf = None \<and> HasTop src (vf_source vf)"

definition visibility_GetTopKey :: "'s skvi \<Rightarrow> 's visibility \<Rightarrow> key option" where
  "visibility_GetTopKey src vf =
     (if \<not> HasTop src (vf_source vf) then None else GetTopKey src (vf_source vf))"

definition visibility_GetTopValue :: "'s skvi \<Rightarrow> 's visibility \<Rightarrow> bytes" where
  "visibility_GetTopValue src vf =
     (if \<not> HasTop src (vf_source vf) then [] else GetTopValue src (vf_source vf))"

definition visibility_DeepCopy :: "('s \<Rightarrow> 's) \<Rightarrow> environment \<Rightarrow> 's visibility \<Rightarrow> 's visibility" where
  "visibility_DeepCopy copy env vf =
     \<lparr>vf_source = copy (vf_source vf),
      vf_active = (Scope env = ScopeScan \<and> Authorizations env \<noteq> None),
      vf_eval = (if Scope env = ScopeScan
                 then map_option (\<lambda>ls. NewEvaluator (NewAuthorizations ls)) (Authorizations env)
                 else None),
      vf_err = None\<rparr>"

definition visibility_skvi :: "'s skvi \<Rightarrow> 's visibility skvi" where
  "visibility_skvi src =
     \<lparr>Seek = visibility_Seek src, Next = visibility_Next src, HasTop = visibility_HasTop src,
      GetTopKey = visibility_GetTopKey src, GetTopValue = visibility_GetTopValue src\<rparr>"

definition visibility_conf :: "'s visibility \<Rightarrow> bool" where
  "visibility_conf vf \<longleftrightarrow> (vf_active vf \<longrightarrow> (\<exists>ev. vf_eval vf = Some ev \<and> cache_ok ev))"

definition visibility_ok :: "'s visibility \<Rightarrow> bool" where
  "visibility_ok vf \<longleftrightarrow> visibility_conf vf \<and> vf_err vf = None"

definition visibility_keep :: "'s visibility \<Rightarrow> cell \<Rightarrow> bool" where
  "visibility_keep vf c \<longleftrightarrow>
     \<not> vf_active vf \<or>
     (case vf_eval vf of None \<Rightarrow> True | Some ev \<Rightarrow> visible (auths ev) (ColumnVisibility (fst c)))"

context skvi
begin

lemma invisible_loop_spec:
  "ready s \<Longrightarrow> cache_ok ev \<Longrightarrow> \<exists>ev' s'. invisible_loop ops ev s = Some (ev', s', None) \<and> cache_ok ev' \<and>
     auths ev' = auths ev \<and> ready s' \<and> view s' = view s \<and>
     rem s' = dropWhile (\<lambda>c. \<not> visible (auths ev) (ColumnVisibility (fst c))) (rem s)"
proof (induction "rem s" arbitrary: s ev)
  case Nil
  then show ?case
    using top_law [of s] by (auto simp: invisible_loop.simps)
next
  case (Cons c cs)
  note rem = Cons.hyps(2) [symmetric]
  have top: "HasTop ops s" "GetTopKey ops s = Some (fst c)"
    using top_law key_law Cons.prems rem by auto
  obtain ev' where ev': "Visible (ColumnVisibility (fst c)) ev = (visible (auths ev) (ColumnVisibility (fst c)), ev')"
      "cache_ok ev'" "auths ev' = auths ev"
    using Visible_cache_ok [OF Cons.prems(2)] by blast
  show ?case
  proof (cases "visible (auths ev) (ColumnVisibility (fst c))")
    case True
    with top rem ev' Cons.prems show ?thesis
      by (simp add: invisible_loop.simps [of ops ev s] Let_def)
  next
    case False
    obtain s' where "Next ops s = Some (s', None)" "ready s'" "rem s' = cs" "view s' = view s"
      using next_law [OF Cons.prems(1) rem] by blast
    with Cons.hyps(1) [of s' ev'] top False rem ev' show ?thesis
      by (simp add: invisible_loop.simps [of ops ev s] Let_def)
  qed
qed

lemma skipInvisible_spec:
  assumes "ready (vf_source vf)" "visibility_ok vf"
  shows "\<exists>vf'. skipInvisible ops vf = Some (vf', None) \<and> visibility_ok vf' \<and> ready (vf_source vf') \<and>
    rem (vf_source vf') = dropWhile (\<lambda>c. \<not> visibility_keep vf c) (rem (vf_source vf)) \<and>
    visibility_keep vf' = visibility_keep vf \<and> view (vf_source vf') = view (vf_source vf)"
proof (cases "vf_active vf")
  case True
  then obtain ev where "vf_eval vf = Some ev" "cache_ok ev"
    using assms(2) by (auto simp: visibility_ok_def visibility_conf_def)
  with invisible_loop_spec [OF assms(1), of ev] True assms(2) show ?thesis
    by (auto simp: skipInvisible_def visibility_keep_def visibility_ok_def visibility_conf_def fun_eq_iff)
next
  case False
  with assms show ?thesis
    by (intro exI [of _ vf]) (simp add: skipInvisible_def visibility_keep_def)
qed

lemma visibility_filtering:
  "filtering ops wf ready rem view (visibility_skvi ops) vf_source visibility_conf visibility_ok visibility_keep"
proof
  have keep: "visibility_keep (vf\<lparr>vf_source := s\<rparr>) = visibility_keep vf"
    "visibility_keep (vf\<lparr>vf_err := e\<rparr>) = visibility_keep vf" for vf :: "'s visibility" and s e
    by (simp_all add: visibility_keep_def fun_eq_iff)
  fix vf :: "'s visibility" and r cfs inclusive s
  assume s: "ready s" "view s = view (vf_source vf)"
  {
    assume "Seek ops r cfs inclusive (vf_source vf) = Some (s, None)" "visibility_conf vf"
    with s skipInvisible_spec [of "vf\<lparr>vf_source := s, vf_err := None\<rparr>"]
    show "\<exists>vf'. Seek (visibility_skvi ops) r cfs inclusive vf = Some (vf', None) \<and> visibility_ok vf' \<and>
        ready (vf_source vf') \<and> rem (vf_source vf') = dropWhile (\<lambda>c. \<not> visibility_keep vf c) (rem s) \<and>
        visibility_keep vf' = visibility_keep vf \<and> view (vf_source vf') = view (vf_source vf)"
      by (simp add: visibility_skvi_def visibility_Seek_def visibility_ok_def visibility_conf_def keep)
  next
    assume "Next ops (vf_source vf) = Some (s, None)" "visibility_ok vf" "HasTop ops (vf_source vf)"
    with s skipInvisible_spec [of "vf\<lparr>vf_source := s\<rparr>"]
    show "\<exists>vf'. Next (visibility_skvi ops) vf = Some (vf', None) \<and> visibility_ok vf' \<and>
        ready (vf_source vf') \<and> rem (vf_source vf') = dropWhile (\<lambda>c. \<not> visibility_keep vf c) (rem s) \<and>
        visibility_keep vf' = visibility_keep vf \<and> view (vf_source vf') = view (vf_source vf)"
      by (simp add: visibility_skvi_def visibility_Next_def visibility_ok_def visibility_conf_def keep)
  }
qed (simp_all add: visibility_skvi_def visibility_HasTop_def visibility_GetTopKey_def
      visibility_GetTopValue_def visibility_ok_def)

lemmas visibility_lawful = filtering.lawful [OF visibility_filtering]

end

interpretation visibility_slice: filtering slice_skvi slice_wf slice_ready slice_rem slice_view
  "visibility_skvi slice_skvi" vf_source visibility_conf visibility_ok visibility_keep
  by (rule slice.visibility_filtering)

lemma asof_Seek_sel: "Seek (asof_skvi src) = asof_Seek src"
  by (simp add: asof_skvi_def)

lemma visibility_Seek_sel: "Seek (visibility_skvi src) = visibility_Seek src"
  by (simp add: visibility_skvi_def)

section \<open>Properties\<close>

text \<open>
  C28: a scan through an \<^verbatim>\<open>AsOfIterator\<close> with a positive ceiling returns exactly the
  selected cells whose timestamp is not above it, so it reads the table as it was then;
  with the option absent, empty or not positive it returns every selected cell.
\<close>

theorem asof_scan:
  assumes "sorted_cells cs" "asof_Init (Some (NewSliceSource cs)) options env = Inr a"
  shows "\<exists>a'. asof_Seek slice_skvi r cfs inclusive a = Some (a', None) \<and>
    drain_loop (asof_skvi slice_skvi) [] a' =
      Some (filter (\<lambda>c. sint (a_ceiling a) \<le> 0 \<or> sint (Timestamp (fst c)) \<le> sint (a_ceiling a))
              (filter (selects r cfs inclusive) cs), None)"
proof -
  have src: "a_source a = NewSliceSource cs"
    using assms(2) by (auto simp: asof_Init_def split: option.splits if_splits)
  have keep: "asof_keep a = (\<lambda>c. sint (a_ceiling a) \<le> 0 \<or> sint (Timestamp (fst c)) \<le> sint (a_ceiling a))"
    by (simp add: asof_keep_def fun_eq_iff asof_active_def ts_less_def not_less)
  have "asof_slice.f_wf a"
    using assms(1) src by (simp add: asof_slice.f_wf_def slice_wf_def NewSliceSource_def)
  from skvi.scan_spec [OF asof_slice.lawful this, of r cfs inclusive] src
  show ?thesis
    by (simp add: asof_slice.f_view_def slice_view_def NewSliceSource_def keep asof_Seek_sel)
qed

theorem asof_scan_witness:
  "\<exists>a'. asof_Seek slice_skvi InfiniteRange [] False
       \<lparr>a_source = NewSliceSource [(example_key 9 False, [2]), (example_key 7 False, [1])],
        a_ceiling = 8, a_err = None\<rparr> = Some (a', None) \<and>
     drain_loop (asof_skvi slice_skvi) [] a' = Some ([(example_key 7 False, [1])], None)"
proof -
  let ?cs = "[(example_key 9 False, [2]), (example_key 7 False, [1])]"
  let ?env = "\<lparr>Scope = ScopeScan, FullMajorCompaction = False, Authorizations = None\<rparr>"
  let ?a = "\<lparr>a_source = NewSliceSource ?cs, a_ceiling = 8, a_err = None\<rparr>"
  have "sorted_cells ?cs" by code_simp
  moreover have "ParseInt ''8'' = Some 8" by code_simp
  then have "asof_Init (Some (NewSliceSource ?cs)) [AsOfOption \<mapsto> ''8''] ?env = Inr ?a"
    by (simp add: asof_Init_def)
  ultimately show ?thesis
    using asof_scan [of ?cs "[AsOfOption \<mapsto> ''8'']" ?env ?a InfiniteRange "[]" False]
    by (simp add: example_key_def)
qed

text \<open>
  C24: a scan through a \<^verbatim>\<open>VisibilityFilter\<close> in scan scope returns exactly the selected
  cells whose visibility expression the caller's authorizations satisfy, however the
  expression cache was filled before; in a compaction, or for a caller without
  authorizations set, it lets every selected cell through.
\<close>

theorem visibility_scan:
  assumes "sorted_cells cs" "visibility_Init (Some (NewSliceSource cs)) options env = Inr vf"
  shows "\<exists>vf'. visibility_Seek slice_skvi r cfs inclusive vf = Some (vf', None) \<and>
    drain_loop (visibility_skvi slice_skvi) [] vf' =
      Some (filter (\<lambda>c. Scope env \<noteq> ScopeScan \<or>
                (case Authorizations env of None \<Rightarrow> True
                 | Some ls \<Rightarrow> visible (NewAuthorizations ls) (ColumnVisibility (fst c))))
              (filter (selects r cfs inclusive) cs), None)"
proof -
  have vf: "vf_source vf = NewSliceSource cs" "visibility_conf vf"
    using assms(2) by (auto simp: visibility_Init_def visibility_conf_def)
  have keep: "visibility_keep vf = (\<lambda>c. Scope env \<noteq> ScopeScan \<or>
      (case Authorizations env of None \<Rightarrow> True
       | Some ls \<Rightarrow> visible (NewAuthorizations ls) (ColumnVisibility (fst c))))"
    using assms(2) by (auto simp: visibility_Init_def visibility_keep_def NewEvaluator_def split: option.splits)
  have "visibility_slice.f_wf vf"
    using assms(1) vf by (simp add: visibility_slice.f_wf_def slice_wf_def NewSliceSource_def)
  from skvi.scan_spec [OF visibility_slice.lawful this, of r cfs inclusive] vf(1)
  show ?thesis
    by (simp add: visibility_slice.f_view_def slice_view_def NewSliceSource_def keep visibility_Seek_sel)
qed

theorem visibility_scan_witness:
  "\<exists>vf vf'. visibility_Init (Some (NewSliceSource [((example_key 9 False)\<lparr>ColumnVisibility := [0x61]\<rparr>, [2])])) Map.empty
       \<lparr>Scope = ScopeScan, FullMajorCompaction = False, Authorizations = Some [[0x62]]\<rparr> = Inr vf \<and>
     visibility_Seek slice_skvi InfiniteRange [] False vf = Some (vf', None) \<and>
     drain_loop (visibility_skvi slice_skvi) [] vf' = Some ([], None)"
proof -
  let ?cs = "[((example_key 9 False)\<lparr>ColumnVisibility := [0x61]\<rparr>, [2])]"
  let ?env = "\<lparr>Scope = ScopeScan, FullMajorCompaction = False, Authorizations = Some [[0x62]]\<rparr>"
  have "sorted_cells ?cs" by simp
  moreover obtain vf where vf: "visibility_Init (Some (NewSliceSource ?cs)) Map.empty ?env = Inr vf"
    by (simp add: visibility_Init_def)
  moreover have "\<not> visible (NewAuthorizations [[0x62]]) [0x61]" by code_simp
  ultimately show ?thesis
    using visibility_scan [of ?cs Map.empty ?env vf InfiniteRange "[]" False]
    by (simp add: example_key_def)
qed

end
