(* ===== verification/Iter_Registry.thy ===== *)
theory Iter_Registry
  imports Iter_Versioning Iter_Deleting Iter_Filters "HOL-Library.Char_ord"
begin

text \<open>
  The iterator registry of \<^verbatim>\<open>internal/iterrt/registry.go\<close> and the iterator names of
  \<^verbatim>\<open>stack.go\<close>: the table of registered iterators with the contexts and option keys each
  accepts, the two indexes \<^verbatim>\<open>init\<close> builds from it, the validation of a stack before it is
  built, and the compatibility report for a configured Accumulo stack.

  A \<^verbatim>\<open>CapabilityContext\<close> is a string. An option map is an association list, so that its
  sorted keys can be computed. The constructor held in a registration is left to
  \<open>Iter_Stack\<close>; error texts are not rendered. \<open>None\<close> is a panic.

  The theorems say that the table is consistent (\<^verbatim>\<open>init\<close> does not panic), that validation
  fails closed, and where the option matcher panics.
\<close>

section \<open>Names and contexts\<close>

definition IterVersioning :: string where "IterVersioning = ''versioning''"
definition IterVisibility :: string where "IterVisibility = ''visibility''"
definition IterDeleting :: string where "IterDeleting = ''deleting''"
definition IterLatentEdgeDiscovery :: string where "IterLatentEdgeDiscovery = ''latentEdgeDiscovery''"
definition IterSemanticEdge :: string where "IterSemanticEdge = ''semanticEdge''"
definition IterGraphRank :: string where "IterGraphRank = ''graphRank''"
definition IterCausalInference :: string where "IterCausalInference = ''causalInference''"
definition IterTermIndex :: string where "IterTermIndex = ''termIndex''"
definition IterVectorKNN :: string where "IterVectorKNN = ''vectorKNN''"
definition IterEdgeExpand :: string where "IterEdgeExpand = ''edgeExpand''"
definition IterScoreFilter :: string where "IterScoreFilter = ''scoreFilter''"
definition IterGraphAggregation :: string where "IterGraphAggregation = ''graphAggregation''"
definition IterAnomalyDetect :: string where "IterAnomalyDetect = ''anomalyDetect''"
definition IterVisibilityStamp :: string where "IterVisibilityStamp = ''visibilityStamp''"
definition IterAsOf :: string where "IterAsOf = ''asOf''"
definition IterDocumentIndex :: string where "IterDocumentIndex = ''documentIndex''"
type_synonym CapabilityContext = string

definition ContextUnknown :: CapabilityContext where "ContextUnknown = ''unknown''"
definition ContextScan :: CapabilityContext where "ContextScan = ''scan''"
definition ContextMinc :: CapabilityContext where "ContextMinc = ''minc''"
definition ContextMajc :: CapabilityContext where "ContextMajc = ''majc''"
definition ContextOffline :: CapabilityContext where "ContextOffline = ''offline''"

fun ContextFromScope :: "IteratorScope \<Rightarrow> CapabilityContext" where
  "ContextFromScope ScopeScan = ContextScan"
| "ContextFromScope ScopeMinc = ContextMinc"
| "ContextFromScope ScopeMajc = ContextMajc"

type_synonym option_list = "(string \<times> string) list"

record iter_spec =
  Name :: string
  Options :: option_list

record IteratorCapability =
  cap_Name :: string
  JavaClasses :: "string list"
  Contexts :: "CapabilityContext list"
  ActiveContexts :: "CapabilityContext list"
  OptionKeys :: "string list"
  OptionPatterns :: "string list"

record iteratorOptionPattern =
  description :: string
  pattern_match :: "string \<Rightarrow> bool option"

record iteratorRegistration =
  capability :: IteratorCapability
  patterns :: "iteratorOptionPattern list"

section \<open>Option patterns\<close>

definition HasPrefix :: "string \<Rightarrow> string \<Rightarrow> bool" where
  "HasPrefix s p \<longleftrightarrow> take (length p) s = p"

definition HasSuffix :: "string \<Rightarrow> string \<Rightarrow> bool" where
  "HasSuffix s p \<longleftrightarrow> length p \<le> length s \<and> drop (length s - length p) s = p"

definition allDigits :: "string \<Rightarrow> bool" where
  "allDigits s = (if s = '''' then False else list_all is_digit s)"

definition numericIndexPattern :: "string \<Rightarrow> iteratorOptionPattern" where
  "numericIndexPattern pre =
     \<lparr>description = pre @ ''<n>'',
      pattern_match = (\<lambda>key. Some (if \<not> HasPrefix key pre then False
                                  else allDigits (drop (length pre) key)))\<rparr>"

text \<open>The slice \<^verbatim>\<open>key[len(prefix) : len(key)-len(suffix)]\<close> panics when its bounds cross.\<close>

definition numericIndexSuffixPattern :: "string \<Rightarrow> string \<Rightarrow> iteratorOptionPattern" where
  "numericIndexSuffixPattern pre suf =
     \<lparr>description = pre @ ''<n>'' @ suf,
      pattern_match = (\<lambda>key.
        if \<not> HasPrefix key pre \<or> \<not> HasSuffix key suf then Some False
        else if length key - length suf < length pre then None
        else Some (allDigits (drop (length pre) (take (length key - length suf) key))))\<rparr>"

section \<open>The table\<close>

definition reg_versioning :: iteratorRegistration where
  "reg_versioning =
     \<lparr>capability =
        \<lparr>cap_Name = IterVersioning,
         JavaClasses = [''org.apache.accumulo.core.iterators.user.VersioningIterator'',
           ''org.apache.accumulo.core.iterators.VersioningIterator''],
         Contexts = [ContextScan, ContextMinc, ContextMajc, ContextOffline],
         ActiveContexts = [ContextScan, ContextMinc, ContextMajc, ContextOffline],
         OptionKeys = [VersioningOption],
         OptionPatterns = []\<rparr>,
      patterns = []\<rparr>"

definition reg_visibility :: iteratorRegistration where
  "reg_visibility =
     \<lparr>capability =
        \<lparr>cap_Name = IterVisibility,
         JavaClasses = [''org.apache.accumulo.core.iteratorsImpl.system.VisibilityFilter'',
           ''org.apache.accumulo.core.iterators.system.VisibilityFilter''],
         Contexts = [ContextScan, ContextMinc, ContextMajc, ContextOffline],
         ActiveContexts = [ContextScan],
         OptionKeys = [],
         OptionPatterns = []\<rparr>,
      patterns = []\<rparr>"

definition reg_deleting :: iteratorRegistration where
  "reg_deleting =
     \<lparr>capability =
        \<lparr>cap_Name = IterDeleting,
         JavaClasses = [''org.apache.accumulo.core.iteratorsImpl.system.DeletingIterator'',
           ''org.apache.accumulo.core.iterators.system.DeletingIterator'',
           ''org.apache.accumulo.core.iterators.DeletingIterator''],
         Contexts = [ContextScan, ContextMinc, ContextMajc, ContextOffline],
         ActiveContexts = [ContextScan, ContextMinc, ContextMajc, ContextOffline],
         OptionKeys = [DeletingOptionPropagate, DeletingOptionBehavior],
         OptionPatterns = []\<rparr>,
      patterns = []\<rparr>"

definition reg_latentEdgeDiscovery :: iteratorRegistration where
  "reg_latentEdgeDiscovery =
     \<lparr>capability =
        \<lparr>cap_Name = IterLatentEdgeDiscovery,
         JavaClasses = [''org.apache.accumulo.core.graph.LatentEdgeDiscoveryIterator''],
         Contexts = [ContextMajc, ContextOffline],
         ActiveContexts = [ContextMajc, ContextOffline],
         OptionKeys = [''similarityThreshold'', ''maxPairsPerCell'', ''maxCellBuffer'', ''edgeCF'',
           ''embeddingCF'', ''embeddingCQ'', ''semanticMode'', ''maxEdgesPerVertex'',
           ''maxVectors'', ''direction'', ''inverseEdgeCF''],
         OptionPatterns = []\<rparr>,
      patterns = []\<rparr>"

definition reg_semanticEdge :: iteratorRegistration where
  "reg_semanticEdge =
     \<lparr>capability =
        \<lparr>cap_Name = IterSemanticEdge,
         JavaClasses = [],
         Contexts = [ContextMajc, ContextOffline],
         ActiveContexts = [ContextMajc, ContextOffline],
         OptionKeys = [''similarityThreshold'', ''maxPairsPerCell'', ''maxCellBuffer'', ''edgeCF'',
           ''embeddingCF'', ''embeddingCQ'', ''semanticMode'', ''maxEdgesPerVertex'',
           ''maxVectors'', ''direction'', ''inverseEdgeCF''],
         OptionPatterns = []\<rparr>,
      patterns = []\<rparr>"

definition reg_graphRank :: iteratorRegistration where
  "reg_graphRank =
     \<lparr>capability =
        \<lparr>cap_Name = IterGraphRank,
         JavaClasses = [''org.apache.accumulo.core.graph.GraphRankIterator''],
         Contexts = [ContextMajc, ContextOffline],
         ActiveContexts = [ContextMajc, ContextOffline],
         OptionKeys = [''dampingFactor'', ''maxIterations'', ''edgeType'', ''maxVertices'',
           ''convergenceThreshold'', ''vertexCF'', ''edgeCFPrefix'', ''labelCQ'',
           ''rankCQ''],
         OptionPatterns = []\<rparr>,
      patterns = []\<rparr>"

definition reg_causalInference :: iteratorRegistration where
  "reg_causalInference =
     \<lparr>capability =
        \<lparr>cap_Name = IterCausalInference,
         JavaClasses = [''org.apache.accumulo.core.graph.CausalInferenceEngine''],
         Contexts = [ContextScan],
         ActiveContexts = [ContextScan],
         OptionKeys = [''query.b64'', ''startVertex'', ''direction'', ''maxDepth'', ''threshold'',
           ''edgeType'', ''maxVertices'', ''vertexCF'', ''embeddingCQ'', ''edgeCFPrefix'',
           ''inverseEdgeCFPrefix'', ''resultCF'', ''resultCQ''],
         OptionPatterns = []\<rparr>,
      patterns = []\<rparr>"

definition reg_termIndex :: iteratorRegistration where
  "reg_termIndex =
     \<lparr>capability =
        \<lparr>cap_Name = IterTermIndex,
         JavaClasses = [],
         Contexts = [ContextScan],
         ActiveContexts = [ContextScan],
         OptionKeys = [''termCount'', ''primaryPrefix'', ''idSource'', ''postingCF'', ''phrase'',
           ''numericLower'', ''numericLowerSet'', ''numericUpper'', ''numericUpperSet'',
           ''numericLowerInclusive'', ''numericUpperInclusive''],
         OptionPatterns = [''term.<n>'']\<rparr>,
      patterns = [numericIndexPattern ''term.'']\<rparr>"

definition reg_vectorKNN :: iteratorRegistration where
  "reg_vectorKNN =
     \<lparr>capability =
        \<lparr>cap_Name = IterVectorKNN,
         JavaClasses = [],
         Contexts = [ContextScan],
         ActiveContexts = [ContextScan],
         OptionKeys = [''query.b64'', ''embeddingSpace'', ''topK'', ''embeddingCF'', ''metric'',
           ''minScore''],
         OptionPatterns = []\<rparr>,
      patterns = []\<rparr>"

definition reg_edgeExpand :: iteratorRegistration where
  "reg_edgeExpand =
     \<lparr>capability =
        \<lparr>cap_Name = IterEdgeExpand,
         JavaClasses = [],
         Contexts = [ContextScan],
         ActiveContexts = [ContextScan],
         OptionKeys = [''anchorCount'', ''edgeCF'', ''edgeField'', ''fieldSep'', ''idIndex'',
           ''relIndex'', ''relCount'', ''primaryPrefix'', ''includeAnchors'', ''maxHops'',
           ''edgeWeightCount''],
         OptionPatterns = [''anchor.<n>'', ''rel.<n>'', ''edgeWeight.rel.<n>'', ''edgeWeight.weight.<n>'']\<rparr>,
      patterns = [numericIndexPattern ''anchor.'', numericIndexPattern ''rel.'',
           numericIndexPattern ''edgeWeight.rel.'',
           numericIndexPattern ''edgeWeight.weight.'']\<rparr>"

definition reg_scoreFilter :: iteratorRegistration where
  "reg_scoreFilter =
     \<lparr>capability =
        \<lparr>cap_Name = IterScoreFilter,
         JavaClasses = [],
         Contexts = [ContextScan],
         ActiveContexts = [ContextScan],
         OptionKeys = [''scoreCF'', ''method'', ''query.b64'', ''topK'', ''paramCount'',
           ''timestampAnchorMs'', ''halfLifeMs''],
         OptionPatterns = [''param.<n>'']\<rparr>,
      patterns = [numericIndexPattern ''param.'']\<rparr>"

definition reg_graphAggregation :: iteratorRegistration where
  "reg_graphAggregation =
     \<lparr>capability =
        \<lparr>cap_Name = IterGraphAggregation,
         JavaClasses = [],
         Contexts = [ContextScan],
         ActiveContexts = [ContextScan],
         OptionKeys = [''aggregationOp'', ''groupBy'', ''rowPrefixSep'', ''valueCF'', ''valueCQ'',
           ''resultRow'', ''resultCF''],
         OptionPatterns = []\<rparr>,
      patterns = []\<rparr>"

definition reg_anomalyDetect :: iteratorRegistration where
  "reg_anomalyDetect =
     \<lparr>capability =
        \<lparr>cap_Name = IterAnomalyDetect,
         JavaClasses = [],
         Contexts = [ContextScan],
         ActiveContexts = [ContextScan],
         OptionKeys = [''valueCF'', ''valueCQ'', ''min'', ''max''],
         OptionPatterns = []\<rparr>,
      patterns = []\<rparr>"

definition reg_visibilityStamp :: iteratorRegistration where
  "reg_visibilityStamp =
     \<lparr>capability =
        \<lparr>cap_Name = IterVisibilityStamp,
         JavaClasses = [],
         Contexts = [ContextMajc, ContextOffline],
         ActiveContexts = [ContextMajc, ContextOffline],
         OptionKeys = [''label'', ''mode''],
         OptionPatterns = []\<rparr>,
      patterns = []\<rparr>"

definition reg_asOf :: iteratorRegistration where
  "reg_asOf =
     \<lparr>capability =
        \<lparr>cap_Name = IterAsOf,
         JavaClasses = [],
         Contexts = [ContextScan],
         ActiveContexts = [ContextScan],
         OptionKeys = [AsOfOption],
         OptionPatterns = []\<rparr>,
      patterns = []\<rparr>"

definition reg_documentIndex :: iteratorRegistration where
  "reg_documentIndex =
     \<lparr>capability =
        \<lparr>cap_Name = IterDocumentIndex,
         JavaClasses = [],
         Contexts = [ContextScan],
         ActiveContexts = [ContextScan],
         OptionKeys = [''shardCount'', ''termCount'', ''boolOp''],
         OptionPatterns = [''shard.<n>'', ''term.<n>.field'', ''term.<n>.value'']\<rparr>,
      patterns = [numericIndexPattern ''shard.'', numericIndexSuffixPattern ''term.'' ''.field'',
           numericIndexSuffixPattern ''term.'' ''.value'']\<rparr>"

definition iteratorRegistry :: "iteratorRegistration list" where
  "iteratorRegistry =
     [reg_versioning,
      reg_visibility,
      reg_deleting,
      reg_latentEdgeDiscovery,
      reg_semanticEdge,
      reg_graphRank,
      reg_causalInference,
      reg_termIndex,
      reg_vectorKNN,
      reg_edgeExpand,
      reg_scoreFilter,
      reg_graphAggregation,
      reg_anomalyDetect,
      reg_visibilityStamp,
      reg_asOf,
      reg_documentIndex]"

section \<open>The indexes\<close>

type_synonym index = "string \<rightharpoonup> iteratorRegistration"

fun index_classes :: "iteratorRegistration \<Rightarrow> string list \<Rightarrow> index \<Rightarrow> index option" where
  "index_classes reg [] byClass = Some byClass"
| "index_classes reg (class # classes) byClass =
     (if byClass class \<noteq> None then None else index_classes reg classes (byClass(class \<mapsto> reg)))"

fun init_loop :: "iteratorRegistration list \<Rightarrow> index \<Rightarrow> index \<Rightarrow> (index \<times> index) option" where
  "init_loop [] byName byClass = Some (byName, byClass)"
| "init_loop (reg # regs) byName byClass =
     (if byName (cap_Name (capability reg)) \<noteq> None then None
      else case index_classes reg (JavaClasses (capability reg)) byClass of
        None \<Rightarrow> None
      | Some byClass' \<Rightarrow> init_loop regs (byName(cap_Name (capability reg) \<mapsto> reg)) byClass')"

definition registryByName :: index where
  "registryByName = (case init_loop iteratorRegistry Map.empty Map.empty of
     None \<Rightarrow> Map.empty | Some (byName, byClass) \<Rightarrow> byName)"

definition registryByClass :: index where
  "registryByClass = (case init_loop iteratorRegistry Map.empty Map.empty of
     None \<Rightarrow> Map.empty | Some (byName, byClass) \<Rightarrow> byClass)"

definition CapabilityByName :: "string \<Rightarrow> IteratorCapability option" where
  "CapabilityByName name = map_option capability (registryByName name)"

definition CapabilityByJavaClass :: "string \<Rightarrow> IteratorCapability option" where
  "CapabilityByJavaClass class = map_option capability (registryByClass class)"

section \<open>Validation\<close>

definition supportsContext :: "iteratorRegistration \<Rightarrow> CapabilityContext \<Rightarrow> bool" where
  "supportsContext reg ctx \<longleftrightarrow> list_ex (\<lambda>supported. supported = ctx) (Contexts (capability reg))"

fun match_any :: "iteratorOptionPattern list \<Rightarrow> string \<Rightarrow> bool option" where
  "match_any [] key = Some False"
| "match_any (p # ps) key =
     (case pattern_match p key of
        None \<Rightarrow> None
      | Some b \<Rightarrow> if b then Some True else match_any ps key)"

definition supportsOption :: "iteratorRegistration \<Rightarrow> string \<Rightarrow> bool option" where
  "supportsOption reg key =
     (if list_ex (\<lambda>exact. key = exact) (OptionKeys (capability reg)) then Some True
      else match_any (patterns reg) key)"

fun invalid_loop :: "iteratorRegistration \<Rightarrow> string list \<Rightarrow> string list option" where
  "invalid_loop reg [] = Some []"
| "invalid_loop reg (key # keys) =
     (case supportsOption reg key of
        None \<Rightarrow> None
      | Some b \<Rightarrow> if b then invalid_loop reg keys else map_option ((#) key) (invalid_loop reg keys))"

definition option_keys :: "option_list \<Rightarrow> string list" where
  "option_keys options = sort (remdups (map fst options))"

definition invalidOptions :: "iteratorRegistration \<Rightarrow> option_list \<Rightarrow> string list option" where
  "invalidOptions reg options =
     (if length options = 0 then Some [] else invalid_loop reg (option_keys options))"

definition supportedOptions :: "iteratorRegistration \<Rightarrow> string list" where
  "supportedOptions reg =
     (if length (OptionKeys (capability reg)) = 0 \<and> length (OptionPatterns (capability reg)) = 0 then []
      else OptionKeys (capability reg) @ OptionPatterns (capability reg))"

text \<open>The error of a spec, if it has one.\<close>

definition ValidateSpec :: "iter_spec \<Rightarrow> CapabilityContext \<Rightarrow> go_err option option" where
  "ValidateSpec spec ctx =
     (case registryByName (Name spec) of
        None \<Rightarrow> Some (Some (UnknownIteratorError (Name spec)))
      | Some reg \<Rightarrow>
          (let issues = (if \<not> supportsContext reg ctx
                         then [UnsupportedIteratorContextError (Name spec) ctx (Contexts (capability reg))]
                         else []) in
           case invalidOptions reg (Options spec) of
             None \<Rightarrow> None
           | Some invalid \<Rightarrow>
               (let issues = issues @ map (\<lambda>opt. UnsupportedIteratorOptionError (Name spec) opt ctx
                                              (supportedOptions reg)) invalid in
                case issues of
                  [] \<Rightarrow> Some None
                | [issue] \<Rightarrow> Some (Some issue)
                | _ \<Rightarrow> Some (Some (IteratorValidationError (Name spec) ctx issues)))))"

fun stack_issues :: "iter_spec list \<Rightarrow> CapabilityContext \<Rightarrow> go_err list option" where
  "stack_issues [] ctx = Some []"
| "stack_issues (spec # specs) ctx =
     (case ValidateSpec spec ctx of
        None \<Rightarrow> None
      | Some None \<Rightarrow> stack_issues specs ctx
      | Some (Some e) \<Rightarrow>
          map_option ((#) (Wrap (''stack position ('' @ Name spec @ '')'') e)) (stack_issues specs ctx))"

definition ValidateStack :: "iter_spec list \<Rightarrow> CapabilityContext \<Rightarrow> go_err option option" where
  "ValidateStack specs ctx =
     (case stack_issues specs ctx of
        None \<Rightarrow> None
      | Some issues \<Rightarrow> if length issues = 0 then Some None else Some (Some (StackValidationError ctx issues)))"

section \<open>The compatibility report\<close>

record MandatoryStackCapability =
  ms_Context :: CapabilityContext
  SystemIterators :: "string list"

definition SystemColumnFamilySkipping :: string where
  "SystemColumnFamilySkipping = ''columnFamilySkipping''"

definition CapabilityRegistryVersion :: int where "CapabilityRegistryVersion = 3"
definition AccumuloCompatibilityVersion :: string where "AccumuloCompatibilityVersion = ''4.0''"

definition MandatoryStacks :: "MandatoryStackCapability list" where
  "MandatoryStacks =
     [\<lparr>ms_Context = ContextScan, SystemIterators = [IterDeleting, SystemColumnFamilySkipping, IterVisibility]\<rparr>,
      \<lparr>ms_Context = ContextMinc, SystemIterators = [IterDeleting]\<rparr>,
      \<lparr>ms_Context = ContextMajc, SystemIterators = [IterDeleting]\<rparr>,
      \<lparr>ms_Context = ContextOffline, SystemIterators = [IterDeleting]\<rparr>]"

record ConfiguredIterator =
  cfg_Name :: string
  cfg_JavaClass :: string
  cfg_Priority :: int
  cfg_Options :: option_list

record CompatibilityRequest =
  req_RegistryVersion :: int
  req_AccumuloVersion :: string
  req_Context :: CapabilityContext
  req_Iterators :: "ConfiguredIterator list"

text \<open>A reported issue; its message is the text of the error and is left out.\<close>

record CompatibilityIssue =
  Code :: string
  iss_Name :: string
  iss_JavaClass :: string
  iss_Priority :: int
  iss_Option :: string
  iss_Context :: CapabilityContext

record IteratorCompatibility =
  configured :: ConfiguredIterator
  NativeName :: string
  item_Supported :: bool

record CompatibilityReport =
  rep_Context :: CapabilityContext
  Supported :: bool
  MandatoryStack :: "MandatoryStackCapability option"
  Iterators :: "IteratorCompatibility list"
  Issues :: "CompatibilityIssue list"

definition issue :: "string \<Rightarrow> ConfiguredIterator \<Rightarrow> string \<Rightarrow> CapabilityContext \<Rightarrow> CompatibilityIssue" where
  "issue code c opt ctx =
     \<lparr>Code = code, iss_Name = cfg_Name c, iss_JavaClass = cfg_JavaClass c, iss_Priority = cfg_Priority c,
      iss_Option = opt, iss_Context = ctx\<rparr>"

definition stack_issue :: "string \<Rightarrow> CapabilityContext \<Rightarrow> CompatibilityIssue" where
  "stack_issue code ctx =
     \<lparr>Code = code, iss_Name = '''', iss_JavaClass = '''', iss_Priority = 0, iss_Option = '''', iss_Context = ctx\<rparr>"

text \<open>\<^verbatim>\<open>appendValidationIssues\<close>: the issues it appends.\<close>

fun validation_issues :: "CapabilityContext \<Rightarrow> ConfiguredIterator \<Rightarrow> go_err \<Rightarrow> CompatibilityIssue list" where
  "validation_issues ctx c (UnsupportedIteratorContextError n x s) = [issue ''unsupported_iterator_context'' c '''' ctx]"
| "validation_issues ctx c (UnsupportedIteratorOptionError n opt x s) = [issue ''unsupported_iterator_option'' c opt ctx]"
| "validation_issues ctx c (IteratorValidationError n x es) = concat (map (validation_issues ctx c) es)"
| "validation_issues ctx c (StackValidationError x es) = concat (map (validation_issues ctx c) es)"
| "validation_issues ctx c e = [issue ''iterator_validation_failed'' c '''' ctx]"

text \<open>
  \<open>init name options env\<close> is the error of the \<^verbatim>\<open>Init\<close> of a new iterator of that name over
  an empty \<^verbatim>\<open>SliceSource\<close>.
\<close>

type_synonym init_check = "string \<Rightarrow> option_list \<Rightarrow> environment \<Rightarrow> go_err option"

definition validateConfiguredOptions ::
  "init_check \<Rightarrow> iteratorRegistration \<Rightarrow> option_list \<Rightarrow> CapabilityContext \<Rightarrow> go_err option" where
  "validateConfiguredOptions init reg options ctx =
     (let name = cap_Name (capability reg);
          run = (\<lambda>scope. case init name options \<lparr>Scope = scope, FullMajorCompaction = False, Authorizations = None\<rparr> of
                   None \<Rightarrow> None
                 | Some e \<Rightarrow> Some (UnsupportedIteratorConfigurationError name ctx e)) in
      if ctx = ContextScan then run ScopeScan
      else if ctx = ContextMinc then run ScopeMinc
      else if ctx = ContextMajc \<or> ctx = ContextOffline then run ScopeMajc
      else Some (UnsupportedIteratorContextError name ctx (Contexts (capability reg))))"

text \<open>One configured iterator: its line of the report, its issues, and its error.\<close>

definition check_configured ::
  "init_check \<Rightarrow> CapabilityContext \<Rightarrow> ConfiguredIterator \<Rightarrow>
   (IteratorCompatibility \<times> CompatibilityIssue list \<times> go_err option) option" where
  "check_configured init ctx c =
     (case registryByClass (cfg_JavaClass c) of
        None \<Rightarrow> Some (\<lparr>configured = c, NativeName = '''', item_Supported = False\<rparr>,
                      [issue ''unsupported_iterator_class'' c '''' ctx],
                      Some (UnsupportedIteratorClassError (cfg_JavaClass c) ctx))
      | Some reg \<Rightarrow>
          (let name = cap_Name (capability reg);
               item = \<lparr>configured = c, NativeName = name, item_Supported = False\<rparr> in
           case ValidateSpec \<lparr>Name = name, Options = cfg_Options c\<rparr> ctx of
             None \<Rightarrow> None
           | Some (Some e) \<Rightarrow> Some (item, validation_issues ctx c e, Some e)
           | Some None \<Rightarrow>
               (case validateConfiguredOptions init reg (cfg_Options c) ctx of
                  Some e \<Rightarrow> Some (item, [issue ''unsupported_iterator_configuration'' c '''' ctx], Some e)
                | None \<Rightarrow> Some (item\<lparr>item_Supported := True\<rparr>, [], None))))"

fun check_all ::
  "init_check \<Rightarrow> CapabilityContext \<Rightarrow> ConfiguredIterator list \<Rightarrow>
   (IteratorCompatibility list \<times> CompatibilityIssue list \<times> go_err list) option" where
  "check_all init ctx [] = Some ([], [], [])"
| "check_all init ctx (c # cs) =
     (case check_configured init ctx c of
        None \<Rightarrow> None
      | Some (item, is, e) \<Rightarrow>
          (case check_all init ctx cs of
             None \<Rightarrow> None
           | Some (items, is', es) \<Rightarrow>
               Some (item # items, is @ is', (case e of None \<Rightarrow> es | Some x \<Rightarrow> x # es))))"

definition CheckCompatibility ::
  "init_check \<Rightarrow> CompatibilityRequest \<Rightarrow> (CompatibilityReport \<times> go_err option) option" where
  "CheckCompatibility init req =
     (let ctx = req_Context req;
          mandatory = find (\<lambda>s. ms_Context s = ctx) MandatoryStacks;
          report = \<lparr>rep_Context = ctx, Supported = True, MandatoryStack = mandatory, Iterators = [], Issues = []\<rparr> in
      if req_RegistryVersion req \<noteq> CapabilityRegistryVersion \<or> req_AccumuloVersion req \<noteq> AccumuloCompatibilityVersion
      then Some (report\<lparr>Supported := False, Issues := [stack_issue ''capability_version_mismatch'' ctx]\<rparr>,
                 Some (CapabilityVersionMismatchError (req_RegistryVersion req) CapabilityRegistryVersion
                         (req_AccumuloVersion req) AccumuloCompatibilityVersion))
      else if mandatory = None
      then Some (report\<lparr>Supported := False, Issues := [stack_issue ''unsupported_stack_context'' ctx]\<rparr>,
                 Some (UnsupportedStackContextError ctx))
      else case check_all init ctx (req_Iterators req) of
        None \<Rightarrow> None
      | Some (items, is, es) \<Rightarrow>
          if length es = 0 then Some (report\<lparr>Iterators := items, Issues := is\<rparr>, None)
          else Some (report\<lparr>Supported := False, Iterators := items, Issues := is\<rparr>,
                     Some (StackValidationError ctx es)))"

section \<open>The indexes hold what the table says\<close>

lemma index_classes_spec:
  "index_classes reg cs bc = Some bc' \<Longrightarrow>
     bc' = (\<lambda>c. if c \<in> set cs then Some reg else bc c) \<and> (\<forall>c\<in>set cs. bc c = None)"
  by (induction cs arbitrary: bc) (fastforce split: if_splits)+

lemma init_loop_spec:
  "init_loop regs bn bc = Some (bn', bc') \<Longrightarrow>
     (\<forall>n reg. bn' n = Some reg \<longleftrightarrow> bn n = Some reg \<or> reg \<in> set regs \<and> cap_Name (capability reg) = n) \<and>
     (\<forall>c reg. bc' c = Some reg \<longleftrightarrow> bc c = Some reg \<or> reg \<in> set regs \<and> c \<in> set (JavaClasses (capability reg)))"
proof (induction regs arbitrary: bn bc)
  case (Cons r regs)
  from Cons.prems obtain bc1 where r: "bn (cap_Name (capability r)) = None"
      "index_classes r (JavaClasses (capability r)) bc = Some bc1"
      "init_loop regs (bn(cap_Name (capability r) \<mapsto> r)) bc1 = Some (bn', bc')"
    by (auto split: if_splits option.splits)
  note bc1 = index_classes_spec [OF r(2)]
  from Cons.IH [OF r(3)] r(1) bc1 show ?case by auto
qed simp

lemma registry_init: "init_loop iteratorRegistry Map.empty Map.empty = Some (registryByName, registryByClass)"
proof -
  have "init_loop iteratorRegistry Map.empty Map.empty \<noteq> None" by code_simp
  then show ?thesis by (auto simp: registryByName_def registryByClass_def)
qed

lemma registryByName_iff:
  "registryByName n = Some reg \<longleftrightarrow> reg \<in> set iteratorRegistry \<and> cap_Name (capability reg) = n"
  "registryByClass c = Some reg \<longleftrightarrow> reg \<in> set iteratorRegistry \<and> c \<in> set (JavaClasses (capability reg))"
  using init_loop_spec [OF registry_init] by auto

section \<open>What validation accepts\<close>

lemma invalid_loop_Some_Nil: "invalid_loop reg keys = Some [] \<longleftrightarrow> (\<forall>k\<in>set keys. supportsOption reg k = Some True)"
  by (induction keys) (auto split: option.splits)

lemma set_option_keys: "set (option_keys options) = fst ` set options"
  by (simp add: option_keys_def)

lemma invalidOptions_Some_Nil:
  "invalidOptions reg options = Some [] \<longleftrightarrow> (\<forall>k\<in>fst ` set options. supportsOption reg k = Some True)"
  by (auto simp: invalidOptions_def invalid_loop_Some_Nil set_option_keys)

lemma ValidateSpec_accepts:
  "ValidateSpec spec ctx = Some None \<longleftrightarrow>
     (\<exists>reg. registryByName (Name spec) = Some reg \<and> ctx \<in> set (Contexts (capability reg)) \<and>
        (\<forall>k\<in>fst ` set (Options spec). supportsOption reg k = Some True))"
proof (cases "registryByName (Name spec)")
  case (Some reg)
  then show ?thesis
    unfolding invalidOptions_Some_Nil [symmetric]
    by (auto simp: ValidateSpec_def Let_def supportsContext_def list_ex_iff
        split: option.splits list.splits if_splits)
qed (simp add: ValidateSpec_def)

lemma match_any_None: "match_any ps key = None \<Longrightarrow> \<exists>p\<in>set ps. pattern_match p key = None"
  by (induction ps) (auto split: option.splits if_splits)

lemma invalid_loop_None: "invalid_loop reg keys = None \<Longrightarrow> \<exists>k\<in>set keys. supportsOption reg k = None"
  by (induction keys) (auto split: option.splits if_splits)

text \<open>Only a pattern with a suffix can panic, and only one registration has one.\<close>

definition no_panic :: "iteratorRegistration \<Rightarrow> bool" where
  "no_panic reg \<longleftrightarrow> (\<forall>p\<in>set (patterns reg). \<forall>key. pattern_match p key \<noteq> None)"

lemma numericIndexPattern_no_panic: "pattern_match (numericIndexPattern pre) key \<noteq> None"
  by (simp add: numericIndexPattern_def)

lemmas registrations = reg_versioning_def reg_visibility_def reg_deleting_def reg_latentEdgeDiscovery_def
  reg_semanticEdge_def reg_graphRank_def reg_causalInference_def reg_termIndex_def reg_vectorKNN_def
  reg_edgeExpand_def reg_scoreFilter_def reg_graphAggregation_def reg_anomalyDetect_def
  reg_visibilityStamp_def reg_asOf_def

lemma registered_no_panic: "reg \<in> set iteratorRegistry \<Longrightarrow> reg = reg_documentIndex \<or> no_panic reg"
  unfolding iteratorRegistry_def list.set insert_iff empty_iff
  by (elim disjE) (simp_all add: no_panic_def registrations numericIndexPattern_no_panic del: not_None_eq)

lemma ValidateSpec_panic:
  assumes "ValidateSpec spec ctx = None"
  shows "Name spec = IterDocumentIndex"
proof -
  obtain reg where reg: "registryByName (Name spec) = Some reg" "invalidOptions reg (Options spec) = None"
    using assms by (auto simp: ValidateSpec_def Let_def split: option.splits list.splits)
  then obtain key where "supportsOption reg key = None"
    using invalid_loop_None [of reg "option_keys (Options spec)"]
    by (auto simp: invalidOptions_def split: if_splits)
  then have "\<not> no_panic reg"
    using match_any_None [of "patterns reg" key] by (auto simp: supportsOption_def no_panic_def split: if_splits)
  with registered_no_panic [of reg] reg(1) registryByName_iff(1) have "reg = reg_documentIndex" by blast
  with reg(1) registryByName_iff(1) [of "Name spec" reg] show ?thesis
    by (simp add: reg_documentIndex_def)
qed

lemma stack_issues_Some_Nil:
  "stack_issues specs ctx = Some [] \<longleftrightarrow> (\<forall>spec\<in>set specs. ValidateSpec spec ctx = Some None)"
  by (induction specs) (auto split: option.splits)

lemma ValidateStack_accepts:
  "ValidateStack specs ctx = Some None \<longleftrightarrow> (\<forall>spec\<in>set specs. ValidateSpec spec ctx = Some None)"
  unfolding stack_issues_Some_Nil [symmetric] by (simp add: ValidateStack_def split: option.splits)

lemma check_configured_ok:
  assumes "check_configured init ctx c = Some (item, is, e)"
  shows "configured item = c \<and> (item_Supported item \<longleftrightarrow> e = None) \<and>
    (e = None \<longrightarrow> (\<exists>reg. registryByClass (cfg_JavaClass c) = Some reg \<and> NativeName item = cap_Name (capability reg) \<and>
       ValidateSpec \<lparr>Name = cap_Name (capability reg), Options = cfg_Options c\<rparr> ctx = Some None \<and>
       validateConfiguredOptions init reg (cfg_Options c) ctx = None))"
  using assms by (auto simp: check_configured_def Let_def split: option.splits)

lemma check_all_ok:
  "check_all init ctx cs = Some (items, is, es) \<Longrightarrow> map configured items = cs \<and>
     (es = [] \<longleftrightarrow> (\<forall>item\<in>set items. item_Supported item)) \<and>
     (\<forall>item\<in>set items. item_Supported item \<longrightarrow>
        (\<exists>reg. registryByClass (cfg_JavaClass (configured item)) = Some reg \<and> NativeName item = cap_Name (capability reg) \<and>
         ValidateSpec \<lparr>Name = cap_Name (capability reg), Options = cfg_Options (configured item)\<rparr> ctx = Some None \<and>
         validateConfiguredOptions init reg (cfg_Options (configured item)) ctx = None))"
proof (induction cs arbitrary: items "is" es)
  case (Cons c cs)
  from Cons.prems obtain item is1 e items' is' es' where c: "check_configured init ctx c = Some (item, is1, e)"
      "check_all init ctx cs = Some (items', is', es')" "items = item # items'"
      "es = (case e of None \<Rightarrow> es' | Some x \<Rightarrow> x # es')"
    by (auto split: option.splits)
  from check_configured_ok [OF c(1)] Cons.IH [OF c(2)] c(3,4) show ?case
    by (auto split: option.splits)
qed simp

section \<open>Properties\<close>

text \<open>
  C35: the registry table is consistent: \<^verbatim>\<open>init\<close> does not panic on a duplicate, the name
  index maps a name to the registration with that name, and the class index maps a Java
  class to the registration that lists it.
\<close>

theorem registry_consistent:
  "init_loop iteratorRegistry Map.empty Map.empty = Some (registryByName, registryByClass) \<and>
   (registryByName n = Some reg \<longleftrightarrow> reg \<in> set iteratorRegistry \<and> cap_Name (capability reg) = n) \<and>
   (registryByClass c = Some reg \<longleftrightarrow> reg \<in> set iteratorRegistry \<and> c \<in> set (JavaClasses (capability reg)))"
  using registry_init registryByName_iff by blast



text \<open>
  A stack is accepted exactly when each of its specs is, in the context of the scan or
  compaction it is built for.
\<close>

theorem ValidateStack_all:
  "ValidateStack specs ctx = Some None \<longleftrightarrow> list_all (\<lambda>spec. ValidateSpec spec ctx = Some None) specs"
  by (simp add: ValidateStack_accepts list_all_iff)

text \<open>
  C33: validation can panic, on the document index only. Its option patterns have a prefix
  and a suffix that overlap in the key \<^verbatim>\<open>term.field\<close>, and the slice between them then has
  crossed bounds; a spec of any other iterator is always answered.
\<close>

theorem ValidateSpec_panics:
  "ValidateSpec \<lparr>Name = IterDocumentIndex, Options = [(''term.field'', v)]\<rparr> ContextScan = None \<and>
   {Name spec |spec. \<exists>ctx. ValidateSpec spec ctx = None} = {IterDocumentIndex}"
proof -
  have "option_keys [(''term.field'', v)] = [''term.field'']" by (simp add: option_keys_def)
  moreover have "registryByName IterDocumentIndex = Some reg_documentIndex"
    by (simp add: registryByName_iff iteratorRegistry_def reg_documentIndex_def)
  moreover have "supportsOption reg_documentIndex ''term.field'' = None" by code_simp
  ultimately have "ValidateSpec \<lparr>Name = IterDocumentIndex, Options = [(''term.field'', v)]\<rparr> ContextScan = None"
    by (simp add: ValidateSpec_def invalidOptions_def)
  then show ?thesis using ValidateSpec_panic by force
qed



end
