(* ===== verification/Go_Heap.thy ===== *)
theory Go_Heap
  imports Shoal_Prelude "HOL-Library.Multiset"
begin

text \<open>
  Go's \<^verbatim>\<open>container/heap\<close>, as far as the merge uses it: \<^verbatim>\<open>down\<close>, \<^verbatim>\<open>Init\<close>,
  \<^verbatim>\<open>Fix\<close> at the root and \<^verbatim>\<open>Pop\<close>, over a slice with a \<^verbatim>\<open>Less\<close> on its elements. When
  \<^verbatim>\<open>Less\<close> compares ranks in a linear order, every operation leaves a heap with the
  expected elements, so the root is a least element.
\<close>

section \<open>The operations\<close>

abbreviation swap :: "nat \<Rightarrow> nat \<Rightarrow> 'a list \<Rightarrow> 'a list" where
  "swap i j h \<equiv> h[i := h ! j, j := h ! i]"

function heap_down :: "('a \<Rightarrow> 'a \<Rightarrow> bool) \<Rightarrow> 'a list \<Rightarrow> nat \<Rightarrow> nat \<Rightarrow> 'a list" where
  "heap_down lt h i n =
     (let j1 = 2 * i + 1 in
      if j1 \<ge> n then h
      else let j = (if j1 + 1 < n \<and> lt (h ! (j1 + 1)) (h ! j1) then j1 + 1 else j1) in
        if \<not> lt (h ! j) (h ! i) then h
        else heap_down lt (swap i j h) j n)"
  by pat_completeness auto
termination
  by (relation "measure (\<lambda>(lt, h, i, n). n - i)") (auto simp: Let_def split: if_splits)

declare heap_down.simps [simp del]

fun heap_init_loop :: "('a \<Rightarrow> 'a \<Rightarrow> bool) \<Rightarrow> 'a list \<Rightarrow> nat \<Rightarrow> 'a list" where
  "heap_init_loop lt h 0 = h"
| "heap_init_loop lt h (Suc i) = heap_init_loop lt (heap_down lt h i (length h)) i"

definition heap_Init :: "('a \<Rightarrow> 'a \<Rightarrow> bool) \<Rightarrow> 'a list \<Rightarrow> 'a list" where
  "heap_Init lt h = heap_init_loop lt h (length h div 2)"

text \<open>\<^verbatim>\<open>Fix(h, 0)\<close>: when \<^verbatim>\<open>down\<close> moves nothing, \<^verbatim>\<open>up(h, 0)\<close> stops at once.\<close>

definition heap_Fix0 :: "('a \<Rightarrow> 'a \<Rightarrow> bool) \<Rightarrow> 'a list \<Rightarrow> 'a list" where
  "heap_Fix0 lt h = heap_down lt h 0 (length h)"

text \<open>\<^verbatim>\<open>Pop\<close> swaps the root with the last element, repairs the rest and drops the last.\<close>

definition heap_Pop :: "('a \<Rightarrow> 'a \<Rightarrow> bool) \<Rightarrow> 'a list \<Rightarrow> 'a list" where
  "heap_Pop lt h =
     (let n = length h - 1 in butlast (heap_down lt (swap 0 n h) 0 n))"

section \<open>The heap invariant\<close>

abbreviation parent :: "nat \<Rightarrow> nat" where
  "parent j \<equiv> (j - 1) div 2"

text \<open>The children of the nodes from \<open>lo\<close> on are not below their parents.\<close>

definition heap_from :: "('a \<Rightarrow> 'b::linorder) \<Rightarrow> nat \<Rightarrow> nat \<Rightarrow> 'a list \<Rightarrow> bool" where
  "heap_from rank lo n h \<longleftrightarrow>
     (\<forall>j. 0 < j \<and> j < n \<and> lo \<le> parent j \<longrightarrow> rank (h ! parent j) \<le> rank (h ! j))"

abbreviation is_heap :: "('a \<Rightarrow> 'b::linorder) \<Rightarrow> 'a list \<Rightarrow> bool" where
  "is_heap rank h \<equiv> heap_from rank 0 (length h) h"

text \<open>The same with a hole at \<open>i\<close>, whose element may be above its children.\<close>

definition heap_hole :: "('a \<Rightarrow> 'b::linorder) \<Rightarrow> nat \<Rightarrow> nat \<Rightarrow> nat \<Rightarrow> 'a list \<Rightarrow> bool" where
  "heap_hole rank lo n i h \<longleftrightarrow>
     (\<forall>j. 0 < j \<and> j < n \<and> lo \<le> parent j \<and> parent j \<noteq> i \<longrightarrow> rank (h ! parent j) \<le> rank (h ! j)) \<and>
     (\<forall>j. 0 < j \<and> j < n \<and> parent j = i \<and> 0 < i \<and> lo \<le> parent i \<longrightarrow> rank (h ! parent i) \<le> rank (h ! j))"

text \<open>\<^verbatim>\<open>Less\<close> compares ranks, on the elements of \<open>A\<close>.\<close>

definition orders :: "'a set \<Rightarrow> ('a \<Rightarrow> 'a \<Rightarrow> bool) \<Rightarrow> ('a \<Rightarrow> 'b::linorder) \<Rightarrow> bool" where
  "orders A lt rank \<longleftrightarrow> (\<forall>a\<in>A. \<forall>b\<in>A. lt a b \<longleftrightarrow> rank a < rank b)"

lemma ordersD: "orders A lt rank \<Longrightarrow> a \<in> A \<Longrightarrow> b \<in> A \<Longrightarrow> lt a b \<longleftrightarrow> rank a < rank b"
  by (simp add: orders_def)

lemma parent_cases: "0 < j \<Longrightarrow> parent j = i \<longleftrightarrow> j = 2 * i + 1 \<or> j = 2 * i + 2"
  by (cases j) auto

lemma parent_less: "0 < j \<Longrightarrow> parent j < j"
  by (cases j) auto

lemma mset_heap_down [simp]: "i < length h \<Longrightarrow> n \<le> length h \<Longrightarrow> mset (heap_down lt h i n) = mset h"
proof (induction lt h i n rule: heap_down.induct)
  case (1 lt h i n)
  show ?case
    using "1.prems" "1.IH" [OF refl] by (subst heap_down.simps) (auto simp: Let_def mset_swap split: if_splits)
qed

lemma length_heap_down [simp]: "length (heap_down lt h i n) = length h"
proof (induction lt h i n rule: heap_down.induct)
  case (1 lt h i n)
  show ?case
    using "1.IH" [OF refl] by (subst heap_down.simps) (auto simp: Let_def split: if_splits)
qed

lemma heap_down_above: "n \<le> k \<Longrightarrow> i < n \<Longrightarrow> heap_down lt h i n ! k = h ! k"
proof (induction lt h i n rule: heap_down.induct)
  case (1 lt h i n)
  show ?case
    using "1.prems" "1.IH" [OF refl] by (subst heap_down.simps) (auto simp: Let_def split: if_splits)
qed

lemma heap_hole_swap:
  assumes hole: "heap_hole rank lo n i h" and n: "n \<le> length h" and c: "0 < j" "j < n" "parent j = i" "lo \<le> i"
    and least: "\<And>k. 0 < k \<Longrightarrow> k < n \<Longrightarrow> parent k = i \<Longrightarrow> rank (h ! j) \<le> rank (h ! k)"
    and above: "rank (h ! j) \<le> rank (h ! i)"
  shows "heap_hole rank lo n j (swap i j h)"
proof -
  have ij: "i < j" using parent_less [OF c(1)] c(3) by simp
  let ?h = "swap i j h"
  have at: "?h ! k = (if k = j then h ! i else if k = i then h ! j else h ! k)" if "k < n" for k
    using that ij n c by (simp add: nth_list_update)
  have ok: "rank (h ! parent k) \<le> rank (h ! k)" if "0 < k" "k < n" "lo \<le> parent k" "parent k \<noteq> i" for k
    using hole that by (simp add: heap_hole_def)
  have up: "rank (h ! parent i) \<le> rank (h ! j)" if "0 < i" "lo \<le> parent i"
    using hole that c by (auto simp: heap_hole_def)
  show ?thesis
    unfolding heap_hole_def
  proof (intro conjI allI impI)
    fix k assume k: "0 < k \<and> k < n \<and> lo \<le> parent k \<and> parent k \<noteq> j"
    then have pk: "parent k < k" "parent k < n" using parent_less [of k] by auto
    show "rank (?h ! parent k) \<le> rank (?h ! k)"
    proof (cases "parent k = i")
      case True
      then have "?h ! parent k = h ! j" using at [OF pk(2)] ij by simp
      moreover have "k \<noteq> i" using True pk by simp
      ultimately show ?thesis
        using at [of k] k True least [of k] above by auto
    next
      case False
      then have *: "?h ! parent k = h ! parent k" using at [OF pk(2)] k by simp
      show ?thesis
      proof (cases "k = i")
        case True
        then show ?thesis using * at [of k] k up ij by auto
      next
        case False
        moreover have "k \<noteq> j" using \<open>parent k \<noteq> i\<close> c(3) by auto
        ultimately show ?thesis using * at [of k] k ok [of k] \<open>parent k \<noteq> i\<close> by simp
      qed
    qed
  next
    fix k assume k: "0 < k \<and> k < n \<and> parent k = j \<and> 0 < j \<and> lo \<le> parent j"
    have "k \<noteq> j" "k \<noteq> i" using k parent_less [of k] ij by auto
    then have "?h ! k = h ! k" using at [of k] k by simp
    moreover have "?h ! parent j = h ! j" using at [of i] c ij by simp
    moreover have "rank (h ! j) \<le> rank (h ! k)" using ok [of k] k c ij by auto
    ultimately show "rank (?h ! parent j) \<le> rank (?h ! k)" by simp
  qed
qed

lemma heap_down_spec:
  assumes "orders A lt rank"
  shows "\<lbrakk>heap_hole rank lo n i h; n \<le> length h; lo \<le> i; \<forall>k<n. h ! k \<in> A\<rbrakk> \<Longrightarrow>
    heap_from rank lo n (heap_down lt h i n)"
  using assms
proof (induction lt h i n rule: heap_down.induct)
  case (1 lt h i n)
  let ?j = "if 2 * i + 1 + 1 < n \<and> lt (h ! (2 * i + 1 + 1)) (h ! (2 * i + 1)) then 2 * i + 1 + 1 else 2 * i + 1"
  note lt = ordersD [OF "1.prems"(5)] and A = "1.prems"(4)
  have stays: "heap_from rank lo n h" if "\<And>k. 0 < k \<Longrightarrow> k < n \<Longrightarrow> parent k = i \<Longrightarrow> rank (h ! i) \<le> rank (h ! k)"
    using "1.prems"(1) that by (auto simp: heap_hole_def heap_from_def)
  show ?case
  proof (cases "2 * i + 1 \<ge> n")
    case True
    then have "heap_down lt h i n = h" by (simp add: heap_down.simps)
    moreover have "heap_from rank lo n h"
      by (rule stays) (use True parent_cases in force)
    ultimately show ?thesis by simp
  next
    case False
    have j: "0 < ?j" "?j < n" "parent ?j = i" "i < n" using False by auto
    then have inA: "h ! ?j \<in> A" "h ! i \<in> A" using A by blast+
    have least: "rank (h ! ?j) \<le> rank (h ! k)" if "0 < k" "k < n" "parent k = i" for k
    proof -
      from that consider "k = 2 * i + 1" | "k = 2 * i + 1 + 1" using parent_cases [of k i] by auto
      then show ?thesis using lt [of "h ! (2 * i + 1 + 1)" "h ! (2 * i + 1)"] that A False by cases auto
    qed
    show ?thesis
    proof (cases "lt (h ! ?j) (h ! i)")
      case True
      then have "heap_down lt h i n = heap_down lt (swap i ?j h) ?j n"
        using False by (subst heap_down.simps) (simp only: Let_def if_False not_True_eq_False)
      moreover have "heap_hole rank lo n ?j (swap i ?j h)"
        by (rule heap_hole_swap [OF "1.prems"(1,2) j(1-3) "1.prems"(3) least])
          (use True lt [OF inA] in auto)
      moreover have "lo \<le> ?j" using "1.prems"(3) by auto
      moreover have "\<forall>k<n. swap i ?j h ! k \<in> A"
        using A inA "1.prems"(2) j by (simp only: nth_list_update length_list_update) auto
      ultimately show ?thesis
        using "1.IH" [OF refl False refl _ _ _ _ _ "1.prems"(5)] True "1.prems"(2)
        by (simp only: length_list_update not_not simp_thms)
    next
      case stop: False
      then have "heap_down lt h i n = h"
        using False by (subst heap_down.simps) (simp only: Let_def if_False if_True not_False_eq_True)
      moreover have "heap_from rank lo n h"
      proof (rule stays)
        fix k assume "0 < k" "k < n" "parent k = i"
        from least [OF this] stop lt [OF inA] show "rank (h ! i) \<le> rank (h ! k)" by force
      qed
      ultimately show ?thesis by simp
    qed
  qed
qed

section \<open>Correctness of the operations\<close>

lemma heap_init_loop_spec:
  assumes "orders A lt rank" "heap_from rank m (length h) h" "m \<le> length h" "set h \<subseteq> A"
  shows "is_heap rank (heap_init_loop lt h m) \<and> mset (heap_init_loop lt h m) = mset h"
  using assms(2-)
proof (induction m arbitrary: h)
  case (Suc m)
  let ?h = "heap_down lt h m (length h)"
  have "heap_hole rank m (length h) m h"
    using Suc.prems(1) by (auto simp: heap_from_def heap_hole_def)
  then have "heap_from rank m (length ?h) ?h"
    using heap_down_spec [OF assms(1)] Suc.prems(3) by (auto simp: subset_iff)
  moreover have m: "mset ?h = mset h"
    using Suc.prems(2) by simp
  ultimately show ?case
    using Suc.IH [of ?h] Suc.prems mset_eq_setD [OF m] by simp
qed simp

lemma heap_Init_spec:
  assumes "orders (set h) lt rank"
  shows "is_heap rank (heap_Init lt h)" "mset (heap_Init lt h) = mset h"
proof -
  have "heap_from rank (length h div 2) (length h) h"
    by (auto simp: heap_from_def)
  from heap_init_loop_spec [OF assms this]
  show "is_heap rank (heap_Init lt h)" "mset (heap_Init lt h) = mset h"
    by (simp_all add: heap_Init_def)
qed

text \<open>Changing the rank of the root leaves a heap with a hole there.\<close>

lemma heap_hole_root:
  assumes "is_heap rank' h" "n \<le> length h"
    and "\<And>j. 0 < j \<Longrightarrow> j < n \<Longrightarrow> g ! j = h ! j \<and> rank (h ! j) = rank' (h ! j)"
  shows "heap_hole rank 0 n 0 g"
  unfolding heap_hole_def
proof (intro conjI allI impI)
  fix j assume j: "0 < j \<and> j < n \<and> 0 \<le> parent j \<and> parent j \<noteq> 0"
  then have "rank' (h ! parent j) \<le> rank' (h ! j)"
    using assms(1,2) by (simp add: heap_from_def)
  moreover have "parent j < n" using j parent_less [of j] by auto
  ultimately show "rank (g ! parent j) \<le> rank (g ! j)"
    using j assms(3) [of j] assms(3) [of "parent j"] by simp
qed simp

lemma nth_tl_mem: "0 < j \<Longrightarrow> j < length h \<Longrightarrow> h ! j \<in> set (tl h)"
  by (cases h) (auto simp: nth_Cons')

lemma heap_Fix0_spec:
  assumes "orders (set h) lt rank" "is_heap rank' h"
    and "\<And>a. a \<in> set (tl h) \<Longrightarrow> rank a = rank' a"
  shows "is_heap rank (heap_Fix0 lt h)" "mset (heap_Fix0 lt h) = mset h"
proof -
  have "heap_hole rank 0 (length h) 0 h"
    by (rule heap_hole_root [OF assms(2)]) (use assms(3) nth_tl_mem in auto)
  then show "is_heap rank (heap_Fix0 lt h)"
    using heap_down_spec [OF assms(1), of 0 "length h" 0 h] by (simp add: heap_Fix0_def)
  show "mset (heap_Fix0 lt h) = mset h"
    by (cases h) (simp_all add: heap_Fix0_def heap_down.simps [of lt "[]"])
qed

lemma heap_Pop_spec:
  assumes "h \<noteq> []" "orders (set (tl h)) lt rank" "is_heap rank' h"
    and "\<And>a. a \<in> set (tl h) \<Longrightarrow> rank a = rank' a"
  shows "is_heap rank (heap_Pop lt h)" "mset (heap_Pop lt h) = mset (tl h)"
proof -
  let ?n = "length h - 1"
  let ?g = "swap 0 ?n h"
  let ?d = "heap_down lt ?g 0 ?n"
  have n: "?n < length h" using assms(1) by simp
  have g: "?g ! j = (if j = ?n then h ! 0 else if j = 0 then h ! ?n else h ! j)" if "j < length h" for j
    using that assms(1) by (simp add: nth_list_update)
  have same: "rank (h ! j) = rank' (h ! j)" if "0 < j" "j < length h" for j
    using assms(4) nth_tl_mem that by blast
  have "heap_hole rank 0 ?n 0 ?g"
    by (rule heap_hole_root [OF assms(3)]) (use g n same in auto)
  moreover have "\<forall>k<?n. ?g ! k \<in> set (tl h)"
  proof (intro allI impI)
    fix k assume "k < ?n"
    then show "?g ! k \<in> set (tl h)"
      using n nth_tl_mem [of k h] nth_tl_mem [of ?n h] by (subst g) auto
  qed
  ultimately have "heap_from rank 0 ?n ?d"
    using heap_down_spec [OF assms(2), of 0 ?n 0 ?g] by simp
  then show "is_heap rank (heap_Pop lt h)"
    using n by (auto simp: heap_from_def heap_Pop_def Let_def nth_butlast)
  have "mset ?d = mset ?g" by (rule mset_heap_down) (use n in auto)
  also have "\<dots> = mset h" by (rule mset_swap) (use n in auto)
  finally have d: "mset ?d = mset h" .
  have ne: "?d \<noteq> []"
    using assms(1) d by (metis mset_zero_iff)
  have "last ?d = h ! 0"
  proof (cases "?n = 0")
    case True
    then obtain x where "h = [x]" using assms(1) by (cases h) auto
    moreover have "heap_down lt [x] 0 0 = [x]" by (subst heap_down.simps) simp
    ultimately show ?thesis by simp
  next
    case False
    then have "last ?d = ?d ! ?n" using ne by (simp add: last_conv_nth)
    also have "\<dots> = h ! 0" using heap_down_above [of ?n ?n 0 lt ?g] False g n by simp
    finally show ?thesis .
  qed
  then have "add_mset (h ! 0) (mset (butlast ?d)) = mset h"
    using d ne by (metis append_butlast_last_id mset.simps(2) mset_append add_mset_add_single
        add.right_neutral mset.simps(1))
  also have "\<dots> = add_mset (h ! 0) (mset (tl h))"
    using assms(1) by (cases h) auto
  finally show "mset (heap_Pop lt h) = mset (tl h)"
    by (simp add: heap_Pop_def Let_def)
qed

lemma is_heap_root_least:
  assumes "is_heap rank h" "j < length h"
  shows "rank (h ! 0) \<le> rank (h ! j)"
  using assms(2)
proof (induction j rule: less_induct)
  case (less j)
  show ?case
  proof (cases "j = 0")
    case False
    then have "parent j < j" by (simp add: parent_less)
    with less.IH [of "parent j"] less.prems have "rank (h ! 0) \<le> rank (h ! parent j)" by simp
    also have "\<dots> \<le> rank (h ! j)"
      using assms(1) False less.prems by (simp add: heap_from_def)
    finally show ?thesis .
  qed simp
qed

end
