(* ===== verification/Iter_Merge.thy ===== *)
theory Iter_Merge
  imports Cell_Spec Go_Heap
begin

text \<open>
  \<^verbatim>\<open>MergingIterator\<close> of \<^verbatim>\<open>internal/iterrt/merge.go\<close>: the heap of sources ordered by
  their current top key and then by source position. Over lawful sources it is a lawful
  iterator whose view is \<open>merge_all\<close> of the sources' views: nothing is dropped, the
  stream is sorted, and among identical keys an earlier source comes first.
\<close>

section \<open>The iterator\<close>

text \<open>
  A heap entry holds a pointer to a source and the source's position, its priority. The
  source is shared with the list \<^verbatim>\<open>sources\<close>, so an entry is modelled by the position.
\<close>

record 's merging =
  m_sources :: "'s list"
  m_h :: "nat list"
  m_err :: "go_err option"

definition NewMergingIterator :: "'s list \<Rightarrow> 's merging" where
  "NewMergingIterator sources = \<lparr>m_sources = sources, m_h = [], m_err = None\<rparr>"

text \<open>\<^verbatim>\<open>Init\<close> hands the options on to every source, whose own \<^verbatim>\<open>Init\<close> is a parameter.\<close>

fun merging_init_sources :: "('s \<Rightarrow> 's res) \<Rightarrow> 's list \<Rightarrow> 's list res" where
  "merging_init_sources init [] = Inr []"
| "merging_init_sources init (s # ss) =
     rbind (init s) (\<lambda>s'. rbind (merging_init_sources init ss) (\<lambda>ss'. Inr (s' # ss')))"

definition merging_Init ::
  "(options \<Rightarrow> environment \<Rightarrow> 's \<Rightarrow> 's res) \<Rightarrow> 'a option \<Rightarrow> options \<Rightarrow> environment \<Rightarrow>
   's merging \<Rightarrow> 's merging res" where
  "merging_Init init source options env m =
     (if source \<noteq> None
      then Inl (Errorf ''iterrt: MergingIterator takes its sources via NewMergingIterator, not Init'')
      else rbind (merging_init_sources (init options env) (m_sources m))
             (\<lambda>ss. Inr (m\<lparr>m_sources := ss\<rparr>)))"

text \<open>
  \<^verbatim>\<open>mergeHeap.Less\<close>. Only sources with a top are in the heap, and these have a key; a
  nil key would be a nil dereference.
\<close>

definition merging_Less :: "'s skvi \<Rightarrow> 's list \<Rightarrow> nat \<Rightarrow> nat \<Rightarrow> bool" where
  "merging_Less src sources i j =
     (case (GetTopKey src (sources ! i), GetTopKey src (sources ! j)) of
        (Some a, Some b) \<Rightarrow> (let c = Compare a b in if c \<noteq> 0 then c < 0 else i < j)
      | _ \<Rightarrow> False)"

text \<open>
  The loop of \<^verbatim>\<open>Seek\<close> over the sources from position \<open>i\<close>: the sources as they are after
  it, the heap slice it appended, and the error that stopped it.
\<close>

fun merging_seek_loop ::
  "'s skvi \<Rightarrow> range \<Rightarrow> bytes list \<Rightarrow> bool \<Rightarrow> nat \<Rightarrow> 's list \<Rightarrow> ('s list \<times> nat list \<times> go_err option) option" where
  "merging_seek_loop src r cfs inclusive i [] = Some ([], [], None)"
| "merging_seek_loop src r cfs inclusive i (s # ss) =
     (case Seek src r cfs inclusive s of
        None \<Rightarrow> None
      | Some (s', Some e) \<Rightarrow> Some (s' # ss, [], Some e)
      | Some (s', None) \<Rightarrow>
          (case merging_seek_loop src r cfs inclusive (i + 1) ss of
             None \<Rightarrow> None
           | Some (ss', h, e) \<Rightarrow> Some (s' # ss', (if HasTop src s' then i # h else h), e)))"

definition merging_Seek ::
  "'s skvi \<Rightarrow> range \<Rightarrow> bytes list \<Rightarrow> bool \<Rightarrow> 's merging \<Rightarrow> 's merging step" where
  "merging_Seek src r columnFamilies inclusive m =
     (case merging_seek_loop src r columnFamilies inclusive 0 (m_sources m) of
        None \<Rightarrow> None
      | Some (ss, h, Some e) \<Rightarrow> Some (m\<lparr>m_sources := ss, m_h := h, m_err := Some e\<rparr>, Some e)
      | Some (ss, h, None) \<Rightarrow>
          Some (m\<lparr>m_sources := ss, m_h := heap_Init (merging_Less src ss) h, m_err := None\<rparr>, None))"

definition merging_Next :: "'s skvi \<Rightarrow> 's merging \<Rightarrow> 's merging step" where
  "merging_Next src m =
     (case m_err m of
        Some e \<Rightarrow> Some (m, Some e)
      | None \<Rightarrow>
          if length (m_h m) = 0
          then Some (m, Some (Errorf ''iterrt: MergingIterator.Next called without a top''))
          else let top = m_h m ! 0 in
            (case Next src (m_sources m ! top) of
               None \<Rightarrow> None
             | Some (s, Some e) \<Rightarrow>
                 Some (m\<lparr>m_sources := (m_sources m)[top := s], m_err := Some e\<rparr>, Some e)
             | Some (s, None) \<Rightarrow>
                 let ss = (m_sources m)[top := s] in
                 Some (m\<lparr>m_sources := ss,
                         m_h := (if HasTop src s then heap_Fix0 (merging_Less src ss) (m_h m)
                                 else heap_Pop (merging_Less src ss) (m_h m))\<rparr>, None)))"

definition merging_HasTop :: "'s merging \<Rightarrow> bool" where
  "merging_HasTop m \<longleftrightarrow> m_err m = None \<and> length (m_h m) > 0"

definition merging_GetTopKey :: "'s skvi \<Rightarrow> 's merging \<Rightarrow> key option" where
  "merging_GetTopKey src m =
     (if length (m_h m) = 0 then None else GetTopKey src (m_sources m ! (m_h m ! 0)))"

definition merging_GetTopValue :: "'s skvi \<Rightarrow> 's merging \<Rightarrow> bytes" where
  "merging_GetTopValue src m =
     (if length (m_h m) = 0 then [] else GetTopValue src (m_sources m ! (m_h m ! 0)))"

definition merging_DeepCopy :: "('s \<Rightarrow> 's) \<Rightarrow> 's merging \<Rightarrow> 's merging" where
  "merging_DeepCopy copy m = NewMergingIterator (map copy (m_sources m))"

definition merging_skvi :: "'s skvi \<Rightarrow> 's merging skvi" where
  "merging_skvi src =
     \<lparr>Seek = merging_Seek src, Next = merging_Next src, HasTop = merging_HasTop,
      GetTopKey = merging_GetTopKey src, GetTopValue = merging_GetTopValue src\<rparr>"

lemma merging_skvi_sel [simp]:
  "Seek (merging_skvi src) = merging_Seek src" "Next (merging_skvi src) = merging_Next src"
  "HasTop (merging_skvi src) = merging_HasTop"
  "GetTopKey (merging_skvi src) = merging_GetTopKey src"
  "GetTopValue (merging_skvi src) = merging_GetTopValue src"
  by (simp_all add: merging_skvi_def)

section \<open>The least head\<close>

text \<open>A stream's rank is its head key and its position; the least rank is the merge's head.\<close>

definition head_rank :: "cell list list \<Rightarrow> nat \<Rightarrow> key \<times> nat" where
  "head_rank css i = (fst (hd (css ! i)), i)"

lemma merge_all_Cons_head: "merge_all css = d # ds \<Longrightarrow> \<exists>j<length css. css ! j \<noteq> [] \<and> hd (css ! j) = d"
proof (induction css arbitrary: d ds)
  case (Cons cs css)
  show ?case
  proof (cases "merge_all css")
    case Nil
    with Cons.prems show ?thesis by (intro exI [of _ 0]) simp
  next
    case (Cons e es)
    with Cons.IH obtain j where j: "j < length css" "css ! j \<noteq> []" "hd (css ! j) = e" by blast
    show ?thesis
    proof (cases cs)
      case Nil
      with j Cons Cons.prems show ?thesis by (intro exI [of _ "Suc j"]) simp
    next
      case (Cons c cs')
      with Cons.prems \<open>merge_all css = e # es\<close> j show ?thesis
        by (cases "fst c \<le> fst e") (force intro: exI [of _ 0], force intro: exI [of _ "Suc j"])
    qed
  qed
qed simp

lemma merge_all_Nils: "\<forall>cs\<in>set css. cs = [] \<Longrightarrow> merge_all css = []"
  by (induction css) auto

lemma merge_all_least:
  assumes "i < length css" "css ! i = c # cs"
    and "\<And>j. j < length css \<Longrightarrow> css ! j \<noteq> [] \<Longrightarrow> head_rank css i \<le> head_rank css j"
  shows "merge_all css = c # merge_all (css[i := cs])"
  using assms
proof (induction css arbitrary: i)
  case (Cons ds css)
  show ?case
  proof (cases i)
    case 0
    have "fst c \<le> fst d" if es: "merge_all css = d # es" for d es
    proof -
      obtain j where "j < length css" "css ! j \<noteq> []" "hd (css ! j) = d"
        using merge_all_Cons_head [OF es] by blast
      with Cons.prems(3) [of "Suc j"] Cons.prems(2) 0 show ?thesis
        by (auto simp: head_rank_def)
    qed
    with 0 Cons.prems(2) show ?thesis by (cases "merge_all css") auto
  next
    case (Suc k)
    have "merge_all css = c # merge_all (css[k := cs])"
    proof (rule Cons.IH)
      fix j assume "j < length css" "css ! j \<noteq> []"
      with Cons.prems(3) [of "Suc j"] Suc show "head_rank css k \<le> head_rank css j"
        by (auto simp: head_rank_def)
    qed (use Cons.prems Suc in auto)
    moreover have "fst c < fst (hd ds)" if "ds \<noteq> []"
      using Cons.prems(2) Cons.prems(3) [of 0] Suc that by (auto simp: head_rank_def)
    ultimately show ?thesis using Suc by (cases ds) auto
  qed
qed simp

section \<open>Correctness over lawful sources\<close>

definition merging_wf :: "('s \<Rightarrow> bool) \<Rightarrow> 's merging \<Rightarrow> bool" where
  "merging_wf w m \<longleftrightarrow> (\<forall>s\<in>set (m_sources m). w s)"

definition merging_ready :: "('s \<Rightarrow> bool) \<Rightarrow> ('s \<Rightarrow> cell list) \<Rightarrow> 's merging \<Rightarrow> bool" where
  "merging_ready ready rem m \<longleftrightarrow>
     (\<forall>s\<in>set (m_sources m). ready s) \<and> m_err m = None \<and> distinct (m_h m) \<and>
     set (m_h m) = {i. i < length (m_sources m) \<and> rem (m_sources m ! i) \<noteq> []} \<and>
     is_heap (head_rank (map rem (m_sources m))) (m_h m)"

definition merging_rem :: "('s \<Rightarrow> cell list) \<Rightarrow> 's merging \<Rightarrow> cell list" where
  "merging_rem rem m = merge_all (map rem (m_sources m))"

definition merging_view ::
  "('s \<Rightarrow> range \<Rightarrow> bytes list \<Rightarrow> bool \<Rightarrow> cell list) \<Rightarrow>
   's merging \<Rightarrow> range \<Rightarrow> bytes list \<Rightarrow> bool \<Rightarrow> cell list" where
  "merging_view view m r cfs inclusive =
     merge_all (map (\<lambda>s. view s r cfs inclusive) (m_sources m))"

definition nonempty_from :: "('s \<Rightarrow> cell list) \<Rightarrow> nat \<Rightarrow> 's list \<Rightarrow> nat list" where
  "nonempty_from rem i ss = map fst (filter (\<lambda>(j, s). rem s \<noteq> []) (enumerate i ss))"

lemma nonempty_from_simps [simp]:
  "nonempty_from rem i [] = []"
  "nonempty_from rem i (s # ss) = (if rem s \<noteq> [] then i # nonempty_from rem (Suc i) ss
     else nonempty_from rem (Suc i) ss)"
  by (simp_all add: nonempty_from_def)

lemma nonempty_from_0:
  "set (nonempty_from rem 0 ss) = {i. i < length ss \<and> rem (ss ! i) \<noteq> []}"
  by (force simp: nonempty_from_def in_set_enumerate_eq image_iff)

lemma distinct_nonempty_from: "distinct (nonempty_from rem i ss)"
  by (simp add: nonempty_from_def distinct_map_filter)

lemma merging_readyI:
  assumes "\<forall>s\<in>set ss. ready s" "m_err m = None" "distinct h"
    "set h = {i. i < length ss \<and> rem (ss ! i) \<noteq> []}" "is_heap (head_rank (map rem ss)) h"
  shows "merging_ready ready rem (m\<lparr>m_sources := ss, m_h := h\<rparr>)"
  using assms by (simp add: merging_ready_def)

context skvi
begin

lemma merging_orders:
  assumes "\<forall>s\<in>set ss. ready s" "A \<subseteq> {i. i < length ss \<and> rem (ss ! i) \<noteq> []}"
  shows "orders A (merging_Less ops ss) (head_rank (map rem ss))"
proof -
  have key: "GetTopKey ops (ss ! i) = Some (fst (hd (rem (ss ! i))))" "i < length ss" if "i \<in> A" for i
    using that assms key_law [of "ss ! i"] by (cases "rem (ss ! i)"; force)+
  have "merging_Less ops ss i j \<longleftrightarrow> head_rank (map rem ss) i < head_rank (map rem ss) j"
    if "i \<in> A" "j \<in> A" for i j
    using key [OF that(1)] key [OF that(2)] by (auto simp: merging_Less_def head_rank_def Let_def)
  then show ?thesis by (simp add: orders_def)
qed

lemma merging_seek_loop_spec:
  "\<forall>s\<in>set ss. wf s \<Longrightarrow> \<exists>ss'. merging_seek_loop ops r cfs inclusive i ss =
     Some (ss', nonempty_from rem i ss', None) \<and> (\<forall>s\<in>set ss'. ready s) \<and>
     map rem ss' = map (\<lambda>s. view s r cfs inclusive) ss \<and> map view ss' = map view ss"
proof (induction ss arbitrary: i)
  case (Cons s ss)
  obtain s' where s': "Seek ops r cfs inclusive s = Some (s', None)" "ready s'"
      "rem s' = view s r cfs inclusive" "view s' = view s"
    using seek_law [of s r cfs inclusive] Cons.prems by auto
  obtain ss' where "merging_seek_loop ops r cfs inclusive (Suc i) ss =
      Some (ss', nonempty_from rem (Suc i) ss', None)" "\<forall>s\<in>set ss'. ready s"
      "map rem ss' = map (\<lambda>s. view s r cfs inclusive) ss" "map view ss' = map view ss"
    using Cons.IH [of "Suc i"] Cons.prems by auto
  with s' top_law [OF s'(2)] show ?case
    by (intro exI [of _ "s' # ss'"]) auto
qed simp

lemma merging_view_cong: "map view ss = map view ss' \<Longrightarrow>
    map (\<lambda>s. view s r cfs inclusive) ss = map (\<lambda>s. view s r cfs inclusive) ss'"
  by (drule arg_cong [where f = "map (\<lambda>v. v r cfs inclusive)"]) (simp add: o_def)

lemma merging_seek:
  assumes "merging_wf wf m"
  shows "\<exists>m'. merging_Seek ops r cfs inclusive m = Some (m', None) \<and> merging_ready ready rem m' \<and>
    merging_rem rem m' = merging_view view m r cfs inclusive \<and> merging_view view m' = merging_view view m"
proof -
  obtain ss where ss: "merging_seek_loop ops r cfs inclusive 0 (m_sources m) =
      Some (ss, nonempty_from rem 0 ss, None)" "\<forall>s\<in>set ss. ready s"
      "map rem ss = map (\<lambda>s. view s r cfs inclusive) (m_sources m)" "map view ss = map view (m_sources m)"
    using merging_seek_loop_spec [of "m_sources m" r cfs inclusive 0] assms by (auto simp: merging_wf_def)
  let ?h = "nonempty_from rem 0 ss"
  let ?m = "m\<lparr>m_sources := ss, m_h := heap_Init (merging_Less ops ss) ?h, m_err := None\<rparr>"
  note heap = heap_Init_spec [OF merging_orders [OF ss(2)], of ?h]
  have "mset (m_h ?m) = mset ?h" "is_heap (head_rank (map rem ss)) (m_h ?m)"
    using heap nonempty_from_0 by auto
  moreover from this have "set (m_h ?m) = set ?h" "distinct (m_h ?m)"
    using distinct_nonempty_from [of rem 0 ss] mset_eq_setD mset_eq_imp_distinct_iff by metis+
  ultimately have "merging_ready ready rem ?m"
    using ss(2) nonempty_from_0 [of rem ss] by (simp add: merging_ready_def)
  moreover have "merging_Seek ops r cfs inclusive m = Some (?m, None)"
    using ss(1) by (simp add: merging_Seek_def)
  moreover have "merging_view view ?m = merging_view view m"
    using merging_view_cong [OF ss(4)] by (simp add: merging_view_def fun_eq_iff)
  moreover have "merging_rem rem ?m = merging_view view m r cfs inclusive"
    using ss(3) by (simp add: merging_rem_def merging_view_def)
  ultimately show ?thesis by blast
qed

lemma merging_top:
  assumes "merging_ready ready rem m"
  shows "m_h m = [] \<longleftrightarrow> merging_rem rem m = []"
    and "m_h m = i # js \<Longrightarrow> \<exists>c cs. i < length (m_sources m) \<and> rem (m_sources m ! i) = c # cs \<and>
      ready (m_sources m ! i) \<and>
      merging_rem rem m = c # merge_all ((map rem (m_sources m))[i := cs])"
proof -
  let ?css = "map rem (m_sources m)"
  have set: "set (m_h m) = {i. i < length ?css \<and> ?css ! i \<noteq> []}"
    using assms by (auto simp: merging_ready_def)
  {
    fix i js assume h: "m_h m = i # js"
    then have i: "i < length ?css" "?css ! i \<noteq> []" using set by auto
    then obtain c cs where c: "?css ! i = c # cs" by (cases "?css ! i") auto
    have "head_rank ?css i \<le> head_rank ?css j" if "j < length ?css" "?css ! j \<noteq> []" for j
    proof -
      have "j \<in> set (m_h m)" unfolding set using that by simp
      then obtain k where "k < length (m_h m)" "m_h m ! k = j"
        by (auto simp: in_set_conv_nth)
      moreover have "is_heap (head_rank ?css) (m_h m)"
        using assms by (simp add: merging_ready_def)
      ultimately show ?thesis using is_heap_root_least h by fastforce
    qed
    from merge_all_least [OF i(1) c this] i c assms
    show "\<exists>c cs. i < length (m_sources m) \<and> rem (m_sources m ! i) = c # cs \<and>
        ready (m_sources m ! i) \<and> merging_rem rem m = c # merge_all (?css[i := cs])"
      by (auto simp: merging_rem_def merging_ready_def)
  }
  note head = this
  show "m_h m = [] \<longleftrightarrow> merging_rem rem m = []"
  proof
    assume "m_h m = []"
    then have "\<forall>cs\<in>set ?css. cs = []" using set by (auto simp: in_set_conv_nth)
    then have "merge_all ?css = []" by (rule merge_all_Nils)
    then show "merging_rem rem m = []" by (simp add: merging_rem_def)
  next
    assume "merging_rem rem m = []"
    with head show "m_h m = []" by (cases "m_h m") fastforce+
  qed
qed

lemma merging_next:
  assumes m: "merging_ready ready rem m" and "merging_rem rem m = d # ds"
  shows "\<exists>m'. merging_Next ops m = Some (m', None) \<and> merging_ready ready rem m' \<and>
    merging_rem rem m' = ds \<and> merging_view view m' = merging_view view m"
proof -
  let ?ss = "m_sources m"
  obtain i js where h: "m_h m = i # js"
    using merging_top(1) [OF m] assms(2) by (cases "m_h m") auto
  obtain cs where i: "i < length ?ss" "rem (?ss ! i) = d # cs" "ready (?ss ! i)"
      "ds = merge_all ((map rem ?ss)[i := cs])"
    using merging_top(2) [OF m h] assms(2) by auto
  obtain s where s: "Next ops (?ss ! i) = Some (s, None)" "ready s" "rem s = cs" "view s = view (?ss ! i)"
    using next_law [OF i(3,2)] by blast
  let ?ss' = "?ss[i := s]"
  let ?rank = "head_rank (map rem ?ss')" and ?lt = "merging_Less ops ?ss'"
  let ?h = "if HasTop ops s then heap_Fix0 ?lt (m_h m) else heap_Pop ?lt (m_h m)"
  let ?m = "m\<lparr>m_sources := ?ss', m_h := ?h\<rparr>"
  have ready': "\<forall>s\<in>set ?ss'. ready s"
    using m s(2) by (auto simp: merging_ready_def dest: set_update_subset_insert [THEN subsetD])
  have old: "set (i # js) = {k. k < length ?ss \<and> rem (?ss ! k) \<noteq> []}" "distinct (i # js)"
      "is_heap (head_rank (map rem ?ss)) (m_h m)" "m_err m = None"
    using m h by (auto simp: merging_ready_def)
  have "set js = set (i # js) - {i}" using old(2) by auto
  also have "\<dots> = {k. k < length ?ss \<and> rem (?ss' ! k) \<noteq> [] \<and> k \<noteq> i}"
    unfolding old(1) by (auto simp: nth_list_update)
  finally have js: "set js = {k. k < length ?ss \<and> rem (?ss' ! k) \<noteq> [] \<and> k \<noteq> i}" .
  have rank: "?rank k = head_rank (map rem ?ss) k" if "k \<in> set (tl (m_h m))" for k
    using that h js i(1) by (auto simp: head_rank_def)
  have heap: "is_heap ?rank ?h \<and> mset ?h = mset (if cs = [] then js else i # js)"
  proof (cases "HasTop ops s")
    case True
    then have "cs \<noteq> []" using top_law [OF s(2)] s(3) by simp
    moreover have "orders (set (m_h m)) ?lt ?rank"
      by (rule merging_orders [OF ready']) (use h js i s(3) \<open>cs \<noteq> []\<close> in auto)
    ultimately show ?thesis
      using True heap_Fix0_spec [OF _ old(3) rank] h by simp
  next
    case False
    then have "cs = []" using top_law [OF s(2)] s(3) by simp
    moreover have "orders (set (tl (m_h m))) ?lt ?rank"
      by (rule merging_orders [OF ready']) (use h js in auto)
    ultimately show ?thesis
      using False heap_Pop_spec [OF _ _ old(3) rank] h by simp
  qed
  then have "set ?h = set (if cs = [] then js else i # js)" "distinct ?h"
    using old(2) mset_eq_setD [of ?h] mset_eq_imp_distinct_iff [of ?h] by auto
  moreover have "set (if cs = [] then js else i # js) = {k. k < length ?ss' \<and> rem (?ss' ! k) \<noteq> []}"
    using js s(3) i(1) by (auto simp: nth_list_update)
  ultimately have "merging_ready ready rem ?m"
    using heap by (intro merging_readyI ready' old(4)) (simp_all only:)
  moreover have "merging_Next ops m = Some (?m, None)"
    using s old(4) h by (simp add: merging_Next_def Let_def)
  moreover have "merging_rem rem ?m = ds"
    using i(4) s(3) by (simp add: merging_rem_def map_update)
  moreover have "map view ?ss' = map view ?ss"
    using s(4) i(1) by (simp add: map_update list_update_same_conv)
  then have "merging_view view ?m = merging_view view m"
    using merging_view_cong [of ?ss' ?ss] by (simp add: merging_view_def fun_eq_iff)
  ultimately show ?thesis by blast
qed

lemma merging_lawful:
  "skvi (merging_skvi ops) (merging_wf wf) (merging_ready ready rem) (merging_rem rem) (merging_view view)"
proof
  fix m assume m: "merging_ready ready rem m"
  show "merging_wf wf m"
    using m ready_wf by (auto simp: merging_wf_def merging_ready_def)
  show "HasTop (merging_skvi ops) m \<longleftrightarrow> merging_rem rem m \<noteq> []"
    using m merging_top(1) [OF m] by (simp add: merging_HasTop_def merging_ready_def)
  show "sorted_cells (merging_rem rem m)"
    using m sorted_law by (auto simp: merging_rem_def merging_ready_def)
next
  fix m c cs assume m: "merging_ready ready rem m" "merging_rem rem m = c # cs"
  then obtain i js where h: "m_h m = i # js"
    using merging_top(1) [OF m(1)] by (cases "m_h m") auto
  with merging_top(2) [OF m(1) h] m(2) key_law value_law
  show "GetTopKey (merging_skvi ops) m = Some (fst c)" "GetTopValue (merging_skvi ops) m = snd c"
    by (auto simp: merging_GetTopKey_def merging_GetTopValue_def)
qed (simp_all add: merging_seek merging_next)

end

interpretation merging_slice: skvi "merging_skvi slice_skvi" "merging_wf slice_wf"
  "merging_ready slice_ready slice_rem" "merging_rem slice_rem" "merging_view slice_view"
  by (rule slice.merging_lawful)

section \<open>Properties\<close>

text \<open>
  C18: a scan through a \<^verbatim>\<open>MergingIterator\<close> returns the cells its sources select, all of
  them and each as often as they hold it, in key order; identical keys come out in the
  order of the sources, and within a source in its own order. (So when the newest source
  comes first, the most recent write of a key does.)
\<close>

theorem merging_scan:
  assumes "\<forall>cs\<in>set css. sorted_cells cs"
  shows "\<exists>m out. merging_Seek slice_skvi r cfs inclusive (NewMergingIterator (map NewSliceSource css)) = Some (m, None) \<and>
    drain_loop (merging_skvi slice_skvi) [] m = Some (out, None) \<and> sorted_cells out \<and>
    mset out = mset (filter (selects r cfs inclusive) (concat css)) \<and>
    (\<forall>k. filter (\<lambda>c. fst c = k) out = filter (\<lambda>c. fst c = k) (filter (selects r cfs inclusive) (concat css)))"
proof -
  let ?m = "NewMergingIterator (map NewSliceSource css)" and ?sel = "filter (selects r cfs inclusive)"
  have wf: "merging_wf slice_wf ?m"
    using assms by (simp add: merging_wf_def NewMergingIterator_def slice_wf_def NewSliceSource_def)
  have sorted: "\<forall>cs\<in>set (map ?sel css). sorted_cells cs"
    using assms by simp
  have view: "merging_view slice_view ?m r cfs inclusive = merge_all (map ?sel css)"
    by (simp add: merging_view_def NewMergingIterator_def slice_view_def NewSliceSource_def comp_def)
  have "mset (merge_all (map ?sel css)) = mset (?sel (concat css))"
    unfolding mset_merge_all by (induction css) auto
  moreover have "filter (\<lambda>c. fst c = k) (merge_all (map ?sel css)) = filter (\<lambda>c. fst c = k) (?sel (concat css))" for k
    unfolding merge_all_stable [OF sorted] by (induction css) auto
  ultimately show ?thesis
    using merging_slice.scan_spec [OF wf, of r cfs inclusive] sorted_merge_all [OF sorted]
    unfolding view merging_skvi_sel by blast
qed

theorem merging_scan_witness:
  "\<exists>m out. merging_Seek slice_skvi InfiniteRange [] False
       (NewMergingIterator (map NewSliceSource [[(example_key 7 False, [2])], [(example_key 9 False, []), (example_key 7 False, [1])]])) =
       Some (m, None) \<and>
     drain_loop (merging_skvi slice_skvi) [] m = Some (out, None) \<and>
     filter (\<lambda>c. fst c = example_key 7 False) out = [(example_key 7 False, [2]), (example_key 7 False, [1])]"
proof -
  let ?css = "[[(example_key 7 False, [2])], [(example_key 9 False, []), (example_key 7 False, [1])]]"
  have "\<forall>cs\<in>set ?css. sorted_cells cs" by code_simp
  moreover have "filter (\<lambda>c. fst c = example_key 7 False) (filter (selects InfiniteRange [] False) (concat ?css)) =
      [(example_key 7 False, [2]), (example_key 7 False, [1])]"
    by (simp add: example_key_def)
  ultimately show ?thesis
    using merging_scan [of ?css InfiniteRange "[]" False] by metis
qed

end
