(* ===== verification/Iter_Stack.thy ===== *)
theory Iter_Stack
  imports Iter_Registry Iter_Merge
begin

text \<open>
  Stacks of iterators, \<^verbatim>\<open>BuildStack\<close> of \<^verbatim>\<open>internal/iterrt/stack.go\<close>. A stack is chosen at
  run time from a list of iterator names, so its state is the datatype \<open>iter\<close>: a leaf, or
  one of the modelled iterators over a stack. The method table \<open>iter_ops leaf n\<close> dispatches
  on the constructor, for stacks of at most \<open>n\<close> iterators. It is lawful for every \<open>n\<close>, by
  induction with the correctness of each iterator over any lawful source, so the view of a
  stack is the composition of its iterators' views.
\<close>

section \<open>States\<close>

datatype 's iter =
    Leaf 's
  | Versioning "'s iter" int "key option" int "go_err option"
  | Deleting "'s iter" bool DeletingBehavior "go_err option"
  | Visibility "'s iter" bool "evaluator option" "go_err option"
  | AsOf "'s iter" int64 "go_err option"

definition of_versioning :: "'s iter versioning \<Rightarrow> 's iter" where
  "of_versioning v = Versioning (v_source v) (v_maxVersions v) (v_coord v) (v_numVersions v) (v_err v)"

definition of_deleting :: "'s iter deleting \<Rightarrow> 's iter" where
  "of_deleting d = Deleting (d_source d) (d_propagateDeletes d) (d_behavior d) (d_err d)"

definition of_visibility :: "'s iter visibility \<Rightarrow> 's iter" where
  "of_visibility vf = Visibility (vf_source vf) (vf_active vf) (vf_eval vf) (vf_err vf)"

definition of_asof :: "'s iter asof \<Rightarrow> 's iter" where
  "of_asof a = AsOf (a_source a) (a_ceiling a) (a_err a)"

abbreviation to_versioning :: "'s iter \<Rightarrow> int \<Rightarrow> key option \<Rightarrow> int \<Rightarrow> go_err option \<Rightarrow> 's iter versioning" where
  "to_versioning s m c n e \<equiv>
     \<lparr>v_source = s, v_maxVersions = m, v_coord = c, v_numVersions = n, v_err = e\<rparr>"

abbreviation to_deleting :: "'s iter \<Rightarrow> bool \<Rightarrow> DeletingBehavior \<Rightarrow> go_err option \<Rightarrow> 's iter deleting" where
  "to_deleting s p b e \<equiv> \<lparr>d_source = s, d_propagateDeletes = p, d_behavior = b, d_err = e\<rparr>"

abbreviation to_visibility :: "'s iter \<Rightarrow> bool \<Rightarrow> evaluator option \<Rightarrow> go_err option \<Rightarrow> 's iter visibility" where
  "to_visibility s a ev e \<equiv> \<lparr>vf_source = s, vf_active = a, vf_eval = ev, vf_err = e\<rparr>"

abbreviation to_asof :: "'s iter \<Rightarrow> int64 \<Rightarrow> go_err option \<Rightarrow> 's iter asof" where
  "to_asof s c e \<equiv> \<lparr>a_source = s, a_ceiling = c, a_err = e\<rparr>"

text \<open>
  A property or operation of one level of a stack, given the same for each kind of
  iterator over the levels below.
\<close>

definition dispatch ::
  "('s \<Rightarrow> 'r) \<Rightarrow> ('s iter versioning \<Rightarrow> 'r) \<Rightarrow> ('s iter deleting \<Rightarrow> 'r) \<Rightarrow> ('s iter visibility \<Rightarrow> 'r) \<Rightarrow>
   ('s iter asof \<Rightarrow> 'r) \<Rightarrow> 's iter \<Rightarrow> 'r" where
  "dispatch leaf ver del vis asof it =
     (case it of
        Leaf s \<Rightarrow> leaf s
      | Versioning s m c n e \<Rightarrow> ver (to_versioning s m c n e)
      | Deleting s p b e \<Rightarrow> del (to_deleting s p b e)
      | Visibility s a ev e \<Rightarrow> vis (to_visibility s a ev e)
      | AsOf s c e \<Rightarrow> asof (to_asof s c e))"

abbreviation lift :: "('t \<Rightarrow> 's iter) \<Rightarrow> 't step \<Rightarrow> 's iter step" where
  "lift f \<equiv> map_option (\<lambda>(t, e). (f t, e))"

text \<open>The table of a level, given the leaf's table and the table of the levels below.\<close>

definition level_ops :: "'s skvi \<Rightarrow> 's iter skvi \<Rightarrow> 's iter skvi" where
  "level_ops L src =
     \<lparr>Seek = (\<lambda>r cfs inclusive. dispatch (\<lambda>s. lift Leaf (Seek L r cfs inclusive s))
         (\<lambda>v. lift of_versioning (versioning_Seek src r cfs inclusive v))
         (\<lambda>d. lift of_deleting (deleting_Seek src r cfs inclusive d))
         (\<lambda>vf. lift of_visibility (visibility_Seek src r cfs inclusive vf))
         (\<lambda>a. lift of_asof (asof_Seek src r cfs inclusive a))),
      Next = dispatch (\<lambda>s. lift Leaf (Next L s))
         (\<lambda>v. lift of_versioning (versioning_Next src v))
         (\<lambda>d. lift of_deleting (deleting_Next src d))
         (\<lambda>vf. lift of_visibility (visibility_Next src vf))
         (\<lambda>a. lift of_asof (asof_Next src a)),
      HasTop = dispatch (HasTop L) (versioning_HasTop src) (\<lambda>d. fst (deleting_HasTop src d))
         (visibility_HasTop src) (asof_HasTop src),
      GetTopKey = dispatch (GetTopKey L) (versioning_GetTopKey src) (deleting_GetTopKey src)
         (visibility_GetTopKey src) (asof_GetTopKey src),
      GetTopValue = dispatch (GetTopValue L) (versioning_GetTopValue src) (deleting_GetTopValue src)
         (visibility_GetTopValue src) (asof_GetTopValue src)\<rparr>"

text \<open>Below the last level there is nothing: no call of it returns.\<close>

definition no_ops :: "'s iter skvi" where
  "no_ops = \<lparr>Seek = (\<lambda>r cfs inclusive it. None), Next = (\<lambda>it. None), HasTop = (\<lambda>it. False),
             GetTopKey = (\<lambda>it. None), GetTopValue = (\<lambda>it. [])\<rparr>"

fun iter_ops :: "'s skvi \<Rightarrow> nat \<Rightarrow> 's iter skvi" where
  "iter_ops L 0 = level_ops L no_ops"
| "iter_ops L (Suc n) = level_ops L (iter_ops L n)"

section \<open>Every level is lawful\<close>

lemma dispatch_of [simp]:
  "dispatch leaf ver del vis asof (Leaf s) = leaf s"
  "dispatch leaf ver del vis asof (of_versioning v) = ver v"
  "dispatch leaf ver del vis asof (of_deleting d) = del d"
  "dispatch leaf ver del vis asof (of_visibility vf) = vis vf"
  "dispatch leaf ver del vis asof (of_asof a) = asof a"
proof -
  show "dispatch leaf ver del vis asof (of_versioning v) = ver v"
    by (cases v) (simp add: dispatch_def of_versioning_def)
  show "dispatch leaf ver del vis asof (of_deleting d) = del d"
    by (cases d) (simp add: dispatch_def of_deleting_def)
  show "dispatch leaf ver del vis asof (of_visibility vf) = vis vf"
    by (cases vf) (simp add: dispatch_def of_visibility_def)
  show "dispatch leaf ver del vis asof (of_asof a) = asof a"
    by (cases a) (simp add: dispatch_def of_asof_def)
qed (simp add: dispatch_def)

lemma iter_cases:
  obtains (leaf) s where "it = Leaf s" | (versioning) v where "it = of_versioning v"
    | (deleting) d where "it = of_deleting d" | (visibility) vf where "it = of_visibility vf"
    | (asof) a where "it = of_asof a"
proof (cases it)
  case (Versioning s m c n e)
  then have "it = of_versioning (to_versioning s m c n e)" by (simp add: of_versioning_def)
  then show thesis by (rule versioning)
next
  case (Deleting s p b e)
  then have "it = of_deleting (to_deleting s p b e)" by (simp add: of_deleting_def)
  then show thesis by (rule deleting)
next
  case (Visibility s a ev e)
  then have "it = of_visibility (to_visibility s a ev e)" by (simp add: of_visibility_def)
  then show thesis by (rule visibility)
next
  case (AsOf s c e)
  then have "it = of_asof (to_asof s c e)" by (simp add: of_asof_def)
  then show thesis by (rule asof)
qed (rule leaf)

definition level_wf :: "('s \<Rightarrow> bool) \<Rightarrow> ('s iter \<Rightarrow> bool) \<Rightarrow> 's iter \<Rightarrow> bool" where
  "level_wf w W = dispatch w (versioning_wf W) (deleting_wf W)
     (filtering.f_wf W vf_source visibility_conf) (filtering.f_wf W a_source (\<lambda>_. True))"

definition level_ready ::
  "('s \<Rightarrow> bool) \<Rightarrow> ('s iter \<Rightarrow> bool) \<Rightarrow> ('s iter \<Rightarrow> cell list) \<Rightarrow> 's iter \<Rightarrow> bool" where
  "level_ready rdy R M = dispatch rdy (versioning_ready R M) (deleting_ready R M)
     (filtering.f_ready R M vf_source visibility_ok visibility_keep)
     (filtering.f_ready R M a_source asof_ok asof_keep)"

definition level_rem :: "('s \<Rightarrow> cell list) \<Rightarrow> ('s iter \<Rightarrow> cell list) \<Rightarrow> 's iter \<Rightarrow> cell list" where
  "level_rem m M = dispatch m (versioning_rem M) (deleting_rem M)
     (filtering.f_rem M vf_source visibility_keep) (filtering.f_rem M a_source asof_keep)"

definition level_view ::
  "('s \<Rightarrow> range \<Rightarrow> bytes list \<Rightarrow> bool \<Rightarrow> cell list) \<Rightarrow>
   ('s iter \<Rightarrow> range \<Rightarrow> bytes list \<Rightarrow> bool \<Rightarrow> cell list) \<Rightarrow>
   's iter \<Rightarrow> range \<Rightarrow> bytes list \<Rightarrow> bool \<Rightarrow> cell list" where
  "level_view vw V = dispatch vw (versioning_view V) (deleting_view V)
     (filtering.f_view V vf_source visibility_keep) (filtering.f_view V a_source asof_keep)"

lemma level_ops_sel [simp]:
  "Seek (level_ops L src) r cfs inclusive (Leaf s) = lift Leaf (Seek L r cfs inclusive s)"
  "Seek (level_ops L src) r cfs inclusive (of_versioning v) = lift of_versioning (Seek (versioning_skvi src) r cfs inclusive v)"
  "Seek (level_ops L src) r cfs inclusive (of_deleting d) = lift of_deleting (Seek (deleting_skvi src) r cfs inclusive d)"
  "Seek (level_ops L src) r cfs inclusive (of_visibility vf) = lift of_visibility (Seek (visibility_skvi src) r cfs inclusive vf)"
  "Seek (level_ops L src) r cfs inclusive (of_asof a) = lift of_asof (Seek (asof_skvi src) r cfs inclusive a)"
  "Next (level_ops L src) (Leaf s) = lift Leaf (Next L s)"
  "Next (level_ops L src) (of_versioning v) = lift of_versioning (Next (versioning_skvi src) v)"
  "Next (level_ops L src) (of_deleting d) = lift of_deleting (Next (deleting_skvi src) d)"
  "Next (level_ops L src) (of_visibility vf) = lift of_visibility (Next (visibility_skvi src) vf)"
  "Next (level_ops L src) (of_asof a) = lift of_asof (Next (asof_skvi src) a)"
  by (simp_all add: level_ops_def visibility_skvi_def asof_skvi_def)

lemma level_ops_top [simp]:
  "HasTop (level_ops L src) = dispatch (HasTop L) (HasTop (versioning_skvi src)) (HasTop (deleting_skvi src))
     (HasTop (visibility_skvi src)) (HasTop (asof_skvi src))"
  "GetTopKey (level_ops L src) = dispatch (GetTopKey L) (GetTopKey (versioning_skvi src)) (GetTopKey (deleting_skvi src))
     (GetTopKey (visibility_skvi src)) (GetTopKey (asof_skvi src))"
  "GetTopValue (level_ops L src) = dispatch (GetTopValue L) (GetTopValue (versioning_skvi src))
     (GetTopValue (deleting_skvi src)) (GetTopValue (visibility_skvi src)) (GetTopValue (asof_skvi src))"
  by (simp_all add: level_ops_def visibility_skvi_def asof_skvi_def)

lemma level_lawful:
  assumes leaf: "skvi L w rdy m vw" and src: "skvi src W R M V"
  shows "skvi (level_ops L src) (level_wf w W) (level_ready rdy R M) (level_rem m M) (level_view vw V)"
proof -
  note laws = leaf skvi.versioning_lawful [OF src] skvi.deleting_lawful [OF src]
    skvi.visibility_lawful [OF src] skvi.asof_lawful [OF src]
  note defs = level_wf_def level_ready_def level_rem_def level_view_def
  show ?thesis
  proof
    fix it assume "level_ready rdy R M it"
    then show "level_wf w W it"
      by (cases it rule: iter_cases) (simp_all add: defs laws [THEN skvi.ready_wf])
  next
    fix it r cfs inclusive assume it: "level_wf w W it"
    show "\<exists>it'. Seek (level_ops L src) r cfs inclusive it = Some (it', None) \<and> level_ready rdy R M it' \<and>
        level_rem m M it' = level_view vw V it r cfs inclusive \<and> level_view vw V it' = level_view vw V it"
    proof (cases it rule: iter_cases)
      case (leaf s)
      with it skvi.seek_law [OF laws(1), of s r cfs inclusive] show ?thesis by (auto simp: defs)
    next
      case (versioning v)
      with it skvi.seek_law [OF laws(2), of v r cfs inclusive] show ?thesis by (auto simp: defs)
    next
      case (deleting d)
      with it skvi.seek_law [OF laws(3), of d r cfs inclusive] show ?thesis by (auto simp: defs)
    next
      case (visibility vf)
      with it skvi.seek_law [OF laws(4), of vf r cfs inclusive] show ?thesis by (auto simp: defs)
    next
      case (asof a)
      with it skvi.seek_law [OF laws(5), of a r cfs inclusive] show ?thesis by (auto simp: defs)
    qed
  next
    fix it c cs assume it: "level_ready rdy R M it" "level_rem m M it = c # cs"
    show "\<exists>it'. Next (level_ops L src) it = Some (it', None) \<and> level_ready rdy R M it' \<and>
        level_rem m M it' = cs \<and> level_view vw V it' = level_view vw V it"
    proof (cases it rule: iter_cases)
      case (leaf s)
      with it skvi.next_law [OF laws(1), of s c cs] show ?thesis by (auto simp: defs)
    next
      case (versioning v)
      with it skvi.next_law [OF laws(2), of v c cs] show ?thesis by (auto simp: defs)
    next
      case (deleting d)
      with it skvi.next_law [OF laws(3), of d c cs] show ?thesis by (auto simp: defs)
    next
      case (visibility vf)
      with it skvi.next_law [OF laws(4), of vf c cs] show ?thesis by (auto simp: defs)
    next
      case (asof a)
      with it skvi.next_law [OF laws(5), of a c cs] show ?thesis by (auto simp: defs)
    qed
  next
    fix it assume "level_ready rdy R M it"
    then show "HasTop (level_ops L src) it \<longleftrightarrow> level_rem m M it \<noteq> []"
      by (cases it rule: iter_cases) (simp_all only: level_ops_top dispatch_of defs laws [THEN skvi.top_law])
  next
    fix it c cs assume "level_ready rdy R M it" "level_rem m M it = c # cs"
    then show "GetTopKey (level_ops L src) it = Some (fst c)"
      by (cases it rule: iter_cases) (simp_all only: level_ops_top dispatch_of defs laws [THEN skvi.key_law])
  next
    fix it c cs assume "level_ready rdy R M it" "level_rem m M it = c # cs"
    then show "GetTopValue (level_ops L src) it = snd c"
      by (cases it rule: iter_cases) (simp_all only: level_ops_top dispatch_of defs laws [THEN skvi.value_law])
  next
    fix it assume "level_ready rdy R M it"
    then show "sorted_cells (level_rem m M it)"
      by (cases it rule: iter_cases) (simp_all only: dispatch_of defs laws [THEN skvi.sorted_law])
  qed
qed

text \<open>The levels from the bottom up.\<close>

fun iter_wf :: "('s \<Rightarrow> bool) \<Rightarrow> nat \<Rightarrow> 's iter \<Rightarrow> bool" where
  "iter_wf w 0 = level_wf w (\<lambda>_. False)"
| "iter_wf w (Suc n) = level_wf w (iter_wf w n)"

fun iter_rem :: "('s \<Rightarrow> cell list) \<Rightarrow> nat \<Rightarrow> 's iter \<Rightarrow> cell list" where
  "iter_rem m 0 = level_rem m (\<lambda>_. [])"
| "iter_rem m (Suc n) = level_rem m (iter_rem m n)"

fun iter_ready :: "('s \<Rightarrow> bool) \<Rightarrow> ('s \<Rightarrow> cell list) \<Rightarrow> nat \<Rightarrow> 's iter \<Rightarrow> bool" where
  "iter_ready rdy m 0 = level_ready rdy (\<lambda>_. False) (\<lambda>_. [])"
| "iter_ready rdy m (Suc n) = level_ready rdy (iter_ready rdy m n) (iter_rem m n)"

fun iter_view ::
  "('s \<Rightarrow> range \<Rightarrow> bytes list \<Rightarrow> bool \<Rightarrow> cell list) \<Rightarrow> nat \<Rightarrow>
   's iter \<Rightarrow> range \<Rightarrow> bytes list \<Rightarrow> bool \<Rightarrow> cell list" where
  "iter_view vw 0 = level_view vw (\<lambda>_ _ _ _. [])"
| "iter_view vw (Suc n) = level_view vw (iter_view vw n)"

lemma no_ops_lawful: "skvi no_ops (\<lambda>_. False) (\<lambda>_. False) (\<lambda>_. []) (\<lambda>_ _ _ _. [])"
  by unfold_locales auto

lemma iter_lawful:
  "skvi L w rdy m vw \<Longrightarrow>
     skvi (iter_ops L n) (iter_wf w n) (iter_ready rdy m n) (iter_rem m n) (iter_view vw n)"
  by (induction n) (simp_all add: level_lawful no_ops_lawful)

interpretation slice_stack: skvi "iter_ops slice_skvi n" "iter_wf slice_wf n"
  "iter_ready slice_ready slice_rem n" "iter_rem slice_rem n" "iter_view slice_view n" for n
  by (rule iter_lawful) unfold_locales

section \<open>The view of a stack\<close>

text \<open>What a stack shows, and when it is well configured, by recursion on the stack.\<close>

fun stack_view ::
  "('s \<Rightarrow> range \<Rightarrow> bytes list \<Rightarrow> bool \<Rightarrow> cell list) \<Rightarrow>
   's iter \<Rightarrow> range \<Rightarrow> bytes list \<Rightarrow> bool \<Rightarrow> cell list" where
  "stack_view vw (Leaf s) r cfs inclusive = vw s r cfs inclusive"
| "stack_view vw (Versioning s m c n e) r cfs inclusive = versions (nat m) (stack_view vw s r cfs inclusive)"
| "stack_view vw (Deleting s p b e) r cfs inclusive =
     dropWhile (\<lambda>c. BeforeStart r (fst c)) (suppress p (stack_view vw s (maximize r) cfs inclusive))"
| "stack_view vw (Visibility s a ev e) r cfs inclusive =
     filter (visibility_keep (to_visibility s a ev e)) (stack_view vw s r cfs inclusive)"
| "stack_view vw (AsOf s c e) r cfs inclusive = filter (asof_keep (to_asof s c e)) (stack_view vw s r cfs inclusive)"

fun stack_ok :: "('s \<Rightarrow> bool) \<Rightarrow> 's iter \<Rightarrow> bool" where
  "stack_ok w (Leaf s) \<longleftrightarrow> w s"
| "stack_ok w (Versioning s m c n e) \<longleftrightarrow> 1 \<le> m \<and> stack_ok w s"
| "stack_ok w (Deleting s p b e) \<longleftrightarrow> b = DeletingProcess \<and> stack_ok w s"
| "stack_ok w (Visibility s a ev e) \<longleftrightarrow> visibility_conf (to_visibility s a ev e) \<and> stack_ok w s"
| "stack_ok w (AsOf s c e) \<longleftrightarrow> stack_ok w s"

fun depth :: "'s iter \<Rightarrow> nat" where
  "depth (Leaf s) = 0"
| "depth (Versioning s m c n e) = Suc (depth s)"
| "depth (Deleting s p b e) = Suc (depth s)"
| "depth (Visibility s a ev e) = Suc (depth s)"
| "depth (AsOf s c e) = Suc (depth s)"

lemma f_wf_iff: "skvi ops w rdy m vw \<Longrightarrow> filtering.f_wf w vf_source visibility_conf vf \<longleftrightarrow> visibility_conf vf \<and> w (vf_source vf)"
  by (rule filtering.f_wf_def [OF skvi.visibility_filtering])

lemma f_wf_asof_iff:
  fixes a :: "'s asof"
  shows "skvi ops w rdy m vw \<Longrightarrow> filtering.f_wf w a_source (\<lambda>_. True) a \<longleftrightarrow> w (a_source a)"
  using filtering.f_wf_def [OF skvi.asof_filtering, of ops w rdy m vw a] by blast

lemma f_view_eq:
  assumes "skvi ops w rdy m vw"
  shows "filtering.f_view vw vf_source visibility_keep vf r cfs inclusive =
      filter (visibility_keep vf) (vw (vf_source vf) r cfs inclusive)"
    and "filtering.f_view vw a_source asof_keep a r cfs inclusive =
      filter (asof_keep a) (vw (a_source a) r cfs inclusive)"
  by (rule filtering.f_view_def [OF skvi.visibility_filtering [OF assms]]
      filtering.f_view_def [OF skvi.asof_filtering [OF assms]])+

context skvi
begin

lemma iter_wf_stack_ok: "depth it \<le> n \<Longrightarrow> iter_wf wf n it \<longleftrightarrow> stack_ok wf it"
proof (induction it arbitrary: n)
  case (Leaf s)
  show ?case by (cases n) (simp_all add: level_wf_def)
next
  case (Versioning s m c k e)
  then show ?case by (cases n) (auto simp: level_wf_def dispatch_def versioning_wf_def)
next
  case (Deleting s p b e)
  then show ?case by (cases n) (auto simp: level_wf_def dispatch_def deleting_wf_def)
next
  case (Visibility s a ev e)
  then show ?case
    using f_wf_iff [OF iter_lawful [OF skvi_axioms]] by (cases n) (auto simp: level_wf_def dispatch_def)
next
  case (AsOf s c e)
  then show ?case
    using f_wf_asof_iff [OF iter_lawful [OF skvi_axioms]] by (cases n) (auto simp: level_wf_def dispatch_def)
qed

lemma iter_view_stack_view: "depth it \<le> n \<Longrightarrow> iter_view view n it r cfs inclusive = stack_view view it r cfs inclusive"
proof (induction it arbitrary: n r)
  case (Leaf s)
  show ?case by (cases n) (simp_all add: level_view_def)
next
  case (Versioning s m c k e)
  then show ?case by (cases n) (auto simp: level_view_def dispatch_def versioning_view_def)
next
  case (Deleting s p b e)
  then show ?case by (cases n) (auto simp: level_view_def dispatch_def deleting_view_def)
next
  case (Visibility s a ev e)
  then show ?case
    using f_view_eq(1) [OF iter_lawful [OF skvi_axioms]] by (cases n) (auto simp: level_view_def dispatch_def)
next
  case (AsOf s c e)
  then show ?case
    using f_view_eq(2) [OF iter_lawful [OF skvi_axioms]] by (cases n) (auto simp: level_view_def dispatch_def)
qed

text \<open>Seeking a well-configured stack and draining it gives its view.\<close>

lemma stack_scan:
  assumes "stack_ok wf it" "depth it \<le> n"
  shows "\<exists>it'. Seek (iter_ops ops n) r cfs inclusive it = Some (it', None) \<and>
    drain_loop (iter_ops ops n) [] it' = Some (stack_view view it r cfs inclusive, None)"
  using skvi.scan_spec [OF iter_lawful [OF skvi_axioms], of n it r cfs inclusive] assms
  by (simp add: iter_wf_stack_ok iter_view_stack_view)

end

section \<open>BuildStack\<close>

text \<open>
  \<^verbatim>\<open>newIterator\<close> finds the registration of a name; what it constructs is decided by \<open>init_spec\<close>.
\<close>

definition newIterator :: "string \<Rightarrow> iteratorRegistration res" where
  "newIterator name =
     (case registryByName name of None \<Rightarrow> Inl (UnknownIteratorError name) | Some reg \<Rightarrow> Inr reg)"

text \<open>
  \<^verbatim>\<open>next.Init(cur, spec.Options, env)\<close> for the iterator of that name. \<open>None\<close> is a registered
  name outside the four iterators modelled here.
\<close>

definition init_spec :: "iter_spec \<Rightarrow> environment \<Rightarrow> 's iter \<Rightarrow> 's iter res option" where
  "init_spec spec env cur =
     (let options = map_of (Options spec) in
      if Name spec = IterVersioning
      then Some (map_sum id of_versioning (versioning_Init (Some cur) options env))
      else if Name spec = IterVisibility
      then Some (map_sum id of_visibility (visibility_Init (Some cur) options env))
      else if Name spec = IterDeleting
      then Some (map_sum id of_deleting (deleting_Init (Some cur) options env))
      else if Name spec = IterAsOf
      then Some (map_sum id of_asof (asof_Init (Some cur) options env))
      else None)"

fun build_loop :: "iter_spec list \<Rightarrow> environment \<Rightarrow> 's iter \<Rightarrow> 's iter res option" where
  "build_loop [] env cur = Some (Inr cur)"
| "build_loop (spec # specs) env cur =
     (case newIterator (Name spec) of
        Inl e \<Rightarrow> Some (Inl (Wrap ''iterrt: stack position'' e))
      | Inr _ \<Rightarrow>
          (case init_spec spec env cur of
             None \<Rightarrow> None
           | Some (Inl e) \<Rightarrow> Some (Inl (Wrap (''iterrt: stack position ('' @ Name spec @ '')'') e))
           | Some (Inr next) \<Rightarrow> build_loop specs env next))"

definition BuildStack :: "'s \<Rightarrow> iter_spec list \<Rightarrow> environment \<Rightarrow> 's iter res option" where
  "BuildStack leaf specs env =
     (case ValidateStack specs (ContextFromScope (Scope env)) of
        None \<Rightarrow> None
      | Some (Some e) \<Rightarrow> Some (Inl e)
      | Some None \<Rightarrow> build_loop specs env (Leaf leaf))"

text \<open>No iterator is asked to fail on deletes.\<close>

definition processing :: "iter_spec \<Rightarrow> bool" where
  "processing spec \<longleftrightarrow> Name spec = IterDeleting \<longrightarrow>
     map_of (Options spec) DeletingOptionBehavior \<notin> {Some ''fail'', Some ''FAIL''}"

lemma versioning_Init_ok:
  assumes "versioning_Init (Some s) options env = Inr v"
  shows "v_source v = s \<and> 1 \<le> v_maxVersions v"
  using assms by (auto simp: versioning_Init_def NewVersioningIterator_def res_simps split: if_splits)

lemma deleting_Init_ok:
  assumes "deleting_Init (Some s) options env = Inr d"
  shows "d_source d = s"
    and "options DeletingOptionBehavior \<notin> {Some ''fail'', Some ''FAIL''} \<Longrightarrow> d_behavior d = DeletingProcess"
    and "options DeletingOptionPropagate = None \<Longrightarrow>
      d_propagateDeletes d \<longleftrightarrow> \<not> (Scope env = ScopeMajc \<and> FullMajorCompaction env)"
    and "options DeletingOptionPropagate = Some b \<Longrightarrow> b \<noteq> [] \<Longrightarrow> ParseBool b = Some (d_propagateDeletes d)"
proof -
  obtain p where p: "(case options DeletingOptionPropagate of
                   None \<Rightarrow> Inr (\<not> (Scope env = ScopeMajc \<and> FullMajorCompaction env))
                 | Some s \<Rightarrow>
                     if s = '''' then Inr (\<not> (Scope env = ScopeMajc \<and> FullMajorCompaction env))
                     else (case ParseBool s of
                         None \<Rightarrow> Inl (Errorf (''iterrt: DeletingIterator bad propagateDeletes='' @ s))
                       | Some b \<Rightarrow> Inr b)) = Inr p"
    using assms unfolding deleting_Init_def option.case rbind_Inr_iff by blast
  obtain bh where bh: "(case options DeletingOptionBehavior of
                   None \<Rightarrow> Inr DeletingProcess
                 | Some s \<Rightarrow>
                     if s = '''' then Inr DeletingProcess
                     else if s = ''process'' \<or> s = ''PROCESS'' then Inr DeletingProcess
                     else if s = ''fail'' \<or> s = ''FAIL'' then Inr DeletingFail
                     else Inl (Errorf (''iterrt: DeletingIterator bad behavior='' @ s @ '' (want process|fail)''))) = Inr bh"
    using assms unfolding deleting_Init_def option.case rbind_Inr_iff by blast
  have d: "d = (NewDeletingIterator s)\<lparr>d_propagateDeletes := p, d_behavior := bh\<rparr>"
    using assms unfolding deleting_Init_def option.case p bh rbind.simps by simp
  show "d_source d = s" unfolding d by (simp add: NewDeletingIterator_def)
  show "d_behavior d = DeletingProcess"
    if "options DeletingOptionBehavior \<notin> {Some ''fail'', Some ''FAIL''}"
    using bh that unfolding d by (cases "options DeletingOptionBehavior") (auto split: if_splits)
  show "d_propagateDeletes d \<longleftrightarrow> \<not> (Scope env = ScopeMajc \<and> FullMajorCompaction env)"
    if "options DeletingOptionPropagate = None"
    using p that unfolding d by auto
  show "ParseBool b = Some (d_propagateDeletes d)"
    if "options DeletingOptionPropagate = Some b" "b \<noteq> []"
    using p that unfolding d by (auto split: option.splits)
qed

lemma visibility_Init_ok:
  assumes "visibility_Init (Some s) options env = Inr vf"
  shows "vf_source vf = s \<and> visibility_conf vf"
  using assms by (auto simp: visibility_Init_def visibility_conf_def)

lemma asof_Init_ok:
  assumes "asof_Init (Some s) options env = Inr a"
  shows "a_source a = s"
  using assms by (auto simp: asof_Init_def split: option.splits if_splits)

lemma stack_ok_of:
  "stack_ok w (of_versioning v) \<longleftrightarrow> 1 \<le> v_maxVersions v \<and> stack_ok w (v_source v)"
  "stack_ok w (of_deleting d) \<longleftrightarrow> d_behavior d = DeletingProcess \<and> stack_ok w (d_source d)"
  "stack_ok w (of_visibility vf) \<longleftrightarrow> visibility_conf vf \<and> stack_ok w (vf_source vf)"
  "stack_ok w (of_asof a) \<longleftrightarrow> stack_ok w (a_source a)"
  by (simp_all add: of_versioning_def of_deleting_def of_visibility_def of_asof_def visibility_conf_def)

lemma depth_of:
  "depth (of_versioning v) = Suc (depth (v_source v))" "depth (of_deleting d) = Suc (depth (d_source d))"
  "depth (of_visibility vf) = Suc (depth (vf_source vf))" "depth (of_asof a) = Suc (depth (a_source a))"
  by (simp_all add: of_versioning_def of_deleting_def of_visibility_def of_asof_def)

lemma map_sum_Inr_iff: "map_sum id f r = Inr y \<longleftrightarrow> (\<exists>x. r = Inr x \<and> y = f x)"
  by (cases r) auto

lemma init_spec_ok:
  assumes "init_spec spec env cur = Some (Inr next)" "stack_ok w cur" "processing spec"
  shows "stack_ok w next \<and> depth next = Suc (depth cur)"
proof -
  consider (ver) v where "versioning_Init (Some cur) (map_of (Options spec)) env = Inr v" "next = of_versioning v"
    | (vis) vf where "visibility_Init (Some cur) (map_of (Options spec)) env = Inr vf" "next = of_visibility vf"
    | (del) d where "deleting_Init (Some cur) (map_of (Options spec)) env = Inr d" "next = of_deleting d" "Name spec = IterDeleting"
    | (asof) a where "asof_Init (Some cur) (map_of (Options spec)) env = Inr a" "next = of_asof a"
    using assms(1) unfolding init_spec_def Let_def by (auto simp: map_sum_Inr_iff split: if_splits)
  then show ?thesis
  proof cases
    case ver
    with versioning_Init_ok [OF ver(1)] assms(2) show ?thesis by (auto simp: stack_ok_of depth_of)
  next
    case vis
    with visibility_Init_ok [OF vis(1)] assms(2) show ?thesis by (auto simp: stack_ok_of depth_of)
  next
    case del
    with deleting_Init_ok(1,2) [OF del(1)] assms(2,3) show ?thesis
      by (auto simp: stack_ok_of depth_of processing_def)
  next
    case asof
    with asof_Init_ok [OF asof(1)] assms(2) show ?thesis by (auto simp: stack_ok_of depth_of)
  qed
qed

lemma build_loop_ok:
  assumes "build_loop specs env cur = Some (Inr it)" "stack_ok w cur" "list_all processing specs"
  shows "stack_ok w it \<and> depth it = depth cur + length specs"
  using assms
proof (induction specs arbitrary: cur)
  case (Cons spec specs)
  then obtain next' where n: "init_spec spec env cur = Some (Inr next')" "build_loop specs env next' = Some (Inr it)"
    by (auto split: option.splits sum.splits)
  from init_spec_ok [OF n(1) Cons.prems(2)] Cons.IH [OF n(2)] Cons.prems(3) show ?case by simp
qed simp

lemma BuildStack_ok:
  assumes "BuildStack leaf specs env = Some (Inr it)" "w leaf" "list_all processing specs"
  shows "stack_ok w it \<and> depth it = length specs"
proof -
  have "build_loop specs env (Leaf leaf) = Some (Inr it)"
    using assms(1) by (auto simp: BuildStack_def split: option.splits)
  from build_loop_ok [OF this _ assms(3)] assms(2) show ?thesis by simp
qed

lemma BuildStack_Nil [simp]: "BuildStack leaf [] env = Some (Inr (Leaf leaf))"
  by (simp add: BuildStack_def ValidateStack_def)

section \<open>Properties\<close>

text \<open>
  A stack that \<^verbatim>\<open>BuildStack\<close> returns is the composition of its iterators. Seeking its
  top to any range and draining it returns without an error, and what it returns is
  computed level by level from the cells of the leaf: the first cells of each coordinate,
  the cells not hidden by a delete, the visible cells, or the cells not newer than the
  ceiling. No iterator of the stack may be set to fail on deletes.
\<close>

theorem BuildStack_composes:
  assumes "sorted_cells cs" "BuildStack (NewSliceSource cs) specs env = Some (Inr it)" "list_all processing specs"
  shows "\<exists>it'. Seek (iter_ops slice_skvi (length specs)) r cfs inclusive it = Some (it', None) \<and>
    drain_loop (iter_ops slice_skvi (length specs)) [] it' =
      Some (stack_view slice_view it r cfs inclusive, None) \<and>
    sorted_cells (stack_view slice_view it r cfs inclusive)"
proof -
  have "slice_wf (NewSliceSource cs)"
    using assms(1) by (simp add: slice_wf_def NewSliceSource_def)
  with BuildStack_ok [OF assms(2), of slice_wf] assms(3)
  have ok: "stack_ok slice_wf it" "depth it \<le> length specs" by auto
  have "iter_wf slice_wf (length specs) it"
    using ok slice.iter_wf_stack_ok [of it "length specs"] by simp
  from slice_stack.view_sorted [OF this] slice.iter_view_stack_view [OF ok(2)]
  have "sorted_cells (stack_view slice_view it r cfs inclusive)" by simp
  with slice.stack_scan [OF ok, of r cfs inclusive] show ?thesis by blast
qed

text \<open>
  The stack of a point lookup, \<^verbatim>\<open>normalizedLookupStack\<close> of
  \<^verbatim>\<open>internal/shoalql/enginebackend\<close>: as-of filters of the query first, then deletes,
  visibility and the newest version, then the rest of the query.
\<close>

definition normalizedLookupStack :: "iter_spec list \<Rightarrow> iter_spec list" where
  "normalizedLookupStack query =
     filter (\<lambda>spec. Name spec = IterAsOf) query @
     [\<lparr>Name = IterDeleting, Options = [(DeletingOptionPropagate, ''false'')]\<rparr>,
      \<lparr>Name = IterVisibility, Options = []\<rparr>,
      \<lparr>Name = IterVersioning, Options = [(VersioningOption, ''1'')]\<rparr>] @
     filter (\<lambda>spec. Name spec \<noteq> IterAsOf) query"

lemma newIterator_registered:
  "reg \<in> set iteratorRegistry \<Longrightarrow> newIterator (cap_Name (capability reg)) = Inr reg"
  using registryByName_iff(1) [of "cap_Name (capability reg)" reg] by (simp add: newIterator_def)

lemma newIterator_simps [simp]:
  "newIterator IterDeleting = Inr reg_deleting" "newIterator IterVersioning = Inr reg_versioning"
  "newIterator IterVisibility = Inr reg_visibility" "newIterator IterAsOf = Inr reg_asOf"
  using newIterator_registered [of reg_deleting] newIterator_registered [of reg_versioning]
    newIterator_registered [of reg_visibility] newIterator_registered [of reg_asOf]
  by (simp_all add: iteratorRegistry_def) (simp_all add: registrations)

lemma iterator_names [simp]:
  "IterDeleting \<noteq> IterVersioning" "IterDeleting \<noteq> IterVisibility" "IterVisibility \<noteq> IterVersioning"
  "IterAsOf \<noteq> IterVersioning" "IterAsOf \<noteq> IterVisibility" "IterAsOf \<noteq> IterDeleting"
  "DeletingOptionBehavior \<noteq> DeletingOptionPropagate"
  by (simp_all add: IterDeleting_def IterVersioning_def IterVisibility_def IterAsOf_def
      DeletingOptionBehavior_def DeletingOptionPropagate_def)

abbreviation asof_spec :: "string \<Rightarrow> iter_spec" where
  "asof_spec s \<equiv> \<lparr>Name = IterAsOf, Options = [(AsOfOption, s)]\<rparr>"

definition lookup_stack :: "'s \<Rightarrow> int \<Rightarrow> bytes list \<Rightarrow> 's iter" where
  "lookup_stack leaf t ls =
     Versioning (Visibility (Deleting (AsOf (Leaf leaf) (if t > 0 then word_of_int t else 0) None)
       False DeletingProcess None) True (Some (NewEvaluator (NewAuthorizations ls))) None) 1 None 0 None"

lemma ValidateSpec_asof: "ValidateSpec (asof_spec s) ContextScan = Some None"
proof -
  have "reg_asOf \<in> set iteratorRegistry" by (simp add: iteratorRegistry_def)
  then have "registryByName IterAsOf = Some reg_asOf"
    by (simp add: registryByName_iff reg_asOf_def)
  moreover have "ContextScan \<in> set (Contexts (capability reg_asOf))" "supportsOption reg_asOf AsOfOption = Some True"
    by code_simp+
  ultimately show ?thesis unfolding ValidateSpec_accepts by simp
qed

lemma ValidateStack_lookup:
  "ValidateStack (normalizedLookupStack [asof_spec s]) ContextScan = Some None"
proof -
  have "ValidateStack (normalizedLookupStack []) ContextScan = Some None" by code_simp
  then show ?thesis
    using ValidateSpec_asof [of s] by (simp add: ValidateStack_accepts normalizedLookupStack_def)
qed

lemma BuildStack_lookup:
  assumes "Scope env = ScopeScan" "Authorizations env = Some ls" "ParseInt s = Some t"
  shows "BuildStack leaf (normalizedLookupStack [asof_spec s]) env = Some (Inr (lookup_stack leaf t ls))"
proof -
  have p: "ParseBool ''false'' = Some False" "ParseInt ''1'' = Some 1" "ParseInt '''' = None" by code_simp+
  then have "s \<noteq> ''''" using assms(3) by auto
  then show ?thesis
    unfolding BuildStack_def assms(1) ContextFromScope.simps ValidateStack_lookup option.case
    using assms p(1,2)
    by (simp add: normalizedLookupStack_def init_spec_def deleting_Init_def versioning_Init_def visibility_Init_def
        asof_Init_def of_deleting_def of_versioning_def of_visibility_def of_asof_def NewDeletingIterator_def
        NewVersioningIterator_def lookup_stack_def)
qed

lemma lookup_stack_view:
  fixes leaf :: 's
  assumes "sorted_cells cs" "no_max_tombstone r cs" "ParseInt s = Some t"
    and leaf: "\<And>r. vw leaf r cfs inclusive = filter (selects r cfs inclusive) cs"
  shows "stack_view vw (lookup_stack leaf t ls) r cfs inclusive =
    versions 1 (filter (\<lambda>c. visible (NewAuthorizations ls) (ColumnVisibility (fst c)))
      (filter (selects r cfs inclusive)
        (suppress False (filter (\<lambda>c. t \<le> 0 \<or> sint (Timestamp (fst c)) \<le> t) cs))))"
proof -
  let ?old = "\<lambda>c :: cell. t \<le> 0 \<or> sint (Timestamp (fst c)) \<le> t"
  have "- (2 ^ 63) \<le> t" "t < 2 ^ 63" using ParseInt_bounds [OF assms(3)] by auto
  then have t: "sint (word_of_int t :: int64) = t"
    by (simp add: sint_sbintrunc' signed_take_bit_int_eq_self)
  have keep: "asof_keep (to_asof it (if t > 0 then word_of_int t else 0) None) = ?old" for it :: "'s iter"
    using t by (auto simp: asof_keep_def asof_active_def ts_less_def fun_eq_iff not_less)
  have "sorted_cells (filter ?old cs)" "no_max_tombstone r (filter ?old cs)"
    using assms(1,2) by (simp_all add: no_max_tombstone_def)
  from deleting_view_full_scan [OF this, of False cfs inclusive]
  have "dropWhile (\<lambda>c. BeforeStart r (fst c)) (suppress False (filter ?old (filter (selects (maximize r) cfs inclusive) cs))) =
      filter (selects r cfs inclusive) (suppress False (filter ?old cs))"
    by (simp add: conj_commute)
  then show ?thesis
    by (simp add: lookup_stack_def keep leaf visibility_keep_def [abs_def]
        NewEvaluator_def del: filter_filter)
qed

end
