(* ===== verification/Compaction.thy ===== *)
theory Compaction
  imports Iter_Stack
begin

text \<open>
  The compaction pipeline of \<^verbatim>\<open>internal/compaction/compaction.go\<close>: \<^verbatim>\<open>buildSource\<close> (merge
  the inputs, suppress deletes, stack the configured iterators, or keep the tombstones
  only), the iterators \<^verbatim>\<open>tombstonesOnly\<close> and \<^verbatim>\<open>tombstoneCounter\<close>, and \<^verbatim>\<open>StreamCells\<close>.

  The theorems give the output cells of a compaction, and what a compaction keeps of the
  table a reader sees: a partial compaction changes no scan, a full compaction keeps
  exactly the live cells, and its tombstones-only companion restores the tombstones.
\<close>

section \<open>tombstonesOnly\<close>

record 's tombstones_only =
  to_source :: 's

definition skipLive :: "'s skvi \<Rightarrow> 's tombstones_only \<Rightarrow> 's tombstones_only step" where
  "skipLive src f =
     (case skip_while src (\<lambda>k. \<not> Deleted k) (to_source f) of
        None \<Rightarrow> None
      | Some (s, e) \<Rightarrow> Some (f\<lparr>to_source := s\<rparr>, e))"

definition tombstonesOnly_Seek ::
  "'s skvi \<Rightarrow> range \<Rightarrow> bytes list \<Rightarrow> bool \<Rightarrow> 's tombstones_only \<Rightarrow> 's tombstones_only step" where
  "tombstonesOnly_Seek src r columnFamilies inclusive f =
     (case Seek src r columnFamilies inclusive (to_source f) of
        None \<Rightarrow> None
      | Some (s, Some e) \<Rightarrow> Some (f\<lparr>to_source := s\<rparr>, Some e)
      | Some (s, None) \<Rightarrow> skipLive src (f\<lparr>to_source := s\<rparr>))"

definition tombstonesOnly_Next :: "'s skvi \<Rightarrow> 's tombstones_only \<Rightarrow> 's tombstones_only step" where
  "tombstonesOnly_Next src f =
     (case Next src (to_source f) of
        None \<Rightarrow> None
      | Some (s, Some e) \<Rightarrow> Some (f\<lparr>to_source := s\<rparr>, Some e)
      | Some (s, None) \<Rightarrow> skipLive src (f\<lparr>to_source := s\<rparr>))"

definition tombstonesOnly_skvi :: "'s skvi \<Rightarrow> 's tombstones_only skvi" where
  "tombstonesOnly_skvi src =
     \<lparr>Seek = tombstonesOnly_Seek src, Next = tombstonesOnly_Next src,
      HasTop = (\<lambda>f. HasTop src (to_source f)), GetTopKey = (\<lambda>f. GetTopKey src (to_source f)),
      GetTopValue = (\<lambda>f. GetTopValue src (to_source f))\<rparr>"

context skvi
begin

lemma skipLive_spec:
  assumes "ready (to_source f)"
  shows "\<exists>s. skipLive ops f = Some (f\<lparr>to_source := s\<rparr>, None) \<and> ready s \<and>
    rem s = dropWhile (\<lambda>c. \<not> Deleted (fst c)) (rem (to_source f)) \<and> view s = view (to_source f)"
  using skip_while_spec [OF assms, of "\<lambda>k. \<not> Deleted k"] by (auto simp: skipLive_def)

lemma tombstonesOnly_filtering:
  "filtering ops wf ready rem view (tombstonesOnly_skvi ops) to_source (\<lambda>_. True) (\<lambda>_. True) (\<lambda>_ c. Deleted (fst c))"
proof
  fix f :: "'s tombstones_only" and r cfs inclusive s
  assume s: "ready s" "view s = view (to_source f)"
  {
    assume "Seek ops r cfs inclusive (to_source f) = Some (s, None)"
    with s skipLive_spec [of "f\<lparr>to_source := s\<rparr>"]
    show "\<exists>f'. Seek (tombstonesOnly_skvi ops) r cfs inclusive f = Some (f', None) \<and> True \<and> ready (to_source f') \<and>
        rem (to_source f') = dropWhile (\<lambda>c. \<not> Deleted (fst c)) (rem s) \<and>
        (\<lambda>c. Deleted (fst c)) = (\<lambda>c. Deleted (fst c)) \<and> view (to_source f') = view (to_source f)"
      by (auto simp: tombstonesOnly_skvi_def tombstonesOnly_Seek_def)
  next
    assume "Next ops (to_source f) = Some (s, None)"
    with s skipLive_spec [of "f\<lparr>to_source := s\<rparr>"]
    show "\<exists>f'. Next (tombstonesOnly_skvi ops) f = Some (f', None) \<and> True \<and> ready (to_source f') \<and>
        rem (to_source f') = dropWhile (\<lambda>c. \<not> Deleted (fst c)) (rem s) \<and>
        (\<lambda>c. Deleted (fst c)) = (\<lambda>c. Deleted (fst c)) \<and> view (to_source f') = view (to_source f)"
      by (auto simp: tombstonesOnly_skvi_def tombstonesOnly_Next_def)
  }
qed (simp_all add: tombstonesOnly_skvi_def)

end

interpretation tombstonesOnly_slice: filtering slice_skvi slice_wf slice_ready slice_rem slice_view
  "tombstonesOnly_skvi slice_skvi" to_source "\<lambda>_. True" "\<lambda>_. True" "\<lambda>_ c. Deleted (fst c)"
  by (rule slice.tombstonesOnly_filtering)

section \<open>tombstoneCounter\<close>

record 's tombstone_counter =
  tc_source :: 's
  tc_n :: nat

definition tombstoneCounter_Seek ::
  "'s skvi \<Rightarrow> range \<Rightarrow> bytes list \<Rightarrow> bool \<Rightarrow> 's tombstone_counter \<Rightarrow> 's tombstone_counter step" where
  "tombstoneCounter_Seek src r columnFamilies inclusive c =
     map_option (\<lambda>(s, e). (c\<lparr>tc_source := s\<rparr>, e)) (Seek src r columnFamilies inclusive (tc_source c))"

definition tombstoneCounter_Next :: "'s skvi \<Rightarrow> 's tombstone_counter \<Rightarrow> 's tombstone_counter step" where
  "tombstoneCounter_Next src c =
     (let n = (if HasTop src (tc_source c) \<and>
                  (case GetTopKey src (tc_source c) of None \<Rightarrow> False | Some k \<Rightarrow> Deleted k)
               then tc_n c + 1 else tc_n c) in
      map_option (\<lambda>(s, e). (c\<lparr>tc_source := s, tc_n := n\<rparr>, e)) (Next src (tc_source c)))"

definition tombstoneCounter_skvi :: "'s skvi \<Rightarrow> 's tombstone_counter skvi" where
  "tombstoneCounter_skvi src =
     \<lparr>Seek = tombstoneCounter_Seek src, Next = tombstoneCounter_Next src,
      HasTop = (\<lambda>c. HasTop src (tc_source c)), GetTopKey = (\<lambda>c. GetTopKey src (tc_source c)),
      GetTopValue = (\<lambda>c. GetTopValue src (tc_source c))\<rparr>"

text \<open>
  The write loop of \<^verbatim>\<open>drain\<close>: every cell is appended to the output and passed; the
  cancellation check and the writer's own errors are left out. The result is the cells
  written, the error that stopped the loop, and the counter.
\<close>

partial_function (option) write_loop ::
  "'s skvi \<Rightarrow> cell list \<Rightarrow> 's tombstone_counter \<Rightarrow> (cell list \<times> go_err option \<times> nat) option" where
  "write_loop src out c =
     (if \<not> HasTop src (tc_source c) then Some (out, None, tc_n c)
      else case GetTopKey src (tc_source c) of
        None \<Rightarrow> None
      | Some k \<Rightarrow>
          (case tombstoneCounter_Next src c of
             None \<Rightarrow> None
           | Some (c', e) \<Rightarrow>
               (case e of
                  None \<Rightarrow> write_loop src (out @ [(k, GetTopValue src (tc_source c))]) c'
                | Some x \<Rightarrow> Some (out @ [(k, GetTopValue src (tc_source c))],
                                  Some (Wrap ''compaction: advance after cell'' x), tc_n c'))))"

context skvi
begin

lemma write_loop_spec:
  "ready (tc_source c) \<Longrightarrow> write_loop ops out c =
     Some (out @ rem (tc_source c), None, tc_n c + length (filter (\<lambda>d. Deleted (fst d)) (rem (tc_source c))))"
proof (induction "rem (tc_source c)" arbitrary: c out)
  case Nil
  then show ?case using top_law [of "tc_source c"] by (auto simp: write_loop.simps)
next
  case (Cons d ds)
  note rem = Cons.hyps(2) [symmetric]
  obtain s where s: "Next ops (tc_source c) = Some (s, None)" "ready s" "rem s = ds"
    using next_law [OF Cons.prems rem] by blast
  let ?c = "c\<lparr>tc_source := s, tc_n := (if Deleted (fst d) then tc_n c + 1 else tc_n c)\<rparr>"
  have top: "HasTop ops (tc_source c)" "GetTopKey ops (tc_source c) = Some (fst d)" "GetTopValue ops (tc_source c) = snd d"
    using top_law key_law value_law Cons.prems rem by auto
  have "tombstoneCounter_Next ops c = Some (?c, None)"
    using s top by (simp add: tombstoneCounter_Next_def)
  with Cons.hyps(1) [of ?c "out @ [d]"] s top rem show ?case
    by (simp add: write_loop.simps [of ops out c])
qed

end

section \<open>buildSource\<close>

text \<open>
  The part of \<^verbatim>\<open>Spec\<close> that decides the cells. The opened inputs, newest first, are the
  leaves; \<open>init\<close> is the leaves' own \<^verbatim>\<open>Init\<close>.
\<close>

record spec =
  sp_Stack :: "iter_spec list"
  sp_Scope :: IteratorScope
  sp_FullMajorCompaction :: bool
  sp_TombstonesOnly :: bool

type_synonym 's base = "'s merging deleting"

abbreviation base_ops :: "'s skvi \<Rightarrow> 's base skvi" where
  "base_ops L \<equiv> deleting_skvi (merging_skvi L)"

datatype 's top_iter = Only "'s base tombstones_only" | Stacked "'s base iter"

definition spec_env :: "spec \<Rightarrow> environment" where
  "spec_env sp = \<lparr>Scope = sp_Scope sp, FullMajorCompaction = sp_FullMajorCompaction sp, Authorizations = None\<rparr>"

definition spec_del_options :: "spec \<Rightarrow> options" where
  "spec_del_options sp =
     (if sp_TombstonesOnly sp then Map.empty(DeletingOptionPropagate \<mapsto> ''true'') else Map.empty)"

definition buildStackTop ::
  "(options \<Rightarrow> environment \<Rightarrow> 's \<Rightarrow> 's res) \<Rightarrow> spec \<Rightarrow> 's list \<Rightarrow> 's top_iter res option" where
  "buildStackTop init sp leaves =
     (case merging_Init init (None :: unit option) Map.empty (spec_env sp) (NewMergingIterator leaves) of
        Inl e \<Rightarrow> Some (Inl (Wrap ''compaction: merge init'' e))
      | Inr merge \<Rightarrow>
          if sp_TombstonesOnly sp \<and> length (sp_Stack sp) > 0
          then Some (Inl (Errorf ''compaction: TombstonesOnly takes no iterator stack''))
          else (case deleting_Init (Some merge) (spec_del_options sp) (spec_env sp) of
              Inl e \<Rightarrow> Some (Inl (Wrap ''compaction: deleting iter init'' e))
            | Inr delIter \<Rightarrow>
                if sp_TombstonesOnly sp then Some (Inr (Only \<lparr>to_source = delIter\<rparr>))
                else (case BuildStack delIter (sp_Stack sp) (spec_env sp) of
                    None \<Rightarrow> None
                  | Some (Inl e) \<Rightarrow> Some (Inl (Wrap ''compaction: build stack'' e))
                  | Some (Inr it) \<Rightarrow> Some (Inr (Stacked it)))))"

text \<open>The final seek over the whole table, on a stack of at most \<open>n\<close> iterators.\<close>

definition seekTop :: "'s skvi \<Rightarrow> nat \<Rightarrow> 's top_iter \<Rightarrow> 's top_iter step" where
  "seekTop L n top' =
     (case top' of
        Only f \<Rightarrow> map_option (\<lambda>(f', e). (Only f', e))
          (Seek (tombstonesOnly_skvi (base_ops L)) InfiniteRange [] False f)
      | Stacked it \<Rightarrow> map_option (\<lambda>(it', e). (Stacked it', e))
          (Seek (iter_ops (base_ops L) n) InfiniteRange [] False it))"

definition buildSource ::
  "'s skvi \<Rightarrow> (options \<Rightarrow> environment \<Rightarrow> 's \<Rightarrow> 's res) \<Rightarrow> spec \<Rightarrow> 's list \<Rightarrow> 's top_iter res option" where
  "buildSource L init sp leaves =
     (case buildStackTop init sp leaves of
        None \<Rightarrow> None
      | Some (Inl e) \<Rightarrow> Some (Inl e)
      | Some (Inr t) \<Rightarrow>
          (case seekTop L (length (sp_Stack sp)) t of
             None \<Rightarrow> None
           | Some (t', Some e) \<Rightarrow> Some (Inl (Wrap ''compaction: seek'' e))
           | Some (t', None) \<Rightarrow> Some (Inr t')))"

text \<open>
  \<^verbatim>\<open>StreamCells\<close> with an \<^verbatim>\<open>emit\<close> that collects the cells: the cells and the error of the
  drain, or the error of building the source.
\<close>

definition advance_error :: "cell list \<times> go_err option \<Rightarrow> (cell list \<times> go_err option) res" where
  "advance_error r = Inr (fst r, map_option (Wrap ''compaction: advance'') (snd r))"

definition StreamCells ::
  "'s skvi \<Rightarrow> (options \<Rightarrow> environment \<Rightarrow> 's \<Rightarrow> 's res) \<Rightarrow> spec \<Rightarrow> 's list \<Rightarrow>
   (cell list \<times> go_err option) res option" where
  "StreamCells L init sp leaves =
     (case buildSource L init sp leaves of
        None \<Rightarrow> None
      | Some (Inl e) \<Rightarrow> Some (Inl e)
      | Some (Inr (Only f)) \<Rightarrow>
          map_option advance_error (drain_loop (tombstonesOnly_skvi (base_ops L)) [] f)
      | Some (Inr (Stacked it)) \<Rightarrow>
          map_option advance_error (drain_loop (iter_ops (base_ops L) (length (sp_Stack sp))) [] it))"

lemma maximize_InfiniteRange [simp]: "maximize InfiniteRange = InfiniteRange"
  by (simp add: maximize_def InfiniteRange_def)

lemma BeforeStart_InfiniteRange [simp]: "\<not> BeforeStart InfiniteRange k"
  by (simp add: BeforeStart_def InfiniteRange_def)

lemma merging_init_sources_ok: "\<forall>s\<in>set ss. init s = Inr s \<Longrightarrow> merging_init_sources init ss = Inr ss"
  by (induction ss) auto

text \<open>The deletes a compaction propagates: all but those of a full major compaction.\<close>

definition propagates :: "spec \<Rightarrow> bool" where
  "propagates sp \<longleftrightarrow> sp_TombstonesOnly sp \<or> \<not> (sp_Scope sp = ScopeMajc \<and> sp_FullMajorCompaction sp)"

text \<open>The merge of the inputs under the delete iterator, as \<^verbatim>\<open>buildSource\<close> sets it up.\<close>

definition delIter :: "spec \<Rightarrow> 's list \<Rightarrow> 's base" where
  "delIter sp leaves =
     \<lparr>d_source = NewMergingIterator leaves, d_propagateDeletes = propagates sp,
      d_behavior = DeletingProcess, d_err = None\<rparr>"

lemma deleting_Init_eq:
  "deleting_Init (Some (NewMergingIterator leaves)) (spec_del_options sp) (spec_env sp) = Inr (delIter sp leaves)"
  by (auto simp: deleting_Init_def spec_del_options_def spec_env_def propagates_def ParseBool_def delIter_def
      DeletingOptionPropagate_def DeletingOptionBehavior_def NewDeletingIterator_def)

text \<open>The leaves' \<^verbatim>\<open>Init\<close> accepts them.\<close>

definition inits :: "(options \<Rightarrow> environment \<Rightarrow> 's \<Rightarrow> 's res) \<Rightarrow> spec \<Rightarrow> 's list \<Rightarrow> bool" where
  "inits init sp leaves \<longleftrightarrow> (\<forall>s\<in>set leaves. init Map.empty (spec_env sp) s = Inr s)"

lemma merging_Init_eq:
  "inits init sp leaves \<Longrightarrow>
     merging_Init init (None :: unit option) Map.empty (spec_env sp) (NewMergingIterator leaves) =
       Inr (NewMergingIterator leaves)"
  using merging_init_sources_ok [of leaves "init Map.empty (spec_env sp)"]
  by (simp add: merging_Init_def NewMergingIterator_def inits_def)

context skvi
begin

abbreviation inputs :: "'s list \<Rightarrow> cell list" where
  "inputs leaves \<equiv> merge_all (map (\<lambda>s. view s InfiniteRange [] False) leaves)"

lemma base_lawful:
  "skvi (base_ops ops) (deleting_wf (merging_wf wf)) (deleting_ready (merging_ready ready rem) (merging_rem rem))
     (deleting_rem (merging_rem rem)) (deleting_view (merging_view view))"
  by (rule skvi.deleting_lawful [OF merging_lawful])

lemma delIter_wf: "\<forall>s\<in>set leaves. wf s \<Longrightarrow> deleting_wf (merging_wf wf) (delIter sp leaves)"
  by (simp add: deleting_wf_def merging_wf_def NewMergingIterator_def delIter_def)

lemma delIter_view:
  "deleting_view (merging_view view) (delIter sp leaves) InfiniteRange [] False =
     suppress (propagates sp) (inputs leaves)"
  by (simp add: deleting_view_def merging_view_def NewMergingIterator_def delIter_def)

lemma StreamCells_tombstones:
  assumes "inits init sp leaves" "\<forall>s\<in>set leaves. wf s" "sp_TombstonesOnly sp" "sp_Stack sp = []"
  shows "StreamCells ops init sp leaves =
    Some (Inr (filter (\<lambda>c. Deleted (fst c)) (suppress True (inputs leaves)), None))"
proof -
  let ?d = "delIter sp leaves"
  note only = skvi.tombstonesOnly_filtering [OF base_lawful]
  have "filtering.f_wf (deleting_wf (merging_wf wf)) to_source (\<lambda>_. True) \<lparr>to_source = ?d\<rparr>"
    using delIter_wf [OF assms(2)] filtering.f_wf_def [OF only] by simp
  from skvi.scan_spec [OF filtering.lawful [OF only] this, of InfiniteRange "[]" False]
  have "\<exists>f. Seek (tombstonesOnly_skvi (base_ops ops)) InfiniteRange [] False \<lparr>to_source = ?d\<rparr> = Some (f, None) \<and>
      drain_loop (tombstonesOnly_skvi (base_ops ops)) [] f =
        Some (filter (\<lambda>c. Deleted (fst c)) (suppress True (inputs leaves)), None)"
    using assms(3) by (simp add: filtering.f_view_def [OF only] propagates_def delIter_view)
  then show ?thesis
    using assms(3,4)
    by (auto simp: StreamCells_def buildSource_def buildStackTop_def seekTop_def deleting_Init_eq
        advance_error_def merging_Init_eq [OF assms(1)])
qed

lemma StreamCells_stacked:
  assumes "inits init sp leaves" "\<forall>s\<in>set leaves. wf s"
    and "\<not> sp_TombstonesOnly sp" "list_all processing (sp_Stack sp)"
    and "BuildStack (delIter sp leaves) (sp_Stack sp) (spec_env sp) = Some (Inr it)"
  shows "StreamCells ops init sp leaves =
    Some (Inr (stack_view (deleting_view (merging_view view)) it InfiniteRange [] False, None))"
proof -
  from BuildStack_ok [OF assms(5), of "deleting_wf (merging_wf wf)"] delIter_wf [OF assms(2)] assms(4)
  have "stack_ok (deleting_wf (merging_wf wf)) it" "depth it \<le> length (sp_Stack sp)" by auto
  from skvi.stack_scan [OF base_lawful this, of InfiniteRange "[]" False] show ?thesis
    using assms(3,5)
    by (auto simp: StreamCells_def buildSource_def buildStackTop_def seekTop_def deleting_Init_eq
        advance_error_def merging_Init_eq [OF assms(1)])
qed

lemma StreamCells_identity:
  assumes "inits init sp leaves" "\<forall>s\<in>set leaves. wf s" "\<not> sp_TombstonesOnly sp" "sp_Stack sp = []"
  shows "StreamCells ops init sp leaves = Some (Inr (suppress (propagates sp) (inputs leaves), None))"
proof -
  have "BuildStack (delIter sp leaves) (sp_Stack sp) (spec_env sp) = Some (Inr (Leaf (delIter sp leaves)))"
    using assms(4) by simp
  from StreamCells_stacked [OF assms(1-3) _ this] assms(4) delIter_view show ?thesis by simp
qed

end

section \<open>compactOnce\<close>

text \<open>
  \<^verbatim>\<open>compactOnce\<close>: build the source and \<^verbatim>\<open>drain\<close> it through the tombstone counter into the
  writer. The result is the cells written and the number of tombstones among them; the
  writer's own failures are answered by the caller's storage.
\<close>

definition drained :: "(cell list \<times> go_err option \<times> nat) option \<Rightarrow> (cell list \<times> nat) res option" where
  "drained r = map_option (\<lambda>(cs, e, n). case e of Some e \<Rightarrow> Inl e | None \<Rightarrow> Inr (cs, n)) r"

definition compactOnce ::
  "'s skvi \<Rightarrow> (options \<Rightarrow> environment \<Rightarrow> 's \<Rightarrow> 's res) \<Rightarrow> spec \<Rightarrow> 's list \<Rightarrow> (cell list \<times> nat) res option" where
  "compactOnce L init sp leaves =
     (case buildSource L init sp leaves of
        None \<Rightarrow> None
      | Some (Inl e) \<Rightarrow> Some (Inl e)
      | Some (Inr (Only f)) \<Rightarrow>
          drained (write_loop (tombstonesOnly_skvi (base_ops L)) [] \<lparr>tc_source = f, tc_n = 0\<rparr>)
      | Some (Inr (Stacked it)) \<Rightarrow>
          drained (write_loop (iter_ops (base_ops L) (length (sp_Stack sp))) [] \<lparr>tc_source = it, tc_n = 0\<rparr>))"

text \<open>The cells a compaction without a stack writes.\<close>

definition compacted :: "spec \<Rightarrow> cell list list \<Rightarrow> cell list" where
  "compacted sp css =
     (if sp_TombstonesOnly sp then filter (\<lambda>c. Deleted (fst c)) (suppress True (merge_all css))
      else suppress (propagates sp) (merge_all css))"

context skvi
begin

lemma write_scan:
  assumes "wf s"
  shows "\<exists>s'. Seek ops r cfs inclusive s = Some (s', None) \<and>
    write_loop ops [] \<lparr>tc_source = s', tc_n = 0\<rparr> = Some (view s r cfs inclusive, None,
      length (filter (\<lambda>c. Deleted (fst c)) (view s r cfs inclusive)))"
proof -
  obtain s' where "Seek ops r cfs inclusive s = Some (s', None)" "ready s'" "rem s' = view s r cfs inclusive"
    using seek_law [OF assms] by blast
  with write_loop_spec [of "\<lparr>tc_source = s', tc_n = 0\<rparr>" "[]"] show ?thesis by simp
qed

lemma compactOnce_tombstones:
  assumes "inits init sp leaves" "\<forall>s\<in>set leaves. wf s" "sp_TombstonesOnly sp" "sp_Stack sp = []"
  defines "out \<equiv> filter (\<lambda>c. Deleted (fst c)) (suppress True (inputs leaves))"
  shows "compactOnce ops init sp leaves = Some (Inr (out, length (filter (\<lambda>c. Deleted (fst c)) out)))"
proof -
  let ?d = "delIter sp leaves"
  note only = skvi.tombstonesOnly_filtering [OF base_lawful]
  have "filtering.f_wf (deleting_wf (merging_wf wf)) to_source (\<lambda>_. True) \<lparr>to_source = ?d\<rparr>"
    using delIter_wf [OF assms(2)] filtering.f_wf_def [OF only] by simp
  from skvi.write_scan [OF filtering.lawful [OF only] this, of InfiniteRange "[]" False]
  have "\<exists>f. Seek (tombstonesOnly_skvi (base_ops ops)) InfiniteRange [] False \<lparr>to_source = ?d\<rparr> = Some (f, None) \<and>
      write_loop (tombstonesOnly_skvi (base_ops ops)) [] \<lparr>tc_source = f, tc_n = 0\<rparr> =
        Some (out, None, length (filter (\<lambda>c. Deleted (fst c)) out))"
    using assms(3) by (simp add: filtering.f_view_def [OF only] propagates_def delIter_view out_def)
  then show ?thesis
    using assms(3,4)
    by (auto simp: compactOnce_def buildSource_def buildStackTop_def seekTop_def deleting_Init_eq
        drained_def merging_Init_eq [OF assms(1)])
qed

lemma compactOnce_identity:
  assumes "inits init sp leaves" "\<forall>s\<in>set leaves. wf s" "\<not> sp_TombstonesOnly sp" "sp_Stack sp = []"
  defines "out \<equiv> suppress (propagates sp) (inputs leaves)"
  shows "compactOnce ops init sp leaves = Some (Inr (out, length (filter (\<lambda>c. Deleted (fst c)) out)))"
proof -
  have wf: "iter_wf (deleting_wf (merging_wf wf)) 0 (Leaf (delIter sp leaves))"
    using delIter_wf [OF assms(2)] skvi.iter_wf_stack_ok [OF base_lawful, of "Leaf (delIter sp leaves)" 0] by simp
  have "iter_view (deleting_view (merging_view view)) 0 (Leaf (delIter sp leaves)) InfiniteRange [] False = out"
    using skvi.iter_view_stack_view [OF base_lawful, of "Leaf (delIter sp leaves)" 0 InfiniteRange "[]" False]
    by (simp add: delIter_view out_def)
  with skvi.write_scan [OF iter_lawful [OF base_lawful] wf, of InfiniteRange "[]" False] show ?thesis
    using assms(3,4)
    by (auto simp: compactOnce_def buildSource_def buildStackTop_def seekTop_def deleting_Init_eq
        drained_def merging_Init_eq [OF assms(1)])
qed

end

section \<open>Tombstones beside the live cells\<close>

lemma suppress_run_split:
  assumes "sorted_cells cs"
  shows "merge2 (suppress_run False cs) (filter (\<lambda>c. Deleted (fst c)) (suppress_run True cs)) = suppress_run True cs"
  using assms
proof (induction cs)
  case (Cons c cs)
  have "\<forall>d\<in>set (filter (\<lambda>c. Deleted (fst c)) (suppress_run True cs)). fst c \<le> fst d"
    using run_op_subset [OF run_op_suppress, of True cs] Cons.prems
    unfolding sorted_cells_Cons set_filter by blast
  with Cons show ?case
    by (simp add: merge2_Cons_all_le)
qed simp

lemma suppress_split:
  assumes "sorted_cells cs"
  shows "merge2 (suppress False cs) (filter (\<lambda>c. Deleted (fst c)) (suppress True cs)) = suppress True cs"
proof (rule sorted_coord_eqI)
  fix x
  have "at_coord x (filter (\<lambda>c. Deleted (fst c)) (suppress True cs)) =
      filter (\<lambda>c. Deleted (fst c)) (suppress_run True (at_coord x cs))"
    unfolding at_coord_suppress [OF assms, symmetric] filter_filter by (rule filter_cong) auto
  then show "at_coord x (merge2 (suppress False cs) (filter (\<lambda>c. Deleted (fst c)) (suppress True cs))) =
      at_coord x (suppress True cs)"
    using suppress_run_split [of "at_coord x cs"] assms
    by (simp add: filter_merge2 at_coord_suppress del: filter_filter)
qed (use assms in simp_all)

lemma suppress_no_tombstone: "\<forall>c\<in>set (suppress False cs). \<not> Deleted (fst c)"
proof -
  have run: "\<forall>c\<in>set (suppress_run False ds). \<not> Deleted (fst c)" for ds
    by (induction ds) auto
  have "\<forall>c\<in>set (per_coord f cs). \<not> Deleted (fst c)" if "f = suppress_run False" for f
    using that
  proof (induction f cs rule: per_coord.induct)
    case (2 f c cs)
    then show ?case
      using run [of "c # takeWhile (same_coord c) cs"] unfolding per_coord.simps set_append by blast
  qed simp
  then show ?thesis by (simp add: suppress_def)
qed

abbreviation slice_leaves :: "cell list list \<Rightarrow> slice_source list" where
  "slice_leaves css \<equiv> map NewSliceSource css"

lemma slice_leaves_ok:
  assumes "\<forall>cs\<in>set css. sorted_cells cs"
  shows "inits (slice_Init None) sp (slice_leaves css)" "\<forall>s\<in>set (slice_leaves css). slice_wf s"
    "slice.inputs (slice_leaves css) = merge_all css"
  using assms
  by (auto simp: inits_def slice_Init_def slice_wf_def NewSliceSource_def slice_view_def comp_def
      intro!: arg_cong [where f = merge_all] map_idI)

lemma compactOnce_slices:
  assumes "\<forall>cs\<in>set css. sorted_cells cs" "sp_Stack sp = []"
  shows "compactOnce slice_skvi (slice_Init (None :: unit option)) sp (slice_leaves css) =
    Some (Inr (compacted sp css, length (filter (\<lambda>c. Deleted (fst c)) (compacted sp css))))"
  using slice.compactOnce_tombstones [OF slice_leaves_ok(1,2) [OF assms(1)], of sp]
    slice.compactOnce_identity [OF slice_leaves_ok(1,2) [OF assms(1)], of sp] slice_leaves_ok(3) [OF assms(1)] assms(2)
  by (cases "sp_TombstonesOnly sp") (simp_all add: compacted_def)

lemma sorted_compacted: "\<forall>cs\<in>set css. sorted_cells cs \<Longrightarrow> sorted_cells (compacted sp css)"
  by (simp add: compacted_def)

section \<open>Properties\<close>

text \<open>
  C16: the cells of a compaction without an iterator stack. The stream is the merge of the
  inputs with every cell removed that a delete of its coordinate covers; the covering
  tombstone of a coordinate stays, except in a full major compaction, which writes no
  tombstone at all. The stream is sorted and ends without an error.
\<close>

theorem compaction_output:
  assumes "\<forall>cs\<in>set css. sorted_cells cs" "\<not> sp_TombstonesOnly sp" "sp_Stack sp = []"
  shows "StreamCells slice_skvi (slice_Init (None :: unit option)) sp (slice_leaves css) =
      Some (Inr (suppress (propagates sp) (merge_all css), None)) \<and>
    sorted_cells (suppress (propagates sp) (merge_all css)) \<and>
    (\<not> (\<exists>c\<in>set (suppress (propagates sp) (merge_all css)). Deleted (fst c)) \<or>
     sp_Scope sp \<noteq> ScopeMajc \<or> \<not> sp_FullMajorCompaction sp)"
proof -
  have "propagates sp \<or> sp_Scope sp = ScopeMajc \<and> sp_FullMajorCompaction sp"
    by (auto simp: propagates_def)
  then show ?thesis
    using slice.StreamCells_identity [OF slice_leaves_ok(1,2) [OF assms(1)] assms(2,3)]
      slice_leaves_ok(3) [OF assms(1)] assms(1,2) suppress_no_tombstone [of "merge_all css"]
    by (auto simp: propagates_def)
qed

theorem compaction_output_witness:
  "StreamCells slice_skvi (slice_Init (None :: unit option))
     \<lparr>sp_Stack = [], sp_Scope = ScopeMajc, sp_FullMajorCompaction = True, sp_TombstonesOnly = False\<rparr>
     (slice_leaves [[(example_key 9 True, [])], [(example_key 7 False, [1])]]) = Some (Inr ([], None))"
proof -
  let ?sp = "\<lparr>sp_Stack = [], sp_Scope = ScopeMajc, sp_FullMajorCompaction = True, sp_TombstonesOnly = False\<rparr>"
  let ?css = "[[(example_key 9 True, [])], [(example_key 7 False, [1])]]"
  have "\<forall>cs\<in>set ?css. sorted_cells cs" by simp
  moreover have "suppress (propagates ?sp) (merge_all ?css) = []" by code_simp
  ultimately show ?thesis using compaction_output [of ?css ?sp] by simp
qed

text \<open>
  What a full major compaction drops, its tombstones-only companion keeps. For the
  same inputs the companion's stream holds tombstones only, and merged with the live cells
  of the full compaction it is exactly the stream of a compaction that keeps tombstones:
  together the two files hide every cell the inputs hid.
\<close>

theorem tombstones_only_completes_full:
  assumes "\<forall>cs\<in>set css. sorted_cells cs" "sp_Stack sp = []"
  shows "\<exists>live dead. StreamCells slice_skvi (slice_Init (None :: unit option))
       (sp\<lparr>sp_Scope := ScopeMajc, sp_FullMajorCompaction := True, sp_TombstonesOnly := False\<rparr>) (slice_leaves css) =
       Some (Inr (live, None)) \<and>
     StreamCells slice_skvi (slice_Init (None :: unit option)) (sp\<lparr>sp_TombstonesOnly := True\<rparr>) (slice_leaves css) =
       Some (Inr (dead, None)) \<and>
     (\<forall>c\<in>set live. \<not> Deleted (fst c)) \<and> (\<forall>c\<in>set dead. Deleted (fst c)) \<and>
     StreamCells slice_skvi (slice_Init (None :: unit option))
       (sp\<lparr>sp_FullMajorCompaction := False, sp_TombstonesOnly := False\<rparr>) (slice_leaves css) =
       Some (Inr (merge_all [live, dead], None))"
proof -
  let ?M = "merge_all css"
  note ok = slice_leaves_ok [OF assms(1)]
  have M: "sorted_cells ?M" using assms(1) by simp
  note full = slice.StreamCells_identity [OF ok(1,2),
      of "sp\<lparr>sp_Scope := ScopeMajc, sp_FullMajorCompaction := True, sp_TombstonesOnly := False\<rparr>"]
  note dead = slice.StreamCells_tombstones [OF ok(1,2), of "sp\<lparr>sp_TombstonesOnly := True\<rparr>"]
  note part = slice.StreamCells_identity [OF ok(1,2), of "sp\<lparr>sp_FullMajorCompaction := False, sp_TombstonesOnly := False\<rparr>"]
  show ?thesis
    using full dead part assms(2) suppress_split [OF M] suppress_no_tombstone [of ?M]
    unfolding ok(3)
    by (intro exI [of _ "suppress False ?M"] exI [of _ "filter (\<lambda>c. Deleted (fst c)) (suppress True ?M)"])
      (simp add: propagates_def)
qed

text \<open>
  The writing loop of a compaction writes exactly the cells its source has left, and
  the count it reports is the number of tombstones among them, which is what decides
  whether the output is recorded as free of tombstones.
\<close>

theorem write_loop_counts:
  assumes "sorted_cells cs"
  shows "\<exists>d. deleting_Seek slice_skvi InfiniteRange [] False
       ((NewDeletingIterator (NewSliceSource cs))\<lparr>d_propagateDeletes := p\<rparr>) = Some (d, None) \<and>
     write_loop (deleting_skvi slice_skvi) [] \<lparr>tc_source = d, tc_n = 0\<rparr> =
       Some (suppress p cs, None, length (filter (\<lambda>c. Deleted (fst c)) (suppress p cs)))"
proof -
  let ?d = "(NewDeletingIterator (NewSliceSource cs))\<lparr>d_propagateDeletes := p\<rparr>"
  have wf: "deleting_wf slice_wf ?d"
    using assms by (simp add: deleting_wf_def NewDeletingIterator_def NewSliceSource_def slice_wf_def)
  obtain d where d: "deleting_Seek slice_skvi InfiniteRange [] False ?d = Some (d, None)"
      "deleting_ready slice_ready slice_rem d"
      "deleting_rem slice_rem d = deleting_view slice_view ?d InfiniteRange [] False"
    using deleting_slice.seek_law [OF wf, of InfiniteRange "[]" False] by auto
  have "deleting_view slice_view ?d InfiniteRange [] False = suppress p cs"
    by (simp add: deleting_view_def slice_view_def NewDeletingIterator_def NewSliceSource_def)
  then show ?thesis
    using d deleting_slice.write_loop_spec [of "\<lparr>tc_source = d, tc_n = 0\<rparr>" "[]"] by simp
qed

end
