(* ===== verification/Skip_List.thy ===== *)
theory Skip_List
  imports Cell_Spec
begin

text \<open>
  The skip lists of \<^verbatim>\<open>internal/memtable/skiplist.go\<close> and \<^verbatim>\<open>internal/tablet/memtable.go\<close>
  (the second is a copy of the first with a different count of levels). Nodes live in an
  explicit store: a node's address is its position in \<open>nodes\<close>, the head is address 0, and
  \<open>nnext\<close> is the slice of its successors, one pointer for each level. The random level
  draws are an arbitrary sequence of coin tosses.

  The invariant \<open>threads\<close> says which list of addresses every level threads; with it the
  descent returns, an insert is the insertion of the cell before the first cell that is
  not smaller, and no cell is lost, at every level and for all draws.
\<close>

section \<open>Store\<close>

record node =
  nkey :: key
  nvalue :: bytes
  nnext :: "nat option list"

definition zero_node_key :: key where
  "zero_node_key = \<lparr>Row = [], ColumnFamily = [], ColumnQualifier = [], ColumnVisibility = [],
                    Timestamp = 0, Deleted = False\<rparr>"

definition maxLevel :: nat where
  "maxLevel = 24"

text \<open>\<open>x.next[i]\<close>; \<open>None\<close> when the slice has no element \<open>i\<close> (Go panics).\<close>

definition next_ptr :: "node list \<Rightarrow> nat \<Rightarrow> nat \<Rightarrow> nat option option" where
  "next_ptr ns x i =
     (if x < length ns \<and> i < length (nnext (ns ! x)) then Some (nnext (ns ! x) ! i) else None)"

text \<open>\<^verbatim>\<open>for x.next[i] != nil && x.next[i].key.Compare(&key) < 0 { x = x.next[i] }\<close>\<close>

partial_function (option) walk :: "node list \<Rightarrow> key \<Rightarrow> nat \<Rightarrow> nat \<Rightarrow> nat option" where
  "walk ns k i x =
     (case next_ptr ns x i of
        None \<Rightarrow> None
      | Some p \<Rightarrow>
          (case p of
             None \<Rightarrow> Some x
           | Some y \<Rightarrow> if Compare (nkey (ns ! y)) k < 0 then walk ns k i y else Some x))"

text \<open>
  The loop over the levels from \<open>n - 1\<close> down to 0. The result is the slice \<^verbatim>\<open>update\<close>: the
  node the walk of each level stopped at, level 0 first.
\<close>

fun descend :: "node list \<Rightarrow> key \<Rightarrow> nat \<Rightarrow> nat \<Rightarrow> nat list option" where
  "descend ns k 0 x = Some []"
| "descend ns k (Suc i) x =
     (case walk ns k i x of
        None \<Rightarrow> None
      | Some y \<Rightarrow> map_option (\<lambda>us. us @ [y]) (descend ns k i y))"

text \<open>
  The new node \<open>n\<close> enters level \<open>i\<close>: \<^verbatim>\<open>n.next[i] = update[i].next[i]; update[i].next[i] = n\<close>.
\<close>

definition set_next :: "nat \<Rightarrow> nat \<Rightarrow> nat option \<Rightarrow> node list \<Rightarrow> node list" where
  "set_next x i p ns = ns[x := (ns ! x)\<lparr>nnext := (nnext (ns ! x))[i := p]\<rparr>]"

definition link_level :: "nat \<Rightarrow> nat list \<Rightarrow> nat \<Rightarrow> node list \<Rightarrow> node list" where
  "link_level n update i ns =
     set_next (update ! i) i (Some n) (set_next n i (nnext (ns ! (update ! i)) ! i) ns)"

definition splice_node :: "node list \<Rightarrow> nat list \<Rightarrow> key \<Rightarrow> bytes \<Rightarrow> nat \<Rightarrow> node list" where
  "splice_node ns update k v h =
     foldl (\<lambda>ns' i. link_level (length ns) update i ns')
       (ns @ [\<lparr>nkey = k, nvalue = v, nnext = replicate h None\<rparr>]) [0..<h]"

section \<open>The skip list of package memtable\<close>

record skiplist =
  nodes :: "node list"
  level :: nat
  len :: nat
  rng :: "nat \<Rightarrow> bool"
  draws :: nat

text \<open>\<open>rng j\<close> says whether draw \<open>j\<close> of the generator is below \<^verbatim>\<open>levelProb\<close>.\<close>

definition newSkiplist :: "(nat \<Rightarrow> bool) \<Rightarrow> skiplist" where
  "newSkiplist seed =
     \<lparr>nodes = [\<lparr>nkey = zero_node_key, nvalue = [], nnext = replicate maxLevel None\<rparr>],
      level = 0, len = 0, rng = seed, draws = 0\<rparr>"

fun random_loop :: "(nat \<Rightarrow> bool) \<Rightarrow> nat \<Rightarrow> nat \<Rightarrow> nat \<Rightarrow> nat \<times> nat" where
  "random_loop coin 0 lvl d = (lvl, d)"
| "random_loop coin (Suc room) lvl d =
     (if coin d then random_loop coin room (lvl + 1) (d + 1) else (lvl, d + 1))"

definition randomLevel :: "skiplist \<Rightarrow> nat \<times> nat" where
  "randomLevel s = random_loop (rng s) (maxLevel - 1) 0 (draws s)"

definition skiplist_insert :: "key \<Rightarrow> bytes \<Rightarrow> skiplist \<Rightarrow> skiplist option" where
  "skiplist_insert k v s =
     (case descend (nodes s) k (level s + 1) 0 of
        None \<Rightarrow> None
      | Some update \<Rightarrow>
          (let (lvl, d) = randomLevel s;
               update' = (if lvl > level s then update @ replicate (lvl - level s) 0 else update);
               level' = (if lvl > level s then lvl else level s) in
           Some (s\<lparr>nodes := splice_node (nodes s) update' k v (lvl + 1),
                   level := level', len := len s + 1, draws := d\<rparr>)))"

definition seekFirst :: "key \<Rightarrow> skiplist \<Rightarrow> nat option option" where
  "seekFirst target s =
     (case descend (nodes s) target (level s + 1) 0 of
        None \<Rightarrow> None
      | Some update \<Rightarrow> next_ptr (nodes s) (update ! 0) 0)"

definition skiplist_first :: "skiplist \<Rightarrow> nat option option" where
  "skiplist_first s = next_ptr (nodes s) 0 0"

definition skiplist_len :: "skiplist \<Rightarrow> nat" where
  "skiplist_len s = len s"

section \<open>Chains\<close>

abbreviation height :: "node list \<Rightarrow> nat \<Rightarrow> nat" where
  "height ns a \<equiv> length (nnext (ns ! a))"

text \<open>Level \<open>i\<close> threads the addresses \<open>xs\<close>, ending in a nil pointer.\<close>

fun linked :: "node list \<Rightarrow> nat \<Rightarrow> nat list \<Rightarrow> bool" where
  "linked ns i [] \<longleftrightarrow> True"
| "linked ns i (x # xs) \<longleftrightarrow>
     x < length ns \<and> i < height ns x \<and> nnext (ns ! x) ! i = (case xs of [] \<Rightarrow> None | y # _ \<Rightarrow> Some y) \<and>
     linked ns i xs"

abbreviation tower :: "node list \<Rightarrow> nat \<Rightarrow> nat list \<Rightarrow> nat list" where
  "tower ns i as \<equiv> filter (\<lambda>a. i < height ns a) as"

text \<open>
  \<open>as\<close> is the order of all nodes but the head; every level threads the head and the nodes
  that reach it, in that order. \<open>L\<close> levels are in use.
\<close>

definition threads :: "node list \<Rightarrow> nat \<Rightarrow> nat list \<Rightarrow> bool" where
  "threads ns L as \<longleftrightarrow>
     ns \<noteq> [] \<and> height ns 0 = maxLevel \<and> L \<le> maxLevel \<and>
     distinct as \<and> set as = {1..<length ns} \<and> sorted (map (\<lambda>a. nkey (ns ! a)) as) \<and>
     (\<forall>a\<in>set as. 1 \<le> height ns a \<and> height ns a \<le> L) \<and>
     (\<forall>i<maxLevel. linked ns i (0 # tower ns i as))"

definition cell_at :: "node list \<Rightarrow> nat \<Rightarrow> cell" where
  "cell_at ns a = (nkey (ns ! a), nvalue (ns ! a))"

abbreviation lower :: "node list \<Rightarrow> key \<Rightarrow> nat list \<Rightarrow> nat list" where
  "lower ns k as \<equiv> takeWhile (\<lambda>a. nkey (ns ! a) < k) as"

lemma threads_linked: "threads ns L as \<Longrightarrow> i < maxLevel \<Longrightarrow> linked ns i (0 # tower ns i as)"
  unfolding threads_def by blast

lemma linked_appendD: "linked ns i (xs @ ys) \<Longrightarrow> linked ns i ys"
  by (induction xs) auto

lemma linked_next: "linked ns i (xs @ x # ys) \<Longrightarrow>
    next_ptr ns x i = Some (case ys of [] \<Rightarrow> None | y # _ \<Rightarrow> Some y)"
  by (drule linked_appendD) (simp add: next_ptr_def)

text \<open>A walk stops at the last node of the level that is below the key.\<close>

lemma walk_linked:
  assumes "linked ns i (x # xs @ ys)" "\<forall>a\<in>set xs. nkey (ns ! a) < k"
    and "ys \<noteq> [] \<Longrightarrow> \<not> nkey (ns ! hd ys) < k"
  shows "walk ns k i x = Some (last (x # xs))"
  using assms
proof (induction xs arbitrary: x)
  case Nil
  then show ?case
    by (subst walk.simps) (auto simp: next_ptr_def split: list.split)
next
  case (Cons a xs)
  then have "next_ptr ns x i = Some (Some a)" by (simp add: next_ptr_def)
  moreover have "walk ns k i a = Some (last (a # xs))"
    using Cons.prems by (intro Cons.IH) auto
  ultimately show ?case
    using Cons.prems(2) by (subst walk.simps) simp
qed

abbreviation upper :: "node list \<Rightarrow> key \<Rightarrow> nat list \<Rightarrow> nat list" where
  "upper ns k as \<equiv> dropWhile (\<lambda>a. nkey (ns ! a) < k) as"

lemma upper_not_less:
  assumes "sorted (map (\<lambda>a. nkey (ns ! a)) as)" "b \<in> set (upper ns k as)"
  shows "k \<le> nkey (ns ! b)"
  using assms
proof (induction as)
  case (Cons a as)
  then show ?case by (auto split: if_splits)
qed simp

definition pred :: "node list \<Rightarrow> key \<Rightarrow> nat list \<Rightarrow> nat \<Rightarrow> nat" where
  "pred ns k as i = last (0 # tower ns i (lower ns k as))"

lemma walk_level:
  assumes "threads ns L as" "i < maxLevel" "x \<in> set (0 # tower ns i (lower ns k as))"
  shows "walk ns k i x = Some (pred ns k as i)"
proof -
  let ?lt = "tower ns i (lower ns k as)" and ?ge = "tower ns i (upper ns k as)"
  obtain xs zs where x: "0 # ?lt = xs @ x # zs"
    using assms(3) by (meson split_list)
  have "0 # tower ns i as = (0 # ?lt) @ ?ge"
    by (simp flip: filter_append)
  with threads_linked [OF assms(1,2)] have "linked ns i ((xs @ x # zs) @ ?ge)"
    unfolding x by simp
  then have "linked ns i (x # zs @ ?ge)"
    using linked_appendD [of ns i xs "x # zs @ ?ge"] by (simp del: linked.simps)
  moreover have "\<forall>a\<in>set zs. nkey (ns ! a) < k"
  proof
    fix a assume "a \<in> set zs"
    then have "a \<in> set (tl (0 # ?lt))" unfolding x by (cases xs) auto
    then show "nkey (ns ! a) < k" by (auto dest: set_takeWhileD)
  qed
  moreover have "\<not> nkey (ns ! hd ?ge) < k" if "?ge \<noteq> []"
  proof -
    have "hd ?ge \<in> set ?ge" using that by (rule hd_in_set)
    then show ?thesis
      using upper_not_less [of ns as "hd ?ge" k] assms(1) by (auto simp: threads_def)
  qed
  ultimately have "walk ns k i x = Some (last (x # zs))" by (rule walk_linked)
  moreover have "last (x # zs) = pred ns k as i"
    using x by (metis last_appendR list.distinct(1) pred_def)
  ultimately show ?thesis by simp
qed

lemma pred_mem: "j \<le> i \<Longrightarrow> pred ns k as i \<in> set (0 # tower ns j (lower ns k as))"
  using last_in_set [of "0 # tower ns i (lower ns k as)"] by (auto simp: pred_def)

lemma descend_spec:
  assumes "threads ns L as"
  shows "n \<le> maxLevel \<Longrightarrow> n = 0 \<or> x \<in> set (0 # tower ns (n - 1) (lower ns k as)) \<Longrightarrow>
    descend ns k n x = Some (map (pred ns k as) [0..<n])"
proof (induction n arbitrary: x)
  case (Suc n)
  then have "walk ns k n x = Some (pred ns k as n)"
    using walk_level [OF assms] by simp
  moreover have "descend ns k n (pred ns k as n) = Some (map (pred ns k as) [0..<n])"
    using Suc.prems(1) pred_mem [of "n - 1" n] by (intro Suc.IH) auto
  ultimately show ?case by simp
qed simp

section \<open>Linking a node\<close>

text \<open>The links after the new node has entered the levels below \<open>m\<close>.\<close>

definition spliced :: "node list \<Rightarrow> nat list \<Rightarrow> key \<Rightarrow> bytes \<Rightarrow> nat \<Rightarrow> nat \<Rightarrow> node list \<Rightarrow> bool" where
  "spliced ns update k v h m ns' \<longleftrightarrow>
     length ns' = Suc (length ns) \<and>
     (\<forall>a<length ns. nkey (ns' ! a) = nkey (ns ! a) \<and> nvalue (ns' ! a) = nvalue (ns ! a) \<and> height ns' a = height ns a) \<and>
     nkey (ns' ! length ns) = k \<and> nvalue (ns' ! length ns) = v \<and> height ns' (length ns) = h \<and>
     (\<forall>a<length ns. \<forall>i<height ns a. nnext (ns' ! a) ! i =
        (if i < m \<and> a = update ! i then Some (length ns) else nnext (ns ! a) ! i)) \<and>
     (\<forall>i<m. nnext (ns' ! length ns) ! i = nnext (ns ! (update ! i)) ! i)"

lemma splicedD:
  assumes "spliced ns update k v h m ns'"
  shows "length ns' = Suc (length ns)" "nkey (ns' ! length ns) = k" "nvalue (ns' ! length ns) = v"
    "height ns' (length ns) = h"
    "a < length ns \<Longrightarrow> nkey (ns' ! a) = nkey (ns ! a)" "a < length ns \<Longrightarrow> nvalue (ns' ! a) = nvalue (ns ! a)"
    "a < length ns \<Longrightarrow> height ns' a = height ns a"
    "a < length ns \<Longrightarrow> i < height ns a \<Longrightarrow> nnext (ns' ! a) ! i =
       (if i < m \<and> a = update ! i then Some (length ns) else nnext (ns ! a) ! i)"
    "i < m \<Longrightarrow> nnext (ns' ! length ns) ! i = nnext (ns ! (update ! i)) ! i"
  using assms unfolding spliced_def by blast+

lemma splice_loop:
  assumes "\<forall>i<h. update ! i < length ns \<and> i < height ns (update ! i)" "m \<le> h"
  shows "spliced ns update k v h m
    (foldl (\<lambda>ns' i. link_level (length ns) update i ns')
      (ns @ [\<lparr>nkey = k, nvalue = v, nnext = replicate h None\<rparr>]) [0..<m])"
  using assms(2)
proof (induction m)
  case 0
  show ?case by (simp add: spliced_def nth_append)
next
  case (Suc m)
  let ?n = "length ns" and ?u = "update ! m"
  obtain ns' where ns': "ns' = foldl (\<lambda>ns' i. link_level ?n update i ns')
      (ns @ [\<lparr>nkey = k, nvalue = v, nnext = replicate h None\<rparr>]) [0..<m]"
    by simp
  have inv: "spliced ns update k v h m ns'" using Suc ns' by simp
  have "m < h" using Suc.prems by simp
  then have u: "?u < ?n" "m < height ns ?u" "?u \<noteq> ?n" using assms(1) by auto
  have "spliced ns update k v h (Suc m) (link_level ?n update m ns')"
    using inv u Suc.prems
    by (auto simp: spliced_def link_level_def set_next_def nth_list_update less_Suc_eq)
  then show ?case using ns' by simp
qed

lemma linked_cong:
  assumes "linked ns i xs" "\<And>a. a \<in> set xs \<Longrightarrow> a < length ns' \<and> height ns' a = height ns a \<and>
    nnext (ns' ! a) ! i = nnext (ns ! a) ! i"
  shows "linked ns' i xs"
  using assms by (induction xs) auto

lemma linked_insert:
  assumes "linked ns i (xs @ ys)" "xs \<noteq> []" "distinct (xs @ ys)"
    and "\<And>a. a \<in> set (xs @ ys) \<Longrightarrow> a < length ns' \<and> height ns' a = height ns a \<and>
      nnext (ns' ! a) ! i = (if a = last xs then Some n else nnext (ns ! a) ! i)"
    and n: "n < length ns'" "i < height ns' n" "nnext (ns' ! n) ! i = nnext (ns ! last xs) ! i"
  shows "linked ns' i (xs @ n # ys)"
  using assms(1-4) n(3)
proof (induction xs)
  case (Cons x xs)
  show ?case
  proof (cases xs)
    case Nil
    have "linked ns' i ys"
      by (rule linked_cong [of ns]) (use Cons.prems Nil in auto)
    with Cons.prems Nil n(1,2) show ?thesis by simp
  next
    case (Cons y zs)
    have l: "last (x # xs) = last xs" using Cons by simp
    have ih: "linked ns' i (xs @ n # ys)"
      by (rule Cons.IH) (use Cons.prems Cons l in auto)
    have "x \<noteq> last xs" using Cons.prems(3) Cons last_in_set [of xs] by auto
    then have "x < length ns'" "height ns' x = height ns x" "nnext (ns' ! x) ! i = nnext (ns ! x) ! i"
      using Cons.prems(4) [of x] unfolding l by auto
    with ih Cons.prems(1) Cons show ?thesis by simp
  qed
qed simp

lemma pred_bounds:
  assumes "threads ns L as" "i < maxLevel"
  shows "pred ns k as i < length ns" "i < height ns (pred ns k as i)"
proof -
  have "pred ns k as i \<in> set (0 # tower ns i (lower ns k as))" by (rule pred_mem) simp
  moreover have "set (lower ns k as) \<subseteq> {1..<length ns}"
    using assms(1) by (auto simp: threads_def dest: set_takeWhileD)
  ultimately show "pred ns k as i < length ns" "i < height ns (pred ns k as i)"
    using assms by (auto simp: threads_def)
qed

definition place :: "node list \<Rightarrow> key \<Rightarrow> nat list \<Rightarrow> nat list" where
  "place ns k as = lower ns k as @ length ns # upper ns k as"

lemma threads_splice:
  assumes ch: "threads ns L as" and h: "1 \<le> h" "h \<le> maxLevel" and up: "\<And>i. i < h \<Longrightarrow> update ! i = pred ns k as i"
  shows "threads (splice_node ns update k v h) (max L h) (place ns k as)"
    and "spliced ns update k v h h (splice_node ns update k v h)"
proof -
  let ?n = "length ns" and ?ns = "splice_node ns update k v h"
  show sp: "spliced ns update k v h h ?ns"
    unfolding splice_node_def using pred_bounds [OF ch] up h(2) by (intro splice_loop) auto
  note same = splicedD [OF sp]
  have ns: "ns \<noteq> []" "height ns 0 = maxLevel" "L \<le> maxLevel" "distinct as" "set as = {1..<?n}"
    "sorted (map (\<lambda>a. nkey (ns ! a)) as)" "\<forall>a\<in>set as. 1 \<le> height ns a \<and> height ns a \<le> L"
    using ch by (auto simp: threads_def)
  have parts: "lower ns k as @ upper ns k as = as" by simp
  have sets: "set (lower ns k as) \<union> set (upper ns k as) = {1..<?n}"
    using ns(5) by (subst set_append [symmetric]) simp
  then have lu: "a < ?n" "1 \<le> a" if "a \<in> set (lower ns k as) \<or> a \<in> set (upper ns k as)" for a
    using that by auto
  have tw: "tower ?ns i (lower ns k as) = tower ns i (lower ns k as)"
    "tower ?ns i (upper ns k as) = tower ns i (upper ns k as)" for i
    using same(7) lu(1) by (auto intro!: filter_cong simp del: One_nat_def)
  have dist: "distinct (lower ns k as @ upper ns k as)" using ns(4) by simp
  have "linked ?ns i (0 # tower ?ns i (place ns k as))" if i: "i < maxLevel" for i
  proof -
    let ?xs = "0 # tower ns i (lower ns k as)" and ?ys = "tower ns i (upper ns k as)"
    have l: "linked ns i (?xs @ ?ys)"
      using threads_linked [OF ch i] parts by (metis append_Cons filter_append)
    have d: "distinct (?xs @ ?ys)"
      using dist lu(2) by (force simp del: takeWhile_dropWhile_id)
    have mem: "a < ?n" "i < height ns a" if "a \<in> set (?xs @ ?ys)" for a
      using that lu ns(1,2) i by auto
    show ?thesis
    proof (cases "i < h")
      case True
      have "linked ?ns i (?xs @ ?n # ?ys)"
      proof (rule linked_insert [OF l _ d])
        fix a assume a: "a \<in> set (?xs @ ?ys)"
        show "a < length ?ns \<and> height ?ns a = height ns a \<and>
            nnext (?ns ! a) ! i = (if a = last ?xs then Some ?n else nnext (ns ! a) ! i)"
          using same(1) same(7) [of a] same(8) [of a i] mem [OF a] True up [OF True] unfolding pred_def by auto
      next
        show "nnext (?ns ! ?n) ! i = nnext (ns ! last ?xs) ! i"
          using same(9) [OF True] up [OF True] by (simp add: pred_def)
      qed (use same(1,4) True in auto)
      moreover have "0 # tower ?ns i (place ns k as) = ?xs @ ?n # ?ys"
        using same(4) True by (simp add: place_def tw)
      ultimately show ?thesis by (simp del: linked.simps)
    next
      case False
      have "linked ?ns i (?xs @ ?ys)"
      proof (rule linked_cong [OF l])
        fix a assume a: "a \<in> set (?xs @ ?ys)"
        show "a < length ?ns \<and> height ?ns a = height ns a \<and> nnext (?ns ! a) ! i = nnext (ns ! a) ! i"
          using same(1) same(7) [of a] same(8) [of a i] mem [OF a] False by simp
      qed
      moreover have "0 # tower ?ns i (place ns k as) = ?xs @ ?ys"
        using same(4) False by (simp add: place_def tw)
      ultimately show ?thesis by (simp del: linked.simps)
    qed
  qed
  moreover have "sorted (map (\<lambda>a. nkey (?ns ! a)) (place ns k as))"
  proof -
    have keys: "map (\<lambda>a. nkey (?ns ! a)) (lower ns k as) = map (\<lambda>a. nkey (ns ! a)) (lower ns k as)"
      "map (\<lambda>a. nkey (?ns ! a)) (upper ns k as) = map (\<lambda>a. nkey (ns ! a)) (upper ns k as)"
      using same(5) lu(1) by auto
    have "sorted (map (\<lambda>a. nkey (ns ! a)) (lower ns k as @ upper ns k as))"
      using ns(6) by simp
    moreover have "\<forall>a\<in>set (lower ns k as). nkey (ns ! a) < k" by (auto dest: set_takeWhileD)
    ultimately show ?thesis
      using upper_not_less [OF ns(6)] same(2)
      unfolding place_def map_append list.map keys by (force simp: sorted_append)
  qed
  moreover have "distinct (place ns k as)" "set (place ns k as) = {1..<length ?ns}"
  proof -
    have "?n \<notin> set (lower ns k as) \<union> set (upper ns k as)" unfolding sets by simp
    with dist show "distinct (place ns k as)"
      unfolding place_def by (simp del: takeWhile_dropWhile_id)
    have "set (place ns k as) = insert ?n (set (lower ns k as) \<union> set (upper ns k as))"
      by (auto simp: place_def)
    also have "\<dots> = {1..<length ?ns}"
      unfolding sets same(1) using ns(1) by (auto simp: less_Suc_eq Suc_le_eq)
    finally show "set (place ns k as) = {1..<length ?ns}" .
  qed
  moreover have "\<forall>a\<in>set (place ns k as). 1 \<le> height ?ns a \<and> height ?ns a \<le> max L h"
  proof
    fix a assume "a \<in> set (place ns k as)"
    then consider "a = ?n" | "a \<in> set as" "a < ?n"
      using sets ns(5) by (auto simp: place_def)
    then show "1 \<le> height ?ns a \<and> height ?ns a \<le> max L h"
      using same(4,7) ns(7) h(1) by cases auto
  qed
  moreover have "height ?ns 0 = maxLevel" "?ns \<noteq> []"
    using same(1) same(7) [of 0] ns(1,2) by auto
  ultimately show "threads ?ns (max L h) (place ns k as)"
    using ns(3) h(2) unfolding threads_def by auto
qed

section \<open>The abstract list\<close>

text \<open>The cells in the order of level 0, and the insertion before the first cell not smaller.\<close>

fun chain0 :: "node list \<Rightarrow> nat \<Rightarrow> nat \<Rightarrow> nat list" where
  "chain0 ns 0 x = []"
| "chain0 ns (Suc n) x =
     (case next_ptr ns x 0 of Some (Some y) \<Rightarrow> y # chain0 ns n y | _ \<Rightarrow> [])"

definition contents :: "node list \<Rightarrow> cell list" where
  "contents ns = map (cell_at ns) (chain0 ns (length ns) 0)"

definition insert_cell :: "cell \<Rightarrow> cell list \<Rightarrow> cell list" where
  "insert_cell c cs = takeWhile (\<lambda>d. fst d < fst c) cs @ c # dropWhile (\<lambda>d. fst d < fst c) cs"

lemma chain0_linked: "linked ns 0 (x # xs) \<Longrightarrow> length xs \<le> n \<Longrightarrow> chain0 ns n x = xs"
proof (induction xs arbitrary: x n)
  case Nil
  then show ?case by (cases n) (auto simp: next_ptr_def)
next
  case (Cons a xs)
  then show ?case by (cases n) (auto simp: next_ptr_def)
qed

lemma threads_order:
  assumes "threads ns L as"
  shows "linked ns 0 (0 # as)" "length as < length ns"
proof -
  have "tower ns 0 as = as"
    using assms by (auto simp: threads_def Suc_le_eq intro!: filter_True)
  with threads_linked [OF assms, of 0] show "linked ns 0 (0 # as)"
    by (simp add: maxLevel_def del: linked.simps)
  have "length as = card {1..<length ns}"
    using assms by (metis threads_def distinct_card)
  then show "length as < length ns" using assms by (auto simp: threads_def)
qed

lemma contents_threads: "threads ns L as \<Longrightarrow> contents ns = map (cell_at ns) as"
  using threads_order [of ns L as] chain0_linked [of ns 0 as "length ns"] by (simp add: contents_def)

lemma sorted_contents:
  assumes "threads ns L as"
  shows "sorted_cells (contents ns)"
proof -
  have "sorted (map (\<lambda>a. nkey (ns ! a)) as)" using assms by (simp add: threads_def)
  then show ?thesis by (simp add: contents_threads [OF assms] cell_at_def o_def)
qed

lemma insert_cell_simps [simp]:
  "insert_cell c [] = [c]"
  "insert_cell c (d # ds) = (if fst d < fst c then d # insert_cell c ds else c # d # ds)"
  by (simp_all add: insert_cell_def)

lemma mset_insert_cell [simp]: "mset (insert_cell c cs) = add_mset c (mset cs)"
  by (induction cs) auto

lemma set_insert_cell [simp]: "set (insert_cell c cs) = insert c (set cs)"
  by (induction cs) auto

lemma sorted_insert_cell: "sorted_cells cs \<Longrightarrow> sorted_cells (insert_cell c cs)"
  by (induction cs) auto

text \<open>Inserting is merging the one cell in front of its equals.\<close>

lemma insert_cell_merge: "insert_cell c cs = merge2 [c] cs"
  by (induction cs) auto

lemma contents_splice:
  assumes "threads ns L as" "1 \<le> h" "h \<le> maxLevel" "\<And>i. i < h \<Longrightarrow> update ! i = pred ns k as i"
  shows "contents (splice_node ns update k v h) = insert_cell (k, v) (contents ns)"
proof -
  let ?ns = "splice_node ns update k v h"
  note sp = threads_splice [OF assms(1-3), of update k v, OF assms(4)]
  note same = splicedD [OF sp(2)]
  have "a < length ns" if "a \<in> set as" for a
    using that assms(1) by (auto simp: threads_def)
  then have cells: "cell_at ?ns a = cell_at ns a" if "a \<in> set as" for a
    using that same(5,6) by (simp add: cell_at_def)
  have "contents ?ns = map (cell_at ?ns) (place ns k as)"
    using sp(1) by (rule contents_threads)
  also have "\<dots> = map (cell_at ns) (lower ns k as) @ (k, v) # map (cell_at ns) (upper ns k as)"
    using cells same(2,3) by (auto simp: place_def cell_at_def dest: set_takeWhileD set_dropWhileD)
  also have "\<dots> = insert_cell (k, v) (contents ns)"
    by (simp add: insert_cell_def contents_threads [OF assms(1)] takeWhile_map dropWhile_map o_def cell_at_def)
  finally show ?thesis .
qed

section \<open>Correctness of the skip list\<close>

definition skiplist_ok :: "skiplist \<Rightarrow> bool" where
  "skiplist_ok s \<longleftrightarrow> (\<exists>as. threads (nodes s) (level s + 1) as \<and> len s = length as)"

lemma random_loop_bounds: "random_loop coin room lvl d = (lvl', d') \<Longrightarrow> lvl \<le> lvl' \<and> lvl' \<le> lvl + room"
  by (induction coin room lvl d rule: random_loop.induct) (auto split: if_splits)

lemma skiplist_ok_new: "skiplist_ok (newSkiplist seed)" "contents (nodes (newSkiplist seed)) = []"
proof -
  have "threads (nodes (newSkiplist seed)) 1 []"
    by (auto simp: threads_def newSkiplist_def maxLevel_def)
  then show "skiplist_ok (newSkiplist seed)" "contents (nodes (newSkiplist seed)) = []"
    using contents_threads by (auto simp: skiplist_ok_def newSkiplist_def)
qed

lemma pred_unused: "threads ns L as \<Longrightarrow> L \<le> i \<Longrightarrow> pred ns k as i = 0"
proof -
  assume "threads ns L as" "L \<le> i"
  then have "tower ns i (lower ns k as) = []"
    by (force simp: filter_empty_conv threads_def dest: set_takeWhileD)
  then show ?thesis by (simp add: pred_def)
qed

lemma update_pred:
  assumes "threads ns L as" "i < L + n"
  shows "(map (pred ns k as) [0..<L] @ replicate n 0) ! i = pred ns k as i"
  using assms pred_unused by (auto simp: nth_append)

lemma length_place: "length (place ns k as) = Suc (length as)"
  using arg_cong [OF takeWhile_dropWhile_id [of "\<lambda>a. nkey (ns ! a) < k" as], of length]
  by (simp add: place_def del: takeWhile_dropWhile_id)

lemma skiplist_insert_spec:
  assumes "skiplist_ok s"
  shows "\<exists>s'. skiplist_insert k v s = Some s' \<and> skiplist_ok s' \<and>
    contents (nodes s') = insert_cell (k, v) (contents (nodes s)) \<and> len s' = len s + 1"
proof -
  obtain as where as: "threads (nodes s) (level s + 1) as" "len s = length as"
    using assms by (auto simp: skiplist_ok_def)
  obtain lvl d where rl: "randomLevel s = (lvl, d)" by (cases "randomLevel s")
  have lvl: "lvl < maxLevel"
    using random_loop_bounds rl by (fastforce simp: randomLevel_def maxLevel_def)
  let ?up = "map (pred (nodes s) k as) [0..<level s + 1]"
  let ?up' = "if lvl > level s then ?up @ replicate (lvl - level s) 0 else ?up"
  have "level s + 1 \<le> maxLevel" using as(1) by (simp add: threads_def)
  then have desc: "descend (nodes s) k (level s + 1) 0 = Some ?up"
    by (intro descend_spec [OF as(1)]) auto
  have up: "?up' ! i = pred (nodes s) k as i" if "i < lvl + 1" for i
    using update_pred [OF as(1), of i "lvl - level s" k] that by (auto simp: nth_append)
  let ?s = "s\<lparr>nodes := splice_node (nodes s) ?up' k v (lvl + 1),
      level := (if lvl > level s then lvl else level s), len := len s + 1, draws := d\<rparr>"
  note sp = threads_splice(1) [OF as(1) _ _ up, of "lvl + 1" v] contents_splice [OF as(1) _ _ up, of "lvl + 1" v]
  have "threads (nodes ?s) (level ?s + 1) (place (nodes s) k as)"
    using sp(1) lvl by (simp add: max_def split: if_splits)
  moreover have "length (place (nodes s) k as) = len s + 1"
    by (simp add: as(2) length_place)
  ultimately have "skiplist_ok ?s" unfolding skiplist_ok_def by auto
  moreover have "contents (nodes ?s) = insert_cell (k, v) (contents (nodes s))"
    using sp(2) lvl by simp
  moreover have "skiplist_insert k v s = Some ?s"
    unfolding skiplist_insert_def desc rl by (simp only: Let_def option.case prod.case)
  ultimately show ?thesis by (intro exI [of _ ?s]) simp
qed

section \<open>Any sequence of inserts\<close>

fun skiplist_insert_all :: "cell list \<Rightarrow> skiplist \<Rightarrow> skiplist option" where
  "skiplist_insert_all [] s = Some s"
| "skiplist_insert_all (c # cs) s =
     (case skiplist_insert (fst c) (snd c) s of None \<Rightarrow> None | Some s' \<Rightarrow> skiplist_insert_all cs s')"

definition inserted :: "cell list \<Rightarrow> cell list \<Rightarrow> cell list" where
  "inserted cs ds = foldl (\<lambda>ds c. insert_cell c ds) ds cs"

lemma inserted_simps [simp]:
  "inserted [] ds = ds" "inserted (c # cs) ds = inserted cs (insert_cell c ds)"
  by (simp_all add: inserted_def)

lemma filter_insert_cell:
  assumes "sorted_cells ds"
  shows "filter (\<lambda>d. fst d = k) (insert_cell c ds) =
    (if fst c = k then c # filter (\<lambda>d. fst d = k) ds else filter (\<lambda>d. fst d = k) ds)"
  using assms by (induction ds) (auto simp: filter_empty_conv)

text \<open>
  Inserting a sequence of cells sorts them, and leaves the writes of one key newest first.
\<close>

lemma inserted_spec:
  "sorted_cells ds \<Longrightarrow> sorted_cells (inserted cs ds) \<and> mset (inserted cs ds) = mset cs + mset ds \<and>
     filter (\<lambda>d. fst d = k) (inserted cs ds) = rev (filter (\<lambda>d. fst d = k) cs) @ filter (\<lambda>d. fst d = k) ds"
  by (induction cs arbitrary: ds) (auto simp: sorted_insert_cell filter_insert_cell)

lemma skiplist_insert_all_spec:
  "skiplist_ok s \<Longrightarrow> \<exists>s'. skiplist_insert_all cs s = Some s' \<and> skiplist_ok s' \<and>
     contents (nodes s') = inserted cs (contents (nodes s)) \<and> len s' = len s + length cs"
proof (induction cs arbitrary: s)
  case (Cons c cs)
  from skiplist_insert_spec [OF Cons.prems, of "fst c" "snd c"] obtain s' where
    "skiplist_insert (fst c) (snd c) s = Some s'" "skiplist_ok s'"
    "contents (nodes s') = insert_cell c (contents (nodes s))" "len s' = len s + 1"
    by auto
  with Cons.IH [of s'] show ?case by auto
qed simp

section \<open>Properties\<close>

text \<open>
  C22: the skip list of package \<^verbatim>\<open>memtable\<close> is a sorted multiset of cells. Whatever the
  level generator draws, any sequence of inserts into an empty list returns, and the list
  then holds every inserted cell exactly as often as it was inserted, in key order, the
  writes of one key newest first, with its length counted right.
\<close>

theorem skiplist_inserts_sort:
  "\<exists>s. skiplist_insert_all cs (newSkiplist seed) = Some s \<and>
     sorted_cells (contents (nodes s)) \<and> mset (contents (nodes s)) = mset cs \<and>
     (\<forall>k. filter (\<lambda>c. fst c = k) (contents (nodes s)) = rev (filter (\<lambda>c. fst c = k) cs)) \<and>
     skiplist_len s = length cs"
proof -
  from skiplist_insert_all_spec [OF skiplist_ok_new(1), of cs seed] obtain s where
    "skiplist_insert_all cs (newSkiplist seed) = Some s" "contents (nodes s) = inserted cs []" "len s = length cs"
    unfolding skiplist_ok_new(2) by (auto simp: newSkiplist_def)
  then show ?thesis
    using inserted_spec [of "[]" cs] by (auto simp: skiplist_len_def)
qed

end
