(* ===== verification/Mem_Iter.thy ===== *)
theory Mem_Iter
  imports Skip_List
begin

text \<open>
  The leaf iterators over the skip lists: \<^verbatim>\<open>memIter\<close> of \<^verbatim>\<open>internal/memtable/memtable.go\<close>,
  and the embedded engine's \<^verbatim>\<open>skiplistMemtable\<close> with its \<^verbatim>\<open>slIter\<close>
  (\<^verbatim>\<open>internal/tablet/memtable.go\<close>). Both are proved lawful iterators over the list's
  cells. Their views differ in the column families: \<^verbatim>\<open>memIter\<close> filters (and admits
  everything for an empty set), \<^verbatim>\<open>slIter\<close> ignores the families it is given.
\<close>

section \<open>Cursors\<close>

definition ptr :: "nat list \<Rightarrow> nat option" where
  "ptr suf = (case suf of [] \<Rightarrow> None | a # _ \<Rightarrow> Some a)"

lemma ptr_simps [simp]: "ptr [] = None" "ptr (a # as) = Some a"
  by (simp_all add: ptr_def)

text \<open>The cells from a pointer to the end of level 0.\<close>

definition cells_from :: "node list \<Rightarrow> nat option \<Rightarrow> cell list" where
  "cells_from ns p =
     (case p of None \<Rightarrow> [] | Some a \<Rightarrow> map (cell_at ns) (a # chain0 ns (length ns) a))"

text \<open>The pointer stands somewhere in the list, which is well formed.\<close>

definition cursor :: "node list \<Rightarrow> nat option \<Rightarrow> nat list \<Rightarrow> bool" where
  "cursor ns p suf \<longleftrightarrow> (\<exists>L pre. threads ns L (pre @ suf)) \<and> p = ptr suf"

lemma cursor_cells:
  assumes "cursor ns p suf"
  shows "cells_from ns p = map (cell_at ns) suf"
proof -
  obtain L pre where ch: "threads ns L (pre @ suf)" and p: "p = ptr suf"
    using assms by (auto simp: cursor_def)
  show ?thesis
  proof (cases suf)
    case (Cons a as)
    have "linked ns 0 (a # as)"
      using threads_order(1) [OF ch] linked_appendD [of ns 0 "0 # pre" "a # as"] Cons by (simp del: linked.simps)
    then have "chain0 ns (length ns) a = as"
      by (rule chain0_linked) (use threads_order(2) [OF ch] Cons in simp)
    with Cons p show ?thesis by (simp add: cells_from_def)
  qed (use p in \<open>simp add: cells_from_def\<close>)
qed

lemma cursor_next:
  assumes "cursor ns p (a # suf)"
  shows "next_ptr ns a 0 = Some (ptr suf)" "cursor ns (ptr suf) suf" "p = Some a"
proof -
  obtain L pre where ch: "threads ns L (pre @ a # suf)" and p: "p = Some a"
    using assms by (auto simp: cursor_def)
  show "p = Some a" by (rule p)
  show "next_ptr ns a 0 = Some (ptr suf)"
    using linked_next [of ns 0 "0 # pre" a suf] threads_order(1) [OF ch] by (simp add: ptr_def)
  have "threads ns L ((pre @ [a]) @ suf)" using ch by simp
  then show "cursor ns (ptr suf) suf" unfolding cursor_def by blast
qed

lemma cursor_sorted: "cursor ns p suf \<Longrightarrow> sorted_cells (map (cell_at ns) suf)"
  by (auto simp: cursor_def threads_def sorted_append cell_at_def o_def)

text \<open>\<^verbatim>\<open>for cur != nil && p(cur.key) { cur = cur.next[0] }\<close>\<close>

partial_function (option) advance_while ::
  "node list \<Rightarrow> (key \<Rightarrow> bool) \<Rightarrow> nat option \<Rightarrow> nat option option" where
  "advance_while ns p cur =
     (case cur of
        None \<Rightarrow> Some None
      | Some a \<Rightarrow>
          if p (nkey (ns ! a))
          then (case next_ptr ns a 0 of None \<Rightarrow> None | Some q \<Rightarrow> advance_while ns p q)
          else Some cur)"

lemma advance_while_spec:
  "cursor ns cur suf \<Longrightarrow>
     advance_while ns p cur = Some (ptr (dropWhile (\<lambda>a. p (nkey (ns ! a))) suf)) \<and>
     cursor ns (ptr (dropWhile (\<lambda>a. p (nkey (ns ! a))) suf)) (dropWhile (\<lambda>a. p (nkey (ns ! a))) suf)"
proof (induction suf arbitrary: cur)
  case Nil
  then show ?case by (auto simp: cursor_def advance_while.simps)
next
  case (Cons a suf)
  note n = cursor_next [OF Cons.prems]
  show ?case
    using Cons.IH [OF n(2)] n Cons.prems by (auto simp: advance_while.simps [of ns p "Some a"])
qed

lemma map_dropWhile_cell:
  "map (cell_at ns) (dropWhile (\<lambda>a. p (nkey (ns ! a))) as) = dropWhile (\<lambda>c. p (fst c)) (map (cell_at ns) as)"
  by (simp add: dropWhile_map o_def cell_at_def)

section \<open>Positions in the skip list\<close>

lemma skiplist_first_spec:
  assumes "threads (nodes s) L as"
  shows "skiplist_first s = Some (ptr as)" "cursor (nodes s) (ptr as) as"
proof -
  show "skiplist_first s = Some (ptr as)"
    using linked_next [of "nodes s" 0 "[]" 0 as] threads_order(1) [OF assms]
    by (simp add: skiplist_first_def ptr_def)
  show "cursor (nodes s) (ptr as) as"
    using assms unfolding cursor_def by (metis append_Nil)
qed

lemma seekFirst_spec:
  assumes "threads (nodes s) (level s + 1) as"
  shows "seekFirst k s = Some (ptr (upper (nodes s) k as))"
    and "cursor (nodes s) (ptr (upper (nodes s) k as)) (upper (nodes s) k as)"
proof -
  let ?ns = "nodes s"
  have "level s + 1 \<le> maxLevel" using assms by (simp add: threads_def)
  then have d: "descend ?ns k (level s + 1) 0 = Some (map (pred ?ns k as) [0..<level s + 1])"
    by (intro descend_spec [OF assms]) auto
  have low: "tower ?ns 0 (lower ?ns k as) = lower ?ns k as"
    using assms by (auto simp: threads_def Suc_le_eq intro!: filter_True dest!: set_takeWhileD)
  have "0 # as = butlast (0 # lower ?ns k as) @ pred ?ns k as 0 # upper ?ns k as"
    unfolding pred_def low by (metis append_Cons append_butlast_last_id append_eq_appendI append_Nil
        list.distinct(1) takeWhile_dropWhile_id)
  then have "next_ptr ?ns (pred ?ns k as 0) 0 = Some (ptr (upper ?ns k as))"
    using linked_next [of ?ns 0 "butlast (0 # lower ?ns k as)" "pred ?ns k as 0" "upper ?ns k as"]
      threads_order(1) [OF assms] by (simp add: ptr_def del: linked.simps)
  moreover have "map (pred ?ns k as) [0..<level s + 1] ! 0 = pred ?ns k as 0"
    by (subst nth_map_upt) simp_all
  ultimately show "seekFirst k s = Some (ptr (upper ?ns k as))"
    unfolding seekFirst_def d by simp
  show "cursor ?ns (ptr (upper ?ns k as)) (upper ?ns k as)"
    using assms unfolding cursor_def by (metis takeWhile_dropWhile_id)
qed

section \<open>memIter\<close>

record mem_iter =
  mi_list :: skiplist
  mi_rng :: range
  mi_cfSet :: "bytes set"
  mi_cfIncl :: bool
  mi_hasCF :: bool
  mi_cur :: "nat option"

definition memtable_Iterator :: "skiplist \<Rightarrow> mem_iter" where
  "memtable_Iterator l =
     \<lparr>mi_list = l, mi_rng = zero_range, mi_cfSet = {}, mi_cfIncl = False, mi_hasCF = False, mi_cur = None\<rparr>"

definition cfPasses :: "mem_iter \<Rightarrow> key \<Rightarrow> bool" where
  "cfPasses it k =
     (if \<not> mi_hasCF it then True
      else let in' = (ColumnFamily k \<in> mi_cfSet it) in if mi_cfIncl it then in' else \<not> in')"

text \<open>\<^verbatim>\<open>skipToVisible\<close> moves on over the families left out, and ends at the end of the range.\<close>

definition skipToVisible :: "mem_iter \<Rightarrow> mem_iter option" where
  "skipToVisible it =
     (let ns = nodes (mi_list it) in
      case advance_while ns (\<lambda>k. \<not> AfterEnd (mi_rng it) k \<and> \<not> cfPasses it k) (mi_cur it) of
        None \<Rightarrow> None
      | Some None \<Rightarrow> Some (it\<lparr>mi_cur := None\<rparr>)
      | Some (Some a) \<Rightarrow>
          Some (it\<lparr>mi_cur := (if AfterEnd (mi_rng it) (nkey (ns ! a)) then None else Some a)\<rparr>))"

definition memIter_Seek :: "range \<Rightarrow> bytes list \<Rightarrow> bool \<Rightarrow> mem_iter \<Rightarrow> mem_iter step" where
  "memIter_Seek r columnFamilies inclusive it =
     (let it1 = it\<lparr>mi_rng := r, mi_hasCF := length columnFamilies > 0, mi_cfIncl := inclusive,
                   mi_cfSet := (if length columnFamilies > 0 then set columnFamilies else {})\<rparr>;
          start = (if InfiniteStart r then None else Start r) in
      case (case start of
              None \<Rightarrow> skiplist_first (mi_list it)
            | Some k \<Rightarrow>
                (case seekFirst k (mi_list it) of
                   None \<Rightarrow> None
                 | Some p \<Rightarrow>
                     if StartInclusive r then Some p
                     else advance_while (nodes (mi_list it)) (\<lambda>j. Compare j k = 0) p)) of
        None \<Rightarrow> None
      | Some p \<Rightarrow> map_option (\<lambda>it2. (it2, None)) (skipToVisible (it1\<lparr>mi_cur := p\<rparr>)))"

definition memIter_Next :: "mem_iter \<Rightarrow> mem_iter step" where
  "memIter_Next it =
     (case mi_cur it of
        None \<Rightarrow> Some (it, None)
      | Some a \<Rightarrow>
          (case next_ptr (nodes (mi_list it)) a 0 of
             None \<Rightarrow> None
           | Some p \<Rightarrow> map_option (\<lambda>it2. (it2, None)) (skipToVisible (it\<lparr>mi_cur := p\<rparr>))))"

definition memIter_HasTop :: "mem_iter \<Rightarrow> bool" where
  "memIter_HasTop it \<longleftrightarrow> mi_cur it \<noteq> None"

definition memIter_GetTopKey :: "mem_iter \<Rightarrow> key option" where
  "memIter_GetTopKey it = map_option (\<lambda>a. nkey (nodes (mi_list it) ! a)) (mi_cur it)"

definition memIter_GetTopValue :: "mem_iter \<Rightarrow> bytes" where
  "memIter_GetTopValue it =
     (case mi_cur it of None \<Rightarrow> [] | Some a \<Rightarrow> nvalue (nodes (mi_list it) ! a))"

definition memIter_DeepCopy :: "mem_iter \<Rightarrow> mem_iter" where
  "memIter_DeepCopy it = memtable_Iterator (mi_list it)"

definition memIter_skvi :: "mem_iter skvi" where
  "memIter_skvi = \<lparr>Seek = memIter_Seek, Next = memIter_Next, HasTop = memIter_HasTop,
                   GetTopKey = memIter_GetTopKey, GetTopValue = memIter_GetTopValue\<rparr>"

text \<open>The cells a seek selects: as \<open>selects\<close>, but an empty family set admits everything.\<close>

definition mem_selects :: "range \<Rightarrow> bytes list \<Rightarrow> bool \<Rightarrow> cell \<Rightarrow> bool" where
  "mem_selects r cfs inclusive c \<longleftrightarrow>
     \<not> BeforeStart r (fst c) \<and> \<not> AfterEnd r (fst c) \<and>
     (cfs = [] \<or> cfAllowed (ColumnFamily (fst c)) cfs inclusive)"

definition memIter_wf :: "mem_iter \<Rightarrow> bool" where
  "memIter_wf it \<longleftrightarrow> skiplist_ok (mi_list it)"

abbreviation mem_keeps :: "mem_iter \<Rightarrow> cell \<Rightarrow> bool" where
  "mem_keeps it c \<equiv> \<not> AfterEnd (mi_rng it) (fst c) \<and> cfPasses it (fst c)"

definition memIter_rem :: "mem_iter \<Rightarrow> cell list" where
  "memIter_rem it = filter (mem_keeps it) (cells_from (nodes (mi_list it)) (mi_cur it))"

definition memIter_ready :: "mem_iter \<Rightarrow> bool" where
  "memIter_ready it \<longleftrightarrow> memIter_wf it \<and>
     (\<exists>suf. cursor (nodes (mi_list it)) (mi_cur it) suf \<and>
        (suf \<noteq> [] \<longrightarrow> mem_keeps it (cell_at (nodes (mi_list it)) (hd suf))))"

definition memIter_view :: "mem_iter \<Rightarrow> range \<Rightarrow> bytes list \<Rightarrow> bool \<Rightarrow> cell list" where
  "memIter_view it r cfs inclusive = filter (mem_selects r cfs inclusive) (contents (nodes (mi_list it)))"

text \<open>Cells past the end are not selected, so stopping there loses nothing.\<close>

lemma filter_keeps_dropWhile:
  fixes r pass
  defines "keeps \<equiv> \<lambda>c. \<not> AfterEnd r (fst c) \<and> pass (fst c)"
  assumes "sorted_cells cs" "dropWhile (\<lambda>c. \<not> AfterEnd r (fst c) \<and> \<not> pass (fst c)) cs = ds"
  shows "filter keeps cs = (if ds \<noteq> [] \<and> AfterEnd r (fst (hd ds)) then [] else filter keeps ds)"
  using assms(2,3)
proof (induction cs)
  case (Cons c cs)
  consider "AfterEnd r (fst c)" | "\<not> AfterEnd r (fst c)" "pass (fst c)" | "\<not> AfterEnd r (fst c)" "\<not> pass (fst c)"
    by blast
  then show ?case
  proof cases
    case 1
    moreover have "AfterEnd r (fst d)" if "d \<in> set cs" for d
      using 1 that Cons.prems(1) AfterEnd_mono by auto
    ultimately show ?thesis using Cons.prems(2) by (auto simp: keeps_def filter_empty_conv)
  next
    case 2
    with Cons.prems(2) show ?thesis by (auto simp: keeps_def)
  next
    case 3
    with Cons show ?thesis by (simp add: keeps_def)
  qed
qed simp

lemma skipToVisible_spec:
  assumes "memIter_wf it" "cursor (nodes (mi_list it)) (mi_cur it) suf"
  shows "\<exists>it'. skipToVisible it = Some it' \<and> memIter_ready it' \<and> mi_list it' = mi_list it \<and>
    memIter_rem it' = filter (mem_keeps it) (map (cell_at (nodes (mi_list it))) suf)"
proof -
  let ?ns = "nodes (mi_list it)"
  let ?p = "\<lambda>k. \<not> AfterEnd (mi_rng it) k \<and> \<not> cfPasses it k"
  define d where "d = dropWhile (\<lambda>a. ?p (nkey (?ns ! a))) suf"
  have adv: "advance_while ?ns ?p (mi_cur it) = Some (ptr d)" "cursor ?ns (ptr d) d"
    using advance_while_spec [OF assms(2), of ?p] by (auto simp: d_def)
  have f: "filter (mem_keeps it) (map (cell_at ?ns) suf) =
      (if d \<noteq> [] \<and> AfterEnd (mi_rng it) (nkey (?ns ! hd d)) then []
       else filter (mem_keeps it) (map (cell_at ?ns) d))"
    using filter_keeps_dropWhile
      [OF cursor_sorted [OF assms(2)] map_dropWhile_cell [of ?ns ?p suf, symmetric, folded d_def]]
    by (cases "d = []") (simp_all only: hd_map cell_at_def fst_conv list.map_disc_iff simp_thms)
  have pass: "cfPasses (it\<lparr>mi_cur := q\<rparr>) = cfPasses it" for q
    by (simp add: cfPasses_def fun_eq_iff)
  show ?thesis
  proof (cases "d \<noteq> [] \<and> \<not> AfterEnd (mi_rng it) (nkey (?ns ! hd d))")
    case True
    then obtain a ds where d: "d = a # ds" by (cases d) auto
    let ?it = "it\<lparr>mi_cur := Some a\<rparr>"
    have keep: "cfPasses it (nkey (?ns ! a))" "\<not> AfterEnd (mi_rng it) (nkey (?ns ! a))"
      using hd_dropWhile [of "\<lambda>a. ?p (nkey (?ns ! a))" suf] d True unfolding d_def by auto
    have "skipToVisible it = Some ?it"
      using adv(1) d keep by (simp add: skipToVisible_def)
    moreover have "memIter_ready ?it"
      using assms(1) adv(2) d keep pass by (auto simp: memIter_ready_def memIter_wf_def cell_at_def)
    moreover have "memIter_rem ?it = filter (mem_keeps it) (map (cell_at ?ns) suf)"
      unfolding f using cursor_cells [OF adv(2)] d True pass by (simp add: memIter_rem_def)
    ultimately show ?thesis by auto
  next
    case False
    let ?it = "it\<lparr>mi_cur := None\<rparr>"
    have "skipToVisible it = Some ?it"
      using adv(1) False by (cases d) (auto simp: skipToVisible_def)
    moreover have "cursor ?ns None []"
      using assms(2) unfolding cursor_def by (metis append_Nil2 append_assoc ptr_simps(1))
    then have "memIter_ready ?it"
      using assms(1) by (auto simp: memIter_ready_def memIter_wf_def)
    moreover have "memIter_rem ?it = filter (mem_keeps it) (map (cell_at ?ns) suf)"
      unfolding f using False by (auto simp: memIter_rem_def cells_from_def)
    ultimately show ?thesis by auto
  qed
qed

lemma dropWhile_eq_dropWhile_less:
  fixes k :: "'a::linorder"
  shows "sorted (map f xs) \<Longrightarrow> dropWhile (\<lambda>x. f x = k) (dropWhile (\<lambda>x. f x < k) xs) = dropWhile (\<lambda>x. f x \<le> k) xs"
proof (induction xs)
  case (Cons x xs)
  have "dropWhile (\<lambda>x. f x < k) xs = xs" if "f x = k"
    using Cons.prems that by (cases xs) auto
  with Cons show ?case by (cases "f x" k rule: linorder_cases) auto
qed simp

text \<open>The position a seek starts from: the first cell of the range.\<close>

lemma seek_start:
  assumes "threads (nodes l) (level l + 1) as"
  shows "\<exists>p. (case (if InfiniteStart r then None else Start r) of
       None \<Rightarrow> skiplist_first l
     | Some k \<Rightarrow>
         (case seekFirst k l of
            None \<Rightarrow> None
          | Some p \<Rightarrow> if StartInclusive r then Some p else advance_while (nodes l) (\<lambda>j. Compare j k = 0) p)) = Some p \<and>
     cursor (nodes l) p (dropWhile (\<lambda>a. BeforeStart r (nkey (nodes l ! a))) as)"
proof (cases "if InfiniteStart r then None else Start r")
  case None
  then have "\<not> BeforeStart r k" for k by (auto simp: BeforeStart_iff split: if_splits)
  with None skiplist_first_spec [OF assms] show ?thesis by simp
next
  case (Some k)
  then have start: "\<not> InfiniteStart r" "Start r = Some k" by (auto split: if_splits)
  note sf = seekFirst_spec [OF assms, of k]
  show ?thesis
  proof (cases "StartInclusive r")
    case True
    then have "BeforeStart r j \<longleftrightarrow> j < k" for j using start by (auto simp: BeforeStart_iff)
    with sf True Some show ?thesis by simp
  next
    case False
    then have "BeforeStart r j \<longleftrightarrow> j \<le> k" for j using start by (auto simp: BeforeStart_iff)
    moreover have "sorted (map (\<lambda>a. nkey (nodes l ! a)) as)" using assms by (simp add: threads_def)
    ultimately show ?thesis
      using advance_while_spec [OF sf(2), of "\<lambda>j. Compare j k = 0"] sf(1) False Some
      by (simp add: dropWhile_eq_dropWhile_less)
  qed
qed

lemma filter_mem_selects:
  assumes "sorted_cells cs" "\<And>c. mem_selects r cfs inclusive c \<longleftrightarrow> \<not> BeforeStart r (fst c) \<and> P c"
  shows "filter P (dropWhile (\<lambda>c. BeforeStart r (fst c)) cs) = filter (mem_selects r cfs inclusive) cs"
  unfolding filter_not_BeforeStart [OF assms(1), symmetric] filter_filter
  by (rule filter_cong) (use assms(2) in auto)

lemma memIter_seek:
  assumes "memIter_wf it"
  shows "\<exists>it'. memIter_Seek r cfs inclusive it = Some (it', None) \<and> memIter_ready it' \<and>
    memIter_rem it' = memIter_view it r cfs inclusive \<and> memIter_view it' = memIter_view it"
proof -
  let ?l = "mi_list it"
  obtain as where as: "threads (nodes ?l) (level ?l + 1) as"
    using assms by (auto simp: memIter_wf_def skiplist_ok_def)
  let ?suf = "dropWhile (\<lambda>a. BeforeStart r (nkey (nodes ?l ! a))) as"
  obtain p where p: "(case (if InfiniteStart r then None else Start r) of
       None \<Rightarrow> skiplist_first ?l
     | Some k \<Rightarrow>
         (case seekFirst k ?l of
            None \<Rightarrow> None
          | Some p \<Rightarrow> if StartInclusive r then Some p else advance_while (nodes ?l) (\<lambda>j. Compare j k = 0) p)) = Some p"
      "cursor (nodes ?l) p ?suf"
    using seek_start [OF as, of r] by blast
  let ?it = "it\<lparr>mi_rng := r, mi_hasCF := length cfs > 0, mi_cfIncl := inclusive,
                   mi_cfSet := (if length cfs > 0 then set cfs else {}), mi_cur := p\<rparr>"
  obtain it' where it': "skipToVisible ?it = Some it'" "memIter_ready it'" "mi_list it' = ?l"
      "memIter_rem it' = filter (mem_keeps ?it) (map (cell_at (nodes ?l)) ?suf)"
    using skipToVisible_spec [of ?it ?suf] assms p(2) by (auto simp: memIter_wf_def)
  have "mem_selects r cfs inclusive c \<longleftrightarrow> \<not> BeforeStart r (fst c) \<and> mem_keeps ?it c" for c
    by (auto simp: mem_selects_def cfPasses_def cfAllowed_def Let_def)
  from filter_mem_selects [OF sorted_contents [OF as] this]
  have "memIter_rem it' = memIter_view it r cfs inclusive"
    unfolding it'(4) memIter_view_def map_dropWhile_cell by (simp add: contents_threads [OF as])
  moreover have "memIter_view it' = memIter_view it"
    using it'(3) by (simp add: memIter_view_def fun_eq_iff)
  ultimately show ?thesis
    using p(1) it'(1,2) by (simp add: memIter_Seek_def Let_def)
qed

lemma memIter_ready_Cons:
  assumes "memIter_ready it" "memIter_rem it = c # cs"
  shows "\<exists>a suf. mi_cur it = Some a \<and> cursor (nodes (mi_list it)) (Some a) (a # suf) \<and>
    c = cell_at (nodes (mi_list it)) a \<and> cs = filter (mem_keeps it) (map (cell_at (nodes (mi_list it))) suf)"
proof -
  let ?ns = "nodes (mi_list it)"
  obtain suf where suf: "cursor ?ns (mi_cur it) suf" "suf \<noteq> [] \<longrightarrow> mem_keeps it (cell_at ?ns (hd suf))"
    using assms(1) by (auto simp: memIter_ready_def)
  then have rem: "c # cs = filter (mem_keeps it) (map (cell_at ?ns) suf)"
    using assms(2) cursor_cells [OF suf(1)] by (simp add: memIter_rem_def)
  then obtain a as where a: "suf = a # as" by (cases suf) auto
  with rem suf(2) have "c = cell_at ?ns a" "cs = filter (mem_keeps it) (map (cell_at ?ns) as)" by auto
  moreover have "mi_cur it = Some a" using suf(1) cursor_next(3) unfolding a by blast
  ultimately show ?thesis using suf(1) a by auto
qed

interpretation memIter: skvi memIter_skvi memIter_wf memIter_ready memIter_rem memIter_view
proof
  fix it assume it: "memIter_ready it"
  let ?ns = "nodes (mi_list it)"
  show "memIter_wf it" using it by (simp add: memIter_ready_def)
  obtain suf where suf: "cursor ?ns (mi_cur it) suf" "suf \<noteq> [] \<longrightarrow> mem_keeps it (cell_at ?ns (hd suf))"
    using it by (auto simp: memIter_ready_def)
  then have rem: "memIter_rem it = filter (mem_keeps it) (map (cell_at ?ns) suf)"
    using cursor_cells [OF suf(1)] by (simp add: memIter_rem_def)
  show "HasTop memIter_skvi it \<longleftrightarrow> memIter_rem it \<noteq> []"
    unfolding rem using suf by (cases suf) (auto simp: memIter_skvi_def memIter_HasTop_def cursor_def)
  show "sorted_cells (memIter_rem it)"
    unfolding rem using cursor_sorted [OF suf(1)] by (rule sorted_cells_filter)
next
  fix it c cs assume "memIter_ready it" "memIter_rem it = c # cs"
  then obtain a suf where a: "mi_cur it = Some a" "cursor (nodes (mi_list it)) (Some a) (a # suf)"
      "c = cell_at (nodes (mi_list it)) a" "cs = filter (mem_keeps it) (map (cell_at (nodes (mi_list it))) suf)"
    using memIter_ready_Cons by blast
  note n = cursor_next [OF a(2)]
  show "GetTopKey memIter_skvi it = Some (fst c)" "GetTopValue memIter_skvi it = snd c"
    using a(1,3) by (simp_all add: memIter_skvi_def memIter_GetTopKey_def memIter_GetTopValue_def cell_at_def)
  have "memIter_wf (it\<lparr>mi_cur := ptr suf\<rparr>)"
    using \<open>memIter_ready it\<close> by (simp add: memIter_ready_def memIter_wf_def)
  from skipToVisible_spec [OF this, of suf] n a(1,4)
  show "\<exists>it'. Next memIter_skvi it = Some (it', None) \<and> memIter_ready it' \<and> memIter_rem it' = cs \<and>
      memIter_view it' = memIter_view it"
    by (auto simp: memIter_skvi_def memIter_Next_def memIter_view_def cfPasses_def fun_eq_iff)
qed (simp add: memIter_skvi_def memIter_seek)

section \<open>Properties\<close>

text \<open>
  Scanning the memtable (\<^verbatim>\<open>Memtable.Iterator\<close>) after any sequence of inserts, for any
  range and family set, returns without error exactly the inserted cells in the range
  whose family is admitted, in key order, the writes of one key newest first. An empty
  family set admits every family here, whatever \<^verbatim>\<open>inclusive\<close> says.
\<close>

theorem memIter_scan:
  "\<exists>s it. skiplist_insert_all cs (newSkiplist seed) = Some s \<and>
     memIter_Seek r cfs inclusive (memtable_Iterator s) = Some (it, None) \<and>
     drain_loop memIter_skvi [] it = Some (filter (mem_selects r cfs inclusive) (inserted cs []), None)"
proof -
  from skiplist_insert_all_spec [OF skiplist_ok_new(1), of cs seed] obtain s where
    s: "skiplist_insert_all cs (newSkiplist seed) = Some s" "skiplist_ok s" "contents (nodes s) = inserted cs []"
    unfolding skiplist_ok_new(2) by blast
  have "memIter_wf (memtable_Iterator s)"
    using s(2) by (simp add: memIter_wf_def memtable_Iterator_def)
  from memIter.scan_spec [OF this, of r cfs inclusive] s show ?thesis
    by (simp add: memIter_skvi_def memIter_view_def memtable_Iterator_def)
qed

end
