(* ===== verification/Tablet_Memtable.thy ===== *)
theory Tablet_Memtable
  imports Mem_Iter
begin

text \<open>
  The embedded engine's memtable, \<^verbatim>\<open>internal/tablet/memtable.go\<close>: the skip list
  \<^verbatim>\<open>skiplistMemtable\<close> with its counters, and its iterator \<^verbatim>\<open>slIter\<close>. An insert refines
  the insertion into the sorted cell list in front of identical keys, the counters count
  cells and tombstones, and \<^verbatim>\<open>slIter\<close> is a lawful iterator that selects by range only.
\<close>

section \<open>The memtable\<close>

record sl_memtable =
  sl_nodes :: "node list"
  sl_level :: nat
  sl_count :: nat
  sl_deletes :: nat
  sl_rng :: "nat \<Rightarrow> bool"
  sl_draws :: nat

definition slMaxLevel :: nat where
  "slMaxLevel = 24"

definition newSkiplistMemtable :: "(nat \<Rightarrow> bool) \<Rightarrow> sl_memtable" where
  "newSkiplistMemtable seed =
     \<lparr>sl_nodes = [\<lparr>nkey = zero_node_key, nvalue = [], nnext = replicate slMaxLevel None\<rparr>],
      sl_level = 0, sl_count = 0, sl_deletes = 0, sl_rng = seed, sl_draws = 0\<rparr>"

definition sl_randomLevel :: "sl_memtable \<Rightarrow> nat \<times> nat" where
  "sl_randomLevel sl = random_loop (sl_rng sl) (slMaxLevel - 1) 1 (sl_draws sl)"

definition sl_Insert :: "key \<Rightarrow> bytes \<Rightarrow> sl_memtable \<Rightarrow> sl_memtable option" where
  "sl_Insert k v sl =
     (case descend (sl_nodes sl) k (sl_level sl) 0 of
        None \<Rightarrow> None
      | Some update \<Rightarrow>
          (let (lvl, d) = sl_randomLevel sl;
               update' = (if lvl > sl_level sl then update @ replicate (lvl - sl_level sl) 0 else update);
               level' = (if lvl > sl_level sl then lvl else sl_level sl) in
           Some (sl\<lparr>sl_nodes := splice_node (sl_nodes sl) update' k v lvl,
                    sl_level := level', sl_count := sl_count sl + 1,
                    sl_deletes := (if Deleted k then sl_deletes sl + 1 else sl_deletes sl),
                    sl_draws := d\<rparr>)))"

definition sl_Len :: "sl_memtable \<Rightarrow> nat" where
  "sl_Len sl = sl_count sl"

definition sl_Deletes :: "sl_memtable \<Rightarrow> nat" where
  "sl_Deletes sl = sl_deletes sl"

abbreviation sl_cells :: "sl_memtable \<Rightarrow> cell list" where
  "sl_cells sl \<equiv> contents (sl_nodes sl)"

definition sl_ok :: "sl_memtable \<Rightarrow> bool" where
  "sl_ok sl \<longleftrightarrow> (\<exists>as. threads (sl_nodes sl) (sl_level sl) as) \<and>
     sl_count sl = length (sl_cells sl) \<and>
     sl_deletes sl = length (filter (\<lambda>c. Deleted (fst c)) (sl_cells sl))"

lemma sl_ok_new: "sl_ok (newSkiplistMemtable seed)" "sl_cells (newSkiplistMemtable seed) = []"
proof -
  have "threads (sl_nodes (newSkiplistMemtable seed)) 0 []"
    by (auto simp: threads_def newSkiplistMemtable_def maxLevel_def slMaxLevel_def)
  then show "sl_ok (newSkiplistMemtable seed)" "sl_cells (newSkiplistMemtable seed) = []"
    using contents_threads by (auto simp: sl_ok_def newSkiplistMemtable_def)
qed

lemma length_filter_insert_cell:
  "length (filter P (insert_cell c cs)) = length (filter P cs) + (if P c then 1 else 0)"
  by (induction cs) auto

lemma length_insert_cell [simp]: "length (insert_cell c cs) = Suc (length cs)"
  by (induction cs) auto

lemma sl_Insert_spec:
  assumes "sl_ok sl"
  shows "\<exists>sl'. sl_Insert k v sl = Some sl' \<and> sl_ok sl' \<and> sl_cells sl' = insert_cell (k, v) (sl_cells sl)"
proof -
  obtain as where as: "threads (sl_nodes sl) (sl_level sl) as"
    using assms by (auto simp: sl_ok_def)
  obtain lvl d where rl: "sl_randomLevel sl = (lvl, d)" by (cases "sl_randomLevel sl")
  have lvl: "1 \<le> lvl" "lvl \<le> maxLevel"
    using random_loop_bounds rl by (fastforce simp: sl_randomLevel_def maxLevel_def slMaxLevel_def)+
  let ?up = "map (pred (sl_nodes sl) k as) [0..<sl_level sl]"
  let ?up' = "if lvl > sl_level sl then ?up @ replicate (lvl - sl_level sl) 0 else ?up"
  have "sl_level sl \<le> maxLevel" using as by (simp add: threads_def)
  then have desc: "descend (sl_nodes sl) k (sl_level sl) 0 = Some ?up"
    by (intro descend_spec [OF as]) auto
  have up: "?up' ! i = pred (sl_nodes sl) k as i" if "i < lvl" for i
    using update_pred [OF as, of i "lvl - sl_level sl" k] that by (auto simp: nth_append)
  let ?sl = "sl\<lparr>sl_nodes := splice_node (sl_nodes sl) ?up' k v lvl,
      sl_level := (if lvl > sl_level sl then lvl else sl_level sl), sl_count := sl_count sl + 1,
      sl_deletes := (if Deleted k then sl_deletes sl + 1 else sl_deletes sl), sl_draws := d\<rparr>"
  note sp = threads_splice(1) [OF as lvl up] contents_splice [OF as lvl up]
  have "threads (sl_nodes ?sl) (sl_level ?sl) (place (sl_nodes sl) k as)"
    using sp(1) [of v] by (simp add: max_def split: if_splits)
  moreover have cells: "sl_cells ?sl = insert_cell (k, v) (sl_cells sl)"
    using sp(2) by simp
  ultimately have "sl_ok ?sl"
    using assms unfolding sl_ok_def cells length_filter_insert_cell by auto
  moreover have "sl_Insert k v sl = Some ?sl"
    unfolding sl_Insert_def desc rl by (simp only: Let_def option.case prod.case)
  ultimately show ?thesis using cells by blast
qed

text \<open>Inserting the cells of a list one after another.\<close>

fun sl_insert_all :: "cell list \<Rightarrow> sl_memtable \<Rightarrow> sl_memtable option" where
  "sl_insert_all [] sl = Some sl"
| "sl_insert_all (c # cs) sl =
     (case sl_Insert (fst c) (snd c) sl of None \<Rightarrow> None | Some sl' \<Rightarrow> sl_insert_all cs sl')"

lemma sl_insert_all_spec:
  "sl_ok sl \<Longrightarrow> \<exists>sl'. sl_insert_all cs sl = Some sl' \<and> sl_ok sl' \<and>
     sl_cells sl' = inserted cs (sl_cells sl)"
proof (induction cs arbitrary: sl)
  case (Cons c cs)
  obtain sl' where "sl_Insert (fst c) (snd c) sl = Some sl'" "sl_ok sl'"
      "sl_cells sl' = insert_cell c (sl_cells sl)"
    using sl_Insert_spec [OF Cons.prems, of "fst c" "snd c"] by auto
  with Cons.IH [of sl'] show ?case by simp
qed simp

section \<open>slIter\<close>

text \<open>
  The iterator holds the head, that is the list's store, its range and the current node.
  \<^verbatim>\<open>GetTopKey\<close> dereferences the current node; without one it panics.
\<close>

record sl_iter =
  si_nodes :: "node list"
  si_cur :: "nat option"
  si_rng :: range

definition sl_Iterator :: "sl_memtable \<Rightarrow> sl_iter" where
  "sl_Iterator sl = \<lparr>si_nodes = sl_nodes sl, si_cur = None, si_rng = zero_range\<rparr>"

definition checkEnd :: "sl_iter \<Rightarrow> sl_iter" where
  "checkEnd it =
     (case si_cur it of
        None \<Rightarrow> it
      | Some a \<Rightarrow>
          if InfiniteEnd (si_rng it) then it
          else (case End (si_rng it) of
              None \<Rightarrow> it
            | Some e \<Rightarrow>
                let c = Compare (nkey (si_nodes it ! a)) e in
                if c > 0 \<or> (c = 0 \<and> \<not> EndInclusive (si_rng it)) then it\<lparr>si_cur := None\<rparr> else it))"

definition slIter_Seek :: "range \<Rightarrow> bytes list \<Rightarrow> bool \<Rightarrow> sl_iter \<Rightarrow> sl_iter step" where
  "slIter_Seek r columnFamilies inclusive it =
     (let ns = si_nodes it in
      case next_ptr ns 0 0 of
        None \<Rightarrow> None
      | Some p \<Rightarrow>
          (case (case (if InfiniteStart r then None else Start r) of
                   None \<Rightarrow> Some p
                 | Some k \<Rightarrow>
                     (case advance_while ns (\<lambda>j. Compare j k < 0) p of
                        None \<Rightarrow> None
                      | Some q \<Rightarrow>
                          if StartInclusive r then Some q
                          else advance_while ns (\<lambda>j. Compare j k = 0) q)) of
             None \<Rightarrow> None
           | Some q \<Rightarrow> Some (checkEnd (it\<lparr>si_rng := r, si_cur := q\<rparr>), None)))"

definition slIter_Next :: "sl_iter \<Rightarrow> sl_iter step" where
  "slIter_Next it =
     (case si_cur it of
        None \<Rightarrow> Some (it, None)
      | Some a \<Rightarrow>
          (case next_ptr (si_nodes it) a 0 of
             None \<Rightarrow> None
           | Some p \<Rightarrow> Some (checkEnd (it\<lparr>si_cur := p\<rparr>), None)))"

definition slIter_HasTop :: "sl_iter \<Rightarrow> bool" where
  "slIter_HasTop it \<longleftrightarrow> si_cur it \<noteq> None"

definition slIter_GetTopKey :: "sl_iter \<Rightarrow> key option" where
  "slIter_GetTopKey it = map_option (\<lambda>a. nkey (si_nodes it ! a)) (si_cur it)"

definition slIter_GetTopValue :: "sl_iter \<Rightarrow> bytes" where
  "slIter_GetTopValue it = (case si_cur it of None \<Rightarrow> [] | Some a \<Rightarrow> nvalue (si_nodes it ! a))"

definition slIter_DeepCopy :: "sl_iter \<Rightarrow> sl_iter" where
  "slIter_DeepCopy it = \<lparr>si_nodes = si_nodes it, si_cur = None, si_rng = zero_range\<rparr>"

definition slIter_skvi :: "sl_iter skvi" where
  "slIter_skvi = \<lparr>Seek = slIter_Seek, Next = slIter_Next, HasTop = slIter_HasTop,
                  GetTopKey = slIter_GetTopKey, GetTopValue = slIter_GetTopValue\<rparr>"

definition slIter_wf :: "sl_iter \<Rightarrow> bool" where
  "slIter_wf it \<longleftrightarrow> (\<exists>L as. threads (si_nodes it) L as)"

definition slIter_rem :: "sl_iter \<Rightarrow> cell list" where
  "slIter_rem it = filter (\<lambda>c. \<not> AfterEnd (si_rng it) (fst c)) (cells_from (si_nodes it) (si_cur it))"

definition slIter_ready :: "sl_iter \<Rightarrow> bool" where
  "slIter_ready it \<longleftrightarrow>
     (\<exists>suf. cursor (si_nodes it) (si_cur it) suf \<and>
        (suf \<noteq> [] \<longrightarrow> \<not> AfterEnd (si_rng it) (nkey (si_nodes it ! hd suf))))"

definition slIter_view :: "sl_iter \<Rightarrow> range \<Rightarrow> bytes list \<Rightarrow> bool \<Rightarrow> cell list" where
  "slIter_view it r cfs inclusive =
     filter (\<lambda>c. \<not> BeforeStart r (fst c) \<and> \<not> AfterEnd r (fst c)) (contents (si_nodes it))"

lemma checkEnd_alt:
  "checkEnd it = (case si_cur it of None \<Rightarrow> it
     | Some a \<Rightarrow> if AfterEnd (si_rng it) (nkey (si_nodes it ! a)) then it\<lparr>si_cur := None\<rparr> else it)"
  by (simp add: checkEnd_def AfterEnd_def Let_def split: option.split)

lemma checkEnd_spec:
  assumes "cursor (si_nodes it) (si_cur it) suf"
  shows "slIter_ready (checkEnd it)" "si_nodes (checkEnd it) = si_nodes it"
    "slIter_rem (checkEnd it) = filter (\<lambda>c. \<not> AfterEnd (si_rng it) (fst c)) (map (cell_at (si_nodes it)) suf)"
proof -
  let ?ns = "si_nodes it"
  have "\<exists>L pre. threads ?ns L (pre @ suf)" using assms by (simp add: cursor_def)
  then have nil: "cursor ?ns None []" unfolding cursor_def by (metis append_Nil2 append_assoc ptr_simps(1))
  have cur: "si_cur it = ptr suf" using assms by (simp add: cursor_def)
  have past: "filter (\<lambda>c. \<not> AfterEnd (si_rng it) (fst c)) (map (cell_at ?ns) suf) = []"
    if "suf = a # as" "AfterEnd (si_rng it) (nkey (?ns ! a))" for a as
    using filter_not_AfterEnd [OF cursor_sorted [OF assms], of "si_rng it"] that by (simp add: cell_at_def)
  show "si_nodes (checkEnd it) = si_nodes it"
    by (simp add: checkEnd_alt split: option.split)
  show "slIter_ready (checkEnd it)"
    using assms nil cur by (cases suf) (auto simp: checkEnd_alt slIter_ready_def)
  show "slIter_rem (checkEnd it) = filter (\<lambda>c. \<not> AfterEnd (si_rng it) (fst c)) (map (cell_at ?ns) suf)"
    using cursor_cells [OF assms] cur past
    by (cases suf) (auto simp: checkEnd_alt slIter_rem_def cells_from_def cell_at_def)
qed

lemma slIter_seek:
  assumes "slIter_wf it"
  shows "\<exists>it'. slIter_Seek r cfs inclusive it = Some (it', None) \<and> slIter_ready it' \<and>
    slIter_rem it' = slIter_view it r cfs inclusive \<and> slIter_view it' = slIter_view it"
proof -
  let ?ns = "si_nodes it"
  obtain L as where as: "threads ?ns L as" using assms by (auto simp: slIter_wf_def)
  have sorted: "sorted (map (\<lambda>a. nkey (?ns ! a)) as)" using as by (simp add: threads_def)
  let ?suf = "dropWhile (\<lambda>a. BeforeStart r (nkey (?ns ! a))) as"
  have first: "next_ptr ?ns 0 0 = Some (ptr as)"
    using linked_next [of ?ns 0 "[]" 0 as] threads_order(1) [OF as] by (simp add: ptr_def)
  have c0: "cursor ?ns (ptr as) as" using as unfolding cursor_def by (metis append_Nil)
  have "\<exists>q. (case (if InfiniteStart r then None else Start r) of
        None \<Rightarrow> Some (ptr as)
      | Some k \<Rightarrow>
          (case advance_while ?ns (\<lambda>j. Compare j k < 0) (ptr as) of
             None \<Rightarrow> None
           | Some q \<Rightarrow>
               if StartInclusive r then Some q else advance_while ?ns (\<lambda>j. Compare j k = 0) q)) = Some q \<and>
      cursor ?ns q ?suf"
  proof (cases "if InfiniteStart r then None else Start r")
    case None
    then have "\<not> BeforeStart r k" for k by (auto simp: BeforeStart_iff split: if_splits)
    with None c0 show ?thesis by simp
  next
    case (Some k)
    then have start: "\<not> InfiniteStart r" "Start r = Some k" by (auto split: if_splits)
    let ?up = "dropWhile (\<lambda>a. nkey (?ns ! a) < k) as"
    have up: "advance_while ?ns (\<lambda>j. Compare j k < 0) (ptr as) = Some (ptr ?up)" "cursor ?ns (ptr ?up) ?up"
      using advance_while_spec [OF c0, of "\<lambda>j. Compare j k < 0"] by auto
    show ?thesis
    proof (cases "StartInclusive r")
      case True
      then have "BeforeStart r j \<longleftrightarrow> j < k" for j using start by (auto simp: BeforeStart_iff)
      with up True Some show ?thesis by simp
    next
      case False
      then have "BeforeStart r j \<longleftrightarrow> j \<le> k" for j using start by (auto simp: BeforeStart_iff)
      then show ?thesis
        using advance_while_spec [OF up(2), of "\<lambda>j. Compare j k = 0"] up(1) False Some sorted
        by (simp add: dropWhile_eq_dropWhile_less)
    qed
  qed
  then obtain q where q: "slIter_Seek r cfs inclusive it = Some (checkEnd (it\<lparr>si_rng := r, si_cur := q\<rparr>), None)"
      "cursor ?ns q ?suf"
    using first by (auto simp: slIter_Seek_def Let_def)
  let ?it = "it\<lparr>si_rng := r, si_cur := q\<rparr>"
  have end': "slIter_ready (checkEnd ?it)" "si_nodes (checkEnd ?it) = ?ns"
      "slIter_rem (checkEnd ?it) = filter (\<lambda>c. \<not> AfterEnd r (fst c)) (map (cell_at ?ns) ?suf)"
    using checkEnd_spec [of ?it ?suf] q(2) by auto
  have "slIter_rem (checkEnd ?it) = slIter_view it r cfs inclusive"
    unfolding end'(3) slIter_view_def map_dropWhile_cell contents_threads [OF as, symmetric]
      filter_not_BeforeStart [OF sorted_contents [OF as], symmetric] filter_filter
    by (rule filter_cong) auto
  moreover have "slIter_view (checkEnd ?it) = slIter_view it"
    using end'(2) by (simp add: slIter_view_def fun_eq_iff)
  ultimately show ?thesis using q(1) end'(1) by blast
qed

interpretation slIter: skvi slIter_skvi slIter_wf slIter_ready slIter_rem slIter_view
proof
  fix it assume "slIter_ready it"
  then obtain suf where suf: "cursor (si_nodes it) (si_cur it) suf"
      "suf \<noteq> [] \<longrightarrow> \<not> AfterEnd (si_rng it) (nkey (si_nodes it ! hd suf))"
    by (auto simp: slIter_ready_def)
  show "slIter_wf it" using suf(1) by (auto simp: slIter_wf_def cursor_def)
  have rem: "slIter_rem it = filter (\<lambda>c. \<not> AfterEnd (si_rng it) (fst c)) (map (cell_at (si_nodes it)) suf)"
    using cursor_cells [OF suf(1)] by (simp add: slIter_rem_def)
  show "HasTop slIter_skvi it \<longleftrightarrow> slIter_rem it \<noteq> []"
    unfolding rem using suf
    by (cases suf) (auto simp: slIter_skvi_def slIter_HasTop_def cursor_def cell_at_def)
  show "sorted_cells (slIter_rem it)"
    unfolding rem using cursor_sorted [OF suf(1)] by (rule sorted_cells_filter)
next
  fix it c cs assume it: "slIter_ready it" "slIter_rem it = c # cs"
  then obtain suf where suf: "cursor (si_nodes it) (si_cur it) suf"
      "suf \<noteq> [] \<longrightarrow> \<not> AfterEnd (si_rng it) (nkey (si_nodes it ! hd suf))"
    by (auto simp: slIter_ready_def)
  have rem: "c # cs = filter (\<lambda>c. \<not> AfterEnd (si_rng it) (fst c)) (map (cell_at (si_nodes it)) suf)"
    using cursor_cells [OF suf(1)] it(2) by (simp add: slIter_rem_def)
  then obtain a as where a: "suf = a # as" by (cases suf) auto
  have c: "c = cell_at (si_nodes it) a"
    "cs = filter (\<lambda>c. \<not> AfterEnd (si_rng it) (fst c)) (map (cell_at (si_nodes it)) as)"
    using rem suf(2) a by (auto simp: cell_at_def)
  note n = cursor_next [OF suf(1) [unfolded a]]
  show "GetTopKey slIter_skvi it = Some (fst c)" "GetTopValue slIter_skvi it = snd c"
    using n(3) c(1) by (simp_all add: slIter_skvi_def slIter_GetTopKey_def slIter_GetTopValue_def cell_at_def)
  from checkEnd_spec [of "it\<lparr>si_cur := ptr as\<rparr>" as] n c(2)
  show "\<exists>it'. Next slIter_skvi it = Some (it', None) \<and> slIter_ready it' \<and> slIter_rem it' = cs \<and>
      slIter_view it' = slIter_view it"
    by (simp add: slIter_skvi_def slIter_Next_def slIter_view_def fun_eq_iff)
qed (simp add: slIter_skvi_def slIter_seek)

section \<open>Properties\<close>

text \<open>
  C21: the tablet's own memtable keeps, whatever levels it draws, exactly the cells
  inserted, sorted, the writes of one key newest first, and its counters \<^verbatim>\<open>Len\<close> and
  \<^verbatim>\<open>Deletes\<close> are the number of cells and of tombstones inserted.
\<close>

theorem sl_inserts_sort:
  "\<exists>sl. sl_insert_all cs (newSkiplistMemtable seed) = Some sl \<and>
     sorted_cells (sl_cells sl) \<and> mset (sl_cells sl) = mset cs \<and>
     (\<forall>k. filter (\<lambda>c. fst c = k) (sl_cells sl) = rev (filter (\<lambda>c. fst c = k) cs)) \<and>
     sl_Len sl = length cs \<and> sl_Deletes sl = length (filter (\<lambda>c. Deleted (fst c)) cs)"
proof -
  from sl_insert_all_spec [OF sl_ok_new(1), of cs seed] obtain sl where
    sl: "sl_insert_all cs (newSkiplistMemtable seed) = Some sl" "sl_ok sl" "sl_cells sl = inserted cs []"
    unfolding sl_ok_new(2) by blast
  have m: "mset (sl_cells sl) = mset cs"
    using inserted_spec [of "[]" cs] sl(3) by simp
  then have "length (sl_cells sl) = length cs"
    "length (filter (\<lambda>c. Deleted (fst c)) (sl_cells sl)) = length (filter (\<lambda>c. Deleted (fst c)) cs)"
    by (simp_all flip: size_mset)
  with sl m show ?thesis
    using inserted_spec [of "[]" cs] by (simp add: sl_ok_def sl_Len_def sl_Deletes_def)
qed

text \<open>
  The iterator of the tablet's memtable returns every cell of the range, in order,
  and ignores the family filter it is given.
\<close>

theorem slIter_scan:
  "\<exists>sl it. sl_insert_all cs (newSkiplistMemtable seed) = Some sl \<and>
     slIter_Seek r cfs inclusive (sl_Iterator sl) = Some (it, None) \<and>
     drain_loop slIter_skvi [] it = Some (filter (\<lambda>c. Contains r (fst c)) (inserted cs []), None)"
proof -
  from sl_insert_all_spec [OF sl_ok_new(1), of cs seed] obtain sl where
    sl: "sl_insert_all cs (newSkiplistMemtable seed) = Some sl" "sl_ok sl" "sl_cells sl = inserted cs []"
    unfolding sl_ok_new(2) by blast
  have "slIter_wf (sl_Iterator sl)"
    using sl(2) by (auto simp: slIter_wf_def sl_Iterator_def sl_ok_def)
  from slIter.scan_spec [OF this, of r cfs inclusive] sl show ?thesis
    by (simp add: slIter_skvi_def slIter_view_def sl_Iterator_def Contains_iff)
qed

end
