(* ===== verification/Tablet_Names.thy ===== *)
theory Tablet_Names
  imports Shoal_Prelude
begin

text \<open>
  Names of a tablet's immutable files (\<^verbatim>\<open>internal/tablet/tablet.go\<close>): a flush is
  \<^verbatim>\<open>F<millis>\<close> and a compaction output \<^verbatim>\<open>C<millis>-<index>\<close>, with the extension of the file
  format. A new name starts above the largest millisecond the tablet ever used and skips
  names in use and names some other writer took in the directory. The theory shows that
  the searches for a free name end, and that a name found is new. Names are base names:
  \<^verbatim>\<open>filepath.Join(dir, name)\<close> and \<^verbatim>\<open>filepath.Base\<close> of a path under the tablet's directory
  are inverse to each other and are left out.
\<close>

section \<open>File formats\<close>

datatype FileFormat = FormatRFile | FormatParquet

definition ParseFileFormat :: "string \<Rightarrow> FileFormat res" where
  "ParseFileFormat v =
     (if v = '''' \<or> v = ''rfile'' then Inr FormatRFile
      else if v = ''parquet'' then Inr FormatParquet
      else Inl (Errorf ''tablet: unsupported file format (want rfile or parquet)''))"

definition extension :: "FileFormat \<Rightarrow> string" where
  "extension f = (if f = FormatParquet then ''.parquet'' else ''.rf'')"

text \<open>\<^verbatim>\<open>filepath.Ext\<close>: the suffix from the last dot, empty without one.\<close>

definition filepath_Ext :: "string \<Rightarrow> string" where
  "filepath_Ext path =
     (if CHR ''.'' \<in> set path then CHR ''.'' # rev (takeWhile (\<lambda>c. c \<noteq> CHR ''.'') (rev path))
      else [])"

definition fileFormat :: "string \<Rightarrow> FileFormat" where
  "fileFormat path = (if filepath_Ext path = ''.parquet'' then FormatParquet else FormatRFile)"

section \<open>Decimal numbers\<close>

text \<open>The digits of a number, and \<^verbatim>\<open>%0<w>d\<close> of \<^verbatim>\<open>fmt.Sprintf\<close> for a number that is not negative.\<close>

definition digit :: "nat \<Rightarrow> char" where
  "digit d = char_of (d + 48)"

fun digits :: "nat \<Rightarrow> string" where
  "digits n = (if n < 10 then [digit n] else digits (n div 10) @ [digit (n mod 10)])"

declare digits.simps [simp del]

definition zero_padded :: "nat \<Rightarrow> nat \<Rightarrow> string" where
  "zero_padded w n = replicate (w - length (digits n)) (CHR ''0'') @ digits n"

lemma of_char_digit_nat [simp]: "d < 10 \<Longrightarrow> (of_char (digit d) :: nat) = d + 48"
  by (simp add: digit_def of_char_of)

lemma of_char_digit [simp]: "d < 10 \<Longrightarrow> (of_char (digit d) :: int) = int d + 48"
  using of_nat_of_char [of "digit d", where 'a = int] by simp

lemma decimal_snoc: "decimal (ds @ [c]) = 10 * decimal ds + (of_char c - 48)"
  by (simp add: decimal_def)

lemma decimal_digits: "decimal (digits n) = int n"
proof (induction n rule: digits.induct)
  case (1 n)
  show ?case
  proof (cases "n < 10")
    case True
    then show ?thesis by (simp add: digits.simps [of n] decimal_def)
  next
    case False
    have "int n = 10 * int (n div 10) + int (n mod 10)"
      by (metis mult_div_mod_eq of_nat_add of_nat_mult of_nat_numeral)
    with 1 False show ?thesis
      by (simp add: digits.simps [of n] decimal_snoc)
  qed
qed

lemma is_digit_digits: "list_all is_digit (digits n)"
proof (induction n rule: digits.induct)
  case (1 n)
  then show ?case
    by (cases "n < 10") (simp_all add: digits.simps [of n] is_digit_def)
qed

lemma length_digits: "n < 10 ^ Suc k \<Longrightarrow> length (digits n) \<le> Suc k"
proof (induction k arbitrary: n)
  case 0
  then show ?case by (simp add: digits.simps [of n])
next
  case (Suc k)
  then have "n div 10 < 10 ^ Suc k"
    by (simp add: div_less_iff_less_mult mult.commute)
  from Suc.IH [OF this] show ?case
    by (simp add: digits.simps [of n])
qed

lemma decimal_padding: "decimal (replicate k (CHR ''0'') @ ds) = decimal ds"
  by (induction k) (simp_all add: decimal_def)

lemma decimal_zero_padded: "decimal (zero_padded w n) = int n"
  by (simp add: zero_padded_def decimal_padding decimal_digits)

lemma is_digit_zero_padded: "list_all is_digit (zero_padded w n)"
  using is_digit_digits [of n] by (auto simp: zero_padded_def list_all_iff is_digit_def)

lemma length_zero_padded: "length (zero_padded w n) = max w (length (digits n))"
  by (simp add: zero_padded_def)

lemma length_zero_padded_13: "n < 10 ^ 13 \<Longrightarrow> length (zero_padded 13 n) = 13"
  using length_digits [of n 12] by (simp add: length_zero_padded)

section \<open>Names\<close>

definition flushName :: "int \<Rightarrow> string \<Rightarrow> string" where
  "flushName base ext = ''F'' @ zero_padded 13 (nat base) @ ext"

definition compactionName :: "int \<Rightarrow> nat \<Rightarrow> string \<Rightarrow> string" where
  "compactionName base index ext =
     ''C'' @ zero_padded 13 (nat base) @ ''-'' @ zero_padded 3 index @ ext"

text \<open>The digits loop of \<^verbatim>\<open>nameMillis\<close>; a result is only given with 13 digits, so it is exact.\<close>

fun millis_loop :: "string \<Rightarrow> int \<Rightarrow> int option" where
  "millis_loop [] ms = Some ms"
| "millis_loop (c # cs) ms =
     (if \<not> is_digit c then None else millis_loop cs (ms * 10 + (of_char c - 48)))"

definition nameMillis :: "string \<Rightarrow> int option" where
  "nameMillis name =
     (if length name < 14 \<or> (name ! 0 \<noteq> CHR ''F'' \<and> name ! 0 \<noteq> CHR ''C'') then None
      else millis_loop (take 13 (drop 1 name)) 0)"

fun namesHighWater :: "int \<Rightarrow> string list \<Rightarrow> int" where
  "namesHighWater floor' [] = floor'"
| "namesHighWater floor' (name # names) =
     namesHighWater (case nameMillis name of
        Some ms \<Rightarrow> if ms > floor' then ms else floor'
      | None \<Rightarrow> floor') names"

definition nextNameMillis :: "int \<Rightarrow> int \<Rightarrow> int" where
  "nextNameMillis now nameHighWater = (if now \<le> nameHighWater then nameHighWater + 1 else now)"

text \<open>The loop \<^verbatim>\<open>for { if free(base) { return base }; base++ }\<close>; \<open>None\<close> is not returning.\<close>

partial_function (option) first_free :: "(int \<Rightarrow> bool) \<Rightarrow> int \<Rightarrow> int option" where
  "first_free taken base = (if taken base then first_free taken (base + 1) else Some base)"

definition uniqueFlushName :: "int \<Rightarrow> string \<Rightarrow> string list \<Rightarrow> string option" where
  "uniqueFlushName base ext existing =
     map_option (\<lambda>base. flushName base ext)
       (first_free (\<lambda>base. flushName base ext \<in> set existing) base)"

definition uniqueCompactionBase :: "int \<Rightarrow> nat \<Rightarrow> string \<Rightarrow> string list \<Rightarrow> int option" where
  "uniqueCompactionBase base outputs ext existing =
     first_free (\<lambda>base. list_ex (\<lambda>index. compactionName base index ext \<in> set existing) [0..<outputs]) base"

text \<open>
  The searches that also probe the directory; \<open>probe\<close> is \<^verbatim>\<open>objectExists\<close>, which fails or
  says whether an object has the name.
\<close>

partial_function (option) freeFlushName ::
    "(string \<Rightarrow> bool res) \<Rightarrow> int \<Rightarrow> string \<Rightarrow> string list \<Rightarrow> string res option" where
  "freeFlushName probe millis ext existing =
     (case uniqueFlushName millis ext existing of
        None \<Rightarrow> None
      | Some name \<Rightarrow>
          (case probe name of
             Inl e \<Rightarrow> Some (Inl (Wrap ''tablet: probe flush name'' e))
           | Inr present \<Rightarrow>
               if \<not> present then Some (Inr name)
               else freeFlushName probe millis ext (name # existing)))"

text \<open>The probe loop over the output names of one base: the first name present, if one is.\<close>

fun probe_names :: "(string \<Rightarrow> bool res) \<Rightarrow> string list \<Rightarrow> string option res" where
  "probe_names probe [] = Inr None"
| "probe_names probe (name # names) =
     rbind (rwrap ''tablet: probe compaction name'' (probe name)) (\<lambda>present.
       if present then Inr (Some name) else probe_names probe names)"

partial_function (option) freeCompactionBase ::
    "(string \<Rightarrow> bool res) \<Rightarrow> int \<Rightarrow> nat \<Rightarrow> string \<Rightarrow> string list \<Rightarrow> int res option" where
  "freeCompactionBase probe millis outputs ext existing =
     (case uniqueCompactionBase millis outputs ext existing of
        None \<Rightarrow> None
      | Some base \<Rightarrow>
          (case probe_names probe (map (\<lambda>index. compactionName base index ext) [0..<outputs]) of
             Inl e \<Rightarrow> Some (Inl e)
           | Inr None \<Rightarrow> Some (Inr base)
           | Inr (Some name) \<Rightarrow> freeCompactionBase probe millis outputs ext (name # existing)))"

section \<open>Milliseconds in names\<close>

lemma millis_loop_digits:
  "list_all is_digit ds \<Longrightarrow> millis_loop ds ms = Some (foldl (\<lambda>n c. 10 * n + (of_char c - 48)) ms ds)"
  by (induction ds arbitrary: ms) (simp_all add: mult.commute)

lemma millis_loop_decimal: "list_all is_digit ds \<Longrightarrow> millis_loop ds 0 = Some (decimal ds)"
  by (simp add: millis_loop_digits decimal_def)

lemma nameMillis_padded:
  assumes "0 \<le> base" "base < 10 ^ 13" "c = CHR ''F'' \<or> c = CHR ''C''"
  shows "nameMillis (c # zero_padded 13 (nat base) @ rest) = Some base"
proof -
  have "nat base < 10 ^ 13"
    using assms by (simp add: nat_less_iff)
  then have "length (zero_padded 13 (nat base)) = 13"
    by (rule length_zero_padded_13)
  then show ?thesis
    using assms millis_loop_decimal [OF is_digit_zero_padded [of 13 "nat base"]]
    by (auto simp: nameMillis_def decimal_zero_padded)
qed

lemma nameMillis_flushName: "0 \<le> base \<Longrightarrow> base < 10 ^ 13 \<Longrightarrow> nameMillis (flushName base ext) = Some base"
  by (simp add: flushName_def nameMillis_padded)

lemma nameMillis_compactionName:
  "0 \<le> base \<Longrightarrow> base < 10 ^ 13 \<Longrightarrow> nameMillis (compactionName base index ext) = Some base"
  by (simp add: compactionName_def nameMillis_padded)

lemma namesHighWater_ge_floor: "floor' \<le> namesHighWater floor' names"
proof (induction names arbitrary: floor')
  case (Cons name names)
  have "floor' \<le> (case nameMillis name of Some ms \<Rightarrow> if ms > floor' then ms else floor' | None \<Rightarrow> floor')"
    by (auto split: option.splits)
  also note Cons.IH
  finally show ?case by simp
qed simp

lemma namesHighWater_ge:
  "name \<in> set names \<Longrightarrow> nameMillis name = Some ms \<Longrightarrow> ms \<le> namesHighWater floor' names"
proof (induction names arbitrary: floor')
  case (Cons a names)
  show ?case
  proof (cases "name = a")
    case True
    have "ms \<le> (case nameMillis a of Some ms \<Rightarrow> if ms > floor' then ms else floor' | None \<Rightarrow> floor')"
      using Cons.prems True by simp
    also note namesHighWater_ge_floor
    finally show ?thesis by simp
  qed (use Cons in simp)
qed simp

lemma nextNameMillis_above: "hw < nextNameMillis now hw"
  by (simp add: nextNameMillis_def)

section \<open>The searches end\<close>

lemma first_free_returns:
  assumes "finite {k. base \<le> k \<and> taken k}"
  shows "\<exists>k. first_free taken base = Some k \<and> base \<le> k \<and> \<not> taken k"
  using assms
proof (induction "card {k. base \<le> k \<and> taken k}" arbitrary: base rule: less_induct)
  case less
  show ?case
  proof (cases "taken base")
    case False
    then show ?thesis by (simp add: first_free.simps [of taken base])
  next
    case True
    have "base \<in> {k. base \<le> k \<and> taken k}" "base \<notin> {k. base + 1 \<le> k \<and> taken k}"
      using True by auto
    moreover have "{k. base + 1 \<le> k \<and> taken k} \<subseteq> {k. base \<le> k \<and> taken k}"
      by auto
    ultimately have "{k. base + 1 \<le> k \<and> taken k} \<subset> {k. base \<le> k \<and> taken k}"
      by blast
    then have "card {k. base + 1 \<le> k \<and> taken k} < card {k. base \<le> k \<and> taken k}"
        "finite {k. base + 1 \<le> k \<and> taken k}"
      using less.prems psubset_card_mono finite_subset by blast+
    from less.hyps [OF this] True show ?thesis
      by (auto simp: first_free.simps [of taken base])
  qed
qed

lemma zero_padded_inj: "zero_padded w a = zero_padded w b \<Longrightarrow> a = b"
  by (metis decimal_zero_padded of_nat_eq_iff)

lemma inj_flushName: "inj_on (\<lambda>base. flushName base ext) {0..}"
  by (auto intro!: inj_onI simp: flushName_def dest!: zero_padded_inj)

lemma inj_compactionName: "inj_on (\<lambda>base. compactionName base index ext) {0..}"
  by (auto intro!: inj_onI simp: compactionName_def dest!: zero_padded_inj)

lemma uniqueFlushName_returns:
  assumes "0 \<le> base"
  shows "\<exists>k\<ge>base. uniqueFlushName base ext existing = Some (flushName k ext) \<and>
    flushName k ext \<notin> set existing"
proof -
  have "finite {k \<in> {0..}. flushName k ext \<in> set existing}"
    by (rule finite_inverse_image_gen [OF _ inj_flushName]) simp
  then have "finite {k. base \<le> k \<and> flushName k ext \<in> set existing}"
    by (rule rev_finite_subset) (use assms in auto)
  from first_free_returns [OF this] show ?thesis
    by (auto simp: uniqueFlushName_def)
qed

lemma uniqueCompactionBase_returns:
  assumes "0 \<le> base"
  shows "\<exists>k\<ge>base. uniqueCompactionBase base outputs ext existing = Some k \<and>
    (\<forall>index<outputs. compactionName k index ext \<notin> set existing)"
proof -
  have "finite {k \<in> {0..}. compactionName k index ext \<in> set existing}" for index
    by (rule finite_inverse_image_gen [OF _ inj_compactionName]) simp
  then have "finite (\<Union>index<outputs. {k \<in> {0..}. compactionName k index ext \<in> set existing})"
    by simp
  then have "finite {k. base \<le> k \<and>
      list_ex (\<lambda>index. compactionName k index ext \<in> set existing) [0..<outputs]}"
    by (rule rev_finite_subset) (use assms in \<open>auto simp: list_ex_iff\<close>)
  from first_free_returns [OF this] show ?thesis
    by (auto simp: uniqueCompactionBase_def list_ex_iff)
qed

text \<open>The objects present in the directory are finitely many, so the probing search ends too.\<close>

lemma present_less:
  assumes "finite P" "name \<in> P" "name \<notin> set existing"
  shows "card (P - set (name # existing)) < card (P - set existing)"
  using assms by (intro psubset_card_mono) auto

lemma freeFlushName_returns:
  assumes "finite {n. probe n = Inr True}" "0 \<le> millis"
  shows "\<exists>r. freeFlushName probe millis ext existing = Some r \<and>
    (\<forall>name. r = Inr name \<longrightarrow> (\<exists>k\<ge>millis. name = flushName k ext) \<and> name \<notin> set existing \<and>
       probe name = Inr False)"
proof (induction "card ({n. probe n = Inr True} - set existing)" arbitrary: existing rule: less_induct)
  case less
  obtain k where k: "k \<ge> millis" "uniqueFlushName millis ext existing = Some (flushName k ext)"
      "flushName k ext \<notin> set existing"
    using uniqueFlushName_returns [OF assms(2)] by blast
  show ?case
  proof (cases "probe (flushName k ext)")
    case (Inl e)
    with k show ?thesis by (simp add: freeFlushName.simps [of _ _ _ existing])
  next
    case (Inr present)
    show ?thesis
    proof (cases present)
      case True
      have "card ({n. probe n = Inr True} - set (flushName k ext # existing))
          < card ({n. probe n = Inr True} - set existing)"
        using assms(1) k(3) Inr True by (intro present_less) auto
      from less.hyps [OF this] k(2) Inr True show ?thesis
        by (simp add: freeFlushName.simps [of _ _ _ existing]) fastforce
    qed (use k Inr in \<open>auto simp: freeFlushName.simps [of _ _ _ existing]\<close>)
  qed
qed

lemma probe_names_None: "probe_names probe names = Inr None \<Longrightarrow> \<forall>n\<in>set names. probe n = Inr False"
  by (induction names) (auto simp: res_simps split: if_splits)

lemma probe_names_Some: "probe_names probe names = Inr (Some n) \<Longrightarrow> n \<in> set names \<and> probe n = Inr True"
  by (induction names) (auto simp: res_simps split: if_splits)

lemma freeCompactionBase_returns:
  assumes "finite {n. probe n = Inr True}" "0 \<le> millis"
  shows "\<exists>r. freeCompactionBase probe millis outputs ext existing = Some r \<and>
    (\<forall>base. r = Inr base \<longrightarrow> millis \<le> base \<and> (\<forall>index<outputs.
       compactionName base index ext \<notin> set existing \<and>
       probe (compactionName base index ext) = Inr False))"
proof (induction "card ({n. probe n = Inr True} - set existing)" arbitrary: existing rule: less_induct)
  case less
  obtain k where k: "k \<ge> millis" "uniqueCompactionBase millis outputs ext existing = Some k"
      "\<forall>index<outputs. compactionName k index ext \<notin> set existing"
    using uniqueCompactionBase_returns [OF assms(2)] by blast
  let ?names = "map (\<lambda>index. compactionName k index ext) [0..<outputs]"
  consider e where "probe_names probe ?names = Inl e" | "probe_names probe ?names = Inr None"
    | n where "probe_names probe ?names = Inr (Some n)"
    by (metis not_None_eq sumE)
  then show ?case
  proof cases
    case 2
    then show ?thesis
      using k probe_names_None [OF 2] by (simp add: freeCompactionBase.simps [of _ _ _ _ existing])
  next
    case (3 n)
    with k(3) have n: "n \<notin> set existing" "probe n = Inr True"
      using probe_names_Some [OF 3] by auto
    have "card ({n. probe n = Inr True} - set (n # existing))
        < card ({n. probe n = Inr True} - set existing)"
      using assms(1) n by (intro present_less) auto
    from less.hyps [OF this] k(2) 3 show ?thesis
      by (simp add: freeCompactionBase.simps [of _ _ _ _ existing]) fastforce
  qed (use k in \<open>simp add: freeCompactionBase.simps [of _ _ _ _ existing]\<close>)
qed

section \<open>Extensions of new names\<close>

lemma filepath_Ext_append:
  assumes "CHR ''.'' \<notin> set ext"
  shows "filepath_Ext (s @ CHR ''.'' # ext) = CHR ''.'' # ext"
proof -
  have "takeWhile (\<lambda>c. c \<noteq> CHR ''.'') (rev ext @ CHR ''.'' # rev s) = rev ext"
    using assms by (subst takeWhile_append2) auto
  then show ?thesis by (simp add: filepath_Ext_def)
qed

lemma filepath_Ext_extension: "filepath_Ext (s @ extension fmt) = extension fmt"
  using filepath_Ext_append [of "''rf''" s] filepath_Ext_append [of "''parquet''" s]
  by (cases fmt) (simp_all add: extension_def)

lemma filepath_Ext_flushName: "filepath_Ext (flushName k (extension fmt)) = extension fmt"
  using filepath_Ext_extension [of "''F'' @ zero_padded 13 (nat k)" fmt] by (simp add: flushName_def)

lemma filepath_Ext_compactionName:
  "filepath_Ext (compactionName k i (extension fmt)) = extension fmt"
  using filepath_Ext_extension [of "''C'' @ zero_padded 13 (nat k) @ ''-'' @ zero_padded 3 i" fmt]
  by (simp add: compactionName_def)

lemma extension_cases: "extension fmt = ''.rf'' \<or> extension fmt = ''.parquet''"
  by (simp add: extension_def)

end
