(* ===== verification/Tablet_Manifest.thy ===== *)
theory Tablet_Manifest
  imports Tablet_Names "HOL-Library.AList" "HOL-Library.Char_ord"
begin

text \<open>
  The durable state of a tablet's directory (\<^verbatim>\<open>internal/tablet/tablet.go\<close>): the objects of
  its storage backend and the manifest \<^verbatim>\<open>files.json\<close>, which lists the live files in recency
  order. \<open>persistImmutableManifest\<close> writes a generation and \<open>discoverImmutableFiles\<close> reads
  it back; the theory shows that a generation survives the round trip with its order, and
  that a manifest whose file is missing is refused.

  A Go set (\<^verbatim>\<open>map[string]struct{}\<close>) is the list of its elements, a Go map is a HOL map, and
  the objects of the directory are an association list; \<^verbatim>\<open>encoding/json\<close> returns the value
  it was given. The order in which Go iterates over a map is not specified; where the code
  iterates over one, its result does not depend on the order.
\<close>

type_synonym strset = "string list"

section \<open>Errors of committed writes\<close>

text \<open>\<^verbatim>\<open>storage.IsCommittedWriteError\<close>: the error, or one it wraps, carries the mark.\<close>

fun IsCommittedWriteError :: "go_err \<Rightarrow> bool" where
  "IsCommittedWriteError (CommittedWriteError e) = True"
| "IsCommittedWriteError (Wrap m e) = IsCommittedWriteError e"
| "IsCommittedWriteError (Joined es) = (\<exists>e\<in>set es. IsCommittedWriteError e)"
| "IsCommittedWriteError e = False"

section \<open>Generations\<close>

record immutableState =
  is_active :: "string list"
  is_obsolete :: strset
  is_nameHighWater :: int
  is_sources :: "string \<rightharpoonup> string"
  is_absorbed :: strset
  is_minted :: "string \<rightharpoonup> string"
  is_exported :: "string \<rightharpoonup> int"
  is_exportedLineage :: bool
  is_tombstoneFree :: strset
  is_assumedAt :: int

record immutableManifest =
  mf_Version :: int
  mf_Ordered :: bool
  mf_NameHighWater :: int
  mf_Active :: "string list"
  mf_Obsolete :: "string list"
  mf_Sources :: "string \<rightharpoonup> string"
  mf_AbsorbedSources :: "string list"
  mf_Minted :: "string \<rightharpoonup> string"
  mf_ExportTracked :: bool
  mf_Exported :: "string \<rightharpoonup> int"
  mf_ExportedLineage :: bool
  mf_TombstoneFree :: "string list"
  mf_AssumedExportAt :: int

definition immutableManifestVersion :: int where
  "immutableManifestVersion = 1"

definition importNamePrefix :: string where
  "importNamePrefix = ''.shoal-import-''"

text \<open>
  The objects of a directory by base name. \<open>'f\<close> is the content of an immutable file. A
  write reports an outcome: it takes effect if it reports no error or a committed one.
\<close>

datatype 'f object = File 'f | FilesJson immutableManifest

type_synonym 'f backend = "(string \<times> 'f object) list"

definition WriteAll :: "go_err option \<Rightarrow> string \<Rightarrow> 'f object \<Rightarrow> 'f backend \<Rightarrow> go_err option \<times> 'f backend" where
  "WriteAll io name obj b =
     (io, case io of
            None \<Rightarrow> AList.update name obj b
          | Some e \<Rightarrow> if IsCommittedWriteError e then AList.update name obj b else b)"

definition objectExists :: "(string \<Rightarrow> go_err option) \<Rightarrow> 'f backend \<Rightarrow> string \<Rightarrow> bool res" where
  "objectExists io b name =
     (case io name of Some e \<Rightarrow> Inl e | None \<Rightarrow> Inr (map_of b name \<noteq> None))"

definition removeObject :: "go_err option \<Rightarrow> string \<Rightarrow> 'f backend \<Rightarrow> go_err option \<times> 'f backend" where
  "removeObject io name b = (case io of Some e \<Rightarrow> (Some e, b) | None \<Rightarrow> (None, AList.delete name b))"

text \<open>A lookup in a Go map of strings or integers gives the zero value for a missing key.\<close>

definition get_string :: "(string \<rightharpoonup> string) \<Rightarrow> string \<Rightarrow> string" where
  "get_string m k = (case m k of None \<Rightarrow> [] | Some v \<Rightarrow> v)"

definition get_int :: "(string \<rightharpoonup> int) \<Rightarrow> string \<Rightarrow> int" where
  "get_int m k = (case m k of None \<Rightarrow> 0 | Some v \<Rightarrow> v)"

section \<open>Writing a generation\<close>

definition live_strings :: "string list \<Rightarrow> (string \<rightharpoonup> string) \<Rightarrow> string \<rightharpoonup> string" where
  "live_strings live m = (\<lambda>name. if name \<in> set live \<and> get_string m name \<noteq> [] then m name else None)"

definition live_times :: "string list \<Rightarrow> (string \<rightharpoonup> int) \<Rightarrow> string \<rightharpoonup> int" where
  "live_times live m = (\<lambda>name. if name \<in> set live \<and> get_int m name > 0 then m name else None)"

definition manifest_of :: "immutableState \<Rightarrow> immutableManifest" where
  "manifest_of state =
     \<lparr>mf_Version = immutableManifestVersion, mf_Ordered = True,
      mf_NameHighWater = namesHighWater (namesHighWater (is_nameHighWater state) (is_active state))
        (is_obsolete state),
      mf_Active = is_active state, mf_Obsolete = sort (is_obsolete state),
      mf_Sources = live_strings (is_active state) (is_sources state),
      mf_AbsorbedSources = sort (is_absorbed state),
      mf_Minted = live_strings (is_active state) (is_minted state),
      mf_ExportTracked = True, mf_Exported = live_times (is_active state) (is_exported state),
      mf_ExportedLineage = is_exportedLineage state,
      mf_TombstoneFree = sort (filter (\<lambda>name. name \<in> set (is_tombstoneFree state)) (is_active state)),
      mf_AssumedExportAt = is_assumedAt state\<rparr>"

definition persistImmutableManifest ::
    "go_err option \<Rightarrow> immutableState \<Rightarrow> 'f backend \<Rightarrow> go_err option \<times> 'f backend" where
  "persistImmutableManifest io state b = WriteAll io ''files.json'' (FilesJson (manifest_of state)) b"

section \<open>Reading a generation\<close>

text \<open>The comparison of \<^verbatim>\<open>legacyRecencyOrder\<close> is the order of the pairs (imported, name).\<close>

definition HasPrefix :: "string \<Rightarrow> string \<Rightarrow> bool" where
  "HasPrefix s p \<longleftrightarrow> take (length p) s = p"

definition legacyRecencyOrder :: "string list \<Rightarrow> string list" where
  "legacyRecencyOrder paths = sort_key (\<lambda>p. (HasPrefix p importNamePrefix, p)) paths"

definition assumeExportedUntracked :: "int \<Rightarrow> immutableState \<Rightarrow> immutableState" where
  "assumeExportedUntracked now state =
     (if length (is_active state) = 0 then state
      else state\<lparr>is_assumedAt := now,
                 is_exported := fold (\<lambda>name m. m(name \<mapsto> now)) (is_active state) (is_exported state)\<rparr>)"

text \<open>The immutable files among the objects, and the manifest if there is one.\<close>

definition available :: "'f backend \<Rightarrow> string list" where
  "available b = remdups (filter (\<lambda>name. name \<noteq> ''files.json'' \<and>
     (filepath_Ext name = ''.rf'' \<or> filepath_Ext name = ''.parquet'')) (map fst b))"

text \<open>
  The loop over the manifest's active list from position \<open>i\<close>: a missing file is an error, a
  name is kept at its last position only.
\<close>

fun active_loop :: "string list \<Rightarrow> string list \<Rightarrow> string list res" where
  "active_loop avail [] = Inr []"
| "active_loop avail (name # names) =
     (if name \<notin> set avail then Inl (Errorf ''authoritative immutable file is missing'')
      else rbind (active_loop avail names) (\<lambda>active.
        Inr (if name \<in> set names then active else name # active)))"

text \<open>
  \<open>now\<close> is the export clock; \<open>lio\<close> and \<open>io\<close> are the results of listing the directory and
  of reading the manifest.
\<close>

definition discoverImmutableFilesRaw ::
    "int \<Rightarrow> go_err option \<Rightarrow> go_err option \<Rightarrow> bool \<Rightarrow> 'f backend \<Rightarrow> immutableState res" where
  "discoverImmutableFilesRaw now lio io adoptUnknown b =
     (if lio \<noteq> None then Inl (the lio) else
      let avail = available b;
          highWater = namesHighWater 0 avail
      in case map_of b ''files.json'' of
           None \<Rightarrow>
             Inr (assumeExportedUntracked now
               \<lparr>is_active = legacyRecencyOrder avail, is_obsolete = [], is_nameHighWater = highWater,
                is_sources = Map.empty, is_absorbed = [], is_minted = Map.empty,
                is_exported = Map.empty, is_exportedLineage = False, is_tombstoneFree = [],
                is_assumedAt = 0\<rparr>)
         | Some obj \<Rightarrow>
             (case (io, obj) of
                (Some e, _) \<Rightarrow> Inl (Wrap ''read immutable manifest'' e)
              | (None, File _) \<Rightarrow> Inl (Errorf ''decode immutable manifest'')
              | (None, FilesJson manifest) \<Rightarrow>
                  if mf_Version manifest \<noteq> immutableManifestVersion
                  then Inl (Errorf ''unsupported immutable manifest version'')
                  else rbind (active_loop avail (mf_Active manifest)) (\<lambda>known.
                    let active = (if mf_Ordered manifest then known else legacyRecencyOrder known);
                        active = (if adoptUnknown
                          then active @ sort (filter (\<lambda>name. name \<notin> set known \<and>
                                 name \<notin> set (mf_Obsolete manifest)) avail)
                          else active);
                        state = \<lparr>is_active = active, is_obsolete = remdups (mf_Obsolete manifest),
                          is_nameHighWater = (if mf_NameHighWater manifest > highWater
                                              then mf_NameHighWater manifest else highWater),
                          is_sources = live_strings known (mf_Sources manifest),
                          is_absorbed = remdups (mf_AbsorbedSources manifest),
                          is_minted = live_strings known (mf_Minted manifest),
                          is_exported = Map.empty,
                          is_exportedLineage = mf_ExportedLineage manifest,
                          is_tombstoneFree = remdups (filter (\<lambda>name. name \<in> set known)
                            (mf_TombstoneFree manifest)),
                          is_assumedAt = mf_AssumedExportAt manifest\<rparr>
                    in Inr (if mf_ExportTracked manifest
                            then state\<lparr>is_exported := live_times known (mf_Exported manifest)\<rparr>
                            else assumeExportedUntracked now state))))"

definition discoverImmutableFiles ::
    "int \<Rightarrow> go_err option \<Rightarrow> go_err option \<Rightarrow> bool \<Rightarrow> 'f backend \<Rightarrow> immutableState res" where
  "discoverImmutableFiles now lio io adoptUnknown b =
     rbind (discoverImmutableFilesRaw now lio io adoptUnknown b) (\<lambda>state.
       Inr (state\<lparr>is_nameHighWater :=
         namesHighWater (namesHighWater (is_nameHighWater state) (is_active state)) (is_obsolete state)\<rparr>))"

section \<open>Objects\<close>

lemma map_of_WriteAll:
  "map_of (snd (WriteAll io name obj b)) =
     (if io = None \<or> IsCommittedWriteError (the io) then (map_of b)(name \<mapsto> obj) else map_of b)"
  by (auto simp: WriteAll_def update_conv' split: option.splits)

lemma map_of_removeObject:
  "map_of (snd (removeObject io name b)) = (if io = None then (map_of b)(name := None) else map_of b)"
  by (auto simp: removeObject_def delete_conv' split: option.splits)

lemma files_json_not_rf: "filepath_Ext ''files.json'' \<noteq> ''.rf''" "filepath_Ext ''files.json'' \<noteq> ''.parquet''"
  by (simp_all add: filepath_Ext_def)

lemma set_available: "set (available b) =
    {name. map_of b name \<noteq> None \<and> (filepath_Ext name = ''.rf'' \<or> filepath_Ext name = ''.parquet'')}"
  using files_json_not_rf by (auto simp: available_def map_of_eq_None_iff)

lemma objectExists_finite: "finite {n. objectExists io b n = Inr True}"
proof -
  have "{n. objectExists io b n = Inr True} \<subseteq> set (map fst b)"
    by (auto simp: objectExists_def split: option.splits dest: map_of_SomeD intro: image_eqI [rotated])
  then show ?thesis
    by (rule finite_subset) simp
qed

section \<open>The round trip of a generation\<close>

lemma active_loop_distinct:
  "distinct names \<Longrightarrow> set names \<subseteq> set avail \<Longrightarrow> active_loop avail names = Inr names"
  by (induction names) auto

lemma active_loop_missing:
  "\<not> set names \<subseteq> set avail \<Longrightarrow>
     active_loop avail names = Inl (Errorf ''authoritative immutable file is missing'')"
  by (induction names) auto

lemma active_loop_Inr: "active_loop avail names = Inr xs \<Longrightarrow> distinct xs \<and> set xs = set names \<and> set xs \<subseteq> set avail"
proof (induction names arbitrary: xs)
  case (Cons name names)
  from Cons.prems obtain ys where ys: "name \<in> set avail" "active_loop avail names = Inr ys"
      and xs: "xs = (if name \<in> set names then ys else name # ys)"
    by (cases "name \<in> set avail"; cases "active_loop avail names") auto
  from Cons.IH [OF ys(2)] ys(1) show ?case
    unfolding xs by auto
qed simp

lemma live_strings_idem [simp]: "live_strings live (live_strings live m) = live_strings live m"
  by (auto simp: live_strings_def get_string_def fun_eq_iff)

lemma live_times_idem [simp]: "live_times live (live_times live m) = live_times live m"
  by (auto simp: live_times_def get_int_def fun_eq_iff)

text \<open>The high-water mark a generation is written with covers all its names.\<close>

definition covered :: "immutableState \<Rightarrow> int" where
  "covered state = namesHighWater (namesHighWater (is_nameHighWater state) (is_active state)) (is_obsolete state)"

lemma discover_persisted:
  assumes mf: "map_of b ''files.json'' = Some (FilesJson (manifest_of state))"
    and active: "distinct (is_active state)" "set (is_active state) \<subseteq> set (available b)"
  obtains state' where "discoverImmutableFiles now None None False b = Inr state'"
    "is_active state' = is_active state" "set (is_obsolete state') = set (is_obsolete state)"
    "is_sources state' = live_strings (is_active state) (is_sources state)"
    "set (is_absorbed state') = set (is_absorbed state)"
    "is_minted state' = live_strings (is_active state) (is_minted state)"
    "is_exported state' = live_times (is_active state) (is_exported state)"
    "is_exportedLineage state' = is_exportedLineage state"
    "set (is_tombstoneFree state') = set (is_tombstoneFree state) \<inter> set (is_active state)"
    "is_assumedAt state' = is_assumedAt state" "covered state \<le> is_nameHighWater state'"
    "0 \<le> is_nameHighWater state'"
proof -
  let ?raw = "\<lparr>is_active = is_active state, is_obsolete = remdups (sort (is_obsolete state)),
    is_nameHighWater = (if covered state > namesHighWater 0 (available b) then covered state
       else namesHighWater 0 (available b)),
    is_sources = live_strings (is_active state) (is_sources state),
    is_absorbed = remdups (sort (is_absorbed state)),
    is_minted = live_strings (is_active state) (is_minted state),
    is_exported = live_times (is_active state) (is_exported state),
    is_exportedLineage = is_exportedLineage state,
    is_tombstoneFree = remdups (filter (\<lambda>name. name \<in> set (is_active state))
      (sort (filter (\<lambda>name. name \<in> set (is_tombstoneFree state)) (is_active state)))),
    is_assumedAt = is_assumedAt state\<rparr>"
  have raw: "discoverImmutableFilesRaw now None None False b = Inr ?raw"
    using mf active_loop_distinct [OF active]
    by (simp add: discoverImmutableFilesRaw_def manifest_of_def Let_def covered_def)
  have disc: "discoverImmutableFiles now None None False b = Inr (?raw\<lparr>is_nameHighWater := covered ?raw\<rparr>)"
    unfolding discoverImmutableFiles_def raw rbind.simps covered_def ..
  have "covered state \<le> covered ?raw"
    unfolding covered_def [of ?raw]
    by (intro order_trans [OF _ namesHighWater_ge_floor] order_trans [OF _ namesHighWater_ge_floor]) simp
  moreover have "0 \<le> covered ?raw"
    unfolding covered_def [of ?raw]
    by (intro order_trans [OF _ namesHighWater_ge_floor] order_trans [OF _ namesHighWater_ge_floor])
      (use namesHighWater_ge_floor [of 0 "available b"] in simp)
  ultimately show thesis
    by (intro that [OF disc]) auto
qed

end
