(* ===== verification/Cclient_Mutation.thy ===== *)
theory Cclient_Mutation
  imports Wire_Data
begin

text \<open>
  Mutations, the unit of every write (\<^verbatim>\<open>internal/cclient/mutation.go\<close>): a row and an
  ordered list of column updates, their projection onto sorted-store cells, and the compact
  wire form in which values of 32 KiB and more travel outside the update stream. The theory
  shows that the operations and the decoder keep the well-formedness a mutation must have,
  and that decoding an encoded mutation gives it back.
\<close>

section \<open>Mutations\<close>

definition mutationValueCopyCutoff :: int where
  "mutationValueCopyCutoff = 32768"

definition MutationLatestTimestamp :: int64 where
  "MutationLatestTimestamp = 9223372036854775807"

record mutation_entry =
  ColFamily :: bytes
  ColQualifier :: bytes
  ColVisibility :: bytes
  EntryTimestamp :: int64
  HasTimestamp :: bool
  EntryValue :: bytes
  EntryDeleted :: bool

record mutation =
  mut_row :: bytes
  mut_entries :: "mutation_entry list"

definition NewMutation :: "bytes \<Rightarrow> mutation res" where
  "NewMutation row =
     (if length row = 0 then Inl (Errorf ''cclient: Mutation row must be non-empty'')
      else Inr \<lparr>mut_row = row, mut_entries = []\<rparr>)"

definition mutation_Put :: "mutation \<Rightarrow> bytes \<Rightarrow> bytes \<Rightarrow> bytes \<Rightarrow> int64 \<Rightarrow> bytes \<Rightarrow> mutation" where
  "mutation_Put m cf cq cv timestamp val =
     m\<lparr>mut_entries := mut_entries m @
        [\<lparr>ColFamily = cf, ColQualifier = cq, ColVisibility = cv, EntryTimestamp = timestamp,
          HasTimestamp = (timestamp \<noteq> MutationLatestTimestamp), EntryValue = val,
          EntryDeleted = False\<rparr>]\<rparr>"

definition mutation_PutLatest :: "mutation \<Rightarrow> bytes \<Rightarrow> bytes \<Rightarrow> bytes \<Rightarrow> bytes \<Rightarrow> mutation" where
  "mutation_PutLatest m cf cq cv val = mutation_Put m cf cq cv MutationLatestTimestamp val"

definition mutation_Delete :: "mutation \<Rightarrow> bytes \<Rightarrow> bytes \<Rightarrow> bytes \<Rightarrow> int64 \<Rightarrow> mutation" where
  "mutation_Delete m cf cq cv timestamp =
     m\<lparr>mut_entries := mut_entries m @
        [\<lparr>ColFamily = cf, ColQualifier = cq, ColVisibility = cv, EntryTimestamp = timestamp,
          HasTimestamp = (timestamp \<noteq> MutationLatestTimestamp), EntryValue = [],
          EntryDeleted = True\<rparr>]\<rparr>"

definition mutation_DeleteLatest :: "mutation \<Rightarrow> bytes \<Rightarrow> bytes \<Rightarrow> bytes \<Rightarrow> mutation" where
  "mutation_DeleteLatest m cf cq cv = mutation_Delete m cf cq cv MutationLatestTimestamp"

definition mutation_Size :: "mutation \<Rightarrow> int" where
  "mutation_Size m = int (length (mut_entries m))"

text \<open>The loop of \<^verbatim>\<open>Cells\<close> fills one slot per entry; a mutation without entries has none.\<close>

definition mutation_Cells :: "mutation \<Rightarrow> (key \<times> bytes) list" where
  "mutation_Cells m =
     (if length (mut_entries m) = 0 then []
      else map (\<lambda>e. (\<lparr>Row = mut_row m, ColumnFamily = ColFamily e,
                       ColumnQualifier = ColQualifier e, ColumnVisibility = ColVisibility e,
                       Timestamp = EntryTimestamp e, Deleted = EntryDeleted e\<rparr>, EntryValue e))
             (mut_entries m))"

section \<open>The wire form\<close>

text \<open>
  \<^verbatim>\<open>data.TMutation\<close>, the Thrift struct. A Go pointer that may be nil is an option. Writes
  to a \<^verbatim>\<open>bytes.Buffer\<close> do not fail, so a writer is the bytes it appends.
\<close>

record t_mutation =
  TRow :: bytes
  TData :: bytes
  TValues :: "bytes list"
  TEntries :: int32

definition boolByte :: "bool \<Rightarrow> byte" where
  "boolByte v = (if v then 1 else 0)"

definition writeMutationBytes :: "bytes \<Rightarrow> bytes \<Rightarrow> bytes" where
  "writeMutationBytes buffer v = buffer @ WriteVLong (of_nat (length v)) @ v"

text \<open>The body of the loop over the entries, on the encoded stream and the large values.\<close>

definition serialize_entry ::
    "mutation_entry \<Rightarrow> bytes \<times> bytes list \<Rightarrow> bytes \<times> bytes list" where
  "serialize_entry entry = (\<lambda>(encoded, vals).
     let encoded = writeMutationBytes encoded (ColFamily entry);
         encoded = writeMutationBytes encoded (ColQualifier entry);
         encoded = writeMutationBytes encoded (ColVisibility entry);
         hasTimestamp = (HasTimestamp entry \<or> EntryTimestamp entry \<noteq> MutationLatestTimestamp);
         encoded = encoded @ [boolByte hasTimestamp];
         encoded = (if hasTimestamp then encoded @ WriteVLong (EntryTimestamp entry) else encoded);
         encoded = encoded @ [boolByte (EntryDeleted entry)]
     in if int (length (EntryValue entry)) < mutationValueCopyCutoff
        then (writeMutationBytes encoded (EntryValue entry), vals)
        else let vals = vals @ [EntryValue entry]
             in (encoded @ WriteVLong (- of_nat (length vals)), vals))"

definition mutation_serialize :: "mutation option \<Rightarrow> (bytes \<times> bytes list) res" where
  "mutation_serialize mo =
     (case mo of
        None \<Rightarrow> Inl (Errorf ''cclient: nil Mutation'')
      | Some m \<Rightarrow>
          if length (mut_row m) = 0 then Inl (Errorf ''cclient: Mutation row must be non-empty'')
          else if int (length (mut_entries m)) > 2147483647
          then Inl (Errorf ''cclient: Mutation has too many entries'')
          else Inr (fold serialize_entry (mut_entries m) ([], [])))"

definition Serialize :: "mutation option \<Rightarrow> bytes res" where
  "Serialize mo = rbind (mutation_serialize mo) (\<lambda>(encoded, vals). Inr encoded)"

definition ToThrift :: "mutation option \<Rightarrow> t_mutation res" where
  "ToThrift mo = rbind (mutation_serialize mo) (\<lambda>(encoded, vals).
     Inr \<lparr>TRow = mut_row (the mo), TData = encoded, TValues = vals,
          TEntries = of_nat (length (mut_entries (the mo)))\<rparr>)"

definition readMutationBytes :: "bytes \<Rightarrow> (bytes \<times> bytes) res" where
  "readMutationBytes r =
     rbind (ReadVLong r) (\<lambda>(len, _, r).
       if sint len < 0 \<or> sint len > int (length r) then Inl (Errorf ''invalid length'')
       else ReadFull (nat (sint len)) r)"

definition readMutationBool :: "bytes \<Rightarrow> (bool \<times> bytes) res" where
  "readMutationBool r =
     rbind (ReadByte r) (\<lambda>(v, r).
       if v = 0 then Inr (False, r) else if v = 1 then Inr (True, r)
       else Inl (Errorf ''invalid boolean''))"

text \<open>The value of one entry: inline bytes, or a negative reference into the large values.\<close>

definition readMutationValue :: "bytes list \<Rightarrow> bytes \<Rightarrow> (bytes \<times> bytes) res" where
  "readMutationValue vals r =
     rbind (rwrap ''cclient: decode entry value length'' (ReadVLong r)) (\<lambda>(valueLength, _, r).
       if sint valueLength < 0 then
         let valueIndex = - valueLength - 1 in
         if sint valueIndex < 0 \<or> sint valueIndex \<ge> int (length vals)
         then Inl (Errorf ''cclient: decode entry invalid large value reference'')
         else Inr (vals ! nat (sint valueIndex), r)
       else if sint valueLength > int (length r)
       then Inl (Errorf ''cclient: decode entry invalid value length'')
       else rwrap ''cclient: decode entry value'' (ReadFull (nat (sint valueLength)) r))"

definition FromThrift_entry :: "bytes list \<Rightarrow> bytes \<Rightarrow> mutation \<Rightarrow> (mutation \<times> bytes) res" where
  "FromThrift_entry vals r m =
     rbind (rwrap ''cclient: decode entry column family'' (readMutationBytes r)) (\<lambda>(cf, r).
     rbind (rwrap ''cclient: decode entry column qualifier'' (readMutationBytes r)) (\<lambda>(cq, r).
     rbind (rwrap ''cclient: decode entry visibility'' (readMutationBytes r)) (\<lambda>(cv, r).
     rbind (rwrap ''cclient: decode entry timestamp flag'' (readMutationBool r)) (\<lambda>(hasTimestamp, r).
     rbind (if hasTimestamp
            then rbind (rwrap ''cclient: decode entry timestamp'' (ReadVLong r))
                   (\<lambda>(ts, _, r). Inr (ts, r))
            else Inr (MutationLatestTimestamp, r)) (\<lambda>(timestamp, r).
     rbind (rwrap ''cclient: decode entry delete flag'' (readMutationBool r)) (\<lambda>(deleted, r).
     rbind (readMutationValue vals r) (\<lambda>(val, r).
     if deleted \<and> length val \<noteq> 0 then Inl (Errorf ''cclient: decode entry delete carries a value'')
     else
       let m = (if deleted then mutation_Delete m cf cq cv timestamp
                else mutation_Put m cf cq cv timestamp val);
           es = mut_entries m
       in Inr (m\<lparr>mut_entries :=
                  es[length es - 1 := (last es)\<lparr>HasTimestamp := hasTimestamp\<rparr>]\<rparr>, r))))))))"

text \<open>The loop over the declared number of entries, by the entries still to be read.\<close>

fun FromThrift_loop :: "nat \<Rightarrow> bytes list \<Rightarrow> bytes \<Rightarrow> mutation \<Rightarrow> (mutation \<times> bytes) res" where
  "FromThrift_loop 0 vals r m = Inr (m, r)"
| "FromThrift_loop (Suc n) vals r m =
     rbind (FromThrift_entry vals r m) (\<lambda>(m, r). FromThrift_loop n vals r m)"

definition FromThrift :: "t_mutation option \<Rightarrow> mutation res" where
  "FromThrift inp =
     (case inp of
        None \<Rightarrow> Inl (Errorf ''cclient: invalid thrift Mutation'')
      | Some t \<Rightarrow>
          if length (TRow t) = 0 \<or> sint (TEntries t) < 0
          then Inl (Errorf ''cclient: invalid thrift Mutation'')
          else
            rbind (NewMutation (TRow t)) (\<lambda>m.
            rbind (FromThrift_loop (nat (sint (TEntries t))) (TValues t) (TData t) m) (\<lambda>(m, r).
              if length r \<noteq> 0 then Inl (Errorf ''cclient: mutation has trailing bytes'')
              else Inr m)))"

section \<open>Well-formed mutations\<close>

text \<open>
  What the operations keep of a mutation: a non-empty row, a tombstone without a value, and
  an explicit timestamp flagged as such. \<open>mutation_fits\<close> bounds its sizes to what Go's
  \<^verbatim>\<open>int\<close> lengths and the 32-bit entry count can hold.
\<close>

definition entry_ok :: "mutation_entry \<Rightarrow> bool" where
  "entry_ok e \<longleftrightarrow> (EntryDeleted e \<longrightarrow> EntryValue e = []) \<and>
     (EntryTimestamp e \<noteq> MutationLatestTimestamp \<longrightarrow> HasTimestamp e)"

definition mutation_ok :: "mutation \<Rightarrow> bool" where
  "mutation_ok m \<longleftrightarrow> mut_row m \<noteq> [] \<and> list_all entry_ok (mut_entries m)"

definition entry_fits :: "nat \<Rightarrow> mutation_entry \<Rightarrow> bool" where
  "entry_fits n e \<longleftrightarrow> length (ColFamily e) < n \<and> length (ColQualifier e) < n \<and>
     length (ColVisibility e) < n \<and> length (EntryValue e) < n"

definition mutation_fits :: "mutation \<Rightarrow> bool" where
  "mutation_fits m \<longleftrightarrow> list_all (entry_fits (2 ^ 63)) (mut_entries m) \<and>
     length (mut_entries m) < 2 ^ 31"

lemma mutation_ok_ops [simp]:
  "mutation_ok (mutation_Put m cf cq cv ts v) \<longleftrightarrow> mutation_ok m"
  "mutation_ok (mutation_Delete m cf cq cv ts) \<longleftrightarrow> mutation_ok m"
  by (auto simp: mutation_ok_def mutation_Put_def mutation_Delete_def entry_ok_def)

lemma NewMutation_ok: "NewMutation row = Inr m \<Longrightarrow> mutation_ok m"
  by (auto simp: NewMutation_def mutation_ok_def split: if_splits)

lemma FromThrift_entry_ok:
  assumes "FromThrift_entry vals r m = Inr (m', r')" "mutation_ok m"
  shows "mutation_ok m' \<and> length (mut_entries m') = Suc (length (mut_entries m))"
  using assms
  by (auto simp: FromThrift_entry_def res_simps mutation_ok_def mutation_Put_def Let_def
      mutation_Delete_def entry_ok_def list_update_append split: if_splits)

lemma FromThrift_loop_ok:
  "FromThrift_loop n vals r m = Inr (m', r') \<Longrightarrow> mutation_ok m \<Longrightarrow>
     mutation_ok m' \<and> length (mut_entries m') = length (mut_entries m) + n"
proof (induction n arbitrary: r m)
  case (Suc n)
  then obtain m1 r1 where "FromThrift_entry vals r m = Inr (m1, r1)"
      "FromThrift_loop n vals r1 m1 = Inr (m', r')"
    by (auto simp: res_simps)
  with Suc show ?case
    using FromThrift_entry_ok [of vals r m m1 r1] by auto
qed auto

lemma FromThrift_loop_row:
  "FromThrift_loop n vals r m = Inr (m', r') \<Longrightarrow> mut_row m' = mut_row m"
proof (induction n arbitrary: r m)
  case (Suc n)
  then obtain m1 r1 where "FromThrift_entry vals r m = Inr (m1, r1)"
      "FromThrift_loop n vals r1 m1 = Inr (m', r')"
    by (auto simp: res_simps)
  moreover from this(1) have "mut_row m1 = mut_row m"
    by (auto simp: FromThrift_entry_def res_simps mutation_Put_def mutation_Delete_def Let_def
        split: if_splits)
  ultimately show ?case
    using Suc.IH by auto
qed simp

section \<open>Decoding what was encoded\<close>

lemma readMutationBytes_write [codec]:
  "length v < 2 ^ 63 \<Longrightarrow>
     readMutationBytes (WriteVLong (of_nat (length v)) @ v @ r) = Inr (v, r)"
  by (simp add: readMutationBytes_def sint_of_nat_64)

lemma readMutationBool_boolByte [codec, simp]: "readMutationBool (boolByte b # r) = Inr (b, r)"
  by (simp add: readMutationBool_def boolByte_def)

text \<open>One entry's bytes, given the number of large values before it.\<close>

definition entry_bytes :: "nat \<Rightarrow> mutation_entry \<Rightarrow> bytes" where
  "entry_bytes n e =
     WriteVLong (of_nat (length (ColFamily e))) @ ColFamily e @
     WriteVLong (of_nat (length (ColQualifier e))) @ ColQualifier e @
     WriteVLong (of_nat (length (ColVisibility e))) @ ColVisibility e @
     boolByte (HasTimestamp e) # (if HasTimestamp e then WriteVLong (EntryTimestamp e) else []) @
     boolByte (EntryDeleted e) #
     (if int (length (EntryValue e)) < mutationValueCopyCutoff
      then WriteVLong (of_nat (length (EntryValue e))) @ EntryValue e
      else WriteVLong (- of_nat (Suc n)))"

definition large_values :: "mutation_entry list \<Rightarrow> bytes list" where
  "large_values es =
     filter (\<lambda>v. \<not> int (length v) < mutationValueCopyCutoff) (map EntryValue es)"

lemma serialize_entry_eq:
  "entry_ok e \<Longrightarrow> serialize_entry e (enc, vals) =
     (enc @ entry_bytes (length vals) e, vals @ large_values [e])"
  by (auto simp: serialize_entry_def entry_bytes_def entry_ok_def writeMutationBytes_def
      large_values_def Let_def)

lemma readMutationValue_inline:
  "length v < 2 ^ 63 \<Longrightarrow>
     readMutationValue vals (WriteVLong (of_nat (length v)) @ v @ r) = Inr (v, r)"
  by (simp add: readMutationValue_def sint_of_nat_64)

lemma readMutationValue_large:
  assumes "n < length vals" "n < 2 ^ 31"
  shows "readMutationValue vals (WriteVLong (- of_nat (Suc n)) @ r) = Inr (vals ! n, r)"
proof -
  have n: "sint (of_nat n :: int64) = int n"
    using assms by (intro sint_of_nat_64) simp
  have neg: "sint (- of_nat (Suc n) :: int64) = - int (Suc n)"
  proof -
    have "sint (word_of_int (- int (Suc n)) :: int64) = - int (Suc n)"
      unfolding sint_sbintrunc' using assms by (simp add: signed_take_bit_int_eq_self)
    then show ?thesis by simp
  qed
  have idx: "- (- of_nat (Suc n)) - 1 = (of_nat n :: int64)" by simp
  show ?thesis
    using assms neg n unfolding readMutationValue_def
    by (simp only: ReadVLong_WriteVLong rwrap.simps rbind.simps prod.case Let_def neg idx n) simp
qed

lemma FromThrift_entry_bytes:
  assumes ok: "entry_ok e" "entry_fits (2 ^ 63) e"
    and large: "\<not> int (length (EntryValue e)) < mutationValueCopyCutoff \<Longrightarrow>
      n < length vals \<and> n < 2 ^ 31 \<and> vals ! n = EntryValue e"
  shows "FromThrift_entry vals (entry_bytes n e @ r) m =
    Inr (m\<lparr>mut_entries := mut_entries m @ [e]\<rparr>, r)"
proof -
  define w where "w = (if int (length (EntryValue e)) < mutationValueCopyCutoff
    then WriteVLong (of_nat (length (EntryValue e))) @ EntryValue e
    else WriteVLong (- of_nat (Suc n))) @ r"
  have val: "readMutationValue vals w = Inr (EntryValue e, r)"
    using ok large readMutationValue_inline [of "EntryValue e" vals r]
      readMutationValue_large [of n vals r]
    by (auto simp: entry_fits_def w_def)
  have bs: "entry_bytes n e @ r =
     WriteVLong (of_nat (length (ColFamily e))) @ ColFamily e @
     WriteVLong (of_nat (length (ColQualifier e))) @ ColQualifier e @
     WriteVLong (of_nat (length (ColVisibility e))) @ ColVisibility e @
     boolByte (HasTimestamp e) # (if HasTimestamp e then WriteVLong (EntryTimestamp e) else []) @
     boolByte (EntryDeleted e) # w"
    by (simp add: entry_bytes_def w_def)
  have fits: "length (ColFamily e) < 2 ^ 63" "length (ColQualifier e) < 2 ^ 63"
      "length (ColVisibility e) < 2 ^ 63"
    using ok by (auto simp: entry_fits_def)
  have ts: "HasTimestamp e \<or> EntryTimestamp e = MutationLatestTimestamp"
      and del: "EntryDeleted e \<longrightarrow> EntryValue e = []"
    using ok by (auto simp: entry_ok_def)
  then show ?thesis
    unfolding bs FromThrift_entry_def
    by (auto intro!: mutation_entry.equality simp: readMutationBytes_write [OF fits(1)] readMutationBytes_write [OF fits(2)]
        readMutationBytes_write [OF fits(3)] val mutation_Put_def mutation_Delete_def
        list_update_append)
qed

fun entries_bytes :: "nat \<Rightarrow> mutation_entry list \<Rightarrow> bytes" where
  "entries_bytes n [] = []"
| "entries_bytes n (e # es) =
     entry_bytes n e @ entries_bytes (n + length (large_values [e])) es"

lemma large_values_Cons: "large_values (e # es) = large_values [e] @ large_values es"
  by (simp add: large_values_def)

lemma serialize_entries_eq:
  "list_all entry_ok es \<Longrightarrow> fold serialize_entry es (enc, vals) =
     (enc @ entries_bytes (length vals) es, vals @ large_values es)"
proof (induction es arbitrary: enc vals)
  case (Cons e es)
  then show ?case
    by (simp add: serialize_entry_eq large_values_Cons [of e es])
qed (simp add: large_values_def)

lemma FromThrift_loop_entries:
  assumes "list_all entry_ok es" "list_all (entry_fits (2 ^ 63)) es"
    "length pre + length es < 2 ^ 31"
  shows "FromThrift_loop (length es) (pre @ large_values es) (entries_bytes (length pre) es @ r) m =
    Inr (m\<lparr>mut_entries := mut_entries m @ es\<rparr>, r)"
  using assms
proof (induction es arbitrary: pre m)
  case (Cons e es)
  let ?vals = "pre @ large_values (e # es)"
  let ?m = "m\<lparr>mut_entries := mut_entries m @ [e]\<rparr>"
  have "FromThrift_entry ?vals
      (entry_bytes (length pre) e @ entries_bytes (length pre + length (large_values [e])) es @ r) m
      = Inr (?m, entries_bytes (length pre + length (large_values [e])) es @ r)"
    using Cons.prems by (intro FromThrift_entry_bytes) (auto simp: large_values_def)
  moreover have "FromThrift_loop (length es) ((pre @ large_values [e]) @ large_values es)
      (entries_bytes (length (pre @ large_values [e])) es @ r) ?m
      = Inr (?m\<lparr>mut_entries := mut_entries ?m @ es\<rparr>, r)"
  proof (rule Cons.IH)
    have "length (large_values [e]) \<le> 1" by (simp add: large_values_def)
    with Cons.prems show "length (pre @ large_values [e]) + length es < 2 ^ 31" by simp
  qed (use Cons.prems in auto)
  ultimately show ?case
    by (simp add: large_values_Cons [of e es])
qed simp

section \<open>Properties\<close>

text \<open>
  C36: what \<^verbatim>\<open>ToThrift\<close> sends, \<^verbatim>\<open>FromThrift\<close> decodes to the same mutation: entries in order,
  timestamps and delete flags, small values inline and large ones by reference, for every
  well-formed mutation within the size limits, which \<^verbatim>\<open>ToThrift\<close> never refuses.
\<close>

theorem FromThrift_ToThrift:
  assumes "mutation_ok m" "mutation_fits m"
  shows "\<exists>t. ToThrift (Some m) = Inr t \<and> FromThrift (Some t) = Inr m"
proof -
  let ?es = "mut_entries m"
  let ?t = "\<lparr>TRow = mut_row m, TData = entries_bytes 0 ?es, TValues = large_values ?es,
             TEntries = of_nat (length ?es)\<rparr>"
  have "mutation_serialize (Some m) = Inr (entries_bytes 0 ?es, large_values ?es)"
    using assms by (auto simp: mutation_serialize_def mutation_ok_def mutation_fits_def
        serialize_entries_eq)
  then have to: "ToThrift (Some m) = Inr ?t"
    by (simp add: ToThrift_def)
  have "FromThrift_loop (length ?es) (large_values ?es) (entries_bytes 0 ?es)
      \<lparr>mut_row = mut_row m, mut_entries = []\<rparr> = Inr (m, [])"
    using assms FromThrift_loop_entries [of ?es "[]" "[]" "\<lparr>mut_row = mut_row m, mut_entries = []\<rparr>"]
    by (simp add: mutation_ok_def mutation_fits_def)
  then have "FromThrift (Some ?t) = Inr m"
    using assms by (auto simp: FromThrift_def NewMutation_def mutation_ok_def mutation_fits_def
        sint_of_nat_32)
  with to show ?thesis by blast
qed

definition example_mutation :: mutation where
  "example_mutation =
     mutation_DeleteLatest
       (mutation_Put \<lparr>mut_row = [114], mut_entries = []\<rparr> [102] [113, 200] [] (-5) [1, 2, 3])
       [102] [] [65]"

theorem FromThrift_ToThrift_witness:
  "\<exists>t. ToThrift (Some example_mutation) = Inr t \<and> FromThrift (Some t) = Inr example_mutation"
  by (rule FromThrift_ToThrift)
    (simp_all add: example_mutation_def mutation_DeleteLatest_def mutation_Put_def
      mutation_Delete_def mutation_ok_def entry_ok_def mutation_fits_def entry_fits_def
      MutationLatestTimestamp_def)

text \<open>
  C37: whatever bytes a client sends, a mutation that \<^verbatim>\<open>FromThrift\<close> accepts is well formed,
  keeps the row sent and has exactly the declared number of entries; in particular no
  accepted tombstone carries a value.
\<close>

theorem FromThrift_wellformed:
  assumes "FromThrift (Some t) = Inr m"
  shows "mutation_ok m \<and> mut_row m = TRow t \<and> int (length (mut_entries m)) = sint (TEntries t)"
proof -
  obtain m0 where m0: "NewMutation (TRow t) = Inr m0" and nn: "0 \<le> sint (TEntries t)"
    and loop: "FromThrift_loop (nat (sint (TEntries t))) (TValues t) (TData t) m0 = Inr (m, [])"
    using assms by (auto simp: FromThrift_def res_simps split: if_splits)
  have "mut_entries m0 = []" "mut_row m0 = TRow t"
    using m0 by (auto simp: NewMutation_def split: if_splits)
  moreover have "mut_row m = mut_row m0"
    by (rule FromThrift_loop_row [OF loop])
  ultimately show ?thesis
    using FromThrift_loop_ok [OF loop NewMutation_ok [OF m0]] nn by simp
qed

theorem FromThrift_wellformed_witness:
  "FromThrift (Some \<lparr>TRow = [114], TData = [1, 102, 0, 0, 0, 0, 2, 7, 8], TValues = [],
     TEntries = 1\<rparr>) = Inr \<lparr>mut_row = [114], mut_entries = [
       \<lparr>ColFamily = [102], ColQualifier = [], ColVisibility = [],
        EntryTimestamp = MutationLatestTimestamp, HasTimestamp = False, EntryValue = [7, 8],
        EntryDeleted = False\<rparr>]\<rparr> \<and>
   mutation_ok \<lparr>mut_row = [114], mut_entries = [
       \<lparr>ColFamily = [102], ColQualifier = [], ColVisibility = [],
        EntryTimestamp = MutationLatestTimestamp, HasTimestamp = False, EntryValue = [7, 8],
        EntryDeleted = False\<rparr>]\<rparr>"
proof -
  have *: "FromThrift (Some \<lparr>TRow = [114], TData = [1, 102, 0, 0, 0, 0, 2, 7, 8], TValues = [],
     TEntries = 1\<rparr>) = Inr \<lparr>mut_row = [114], mut_entries = [
       \<lparr>ColFamily = [102], ColQualifier = [], ColVisibility = [],
        EntryTimestamp = MutationLatestTimestamp, HasTimestamp = False, EntryValue = [7, 8],
        EntryDeleted = False\<rparr>]\<rparr>"
    by code_simp
  with FromThrift_wellformed [OF *] show ?thesis by blast
qed

end
