(* ===== verification/Stream_Codec.thy ===== *)
theory Stream_Codec
  imports Shoal_Prelude "HOL-Library.Sublist"
begin

text \<open>
  Decoders of self-delimiting records and logs made of them. \<open>reads rd a x\<close> says that the
  decoder \<open>rd\<close> takes exactly the bytes \<open>a\<close> off a stream and returns \<open>x\<close>; \<open>torn rd a\<close>
  that it reports the end of the input on every proper prefix of \<open>a\<close>. Both compose along
  the early-return sequencing \<open>rbind\<close> of the decoders. The locale \<open>record_log\<close> is the
  interface between a record format and a log: on any prefix of a log, a reader finds the
  complete records and then the end of the input, never an error and never an invented
  record.
\<close>

definition is_eof :: "go_err \<Rightarrow> bool" where
  "is_eof e \<longleftrightarrow> errors_Is e EOF \<or> errors_Is e ErrUnexpectedEOF"

definition eof_res :: "'a res \<Rightarrow> bool" where
  "eof_res r \<longleftrightarrow> (\<exists>e. r = Inl e \<and> is_eof e)"

definition reads :: "(bytes \<Rightarrow> ('a \<times> bytes) res) \<Rightarrow> bytes \<Rightarrow> 'a \<Rightarrow> bool" where
  "reads rd a x \<longleftrightarrow> (\<forall>r. rd (a @ r) = Inr (x, r))"

definition torn :: "(bytes \<Rightarrow> 'a res) \<Rightarrow> bytes \<Rightarrow> bool" where
  "torn rd a \<longleftrightarrow> (\<forall>p. strict_prefix p a \<longrightarrow> eof_res (rd p))"

lemma is_eof_simps [simp]: "is_eof EOF" "is_eof ErrUnexpectedEOF" "is_eof (Errorf m) \<longleftrightarrow> False"
  by (auto simp: is_eof_def)

lemma readsD: "reads rd a x \<Longrightarrow> rd (a @ r) = Inr (x, r)"
  by (simp add: reads_def)

lemma reads_ReadFull: "length a = n \<Longrightarrow> reads (ReadFull n) a a"
  by (simp add: reads_def)

lemma torn_ReadFull: "length a = n \<Longrightarrow> torn (ReadFull n) a"
  by (auto simp: torn_def ReadFull_def eof_res_def dest: prefix_length_less)

lemma torn_Nil [simp]: "torn rd []"
  by (simp add: torn_def)

text \<open>A prefix of a concatenation is cut within the first part or after it.\<close>

lemma prefix_append_cut:
  assumes "prefix p (a @ b)"
  obtains "strict_prefix p a" | q where "p = a @ q" "prefix q b"
  using assms unfolding prefix_append strict_prefix_def by fastforce

lemma strict_prefix_append_left: "strict_prefix (a @ q) (a @ b) \<Longrightarrow> strict_prefix q b"
  by (auto simp: strict_prefix_def)

lemma reads_bind:
  assumes "reads rd a x" "reads (\<lambda>r. k x r) b y"
  shows "reads (\<lambda>r. rbind (rd r) (\<lambda>(x, r). k x r)) (a @ b) y"
  using assms by (simp add: reads_def)

lemma torn_bind:
  assumes "reads rd a x" "torn rd a" "torn (\<lambda>r. k x r) b"
  shows "torn (\<lambda>r. rbind (rd r) (\<lambda>(x, r). k x r)) (a @ b)"
  unfolding torn_def
proof (intro allI impI)
  fix p
  assume p: "strict_prefix p (a @ b)"
  then have "prefix p (a @ b)" by (simp add: strict_prefix_def)
  then show "eof_res (rbind (rd p) (\<lambda>(x, r). k x r))"
  proof (cases rule: prefix_append_cut)
    case 1
    then show ?thesis
      using assms(2) by (auto simp: torn_def eof_res_def)
  next
    case (2 q)
    then have "strict_prefix q b"
      using p strict_prefix_append_left by blast
    with 2 show ?thesis
      using assms by (simp add: reads_def torn_def)
  qed
qed

lemma reads_return: "reads (\<lambda>r. Inr (f r, r)) [] y \<longleftrightarrow> (\<forall>r. f r = y)"
  by (simp add: reads_def)

section \<open>Logs of records\<close>

definition log_of :: "('a \<Rightarrow> bytes) \<Rightarrow> 'a list \<Rightarrow> bytes" where
  "log_of enc xs = concat (map enc xs)"

lemma log_of_simps [simp]: "log_of enc [] = []" "log_of enc (x # xs) = enc x @ log_of enc xs"
    "log_of enc (xs @ ys) = log_of enc xs @ log_of enc ys"
  by (simp_all add: log_of_def)

locale record_log =
  fixes enc :: "'a \<Rightarrow> bytes"
    and dec :: "bytes \<Rightarrow> ('b \<times> bytes) res"
    and ok :: "'a \<Rightarrow> bool"
    and norm :: "'a \<Rightarrow> 'b"
  assumes dec_enc: "ok x \<Longrightarrow> reads dec (enc x) (norm x)"
    and dec_torn: "ok x \<Longrightarrow> torn dec (enc x)"
    and enc_nonempty: "ok x \<Longrightarrow> enc x \<noteq> []"
    and dec_empty: "eof_res (dec [])"
begin

text \<open>A prefix of a log is a log of the first records and a tail that reads as the end.\<close>

lemma prefix_log:
  assumes "prefix p (log_of enc xs)" "list_all ok xs"
  shows "\<exists>n q. n \<le> length xs \<and> p = log_of enc (take n xs) @ q \<and> eof_res (dec q)
    \<and> (p = log_of enc xs \<longrightarrow> n = length xs)"
  using assms
proof (induction xs arbitrary: p)
  case Nil
  then show ?case using dec_empty by simp
next
  case (Cons x xs)
  from Cons.prems(1) have "prefix p (enc x @ log_of enc xs)" by simp
  then show ?case
  proof (cases rule: prefix_append_cut)
    case 1
    then have "eof_res (dec p)"
      using Cons.prems(2) dec_torn [of x] by (simp add: torn_def)
    moreover have "p \<noteq> log_of enc (x # xs)"
      using prefix_length_less [OF 1] by auto
    ultimately show ?thesis by (intro exI [of _ 0] exI [of _ p]) simp
  next
    case (2 q)
    obtain n t where t: "n \<le> length xs" "q = log_of enc (take n xs) @ t" "eof_res (dec t)"
        "q = log_of enc xs \<longrightarrow> n = length xs"
      using Cons.IH [OF 2(2)] Cons.prems(2) unfolding list.pred_inject by blast
    have p1: "p = log_of enc (take (Suc n) (x # xs)) @ t"
      unfolding 2(1) t(2) by simp
    have p2: "p = log_of enc (x # xs) \<longrightarrow> Suc n = length (x # xs)"
      unfolding 2(1) using t(4) by simp
    have "Suc n \<le> length (x # xs)" using t(1) by simp
    with p1 t(3) p2 show ?thesis by blast
  qed
qed

text \<open>A log of whole records has no tail beyond the records it starts with.\<close>

lemma whole_log_tail:
  assumes "log_of enc xs = log_of enc ys @ q" "list_all ok xs" "list_all ok ys" "eof_res (dec q)"
  shows "q = []"
  using assms
proof (induction ys arbitrary: xs)
  case Nil
  show ?case
  proof (cases xs)
    case (Cons x xs')
    then have "dec q = Inr (norm x, log_of enc xs')"
      using Nil.prems(1,2) dec_enc [of x] by (auto simp: reads_def)
    with Nil.prems(4) show ?thesis by (simp add: eof_res_def)
  qed (use Nil in simp)
next
  case (Cons y ys)
  then obtain x xs' where xs: "xs = x # xs'"
    using enc_nonempty [of y] by (cases xs) auto
  have "Inr (norm x, log_of enc xs') = dec (log_of enc xs)" "Inr (norm y, log_of enc ys @ q) = dec (log_of enc (y # ys) @ q)"
    using Cons.prems(2,3) xs dec_enc [of x] dec_enc [of y] by (simp_all add: reads_def)
  then have "log_of enc xs' = log_of enc ys @ q"
    unfolding Cons.prems(1) by (metis Pair_inject sum.inject(2))
  with Cons.IH Cons.prems xs show ?case by simp
qed

end

end
