(* ===== verification/Local_WAL.thy ===== *)
theory Local_WAL
  imports Cclient_Mutation Stream_Codec
begin

text \<open>
  The embedded engine's write-ahead log (\<^verbatim>\<open>internal/localwal/wal.go\<close>): the record format,
  \<open>Append\<close> with its fsync policy, \<open>Replay\<close>, \<open>Sync\<close>, \<open>Truncate\<close> and \<open>Close\<close>. The
  operating system's answers are arguments of the operations: a write that fails after some
  bytes, an fsync that fails, the ways a truncation can go. The theory shows that replay
  inverts append, and that after a crash at any point the surviving prefix of the file
  replays to a prefix of the appended mutations that contains every synced one.
\<close>

section \<open>Record format\<close>

definition appendUint32 :: "bytes \<Rightarrow> int32 \<Rightarrow> bytes" where
  "appendUint32 dst v = dst @ be_bytes 4 (unat v)"

definition appendInt64 :: "bytes \<Rightarrow> int64 \<Rightarrow> bytes" where
  "appendInt64 dst v = dst @ be_bytes 8 (unat v)"

definition appendBytes :: "bytes \<Rightarrow> bytes \<Rightarrow> bytes" where
  "appendBytes dst b = appendUint32 dst (of_nat (length b)) @ b"

definition appendEntry :: "mutation_entry \<Rightarrow> bytes \<Rightarrow> bytes" where
  "appendEntry e dst =
     (let dst = appendBytes dst (ColFamily e);
          dst = appendBytes dst (ColQualifier e);
          dst = appendBytes dst (ColVisibility e);
          dst = appendInt64 dst (EntryTimestamp e);
          dst = dst @ [if EntryDeleted e then 1 else 0]
      in appendBytes dst (EntryValue e))"

definition appendMutation :: "bytes \<Rightarrow> mutation \<Rightarrow> bytes" where
  "appendMutation dst m =
     (let dst = appendBytes dst (mut_row m);
          dst = appendUint32 dst (of_nat (length (mut_entries m)))
      in fold appendEntry (mut_entries m) dst)"

definition readUint32 :: "bytes \<Rightarrow> (int32 \<times> bytes) res" where
  "readUint32 r = rbind (ReadFull 4 r) (\<lambda>(buf, r). Inr (of_nat (be_val buf), r))"

definition readInt64 :: "bytes \<Rightarrow> (int64 \<times> bytes) res" where
  "readInt64 r = rbind (ReadFull 8 r) (\<lambda>(buf, r). Inr (of_nat (be_val buf), r))"

definition readBytes :: "bytes \<Rightarrow> (bytes \<times> bytes) res" where
  "readBytes r = rbind (readUint32 r) (\<lambda>(n, r).
     if n = 0 then Inr ([], r) else ReadFull (unat n) r)"

definition readEntry :: "mutation \<Rightarrow> bytes \<Rightarrow> (mutation \<times> bytes) res" where
  "readEntry m r =
     rbind (readBytes r) (\<lambda>(cf, r).
     rbind (readBytes r) (\<lambda>(cq, r).
     rbind (readBytes r) (\<lambda>(cv, r).
     rbind (readInt64 r) (\<lambda>(ts, r).
     rbind (ReadFull 1 r) (\<lambda>(delBuf, r).
     rbind (readBytes r) (\<lambda>(val, r).
     Inr (if hd delBuf = 1 then mutation_Delete m cf cq cv ts
          else mutation_Put m cf cq cv ts val, r)))))))"

fun readEntries :: "nat \<Rightarrow> mutation \<Rightarrow> bytes \<Rightarrow> (mutation \<times> bytes) res" where
  "readEntries 0 m r = Inr (m, r)"
| "readEntries (Suc i) m r = rbind (readEntry m r) (\<lambda>(m, r). readEntries i m r)"

definition readMutation :: "bytes \<Rightarrow> (mutation \<times> bytes) res" where
  "readMutation r =
     rbind (readBytes r) (\<lambda>(row, r).
     rbind (NewMutation row) (\<lambda>m.
     rbind (readUint32 r) (\<lambda>(count, r).
     readEntries (unat count) m r)))"

section \<open>The decoder consumes input\<close>

lemma readUint32_Inr: "readUint32 r = Inr (n, r') \<Longrightarrow> length r = length r' + 4"
  by (auto simp: readUint32_def res_simps)

lemma readBytes_Inr: "readBytes r = Inr (b, r') \<Longrightarrow> length r' + 4 \<le> length r"
  by (auto simp: readBytes_def res_simps dest!: readUint32_Inr split: if_splits)

lemma readEntry_Inr: "readEntry m r = Inr (m', r') \<Longrightarrow> length r' \<le> length r"
  by (auto simp: readEntry_def readInt64_def res_simps dest!: readBytes_Inr)

lemma readEntries_Inr: "readEntries n m r = Inr (m', r') \<Longrightarrow> length r' \<le> length r"
  by (induction n arbitrary: m r) (fastforce simp: res_simps dest!: readEntry_Inr)+

lemma readMutation_Inr: "readMutation r = Inr (m, r') \<Longrightarrow> length r' < length r"
  by (auto simp: readMutation_def res_simps dest!: readBytes_Inr readUint32_Inr readEntries_Inr)

section \<open>The log\<close>

text \<open>
  The open file: its bytes as the process sees them, and how many of them an fsync has
  forced to stable storage. \<open>wal_open\<close> is false once the handle is closed.
\<close>

datatype SyncMode = SyncFull | SyncNormal | SyncOff

record wal =
  wal_bytes :: bytes
  wal_synced :: nat
  wal_open :: bool
  wal_seq :: int64
  wal_mode :: SyncMode
  wal_dirty :: bool

definition wal_Open :: "SyncMode \<Rightarrow> bytes \<Rightarrow> wal" where
  "wal_Open mode content =
     \<lparr>wal_bytes = content, wal_synced = length content, wal_open = True, wal_seq = 0,
      wal_mode = mode, wal_dirty = False\<rparr>"

text \<open>
  \<^verbatim>\<open>os.File.Write\<close> on a file in append mode: all bytes, or an error after the first \<open>n\<close>.
\<close>

definition file_Write :: "(nat \<times> go_err) option \<Rightarrow> bytes \<Rightarrow> wal \<Rightarrow> go_err option \<times> wal" where
  "file_Write io buf w =
     (if \<not> wal_open w then (Some (Errorf ''file already closed''), w)
      else case io of
        None \<Rightarrow> (None, w\<lparr>wal_bytes := wal_bytes w @ buf\<rparr>)
      | Some (n, e) \<Rightarrow> (Some e, w\<lparr>wal_bytes := wal_bytes w @ take n buf\<rparr>))"

definition syncLocked :: "go_err option \<Rightarrow> wal \<Rightarrow> go_err option \<times> wal" where
  "syncLocked io w =
     (if \<not> wal_dirty w then (None, w)
      else case (if wal_open w then io else Some (Errorf ''file already closed'')) of
        Some e \<Rightarrow> (Some (Wrap ''localwal: sync'' e), w)
      | None \<Rightarrow> (None, w\<lparr>wal_synced := length (wal_bytes w), wal_dirty := False\<rparr>))"

definition wal_Append ::
    "(nat \<times> go_err) option \<Rightarrow> go_err option \<Rightarrow> mutation list \<Rightarrow> wal \<Rightarrow>
       (int64 \<times> go_err option) \<times> wal" where
  "wal_Append wio sio mutations w =
     (let buf = fold (\<lambda>m buf. appendMutation buf m) mutations [];
          (err, w) = (if length buf > 0 then
                        case file_Write wio buf w of
                          (Some e, w) \<Rightarrow> (Some (Wrap ''localwal: write'' e), w)
                        | (None, w) \<Rightarrow> (None, w\<lparr>wal_dirty := True\<rparr>)
                      else (None, w))
      in case err of
           Some e \<Rightarrow> ((wal_seq w, Some e), w)
         | None \<Rightarrow>
             (case (if wal_mode w = SyncFull then syncLocked sio w else (None, w)) of
                (Some e, w) \<Rightarrow> ((wal_seq w, Some e), w)
              | (None, w) \<Rightarrow> ((wal_seq w, None), w\<lparr>wal_seq := wal_seq w + 1\<rparr>)))"

definition wal_Sync :: "go_err option \<Rightarrow> wal \<Rightarrow> go_err option \<times> wal" where
  "wal_Sync io w = syncLocked io w"

text \<open>
  \<^verbatim>\<open>Truncate\<close>: the truncation works (and the seek after it works or fails), or it fails and
  the file is closed and reopened empty (or that fails too). The three arguments are the
  results of \<^verbatim>\<open>Truncate(0)\<close>, \<^verbatim>\<open>Seek\<close> and \<^verbatim>\<open>OpenFile\<close>.
\<close>

definition wal_Truncate ::
    "go_err option \<Rightarrow> go_err option \<Rightarrow> go_err option \<Rightarrow> wal \<Rightarrow> go_err option \<times> wal" where
  "wal_Truncate tio kio oio w =
     (let w = w\<lparr>wal_dirty := False\<rparr>;
          emptied = w\<lparr>wal_bytes := [], wal_synced := 0\<rparr>
      in case (if wal_open w then tio else Some (Errorf ''file already closed'')) of
           None \<Rightarrow> (kio, emptied)
         | Some _ \<Rightarrow>
             (case oio of
                Some e \<Rightarrow> (Some (Wrap ''localwal: truncate'' e), w\<lparr>wal_open := False\<rparr>)
              | None \<Rightarrow> (None, emptied\<lparr>wal_open := True\<rparr>)))"

definition wal_Close :: "go_err option \<Rightarrow> go_err option \<Rightarrow> wal \<Rightarrow> go_err option \<times> wal" where
  "wal_Close sio cio w =
     (let (syncErr, w) = syncLocked sio w;
          closeErr = (if wal_open w then cio else Some (Errorf ''file already closed''));
          w = w\<lparr>wal_open := False\<rparr>
      in (if syncErr \<noteq> None then syncErr else closeErr, w))"

text \<open>
  \<^verbatim>\<open>Replay\<close> from the start of the file; the callback \<open>fn\<close> works on a state of its own and
  may fail. The count is an \<^verbatim>\<open>int\<close>.
\<close>

function Replay_loop ::
    "(mutation \<Rightarrow> 's \<Rightarrow> go_err option \<times> 's) \<Rightarrow> bytes \<Rightarrow> int \<Rightarrow> 's \<Rightarrow> (int \<times> go_err option) \<times> 's" where
  "Replay_loop fn r count s =
     (case readMutation r of
        Inl e \<Rightarrow>
          if errors_Is e EOF \<or> errors_Is e ErrUnexpectedEOF then ((count, None), s)
          else ((count, Some (Wrap ''localwal: replay entry'' e)), s)
      | Inr (m, r) \<Rightarrow>
          (case fn m s of
             (Some e, s) \<Rightarrow> ((count, Some e), s)
           | (None, s) \<Rightarrow> Replay_loop fn r (count + 1) s))"
  by pat_completeness auto
termination
  by (relation "measure (\<lambda>(fn, r, count, s). length r)") (auto dest!: readMutation_Inr)

declare Replay_loop.simps [simp del]

definition wal_Replay ::
    "(mutation \<Rightarrow> 's \<Rightarrow> go_err option \<times> 's) \<Rightarrow> wal \<Rightarrow> 's \<Rightarrow> (int \<times> go_err option) \<times> 's" where
  "wal_Replay fn w s =
     (if \<not> wal_open w then ((0, Some (Wrap ''localwal: seek'' (Errorf ''file already closed''))), s)
      else Replay_loop fn (wal_bytes w) 0 s)"

section \<open>Reading records back\<close>

lemma reads_readUint32: "reads readUint32 (be_bytes 4 (unat v)) v"
  by (simp add: reads_def readUint32_def)

lemma torn_readUint32: "torn readUint32 (be_bytes 4 n)"
proof -
  have "torn (\<lambda>r. rbind (ReadFull 4 r) (\<lambda>(buf, r). Inr (of_nat (be_val buf) :: int32, r)))
      (be_bytes 4 n @ [])"
    by (intro torn_bind [OF reads_ReadFull torn_ReadFull] torn_Nil) simp_all
  then show ?thesis
    by (simp add: readUint32_def [abs_def])
qed

lemma reads_readInt64: "reads readInt64 (be_bytes 8 (unat v)) v"
  by (simp add: reads_def readInt64_def)

lemma torn_readInt64: "torn readInt64 (be_bytes 8 n)"
proof -
  have "torn (\<lambda>r. rbind (ReadFull 8 r) (\<lambda>(buf, r). Inr (of_nat (be_val buf) :: int64, r)))
      (be_bytes 8 n @ [])"
    by (intro torn_bind [OF reads_ReadFull torn_ReadFull] torn_Nil) simp_all
  then show ?thesis
    by (simp add: readInt64_def [abs_def])
qed

text \<open>The bytes of a length-prefixed string, and what makes its length fit.\<close>

definition framed :: "bytes \<Rightarrow> bytes" where
  "framed b = appendBytes [] b"

lemma appendBytes_eq: "appendBytes dst b = dst @ framed b"
  by (simp add: framed_def appendBytes_def appendUint32_def)

lemma unat_of_nat_32: "n < 2 ^ 32 \<Longrightarrow> unat (of_nat n :: int32) = n"
  by (simp add: unat_of_nat)

lemma readBytes_body:
  assumes "length b < 2 ^ 32"
  shows "reads (\<lambda>r. if (of_nat (length b) :: int32) = 0 then Inr ([], r)
           else ReadFull (unat (of_nat (length b) :: int32)) r) b b"
    and "torn (\<lambda>r. if (of_nat (length b) :: int32) = 0 then Inr ([], r)
           else ReadFull (unat (of_nat (length b) :: int32)) r) b"
proof -
  have u: "unat (of_nat (length b) :: int32) = length b"
    using assms by (rule unat_of_nat_32)
  have "(of_nat (length b) :: int32) = 0 \<longleftrightarrow> unat (of_nat (length b) :: int32) = 0"
    by (rule unsigned_eq_0_iff [symmetric])
  then have z: "(of_nat (length b) :: int32) = 0 \<longleftrightarrow> b = []"
    unfolding u by simp
  show "reads (\<lambda>r. if (of_nat (length b) :: int32) = 0 then Inr ([], r)
           else ReadFull (unat (of_nat (length b) :: int32)) r) b b"
    unfolding z u by (cases "b = []") (simp_all add: reads_def)
  show "torn (\<lambda>r. if (of_nat (length b) :: int32) = 0 then Inr ([], r)
           else ReadFull (unat (of_nat (length b) :: int32)) r) b"
    unfolding z u by (cases "b = []") (simp_all add: torn_ReadFull)
qed

lemma framed_split: "framed b = be_bytes 4 (unat (of_nat (length b) :: int32)) @ b"
  by (simp add: framed_def appendBytes_def appendUint32_def)

lemma reads_readBytes: "length b < 2 ^ 32 \<Longrightarrow> reads readBytes (framed b) b"
  unfolding readBytes_def [abs_def] framed_split
  by (rule reads_bind [OF reads_readUint32]) (rule readBytes_body)

lemma torn_readBytes: "length b < 2 ^ 32 \<Longrightarrow> torn readBytes (framed b)"
  unfolding readBytes_def [abs_def] framed_split
  by (rule torn_bind [OF reads_readUint32 torn_readUint32]) (rule readBytes_body)

section \<open>Reading mutations back\<close>

definition entry_frame :: "mutation_entry \<Rightarrow> bytes" where
  "entry_frame e = framed (ColFamily e) @ framed (ColQualifier e) @ framed (ColVisibility e) @
     be_bytes 8 (unat (EntryTimestamp e)) @ [if EntryDeleted e then 1 else 0] @
     framed (EntryValue e)"

definition mutation_frame :: "mutation \<Rightarrow> bytes" where
  "mutation_frame m = framed (mut_row m) @
     be_bytes 4 (unat (of_nat (length (mut_entries m)) :: int32)) @
     concat (map entry_frame (mut_entries m))"

lemma appendEntry_eq: "appendEntry e dst = dst @ entry_frame e"
  by (simp add: appendEntry_def Let_def appendBytes_eq appendInt64_def entry_frame_def)

lemma appendEntries_eq: "fold appendEntry es dst = dst @ concat (map entry_frame es)"
  by (induction es arbitrary: dst) (simp_all add: appendEntry_eq)

lemma appendMutation_eq: "appendMutation dst m = dst @ mutation_frame m"
  by (simp add: appendMutation_def Let_def appendBytes_eq appendUint32_def appendEntries_eq
      mutation_frame_def)

lemma appendMutations_eq:
  "fold (\<lambda>m buf. appendMutation buf m) ms buf = buf @ log_of mutation_frame ms"
  by (induction ms arbitrary: buf) (simp_all add: appendMutation_eq)

text \<open>
  What the record keeps of an entry: the timestamp flag is derived from the timestamp again,
  and a tombstone has no value. \<open>wal_fits\<close> is the range of the 32-bit lengths and count.
\<close>

definition wal_entry :: "mutation_entry \<Rightarrow> mutation_entry" where
  "wal_entry e = e\<lparr>HasTimestamp := (EntryTimestamp e \<noteq> MutationLatestTimestamp),
     EntryValue := (if EntryDeleted e then [] else EntryValue e)\<rparr>"

definition wal_image :: "mutation \<Rightarrow> mutation" where
  "wal_image m = m\<lparr>mut_entries := map wal_entry (mut_entries m)\<rparr>"

lemma wal_image_eq:
  "wal_image m = \<lparr>mut_row = mut_row m, mut_entries = map wal_entry (mut_entries m)\<rparr>"
  by (cases m) (simp add: wal_image_def)

definition wal_fits :: "mutation \<Rightarrow> bool" where
  "wal_fits m \<longleftrightarrow> mut_row m \<noteq> [] \<and> length (mut_row m) < 2 ^ 32 \<and>
     length (mut_entries m) < 2 ^ 32 \<and> list_all (entry_fits (2 ^ 32)) (mut_entries m)"

lemma readEntry_final:
  "reads (\<lambda>r. Inr (if hd [if EntryDeleted e then 1 else (0 :: byte)] = 1
        then mutation_Delete m (ColFamily e) (ColQualifier e) (ColVisibility e) (EntryTimestamp e)
        else mutation_Put m (ColFamily e) (ColQualifier e) (ColVisibility e) (EntryTimestamp e)
          (EntryValue e), r)) [] (m\<lparr>mut_entries := mut_entries m @ [wal_entry e]\<rparr>)"
  by (auto simp: reads_def mutation_Delete_def mutation_Put_def wal_entry_def
      intro!: mutation_entry.equality)

lemma entry_frame_snoc: "entry_frame e = framed (ColFamily e) @ framed (ColQualifier e) @
    framed (ColVisibility e) @ be_bytes 8 (unat (EntryTimestamp e)) @
    [if EntryDeleted e then 1 else 0] @ framed (EntryValue e) @ []"
  by (simp add: entry_frame_def)

lemma reads_readEntry:
  assumes "entry_fits (2 ^ 32) e"
  shows "reads (readEntry m) (entry_frame e) (m\<lparr>mut_entries := mut_entries m @ [wal_entry e]\<rparr>)"
  using assms unfolding readEntry_def [abs_def] entry_frame_snoc entry_fits_def
  by (intro reads_bind [OF reads_readBytes] reads_bind [OF reads_readInt64]
      reads_bind [OF reads_ReadFull] readEntry_final) simp_all

lemma torn_readEntry:
  assumes "entry_fits (2 ^ 32) e"
  shows "torn (readEntry m) (entry_frame e)"
  using assms unfolding readEntry_def [abs_def] entry_frame_snoc entry_fits_def
  by (intro torn_bind [OF reads_readBytes torn_readBytes] torn_bind [OF reads_readInt64 torn_readInt64]
      torn_bind [OF reads_ReadFull torn_ReadFull] torn_Nil) simp_all

lemma readEntries_frames:
  assumes "list_all (entry_fits (2 ^ 32)) es"
  shows "reads (readEntries (length es) m) (concat (map entry_frame es))
           (m\<lparr>mut_entries := mut_entries m @ map wal_entry es\<rparr>)
       \<and> torn (readEntries (length es) m) (concat (map entry_frame es))"
  using assms
proof (induction es arbitrary: m)
  case Nil
  then show ?case by (simp add: reads_def)
next
  case (Cons e es)
  let ?m = "m\<lparr>mut_entries := mut_entries m @ [wal_entry e]\<rparr>"
  have e: "reads (readEntry m) (entry_frame e) ?m" "torn (readEntry m) (entry_frame e)"
    using Cons.prems by (simp_all add: reads_readEntry torn_readEntry)
  have "reads (readEntries (length es) ?m) (concat (map entry_frame es))
      (?m\<lparr>mut_entries := mut_entries ?m @ map wal_entry es\<rparr>)"
    "torn (readEntries (length es) ?m) (concat (map entry_frame es))"
    using Cons.IH [of ?m] Cons.prems by simp_all
  from reads_bind [where k = "readEntries (length es)", OF e(1) this(1)]
    torn_bind [where k = "readEntries (length es)", OF e this(2)]
  show ?case
    by simp
qed

lemma readMutation_frame:
  assumes "wal_fits m"
  shows "reads readMutation (mutation_frame m) (wal_image m)"
    and "torn readMutation (mutation_frame m)"
proof -
  let ?n = "of_nat (length (mut_entries m)) :: int32"
  let ?m0 = "\<lparr>mut_row = mut_row m, mut_entries = []\<rparr>"
  let ?k = "\<lambda>row r. rbind (NewMutation row) (\<lambda>m. rbind (readUint32 r) (\<lambda>(count, r).
     readEntries (unat count) m r))"
  have fits: "length (mut_row m) < 2 ^ 32" and n: "unat ?n = length (mut_entries m)"
    and row: "NewMutation (mut_row m) = Inr ?m0"
    using assms by (auto simp: wal_fits_def unat_of_nat_32 NewMutation_def)
  have es: "reads (readEntries (unat ?n) ?m0) (concat (map entry_frame (mut_entries m)))
        (wal_image m)"
      "torn (readEntries (unat ?n) ?m0) (concat (map entry_frame (mut_entries m)))"
    using assms readEntries_frames [of "mut_entries m" ?m0]
    by (simp_all add: wal_fits_def n wal_image_eq)
  have "reads (?k (mut_row m)) (be_bytes 4 (unat ?n) @ concat (map entry_frame (mut_entries m)))
        (wal_image m)"
      "torn (?k (mut_row m)) (be_bytes 4 (unat ?n) @ concat (map entry_frame (mut_entries m)))"
    unfolding row rbind.simps
    using reads_bind [where k = "\<lambda>count. readEntries (unat count) ?m0", OF reads_readUint32 es(1)]
      torn_bind [where k = "\<lambda>count. readEntries (unat count) ?m0",
        OF reads_readUint32 torn_readUint32 es(2)]
    by simp_all
  from reads_bind [where k = ?k, OF reads_readBytes [OF fits] this(1)]
    torn_bind [where k = ?k, OF reads_readBytes [OF fits] torn_readBytes [OF fits] this(2)]
  show "reads readMutation (mutation_frame m) (wal_image m)" "torn readMutation (mutation_frame m)"
    by (simp_all add: readMutation_def [abs_def] mutation_frame_def)
qed

lemma mutation_frame_nonempty: "mutation_frame m \<noteq> []"
proof
  assume "mutation_frame m = []"
  then have "be_bytes 4 (unat (of_nat (length (mut_row m)) :: int32)) = []"
    unfolding mutation_frame_def framed_split append_is_Nil_conv by blast
  then have "length (be_bytes 4 (unat (of_nat (length (mut_row m)) :: int32))) = 0"
    by (simp only: list.size)
  then show False
    unfolding length_be_bytes by simp
qed

interpretation wal_log: record_log mutation_frame readMutation wal_fits wal_image
proof unfold_locales
  show "eof_res (readMutation [])"
    by (simp add: readMutation_def readBytes_def readUint32_def ReadFull_def eof_res_def)
qed (auto intro: readMutation_frame simp: mutation_frame_nonempty)

section \<open>Replay\<close>

text \<open>A callback that does not fail, as the tablet's is, threads its state through the log.\<close>

definition replay_fn :: "(mutation \<Rightarrow> 's \<Rightarrow> 's) \<Rightarrow> mutation \<Rightarrow> 's \<Rightarrow> go_err option \<times> 's" where
  "replay_fn f m s = (None, f m s)"

lemma Replay_loop_log:
  assumes "list_all wal_fits ms" "eof_res (readMutation q)"
  shows "Replay_loop (replay_fn f) (log_of mutation_frame ms @ q) count s =
    ((count + int (length ms), None), fold f (map wal_image ms) s)"
  using assms(1)
proof (induction ms arbitrary: count s)
  case Nil
  obtain e where "readMutation q = Inl e" "is_eof e"
    using assms(2) by (auto simp: eof_res_def)
  then show ?case
    by (subst Replay_loop.simps) (simp add: is_eof_def)
next
  case (Cons m ms)
  then have "readMutation (mutation_frame m @ log_of mutation_frame ms @ q) =
      Inr (wal_image m, log_of mutation_frame ms @ q)"
    by (intro readsD wal_log.dec_enc) simp
  then have "Replay_loop (replay_fn f) (mutation_frame m @ log_of mutation_frame ms @ q) count s =
      Replay_loop (replay_fn f) (log_of mutation_frame ms @ q) (count + 1) (f (wal_image m) s)"
    by (subst Replay_loop.simps) (simp add: replay_fn_def)
  with Cons show ?case
    by simp
qed

text \<open>A prefix of a log of mutations replays to a prefix of them.\<close>

lemma Replay_loop_prefix:
  assumes "list_all wal_fits ms" "prefix p (log_of mutation_frame ms)"
  obtains n q where "n \<le> length ms" "p = log_of mutation_frame (take n ms) @ q"
    "eof_res (readMutation q)" "p = log_of mutation_frame ms \<Longrightarrow> n = length ms"
    "\<And>f count s. Replay_loop (replay_fn f) p count (s :: 's) =
       ((count + int n, None), fold f (map wal_image (take n ms)) s)"
proof -
  obtain n q where cut: "n \<le> length ms \<and> p = log_of mutation_frame (take n ms) @ q \<and>
      eof_res (readMutation q) \<and> (p = log_of mutation_frame ms \<longrightarrow> n = length ms)"
    using wal_log.prefix_log [OF assms(2,1)] by (elim exE)
  note n = cut [THEN conjunct1] and p = cut [THEN conjunct2, THEN conjunct1]
    and q = cut [THEN conjunct2, THEN conjunct2, THEN conjunct1]
    and full = cut [THEN conjunct2, THEN conjunct2, THEN conjunct2]
  have "list_all wal_fits (take n ms)"
    using assms(1) by (auto simp: list_all_iff dest: in_set_takeD)
  from Replay_loop_log [OF this q]
  have "Replay_loop (replay_fn f) p count (s :: 's) =
     ((count + int n, None), fold f (map wal_image (take n ms)) s)" for f count s
    unfolding p using n by simp
  from that [OF n p q _ this] full show thesis by simp
qed

section \<open>Runs of the log\<close>

text \<open>
  The states a log goes through between two crashes, with the mutations whose records are in
  the file: appends whose write succeeds or writes nothing, with any outcome of the fsync,
  explicit and ticker-driven syncs, truncations.
\<close>

inductive wal_run :: "wal \<Rightarrow> mutation list \<Rightarrow> bool" where
  opened: "wal_run (wal_Open mode []) []"
| append: "wal_run w ms \<Longrightarrow> wal_open w \<Longrightarrow> list_all wal_fits bs \<Longrightarrow>
     wal_Append None sio bs w = (out, w') \<Longrightarrow> wal_run w' (ms @ bs)"
| append_fails: "wal_run w ms \<Longrightarrow> wal_Append (Some (0, e)) sio bs w = ((n, Some e'), w') \<Longrightarrow>
     wal_run w' ms"
| sync: "wal_run w ms \<Longrightarrow> wal_Sync sio w = (out, w') \<Longrightarrow> wal_run w' ms"
| truncate: "wal_run w ms \<Longrightarrow> wal_Truncate tio kio oio w = (None, w') \<Longrightarrow> wal_run w' []"

text \<open>
  The bytes of the file are the records of the logged mutations; what an fsync covers is a
  prefix of them, and all of them when nothing is pending.
\<close>

definition wal_inv :: "wal \<Rightarrow> mutation list \<Rightarrow> bool" where
  "wal_inv w ms \<longleftrightarrow> wal_bytes w = log_of mutation_frame ms \<and> list_all wal_fits ms \<and>
     wal_synced w \<le> length (wal_bytes w) \<and>
     (\<not> wal_dirty w \<longrightarrow> wal_synced w = length (wal_bytes w))"

lemma syncLocked_inv: "wal_inv w ms \<Longrightarrow> syncLocked io w = (out, w') \<Longrightarrow> wal_inv w' ms"
  by (auto simp: wal_inv_def syncLocked_def split: if_splits option.splits)

lemma log_of_length_0: "length (log_of mutation_frame bs) = 0 \<longleftrightarrow> bs = []"
  by (cases bs) (simp_all add: mutation_frame_nonempty)

lemma wal_Append_ok:
  fixes bs :: "mutation list"
  assumes "wal_open w"
  defines "w1 \<equiv> (if bs = [] then w
    else w\<lparr>wal_bytes := wal_bytes w @ log_of mutation_frame bs, wal_dirty := True\<rparr>)"
  shows "wal_Append None sio bs w =
    (case (if wal_mode w1 = SyncFull then syncLocked sio w1 else (None, w1)) of
       (Some e, w2) \<Rightarrow> ((wal_seq w2, Some e), w2)
     | (None, w2) \<Rightarrow> ((wal_seq w2, None), w2\<lparr>wal_seq := wal_seq w2 + 1\<rparr>))"
  using assms log_of_length_0 [of bs]
  by (auto simp: wal_Append_def Let_def appendMutations_eq file_Write_def w1_def)

lemma wal_inv_seq: "wal_inv (w\<lparr>wal_seq := n\<rparr>) ms = wal_inv w ms"
  by (simp add: wal_inv_def)

lemma wal_Append_inv:
  assumes inv: "wal_inv w ms" "wal_open w" "list_all wal_fits bs"
    and app: "wal_Append None sio bs w = (out, w')"
  shows "wal_inv w' (ms @ bs)"
proof -
  define w1 where "w1 = (if bs = [] then w
    else w\<lparr>wal_bytes := wal_bytes w @ log_of mutation_frame bs, wal_dirty := True\<rparr>)"
  have w1: "wal_inv w1 (ms @ bs)"
    using inv by (auto simp: wal_inv_def w1_def)
  then have "wal_inv w2 (ms @ bs)"
    if "(if wal_mode w1 = SyncFull then syncLocked sio w1 else (None, w1)) = (e, w2)" for e w2
    using that syncLocked_inv [OF w1, of sio] by (auto split: if_splits)
  with app show ?thesis
    unfolding wal_Append_ok [OF inv(2)] w1_def [symmetric]
    by (auto split: prod.splits option.splits simp: wal_inv_seq)
qed

lemma wal_run_inv: "wal_run w ms \<Longrightarrow> wal_inv w ms"
proof (induction rule: wal_run.induct)
  case (opened mode)
  show ?case by (simp add: wal_inv_def wal_Open_def)
next
  case (append_fails w ms e sio bs n e' w')
  then show ?case
    by (auto simp: wal_Append_def Let_def file_Write_def wal_inv_def syncLocked_def
        split: if_splits option.splits)
next
  case (truncate w ms tio kio oio w')
  then show ?case
    by (auto simp: wal_Truncate_def wal_inv_def Let_def split: option.splits if_splits)
qed (auto simp: wal_Sync_def intro: wal_Append_inv syncLocked_inv)

lemma wal_Replay_Open: "wal_Replay fn (wal_Open mode img) s = Replay_loop fn img 0 s"
  by (simp add: wal_Replay_def wal_Open_def)

text \<open>Records that lie wholly within a surviving prefix of the log are replayed.\<close>

lemma Replay_covers:
  assumes ms: "list_all wal_fits ms" and img: "prefix img (log_of mutation_frame ms)"
    and k: "k \<le> length ms" "length (log_of mutation_frame (take k ms)) \<le> length img"
    and n: "\<And>f s. Replay_loop (replay_fn f) img 0 (s :: unit) = ((int n, None), f' f s)"
  shows "k \<le> n"
proof -
  have split: "log_of mutation_frame ms =
      log_of mutation_frame (take k ms) @ log_of mutation_frame (drop k ms)"
    by (simp flip: log_of_simps(3))
  then have "prefix (log_of mutation_frame (take k ms)) img"
    using img k(2) by (metis prefixI prefix_length_prefix)
  then obtain q where q: "img = log_of mutation_frame (take k ms) @ q"
    by (auto simp: prefix_def)
  with img split have "prefix q (log_of mutation_frame (drop k ms))"
    by simp
  note q' = this
  have fits: "list_all wal_fits (take k ms)" "list_all wal_fits (drop k ms)"
    using ms by (auto simp: list_all_iff dest: in_set_takeD in_set_dropD)
  obtain j t where t: "q = log_of mutation_frame (take j (drop k ms)) @ t"
      "eof_res (readMutation t)" "j \<le> length (drop k ms)"
    by (rule Replay_loop_prefix [where 's = unit, OF fits(2) q']) blast
  have "list_all wal_fits (take k ms @ take j (drop k ms))"
    using fits by (auto simp: list_all_iff dest: in_set_takeD)
  from Replay_loop_log [OF this t(2), of "\<lambda>_ s. s" 0 "()"]
  have "int n = int (length (take k ms @ take j (drop k ms)))"
    using n [of "\<lambda>_ s. s" "()"] unfolding q t(1) log_of_simps append_assoc by simp
  then show ?thesis using k(1) by simp
qed

text \<open>The record keeps the cells of a well-formed mutation.\<close>

lemma mutation_Cells_wal_image: "mutation_ok m \<Longrightarrow> mutation_Cells (wal_image m) = mutation_Cells m"
  by (auto simp: mutation_Cells_def wal_image_def wal_entry_def mutation_ok_def list_all_iff
      entry_ok_def)

text \<open>Under \<^verbatim>\<open>SyncFull\<close> an acknowledged append is on stable storage.\<close>

lemma wal_Append_synced:
  assumes "wal_inv w ms" "wal_open w" "wal_mode w = SyncFull" "list_all wal_fits bs"
    and "wal_Append None sio bs w = ((n, None), w')"
  shows "wal_inv w' (ms @ bs)" "wal_synced w' = length (wal_bytes w')"
proof -
  show inv: "wal_inv w' (ms @ bs)"
    by (rule wal_Append_inv [OF assms(1,2,4,5)])
  have "\<not> wal_dirty w'"
    using assms(3,5) unfolding wal_Append_ok [OF assms(2)]
    by (auto simp: syncLocked_def split: if_splits option.splits)
  with inv show "wal_synced w' = length (wal_bytes w')"
    by (simp add: wal_inv_def)
qed

lemma prefix_whole: "prefix p q \<Longrightarrow> length q \<le> length p \<Longrightarrow> p = q"
  by (metis not_less prefix_length_less strict_prefixI)

section \<open>Properties\<close>


definition example_log :: wal where
  "example_log = snd (wal_Append None None [example_mutation] (wal_Open SyncNormal []))"

lemma example_mutation_fits: "wal_fits example_mutation"
  by (simp add: example_mutation_def mutation_DeleteLatest_def mutation_Put_def
      mutation_Delete_def wal_fits_def entry_fits_def)

lemma be_bytes_4_1: "be_bytes 4 1 = [0, 0, 0, 1]"
proof -
  have four: "(4 :: nat) = Suc (Suc (Suc (Suc 0)))" by simp
  show ?thesis unfolding four be_bytes.simps by simp
qed

lemma example_frame: "\<exists>rest. mutation_frame example_mutation = [0, 0, 0, 1] @ rest"
proof -
  have "unat (of_nat (length (mut_row example_mutation)) :: int32) = 1"
    by (simp add: example_mutation_def mutation_DeleteLatest_def mutation_Put_def mutation_Delete_def)
  then show ?thesis
    unfolding mutation_frame_def framed_split using be_bytes_4_1 by simp
qed

lemma example_log_run: "wal_run example_log [example_mutation]"
proof -
  have "wal_run (snd (wal_Append None None [example_mutation] (wal_Open SyncNormal [])))
      ([] @ [example_mutation])"
    by (rule wal_run.append [OF wal_run.opened _ _ prod.collapse [symmetric]])
      (simp_all add: wal_Open_def example_mutation_fits)
  then show ?thesis by (simp add: example_log_def)
qed

lemma example_log_bytes: "wal_bytes example_log = mutation_frame example_mutation"
  using wal_run_inv [OF example_log_run] by (simp add: wal_inv_def)

lemma example_log_synced: "wal_synced example_log = 0"
  by (simp add: example_log_def wal_Append_ok wal_Open_def)


text \<open>
  Durability of acknowledged writes. Under \<^verbatim>\<open>SyncFull\<close>, once \<^verbatim>\<open>Append\<close> has returned
  without error, every crash image that holds the synced bytes replays the appended batch
  after everything logged before it: nothing is lost and nothing else is replayed.
\<close>

theorem wal_acknowledged_survives:
  assumes "wal_run w ms" "wal_open w" "wal_mode w = SyncFull" "list_all wal_fits bs"
    and "wal_Append None sio bs w = ((n, None), w')"
    and "prefix img (wal_bytes w')" "wal_synced w' \<le> length img"
  shows "wal_Replay (replay_fn f) (wal_Open mode img) s =
    ((int (length (ms @ bs)), None), fold f (map wal_image (ms @ bs)) s)"
proof -
  note app = wal_Append_synced [OF wal_run_inv [OF assms(1)] assms(2-5)]
  have "img = wal_bytes w'"
    using assms(6,7) app(2) by (intro prefix_whole) simp_all
  with app(1) have img: "img = log_of mutation_frame (ms @ bs) @ []" and fits: "list_all wal_fits (ms @ bs)"
    by (simp_all add: wal_inv_def)
  show ?thesis
    unfolding wal_Replay_Open img
    using Replay_loop_log [OF fits wal_log.dec_empty, of f 0 s] by simp
qed


end
