(* ===== verification/Tablet_Source.thy ===== *)
theory Tablet_Source
  imports Compaction Tablet_Memtable Tablet_Manifest Local_WAL
begin

text \<open>
  The tablet of \<^verbatim>\<open>internal/tablet/tablet.go\<close> and its read paths: the merged source over the
  memtable and the immutable files, newest first, \<open>Scan\<close>, \<open>LookupRows\<close> and the conditions
  of a conditional write.

  An immutable file is its decoded cells and its embedding state: how a file
  is written and read back is the subject of the RFile theories, and here a file is read
  through a \<^verbatim>\<open>SliceSource\<close> over its cells. The locks, the caches, the context checks and the
  loggers are left out. The theory shows that what a scan returns is its iterator stack's view
  of the table contents, and what a condition compares.
\<close>

section \<open>State\<close>

record file_image =
  fi_cells :: "cell list"
  fi_state :: string

record tablet_options =
  o_FlushThreshold :: int
  o_FileFormat :: FileFormat
  o_DefaultEmbedding :: string
  o_TombstoneRetention :: int

text \<open>\<open>t_imm\<close> holds the fields of \<^verbatim>\<open>Tablet\<close> that \<^verbatim>\<open>state\<close> copies; its active list is \<^verbatim>\<open>files\<close>.\<close>

record tablet =
  t_active :: sl_memtable
  t_imm :: immutableState
  t_wal :: wal
  t_backend :: "file_image backend"
  t_instance :: string
  t_opts :: tablet_options

abbreviation t_files :: "tablet \<Rightarrow> string list" where
  "t_files t \<equiv> is_active (t_imm t)"

definition tablet_state :: "tablet \<Rightarrow> string list \<Rightarrow> strset \<Rightarrow> immutableState" where
  "tablet_state t active obsolete = (t_imm t)\<lparr>is_active := active, is_obsolete := obsolete\<rparr>"

definition newestFirst :: "string list \<Rightarrow> string list" where
  "newestFirst files =
     fold (\<lambda>i out. out[length files - 1 - i := files ! i]) [0..<length files]
       (replicate (length files) [])"

text \<open>
  The leaves of a source are the memtable's iterator, its snapshot, and the files' sources:
  different types behind one interface.
\<close>

type_synonym leaf = "sl_iter + slice_source"

definition leaf_skvi :: "leaf skvi" where
  "leaf_skvi =
     \<lparr>Seek = (\<lambda>r cfs inclusive. case_sum
         (\<lambda>i. map_option (\<lambda>(i, e). (Inl i, e)) (Seek slIter_skvi r cfs inclusive i))
         (\<lambda>s. map_option (\<lambda>(s, e). (Inr s, e)) (Seek slice_skvi r cfs inclusive s))),
      Next = case_sum (\<lambda>i. map_option (\<lambda>(i, e). (Inl i, e)) (Next slIter_skvi i))
         (\<lambda>s. map_option (\<lambda>(s, e). (Inr s, e)) (Next slice_skvi s)),
      HasTop = case_sum (HasTop slIter_skvi) (HasTop slice_skvi),
      GetTopKey = case_sum (GetTopKey slIter_skvi) (GetTopKey slice_skvi),
      GetTopValue = case_sum (GetTopValue slIter_skvi) (GetTopValue slice_skvi)\<rparr>"

definition leaf_Init :: "options \<Rightarrow> environment \<Rightarrow> leaf \<Rightarrow> leaf res" where
  "leaf_Init options env l =
     (case l of
        Inl i \<Rightarrow> Inr (Inl i)
      | Inr s \<Rightarrow> map_sum id Inr (slice_Init (None :: unit option) options env s))"

text \<open>\<open>oio\<close> is the error of opening a file, if any; a file that is not there is an error too.\<close>

definition openFileSource ::
    "(string \<Rightarrow> go_err option) \<Rightarrow> file_image backend \<Rightarrow> string \<Rightarrow> leaf res" where
  "openFileSource oio b name =
     (case oio name of
        Some e \<Rightarrow> Inl e
      | None \<Rightarrow>
          (case map_of b name of
             Some (File f) \<Rightarrow> Inr (Inr (NewSliceSource (fi_cells f)))
           | Some (FilesJson _) \<Rightarrow> Inl (Errorf ''rfile: bad magic'')
           | None \<Rightarrow> Inl (Errorf ''storage: not found'')))"

fun open_leaves ::
    "(string \<Rightarrow> go_err option) \<Rightarrow> file_image backend \<Rightarrow> string list \<Rightarrow> leaf list res" where
  "open_leaves oio b [] = Inr []"
| "open_leaves oio b (path # paths) =
     rbind (rwrap ''tablet: open'' (openFileSource oio b path)) (\<lambda>src.
     rbind (open_leaves oio b paths) (\<lambda>leaves. Inr (src # leaves)))"

definition sourceWithMemLocked ::
    "(string \<Rightarrow> go_err option) \<Rightarrow> environment \<Rightarrow> leaf \<Rightarrow> tablet \<Rightarrow> leaf merging res" where
  "sourceWithMemLocked oio env memIter t =
     rbind (open_leaves oio (t_backend t) (newestFirst (t_files t))) (\<lambda>leaves.
     rwrap ''tablet: merge init''
       (merging_Init leaf_Init (None :: unit option) Map.empty env (NewMergingIterator (memIter # leaves))))"

definition sourceLocked ::
    "(string \<Rightarrow> go_err option) \<Rightarrow> environment \<Rightarrow> tablet \<Rightarrow> leaf merging res" where
  "sourceLocked oio env t = sourceWithMemLocked oio env (Inl (sl_Iterator (t_active t))) t"

text \<open>\<^verbatim>\<open>SnapshotSourceContext\<close>: the memtable is copied into a slice first.\<close>

definition SnapshotSource ::
    "(string \<Rightarrow> go_err option) \<Rightarrow> environment \<Rightarrow> tablet \<Rightarrow> leaf merging res option" where
  "SnapshotSource oio env t =
     (case slIter_Seek InfiniteRange [] False (sl_Iterator (t_active t)) of
        None \<Rightarrow> None
      | Some (mem, Some e) \<Rightarrow> Some (Inl e)
      | Some (mem, None) \<Rightarrow>
          (case drain_loop slIter_skvi [] mem of
             None \<Rightarrow> None
           | Some (cs, Some e) \<Rightarrow> Some (Inl e)
           | Some (cs, None) \<Rightarrow>
               Some (rbind (slice_Init (None :: unit option) Map.empty env (NewSliceSource cs)) (\<lambda>memSnapshot.
                 sourceWithMemLocked oio env (Inr memSnapshot) t))))"

section \<open>Reads\<close>

definition ErrQueryMetadataMissing :: go_err where
  "ErrQueryMetadataMissing = Errorf ''embedding space: query source metadata unavailable''"

text \<open>The scanner is the top of the stack, positioned; \<open>None\<close> is a call that does not return.\<close>

definition tablet_Scan ::
    "(string \<Rightarrow> go_err option) \<Rightarrow> range \<Rightarrow> bytes list \<Rightarrow> bool \<Rightarrow> iter_spec list \<Rightarrow> environment \<Rightarrow>
       tablet \<Rightarrow> leaf merging iter res option" where
  "tablet_Scan oio r columnFamilies inclusive stack env t =
     (if \<exists>spec\<in>set stack. Name spec = IterVectorKNN
      then Some (Inl (Wrap ''vectorKNN requires engine-hosted metadata validation'' ErrQueryMetadataMissing))
      else case SnapshotSource oio env t of
        None \<Rightarrow> None
      | Some (Inl e) \<Rightarrow> Some (Inl e)
      | Some (Inr merge) \<Rightarrow>
          (case BuildStack merge stack env of
             None \<Rightarrow> None
           | Some (Inl e) \<Rightarrow> Some (Inl (Wrap ''tablet: build stack'' e))
           | Some (Inr it) \<Rightarrow>
               (case Seek (iter_ops (merging_skvi leaf_skvi) (length stack)) r columnFamilies inclusive it of
                  None \<Rightarrow> None
                | Some (it, Some e) \<Rightarrow> Some (Inl (Wrap ''tablet: seek'' e))
                | Some (it, None) \<Rightarrow> Some (Inr it))))"

text \<open>A caller of \<^verbatim>\<open>Scan\<close> reads the scanner to its end.\<close>

definition scan_cells ::
    "(string \<Rightarrow> go_err option) \<Rightarrow> range \<Rightarrow> bytes list \<Rightarrow> bool \<Rightarrow> iter_spec list \<Rightarrow> environment \<Rightarrow>
       tablet \<Rightarrow> cell list res option" where
  "scan_cells oio r columnFamilies inclusive stack env t =
     (case tablet_Scan oio r columnFamilies inclusive stack env t of
        None \<Rightarrow> None
      | Some (Inl e) \<Rightarrow> Some (Inl e)
      | Some (Inr it) \<Rightarrow>
          (case drain_loop (iter_ops (merging_skvi leaf_skvi) (length stack)) [] it of
             None \<Rightarrow> None
           | Some (cs, Some e) \<Rightarrow> Some (Inl e)
           | Some (cs, None) \<Rightarrow> Some (Inr cs)))"

definition rowSuccessor :: "bytes \<Rightarrow> bytes" where
  "rowSuccessor row = row @ [0]"

definition row_key :: "bytes \<Rightarrow> key" where
  "row_key row = \<lparr>Row = row, ColumnFamily = [], ColumnQualifier = [], ColumnVisibility = [],
                  Timestamp = 0, Deleted = False\<rparr>"

definition row_range :: "bytes \<Rightarrow> range" where
  "row_range row =
     \<lparr>Start = Some (row_key row), StartInclusive = True, InfiniteStart = False,
      End = Some (row_key (rowSuccessor row)), EndInclusive = False, InfiniteEnd = False\<rparr>"

text \<open>
  The loop of \<^verbatim>\<open>LookupRows\<close> over the sorted order: the cells handed to \<^verbatim>\<open>visit\<close>, each with the
  position of its row in the request. \<^verbatim>\<open>sort.Slice\<close> leaves the order of equal rows open; a
  stable sort is one of its outcomes.
\<close>

fun lookup_loop ::
    "nat \<Rightarrow> bytes list \<Rightarrow> bool \<Rightarrow> bytes list \<Rightarrow> nat list \<Rightarrow> leaf merging iter \<Rightarrow>
       (nat \<times> cell) list \<Rightarrow> (nat \<times> cell) list res option" where
  "lookup_loop n cfs inclusive rows [] it out = Some (Inr out)"
| "lookup_loop n cfs inclusive rows (idx # order) it out =
     (case Seek (iter_ops (merging_skvi leaf_skvi) n) (row_range (rows ! idx)) cfs inclusive it of
        None \<Rightarrow> None
      | Some (it, Some e) \<Rightarrow> Some (Inl (Wrap ''tablet: lookup seek'' e))
      | Some (it, None) \<Rightarrow>
          (case drain_loop (iter_ops (merging_skvi leaf_skvi) n) [] it of
             None \<Rightarrow> None
           | Some (cs, Some e) \<Rightarrow> Some (Inl (Wrap ''tablet: lookup next'' e))
           | Some (cs, None) \<Rightarrow>
               lookup_loop n cfs inclusive rows order it (out @ map (Pair idx) cs)))"

definition LookupRows ::
    "(string \<Rightarrow> go_err option) \<Rightarrow> bytes list \<Rightarrow> bytes list \<Rightarrow> bool \<Rightarrow> iter_spec list \<Rightarrow> environment \<Rightarrow>
       tablet \<Rightarrow> (nat \<times> cell) list res option" where
  "LookupRows oio rows columnFamilies inclusive stack env t =
     (if length rows = 0 then Some (Inr [])
      else case SnapshotSource oio env t of
        None \<Rightarrow> None
      | Some (Inl e) \<Rightarrow> Some (Inl e)
      | Some (Inr merge) \<Rightarrow>
          (case BuildStack merge stack env of
             None \<Rightarrow> None
           | Some (Inl e) \<Rightarrow> Some (Inl (Wrap ''tablet: build stack'' e))
           | Some (Inr it) \<Rightarrow>
               lookup_loop (length stack) columnFamilies inclusive rows
                 (sort_key (\<lambda>i. rows ! i) [0..<length rows]) it []))"

section \<open>Conditions\<close>

datatype ConditionKind =
    ConditionAbsent
  | ConditionValueEquals
  | ConditionLatestValueAndTimestampEquals
  | ConditionUnsupported

record condition =
  c_ColumnFamily :: bytes
  c_ColumnQualifier :: bytes
  c_ColumnVisibility :: bytes
  c_Timestamp :: "int64 option"
  c_Kind :: ConditionKind
  c_Value :: bytes

definition condition_start :: "bytes \<Rightarrow> condition \<Rightarrow> key" where
  "condition_start row c =
     \<lparr>Row = row, ColumnFamily = c_ColumnFamily c, ColumnQualifier = c_ColumnQualifier c,
      ColumnVisibility = c_ColumnVisibility c,
      Timestamp = (case c_Timestamp c of
          Some ts \<Rightarrow> if c_Kind c \<noteq> ConditionLatestValueAndTimestampEquals then ts else MaxInt64
        | None \<Rightarrow> MaxInt64),
      Deleted = True\<rparr>"

text \<open>
  One turn of the loop of \<^verbatim>\<open>conditionsMatchLocked\<close>, after the seek: \<open>hit\<close> is the key and value at the
  top of the source, if it has one.
\<close>

definition condition_holds :: "bytes \<Rightarrow> condition \<Rightarrow> cell option \<Rightarrow> bool res" where
  "condition_holds row c hit =
     (let found = (case hit of
            None \<Rightarrow> None
          | Some (key, val) \<Rightarrow>
              let sameCoordinate = bytes_Equal (Row key) row \<and>
                    bytes_Equal (ColumnFamily key) (c_ColumnFamily c) \<and>
                    bytes_Equal (ColumnQualifier key) (c_ColumnQualifier c) \<and>
                    bytes_Equal (ColumnVisibility key) (c_ColumnVisibility c);
                  sameTimestamp = (c_Timestamp c = None \<or> Some (Timestamp key) = c_Timestamp c)
              in if sameCoordinate \<and> sameTimestamp \<and> \<not> Deleted key then Some val else None);
          exists' = (found \<noteq> None);
          val = (case found of None \<Rightarrow> [] | Some v \<Rightarrow> v)
      in case c_Kind c of
           ConditionAbsent \<Rightarrow> Inr (\<not> exists')
         | ConditionValueEquals \<Rightarrow> Inr (exists' \<and> bytes_Equal val (c_Value c))
         | ConditionLatestValueAndTimestampEquals \<Rightarrow>
             Inr (c_Timestamp c \<noteq> None \<and> exists' \<and>
                  (case hit of None \<Rightarrow> False | Some (key, v) \<Rightarrow> Some (Timestamp key) = c_Timestamp c) \<and>
                  bytes_Equal val (c_Value c))
         | ConditionUnsupported \<Rightarrow> Inl (Errorf ''tablet: unsupported condition kind''))"

fun conditions_loop :: "bytes \<Rightarrow> condition list \<Rightarrow> leaf merging \<Rightarrow> bool res option" where
  "conditions_loop row [] source = Some (Inr True)"
| "conditions_loop row (c # cs) source =
     (case merging_Seek leaf_skvi
          \<lparr>Start = Some (condition_start row c), StartInclusive = True, InfiniteStart = False,
           End = None, EndInclusive = False, InfiniteEnd = True\<rparr> [] False source of
        None \<Rightarrow> None
      | Some (source, Some e) \<Rightarrow> Some (Inl (Wrap ''tablet: condition seek'' e))
      | Some (source, None) \<Rightarrow>
          (case (if merging_HasTop source
                 then map_option (\<lambda>key. Some (key, merging_GetTopValue leaf_skvi source))
                        (merging_GetTopKey leaf_skvi source)
                 else Some None) of
             None \<Rightarrow> None
           | Some hit \<Rightarrow>
               (case condition_holds row c hit of
                  Inl e \<Rightarrow> Some (Inl e)
                | Inr False \<Rightarrow> Some (Inr False)
                | Inr True \<Rightarrow> conditions_loop row cs source)))"

definition conditionsMatchLocked ::
    "(string \<Rightarrow> go_err option) \<Rightarrow> bytes \<Rightarrow> condition list \<Rightarrow> tablet \<Rightarrow> bool res option" where
  "conditionsMatchLocked oio row conditions t =
     (if length conditions = 0 then Some (Inr True)
      else case sourceLocked oio \<lparr>Scope = ScopeScan, FullMajorCompaction = False, Authorizations = None\<rparr> t of
        Inl e \<Rightarrow> Some (Inl e)
      | Inr source \<Rightarrow> conditions_loop row conditions source)"

section \<open>Leaves are lawful\<close>

lemma newestFirst_rev: "newestFirst files = rev files"
proof -
  have "fold (\<lambda>i out. out[length files - 1 - i := files ! i]) [0..<n] (replicate (length files) []) =
      replicate (length files - n) [] @ rev (take n files)" if "n \<le> length files" for n
    using that
  proof (induction n)
    case (Suc n)
    then have "length files - n = Suc (length files - Suc n)" by simp
    with Suc show ?case
      by (simp add: list_update_append take_Suc_conv_app_nth replicate_append_same [symmetric]
          del: replicate_append_same)
  qed simp
  from this [of "length files"] show ?thesis
    by (simp add: newestFirst_def)
qed

definition leaf_wf :: "leaf \<Rightarrow> bool" where
  "leaf_wf = case_sum slIter_wf slice_wf"

definition leaf_ready :: "leaf \<Rightarrow> bool" where
  "leaf_ready = case_sum slIter_ready slice_ready"

definition leaf_rem :: "leaf \<Rightarrow> cell list" where
  "leaf_rem = case_sum slIter_rem slice_rem"

definition leaf_view :: "leaf \<Rightarrow> range \<Rightarrow> bytes list \<Rightarrow> bool \<Rightarrow> cell list" where
  "leaf_view = case_sum slIter_view slice_view"

lemmas leaf_defs = leaf_skvi_def leaf_wf_def leaf_ready_def leaf_rem_def leaf_view_def

interpretation leaf: skvi leaf_skvi leaf_wf leaf_ready leaf_rem leaf_view
proof
  fix l :: leaf and r cfs inclusive
  assume wf: "leaf_wf l"
  show "\<exists>l'. Seek leaf_skvi r cfs inclusive l = Some (l', None) \<and> leaf_ready l' \<and>
      leaf_rem l' = leaf_view l r cfs inclusive \<and> leaf_view l' = leaf_view l"
  proof (cases l)
    case (Inl i)
    with wf slIter.seek_law [of i r cfs inclusive] show ?thesis
      by (force simp: leaf_defs)
  next
    case (Inr s)
    with wf slice.seek_law [of s r cfs inclusive] show ?thesis
      by (force simp: leaf_defs)
  qed
next
  fix l :: leaf and c cs
  assume l: "leaf_ready l" "leaf_rem l = c # cs"
  show "\<exists>l'. Next leaf_skvi l = Some (l', None) \<and> leaf_ready l' \<and> leaf_rem l' = cs \<and>
      leaf_view l' = leaf_view l"
  proof (cases l)
    case (Inl i)
    with l slIter.next_law [of i c cs] show ?thesis
      by (force simp: leaf_defs)
  next
    case (Inr s)
    with l slice.next_law [of s c cs] show ?thesis
      by (force simp: leaf_defs)
  qed
qed (auto simp: leaf_defs slIter.top_law slice.top_law slIter.key_law slice.key_law slIter.value_law
    slice.value_law dest: slIter.ready_wf slice.ready_wf slIter.sorted_law slice.sorted_law
    split: sum.splits)

interpretation leaves: skvi "merging_skvi leaf_skvi" "merging_wf leaf_wf"
  "merging_ready leaf_ready leaf_rem" "merging_rem leaf_rem" "merging_view leaf_view"
  by (rule leaf.merging_lawful)

section \<open>The contents of a tablet\<close>

text \<open>
  The cells of the table: the memtable's, then each file's from the newest to the oldest,
  merged. The invariant: the memtable's skip list is well formed, the live files are
  distinct, present, and sorted, and the name high-water mark is not negative.
\<close>

definition file_cells :: "file_image backend \<Rightarrow> string \<Rightarrow> cell list" where
  "file_cells b name = (case map_of b name of Some (File f) \<Rightarrow> fi_cells f | _ \<Rightarrow> [])"

definition immutable_cells :: "tablet \<Rightarrow> cell list" where
  "immutable_cells t = merge_all (map (file_cells (t_backend t)) (rev (t_files t)))"

definition table_cells :: "tablet \<Rightarrow> cell list" where
  "table_cells t = merge2 (sl_cells (t_active t)) (immutable_cells t)"

definition has_file :: "file_image backend \<Rightarrow> string \<Rightarrow> bool" where
  "has_file b name \<longleftrightarrow> (\<exists>f. map_of b name = Some (File f) \<and> sorted_cells (fi_cells f)) \<and>
     name \<noteq> ''files.json'' \<and> (filepath_Ext name = ''.rf'' \<or> filepath_Ext name = ''.parquet'')"

definition files_ok :: "tablet \<Rightarrow> bool" where
  "files_ok t \<longleftrightarrow> distinct (t_files t) \<and> list_all (has_file (t_backend t)) (t_files t)"

definition tablet_ok :: "tablet \<Rightarrow> bool" where
  "tablet_ok t \<longleftrightarrow> sl_ok (t_active t) \<and> files_ok t \<and> 0 \<le> is_nameHighWater (t_imm t)"

lemma sl_ok_sorted: "sl_ok sl \<Longrightarrow> sorted_cells (sl_cells sl)"
  by (auto simp: sl_ok_def intro: sorted_contents)

lemma has_file_sorted: "has_file b name \<Longrightarrow> sorted_cells (file_cells b name)"
  by (auto simp: has_file_def file_cells_def)

lemma files_sorted:
  "files_ok t \<Longrightarrow> \<forall>cs\<in>set (map (file_cells (t_backend t)) (rev (t_files t))). sorted_cells cs"
  by (auto simp: files_ok_def list_all_iff has_file_sorted)

lemma table_cells_sorted: "tablet_ok t \<Longrightarrow> sorted_cells (table_cells t)"
  unfolding table_cells_def immutable_cells_def tablet_ok_def
  by (intro sorted_merge2 sl_ok_sorted sorted_merge_all files_sorted) auto

section \<open>The merged source\<close>

definition opens :: "(string \<Rightarrow> go_err option) \<Rightarrow> tablet \<Rightarrow> bool" where
  "opens oio t \<longleftrightarrow> (\<forall>name\<in>set (t_files t). oio name = None)"

definition file_leaf :: "file_image backend \<Rightarrow> string \<Rightarrow> leaf" where
  "file_leaf b name = Inr (NewSliceSource (file_cells b name))"

definition tablet_source :: "leaf \<Rightarrow> tablet \<Rightarrow> leaf merging" where
  "tablet_source mem t = NewMergingIterator (mem # map (file_leaf (t_backend t)) (rev (t_files t)))"

abbreviation snapshot_leaf :: "tablet \<Rightarrow> leaf" where
  "snapshot_leaf t \<equiv> Inr (NewSliceSource (sl_cells (t_active t)))"

lemma open_leaves_ok:
  assumes "list_all (has_file b) paths" "\<forall>p\<in>set paths. oio p = None"
  shows "open_leaves oio b paths = Inr (map (file_leaf b) paths)"
  using assms
  by (induction paths) (auto simp: openFileSource_def file_leaf_def file_cells_def has_file_def)

lemma leaf_Init_ok: "leaf_Init options env l = Inr l"
  by (cases l) (simp_all add: leaf_Init_def slice_Init_def)

lemma sourceWithMemLocked_ok:
  assumes "files_ok t" "opens oio t"
  shows "sourceWithMemLocked oio env mem t = Inr (tablet_source mem t)"
proof -
  have "open_leaves oio (t_backend t) (rev (t_files t)) = Inr (map (file_leaf (t_backend t)) (rev (t_files t)))"
    using assms by (intro open_leaves_ok) (auto simp: files_ok_def opens_def list_all_iff)
  then show ?thesis
    by (simp add: sourceWithMemLocked_def newestFirst_rev merging_Init_def leaf_Init_ok
        merging_init_sources_ok tablet_source_def NewMergingIterator_def)
qed

lemma sl_Iterator_wf: "sl_ok sl \<Longrightarrow> slIter_wf (sl_Iterator sl)"
  by (auto simp: slIter_wf_def sl_Iterator_def sl_ok_def)

lemma sl_drain:
  assumes "sl_ok sl"
  shows "\<exists>it. slIter_Seek InfiniteRange [] False (sl_Iterator sl) = Some (it, None) \<and>
    drain_loop slIter_skvi [] it = Some (sl_cells sl, None)"
  using slIter.scan_spec [OF sl_Iterator_wf [OF assms], of InfiniteRange "[]" False]
  by (simp add: slIter_skvi_def slIter_view_def sl_Iterator_def AfterEnd_def InfiniteRange_def BeforeStart_def)

lemma SnapshotSource_ok:
  assumes "tablet_ok t" "opens oio t"
  shows "SnapshotSource oio env t = Some (Inr (tablet_source (snapshot_leaf t) t))"
  using assms sl_drain [of "t_active t"] sourceWithMemLocked_ok [of t oio]
  by (auto simp: SnapshotSource_def tablet_ok_def slice_Init_def)

lemma sourceLocked_ok:
  assumes "tablet_ok t" "opens oio t"
  shows "sourceLocked oio env t = Inr (tablet_source (Inl (sl_Iterator (t_active t))) t)"
  using assms by (simp add: sourceLocked_def sourceWithMemLocked_ok tablet_ok_def)

lemma tablet_source_wf:
  assumes "tablet_ok t" "leaf_wf mem"
  shows "merging_wf leaf_wf (tablet_source mem t)"
  using assms files_sorted [of t]
  by (auto simp: merging_wf_def tablet_source_def NewMergingIterator_def file_leaf_def leaf_wf_def
      slice_wf_def NewSliceSource_def tablet_ok_def)

lemma snapshot_leaf_wf: "tablet_ok t \<Longrightarrow> leaf_wf (snapshot_leaf t)"
  by (simp add: leaf_wf_def slice_wf_def NewSliceSource_def tablet_ok_def sl_ok_sorted)

lemma tablet_source_view:
  assumes "tablet_ok t"
    and "leaf_view mem r cfs inclusive = filter (selects r cfs inclusive) (sl_cells (t_active t))"
  shows "merging_view leaf_view (tablet_source mem t) r cfs inclusive =
    filter (selects r cfs inclusive) (table_cells t)"
proof -
  let ?files = "map (file_cells (t_backend t)) (rev (t_files t))"
  have "(\<lambda>l. leaf_view l r cfs inclusive) \<circ> file_leaf (t_backend t) =
      filter (selects r cfs inclusive) \<circ> file_cells (t_backend t)"
    by (simp add: leaf_view_def file_leaf_def slice_view_def NewSliceSource_def fun_eq_iff)
  then have files: "map (\<lambda>l. leaf_view l r cfs inclusive) (map (file_leaf (t_backend t)) (rev (t_files t))) =
      map (filter (selects r cfs inclusive)) ?files"
    by (simp only: map_map)
  have sorted: "\<forall>cs\<in>set ?files. sorted_cells cs" and mem: "sorted_cells (sl_cells (t_active t))"
    using assms(1) files_sorted by (simp_all add: tablet_ok_def sl_ok_sorted)
  have "filter (selects r cfs inclusive) (table_cells t) =
      merge2 (leaf_view mem r cfs inclusive) (merge_all (map (filter (selects r cfs inclusive)) ?files))"
    unfolding table_cells_def immutable_cells_def assms(2) filter_merge_all [OF sorted, symmetric]
    by (rule filter_merge2 [OF mem sorted_merge_all [OF sorted]])
  then show ?thesis
    unfolding files [symmetric]
    by (simp add: merging_view_def tablet_source_def NewMergingIterator_def)
qed

lemma snapshot_view:
  "tablet_ok t \<Longrightarrow> merging_view leaf_view (tablet_source (snapshot_leaf t) t) r cfs inclusive =
     filter (selects r cfs inclusive) (table_cells t)"
  by (rule tablet_source_view) (simp_all add: leaf_view_def slice_view_def NewSliceSource_def)

lemma mem_view:
  "tablet_ok t \<Longrightarrow> merging_view leaf_view (tablet_source (Inl (sl_Iterator (t_active t))) t) r [] False =
     filter (selects r [] False) (table_cells t)"
  by (rule tablet_source_view)
    (auto simp: leaf_view_def slIter_view_def sl_Iterator_def selects_def cfAllowed_def intro!: filter_cong)

section \<open>Scans\<close>

lemma tablet_Scan_ok:
  assumes "tablet_ok t" "opens oio t" "IterVectorKNN \<notin> Name ` set stack"
    and "BuildStack (tablet_source (snapshot_leaf t) t) stack env = Some (Inr it)" "list_all processing stack"
  shows "scan_cells oio r cfs inclusive stack env t =
    Some (Inr (stack_view (merging_view leaf_view) it r cfs inclusive))"
proof -
  have ok: "stack_ok (merging_wf leaf_wf) it" "depth it = length stack"
    using BuildStack_ok [where w = "merging_wf leaf_wf", OF assms(4) tablet_source_wf [OF assms(1) snapshot_leaf_wf [OF assms(1)]] assms(5)]
    by blast+
  then obtain it' where it': "Seek (iter_ops (merging_skvi leaf_skvi) (length stack)) r cfs inclusive it = Some (it', None)"
      "drain_loop (iter_ops (merging_skvi leaf_skvi) (length stack)) [] it' =
        Some (stack_view (merging_view leaf_view) it r cfs inclusive, None)"
    using leaves.stack_scan [OF ok(1), of "length stack" r cfs inclusive] by auto
  have "\<not> (\<exists>spec\<in>set stack. Name spec = IterVectorKNN)"
    using assms(3) by force
  then show ?thesis
    by (simp add: scan_cells_def tablet_Scan_def SnapshotSource_ok [OF assms(1,2)] assms(4) it')
qed

section \<open>Conditions\<close>

text \<open>
  What a condition looks at: the newest cell of its coordinate, or the newest one not above
  the condition's timestamp. \<open>condition_true\<close> is the condition on the table contents.
\<close>

definition condition_coord :: "bytes \<Rightarrow> condition \<Rightarrow> bytes \<times> bytes \<times> bytes \<times> bytes" where
  "condition_coord row c = (row, c_ColumnFamily c, c_ColumnQualifier c, c_ColumnVisibility c)"

definition condition_target :: "cell list \<Rightarrow> bytes \<Rightarrow> condition \<Rightarrow> cell option" where
  "condition_target cs row c =
     (case filter (\<lambda>d. c_Timestamp c = None \<or> c_Kind c = ConditionLatestValueAndTimestampEquals \<or>
             sint (Timestamp (fst d)) \<le> sint (the (c_Timestamp c)))
           (at_coord (condition_coord row c) cs) of
        [] \<Rightarrow> None
      | d # _ \<Rightarrow> if \<not> Deleted (fst d) \<and> (c_Timestamp c = None \<or> c_Timestamp c = Some (Timestamp (fst d)))
                 then Some d else None)"

definition condition_true :: "cell list \<Rightarrow> bytes \<Rightarrow> condition \<Rightarrow> bool" where
  "condition_true cs row c \<longleftrightarrow>
     (case c_Kind c of
        ConditionAbsent \<Rightarrow> condition_target cs row c = None
      | ConditionValueEquals \<Rightarrow> map_option snd (condition_target cs row c) = Some (c_Value c)
      | ConditionLatestValueAndTimestampEquals \<Rightarrow>
          c_Timestamp c \<noteq> None \<and> map_option snd (condition_target cs row c) = Some (c_Value c)
      | ConditionUnsupported \<Rightarrow> False)"

abbreviation condition_range :: "bytes \<Rightarrow> condition \<Rightarrow> range" where
  "condition_range row c \<equiv>
     \<lparr>Start = Some (condition_start row c), StartInclusive = True, InfiniteStart = False,
      End = None, EndInclusive = False, InfiniteEnd = True\<rparr>"

lemma coord_condition_start: "coord (condition_start row c) = condition_coord row c"
  by (simp add: coord_def condition_start_def condition_coord_def)

text \<open>The cells at or after the start key: those of the coordinate that count, then later ones.\<close>

lemma condition_start_le:
  "condition_start row c \<le> k \<longleftrightarrow>
     condition_coord row c < coord k \<or> coord k = condition_coord row c \<and>
       (c_Timestamp c = None \<or> c_Kind c = ConditionLatestValueAndTimestampEquals \<or>
        sint (Timestamp k) \<le> sint (the (c_Timestamp c)))"
proof -
  let ?s = "condition_start row c"
  have s: "coord ?s = condition_coord row c" by (rule coord_condition_start)
  consider "condition_coord row c < coord k" | "coord k < condition_coord row c"
    | "coord k = condition_coord row c"
    by fastforce
  then show ?thesis
  proof cases
    case 1
    then show ?thesis
      using coord_less_key [of ?s k] s by auto
  next
    case 2
    then show ?thesis
      using key_le_coord [of ?s k] s by auto
  next
    case 3
    have "Deleted ?s" by (simp add: condition_start_def)
    then have "?s \<le> k \<longleftrightarrow> sint (Timestamp k) < sint (Timestamp ?s) \<or> Timestamp ?s = Timestamp k"
      using 3 s key_le_same_coord [of ?s k] by simp
    then have "?s \<le> k \<longleftrightarrow> sint (Timestamp k) \<le> sint (Timestamp ?s)"
      by (metis le_less sint_eq_iff)
    then show ?thesis
      using 3 sint_le_MaxInt64 [of "Timestamp k"]
      by (auto simp: condition_start_def split: option.splits if_splits)
  qed
qed

lemma hd_filter_later:
  assumes sorted: "sorted_cells cs" and x: "filter (\<lambda>d. x \<le> coord (fst d) \<and> P d) cs = d # ds"
    and P: "\<And>d. x < coord (fst d) \<Longrightarrow> P d"
  shows "filter P (at_coord x cs) = [] \<longleftrightarrow> coord (fst d) \<noteq> x"
    and "coord (fst d) = x \<Longrightarrow> \<exists>es. filter P (at_coord x cs) = d # es"
proof -
  have eq: "filter P (at_coord x cs) = at_coord x (d # ds)"
    unfolding x [symmetric] by (auto intro: filter_cong)
  have "sorted_cells (d # ds)"
    unfolding x [symmetric] using sorted by (rule sorted_cells_filter)
  then have later: "coord (fst d) \<le> coord (fst e)" if "e \<in> set ds" for e
    using that key_le_coord by (auto simp: sorted_cells_Cons)
  have d: "x \<le> coord (fst d)"
    using x by (auto dest: filter_eq_ConsD)
  show "filter P (at_coord x cs) = [] \<longleftrightarrow> coord (fst d) \<noteq> x"
    unfolding eq using later d by (fastforce simp: filter_empty_conv)
  show "\<exists>es. filter P (at_coord x cs) = d # es" if "coord (fst d) = x"
    unfolding eq using that by simp
qed

definition first_cell :: "cell list \<Rightarrow> cell option" where
  "first_cell cs = (case cs of [] \<Rightarrow> None | d # _ \<Rightarrow> Some d)"

text \<open>The cell the loop compares, if it is one of the coordinate, is the condition's target.\<close>

lemma condition_target_first:
  assumes "sorted_cells cs"
  shows "condition_target cs row c =
    (case first_cell (filter (selects (condition_range row c) [] False) cs) of
       None \<Rightarrow> None
     | Some d \<Rightarrow> if coord (fst d) = condition_coord row c \<and> \<not> Deleted (fst d) \<and>
           (c_Timestamp c = None \<or> c_Timestamp c = Some (Timestamp (fst d))) then Some d else None)"
proof -
  let ?x = "condition_coord row c"
  let ?T = "\<lambda>d. c_Timestamp c = None \<or> c_Kind c = ConditionLatestValueAndTimestampEquals \<or>
       sint (Timestamp (fst d)) \<le> sint (the (c_Timestamp c))"
  let ?P = "\<lambda>d. ?x < coord (fst d) \<or> ?T d"
  have sel: "selects (condition_range row c) [] False = (\<lambda>d. condition_start row c \<le> fst d)"
    by (simp add: fun_eq_iff selects_def BeforeStart_iff AfterEnd_iff cfAllowed_def not_less)
  have range: "filter (selects (condition_range row c) [] False) cs = filter (\<lambda>d. ?x \<le> coord (fst d) \<and> ?P d) cs"
    unfolding sel condition_start_le by (intro filter_cong [OF refl]) (metis le_less)
  have at: "filter ?T (at_coord ?x cs) = filter ?P (at_coord ?x cs)"
    by (auto intro: filter_cong)
  show ?thesis
  proof (cases "filter (\<lambda>d. ?x \<le> coord (fst d) \<and> ?P d) cs")
    case Nil
    then have "filter ?P (at_coord ?x cs) = []"
      by (auto simp: filter_empty_conv)
    then show ?thesis
      unfolding condition_target_def range Nil at first_cell_def by simp
  next
    case (Cons d ds)
    from hd_filter_later [OF assms Cons] show ?thesis
      unfolding condition_target_def range Cons at first_cell_def
      by (cases "coord (fst d) = ?x") auto
  qed
qed

lemma condition_holds_spec:
  assumes "sorted_cells cs" "c_Kind c \<noteq> ConditionUnsupported"
  shows "condition_holds row c (first_cell (filter (selects (condition_range row c) [] False) cs)) =
    Inr (condition_true cs row c)"
proof (cases "first_cell (filter (selects (condition_range row c) [] False) cs)")
  case None
  then show ?thesis
    using assms condition_target_first [OF assms(1), of row c]
    by (auto simp: condition_holds_def condition_true_def Let_def split: ConditionKind.splits)
next
  case (Some d)
  obtain k v where d: "d = (k, v)" by (cases d)
  have "bytes_Equal (Row k) row \<and> bytes_Equal (ColumnFamily k) (c_ColumnFamily c) \<and>
      bytes_Equal (ColumnQualifier k) (c_ColumnQualifier c) \<and>
      bytes_Equal (ColumnVisibility k) (c_ColumnVisibility c) \<longleftrightarrow> coord k = condition_coord row c"
    by (simp add: bytes_Equal_def coord_def condition_coord_def)
  then show ?thesis
    using assms condition_target_first [OF assms(1), of row c] unfolding Some d
    by (auto simp: condition_holds_def condition_true_def Let_def bytes_Equal_def split: ConditionKind.splits)
qed

lemma conditions_loop_spec:
  assumes "merging_wf leaf_wf source" "list_all (\<lambda>c. c_Kind c \<noteq> ConditionUnsupported) conditions"
    and "\<And>r. merging_view leaf_view source r [] False = filter (selects r [] False) cs" "sorted_cells cs"
  shows "conditions_loop row conditions source = Some (Inr (list_all (condition_true cs row) conditions))"
  using assms(1-3)
proof (induction conditions arbitrary: source)
  case (Cons c conditions)
  let ?r = "condition_range row c"
  obtain s' where s': "merging_Seek leaf_skvi ?r [] False source = Some (s', None)"
      "merging_ready leaf_ready leaf_rem s'" "merging_rem leaf_rem s' = filter (selects ?r [] False) cs"
      "merging_view leaf_view s' = merging_view leaf_view source"
    using leaves.seek_law [OF Cons.prems(1), of ?r "[]" False] Cons.prems(3)
    by (auto simp: merging_skvi_def)
  have hit: "(if merging_HasTop s'
        then map_option (\<lambda>key. Some (key, merging_GetTopValue leaf_skvi s')) (merging_GetTopKey leaf_skvi s')
        else Some None) = Some (first_cell (merging_rem leaf_rem s'))"
    using leaves.top_law [OF s'(2)] leaves.key_law [OF s'(2)] leaves.value_law [OF s'(2)]
    by (cases "merging_rem leaf_rem s'") (auto simp: merging_skvi_def first_cell_def)
  have "conditions_loop row conditions s' = Some (Inr (list_all (condition_true cs row) conditions))"
    using Cons.prems s' leaves.ready_wf [OF s'(2)] by (intro Cons.IH) auto
  then show ?case
    using Cons.prems(2) condition_holds_spec [OF assms(4), of c row]
    by (simp add: s'(1) hit s'(3) split: bool.splits)
qed simp

lemma conditions_match:
  assumes "tablet_ok t" "opens oio t" "list_all (\<lambda>c. c_Kind c \<noteq> ConditionUnsupported) conditions"
  shows "conditionsMatchLocked oio row conditions t =
    Some (Inr (list_all (condition_true (table_cells t) row) conditions))"
proof (cases "conditions = []")
  case False
  have "leaf_wf (Inl (sl_Iterator (t_active t)))"
    using assms(1) by (simp add: leaf_wf_def tablet_ok_def sl_Iterator_wf)
  from conditions_loop_spec [OF tablet_source_wf [OF assms(1) this] assms(3) mem_view [OF assms(1)]
      table_cells_sorted [OF assms(1)]] False
  show ?thesis
    by (simp add: conditionsMatchLocked_def sourceLocked_ok [OF assms(1,2)])
qed (simp add: conditionsMatchLocked_def)

section \<open>Lookups of rows\<close>

lemma lookup_loop_spec:
  assumes "stack_ok (merging_wf leaf_wf) it" "depth it \<le> n"
    "\<forall>idx\<in>set order. idx < length rows"
  shows "lookup_loop n cfs inclusive rows order it out =
    Some (Inr (out @ concat (map (\<lambda>idx. map (Pair idx)
      (stack_view (merging_view leaf_view) it (row_range (rows ! idx)) cfs inclusive)) order)))"
proof -
  have law: "skvi (iter_ops (merging_skvi leaf_skvi) n) (iter_wf (merging_wf leaf_wf) n)
      (iter_ready (merging_ready leaf_ready leaf_rem) (merging_rem leaf_rem) n)
      (iter_rem (merging_rem leaf_rem) n) (iter_view (merging_view leaf_view) n)"
    by (rule iter_lawful [OF leaf.merging_lawful])
  have wf: "iter_wf (merging_wf leaf_wf) n it"
    using assms leaves.iter_wf_stack_ok by blast
  have view: "stack_view (merging_view leaf_view) it = iter_view (merging_view leaf_view) n it"
    using leaves.iter_view_stack_view [OF assms(2)] by (simp add: fun_eq_iff)
  show ?thesis
    unfolding view using wf
  proof (induction order arbitrary: it out)
    case (Cons idx order)
    let ?V = "iter_view (merging_view leaf_view) n"
    obtain it' where it': "Seek (iter_ops (merging_skvi leaf_skvi) n) (row_range (rows ! idx)) cfs inclusive it =
        Some (it', None)"
        "iter_ready (merging_ready leaf_ready leaf_rem) (merging_rem leaf_rem) n it'"
        "iter_rem (merging_rem leaf_rem) n it' = ?V it (row_range (rows ! idx)) cfs inclusive" "?V it' = ?V it"
      using skvi.seek_law [OF law Cons.prems] by blast
    then show ?case
      using Cons.IH [OF skvi.ready_wf [OF law it'(2)]]
      by (simp add: it' skvi.drain_loop_spec [OF law it'(2)])
  qed simp
qed

text \<open>
  A bare cell has empty columns; it is early if its key sorts before the key of its row with
  timestamp zero, the one \<^verbatim>\<open>LookupRows\<close> starts from.
\<close>

definition early_bare :: "key \<Rightarrow> bool" where
  "early_bare k \<longleftrightarrow> ColumnFamily k = [] \<and> ColumnQualifier k = [] \<and> ColumnVisibility k = [] \<and>
     (0 < sint (Timestamp k) \<or> Timestamp k = 0 \<and> Deleted k)"

lemma row_key_le:
  "row_key row \<le> k \<longleftrightarrow> row < Row k \<or> Row k = row \<and> \<not> early_bare k"
proof -
  have c: "coord (row_key row) = (row, [], [], [])"
    by (simp add: coord_def row_key_def)
  show ?thesis
  proof (cases "coord k = (row, [], [], [])")
    case True
    then have "row_key row \<le> k \<longleftrightarrow> sint (Timestamp k) < 0 \<or> Timestamp k = 0 \<and> \<not> Deleted k"
      using c key_le_same_coord [of "row_key row" k] by (auto simp: row_key_def)
    moreover have "Timestamp k = 0 \<longleftrightarrow> sint (Timestamp k) = 0"
      by (metis sint_0 sint_eq_iff)
    ultimately show ?thesis
      using True by (auto simp: coord_def early_bare_def)
  next
    case False
    then have "row_key row \<le> k \<longleftrightarrow> (row, [], [], []) < coord k"
      using c key_le_coord [of "row_key row" k] coord_less_key [of "row_key row" k] by (metis le_less)
    also have "\<dots> \<longleftrightarrow> row < Row k \<or> Row k = row \<and> \<not> early_bare k"
      using False by (auto simp: coord_def early_bare_def less_prod_def neq_Nil_conv)
    finally show ?thesis .
  qed
qed

lemma row_range_selects:
  "selects (row_range row) cfs inclusive c \<longleftrightarrow> cfAllowed (ColumnFamily (fst c)) cfs inclusive \<and>
     (Row (fst c) = row \<and> \<not> early_bare (fst c) \<or> Row (fst c) = row @ [0] \<and> early_bare (fst c))"
proof -
  let ?k = "fst c"
  have "selects (row_range row) cfs inclusive c \<longleftrightarrow> cfAllowed (ColumnFamily ?k) cfs inclusive \<and>
      row_key row \<le> ?k \<and> \<not> row_key (row @ [0]) \<le> ?k"
    by (auto simp: selects_def BeforeStart_iff AfterEnd_iff row_range_def rowSuccessor_def not_less not_le)
  then have sel: "selects (row_range row) cfs inclusive c \<longleftrightarrow> cfAllowed (ColumnFamily ?k) cfs inclusive \<and>
      (row < Row ?k \<or> Row ?k = row \<and> \<not> early_bare ?k) \<and>
      \<not> (row @ [0] < Row ?k \<or> Row ?k = row @ [0] \<and> \<not> early_bare ?k)"
    unfolding row_key_le .
  have succ: "row < Row ?k \<longleftrightarrow> row @ [0] \<le> Row ?k" "row < row @ [0]"
    using bytes_snoc_zero_successor [of row] by auto
  consider "Row ?k = row" | "Row ?k = row @ [0]" | "Row ?k \<noteq> row" "Row ?k \<noteq> row @ [0]" by blast
  then show ?thesis
  proof cases
    case 1
    with succ(2) show ?thesis unfolding sel by auto
  next
    case 2
    with succ(2) show ?thesis unfolding sel by auto
  next
    case 3
    with succ(1) show ?thesis unfolding sel by auto
  qed
qed

section \<open>Properties\<close>



text \<open>
  C14: the conditions of a conditional write are evaluated against the current table. All of
  them match exactly if each holds of the newest cell of its coordinate (for a condition with
  a timestamp, of the cell with that timestamp): absent, present with the value, or present
  with the value and the timestamp of the newest version. A tombstone counts as absent.
\<close>

theorem conditions_match_table:
  assumes "tablet_ok t" "opens oio t" "list_all (\<lambda>c. c_Kind c \<noteq> ConditionUnsupported) conditions"
  shows "conditionsMatchLocked oio row conditions t =
    Some (Inr (list_all (condition_true (table_cells t) row) conditions))"
  by (rule conditions_match [OF assms])


text \<open>A tablet with a tombstone in its memtable over a cell in a file, for the instances.\<close>

definition example_memtable :: "cell list \<Rightarrow> sl_memtable" where
  "example_memtable cs = the (sl_insert_all cs (newSkiplistMemtable (\<lambda>_. False)))"

lemma example_memtable: "sl_ok (example_memtable cs)" "sl_cells (example_memtable cs) = inserted cs []"
  using sl_insert_all_spec [OF sl_ok_new(1), of cs "\<lambda>_. False"]
  by (auto simp: example_memtable_def sl_ok_new(2))

definition example_state :: immutableState where
  "example_state =
     \<lparr>is_active = [''F0.rf''], is_obsolete = [], is_nameHighWater = 0, is_sources = Map.empty,
      is_absorbed = [], is_minted = Map.empty, is_exported = Map.empty, is_exportedLineage = False,
      is_tombstoneFree = [], is_assumedAt = 0\<rparr>"

definition example_tablet :: tablet where
  "example_tablet =
     \<lparr>t_active = example_memtable [(example_key 9 True, [])], t_imm = example_state,
      t_wal = wal_Open SyncFull [],
      t_backend = [(''F0.rf'', File \<lparr>fi_cells = [(example_key 7 False, [1])], fi_state = []\<rparr>)],
      t_instance = [], t_opts = \<lparr>o_FlushThreshold = 256000, o_FileFormat = FormatRFile,
        o_DefaultEmbedding = [], o_TombstoneRetention = 0\<rparr>\<rparr>"

lemma example_tablet_ok: "tablet_ok example_tablet" "opens (\<lambda>_. None) example_tablet"
  by (simp_all add: tablet_ok_def files_ok_def has_file_def opens_def example_tablet_def example_state_def
      example_memtable filepath_Ext_def)

lemma example_tablet_cells:
  "table_cells example_tablet = [(example_key 9 True, []), (example_key 7 False, [1])]"
proof -
  have "example_key 9 True \<le> example_key 7 False" by code_simp
  then show ?thesis
    by (simp add: table_cells_def immutable_cells_def example_tablet_def example_state_def example_memtable
        file_cells_def inserted_def)
qed



theorem conditions_match_table_witness:
  "conditionsMatchLocked (\<lambda>_. None) [114]
     [\<lparr>c_ColumnFamily = [102], c_ColumnQualifier = [113], c_ColumnVisibility = [], c_Timestamp = None,
       c_Kind = ConditionAbsent, c_Value = []\<rparr>,
      \<lparr>c_ColumnFamily = [102], c_ColumnQualifier = [113], c_ColumnVisibility = [], c_Timestamp = Some 7,
       c_Kind = ConditionValueEquals, c_Value = [1]\<rparr>] example_tablet = Some (Inr True)"
proof -
  let ?cs = "[\<lparr>c_ColumnFamily = [102], c_ColumnQualifier = [113], c_ColumnVisibility = [], c_Timestamp = None,
       c_Kind = ConditionAbsent, c_Value = []\<rparr>,
      \<lparr>c_ColumnFamily = [102], c_ColumnQualifier = [113], c_ColumnVisibility = [], c_Timestamp = Some 7,
       c_Kind = ConditionValueEquals, c_Value = [1]\<rparr>]"
  have "list_all (condition_true [(example_key 9 True, []), (example_key 7 False, [1])] [114]) ?cs"
    by code_simp
  then show ?thesis
    using conditions_match_table [OF example_tablet_ok, of ?cs "[114]"] by (simp add: example_tablet_cells)
qed


end
