(* ===== verification/Tablet_Write.thy ===== *)
theory Tablet_Write
  imports Tablet_Source
begin

text \<open>
  The write paths of the tablet (\<^verbatim>\<open>internal/tablet/tablet.go\<close>): opening a directory, writes and
  conditional writes through the log into the memtable, and the flush of the memtable to a
  new immutable file. Every answer of the storage and of the operating system is an argument
  of the operation. The theory shows that no flush changes what a reader sees, however it
  fails, and that the tablet opened after a crash has the table of the tablet that crashed.
\<close>

section \<open>Flush\<close>

text \<open>
  The answers a flush meets, in order: errors of encoding, of probing names, of drawing the
  instance, of writing the file and the manifest, of removing the file, and of truncating the log;
  the wall clock and the random bits of the next memtable.
\<close>

record flush_io =
  fio_encode :: "go_err option"
  fio_probe :: "string \<Rightarrow> go_err option"
  fio_rand :: "string res"
  fio_write :: "go_err option"
  fio_manifest :: "go_err option"
  fio_remove :: "go_err option"
  fio_truncate :: "go_err option \<times> go_err option \<times> go_err option"
  fio_now :: int
  fio_seed :: "nat \<Rightarrow> bool"

definition mintInstanceLocked :: "string res \<Rightarrow> tablet \<Rightarrow> string res \<times> tablet" where
  "mintInstanceLocked rio t =
     (if t_instance t \<noteq> [] then (Inr (t_instance t), t)
      else case rio of
        Inl e \<Rightarrow> (Inl (Wrap ''tablet: draw name instance'' e), t)
      | Inr inst \<Rightarrow> (Inr inst, t\<lparr>t_instance := inst\<rparr>))"

text \<open>
  \<^verbatim>\<open>encode\<close> drains the iterator into a file image with the configured embedding state; a
  writer's own failure is an answer of the storage.
\<close>

definition tablet_encode :: "go_err option \<Rightarrow> tablet \<Rightarrow> sl_iter \<Rightarrow> file_image res option" where
  "tablet_encode eio t it =
     (case eio of
        Some e \<Rightarrow> Some (Inl e)
      | None \<Rightarrow>
          (case drain_loop slIter_skvi [] it of
             None \<Rightarrow> None
           | Some (cs, Some e) \<Rightarrow> Some (Inl (Wrap ''next after cell'' e))
           | Some (cs, None) \<Rightarrow>
               Some (Inr \<lparr>fi_cells = cs, fi_state = o_DefaultEmbedding (t_opts t)\<rparr>)))"

text \<open>The commit of a flush: the new generation becomes the tablet's, the memtable is new.\<close>

definition commit_flush :: "(nat \<Rightarrow> bool) \<Rightarrow> immutableState \<Rightarrow> tablet \<Rightarrow> tablet" where
  "commit_flush seed next t =
     t\<lparr>t_imm := (t_imm t)\<lparr>is_tombstoneFree := is_tombstoneFree next, is_minted := is_minted next,
                          is_active := is_active next\<rparr>,
       t_active := newSkiplistMemtable seed\<rparr>"

definition truncate_wal :: "flush_io \<Rightarrow> tablet \<Rightarrow> go_err option \<times> tablet" where
  "truncate_wal fio t =
     (let (tio, kio, oio) = fio_truncate fio;
          (err, w) = wal_Truncate tio kio oio (t_wal t)
      in (err, t\<lparr>t_wal := w\<rparr>))"

text \<open>From the write of the file on, with its name, its contents and the instance.\<close>

definition publish_flush ::
    "flush_io \<Rightarrow> string \<Rightarrow> file_image \<Rightarrow> string \<Rightarrow> tablet \<Rightarrow> go_err option \<times> tablet" where
  "publish_flush fio outName data inst t =
     (let t = t\<lparr>t_imm := (t_imm t)\<lparr>is_nameHighWater := namesHighWater (is_nameHighWater (t_imm t)) [outName]\<rparr>\<rparr>;
          (werr, b) = WriteAll (fio_write fio) outName (File data) (t_backend t);
          t = t\<lparr>t_backend := b\<rparr>
      in case werr of
           Some e \<Rightarrow> (Some (Wrap ''flush: write'' e), t)
         | None \<Rightarrow>
             (let minted = (is_minted (t_imm t))(outName \<mapsto> inst);
                  tombstoneFree = (if sl_Deletes (t_active t) = 0
                                   then List.insert outName (is_tombstoneFree (t_imm t))
                                   else is_tombstoneFree (t_imm t));
                  next = (tablet_state t (t_files t @ [outName]) (is_obsolete (t_imm t)))
                           \<lparr>is_minted := minted, is_tombstoneFree := tombstoneFree\<rparr>;
                  (merr, b) = persistImmutableManifest (fio_manifest fio) next (t_backend t);
                  t = t\<lparr>t_backend := b\<rparr>
              in case merr of
                   Some e \<Rightarrow>
                     if IsCommittedWriteError e then
                       (case truncate_wal fio (commit_flush (fio_seed fio) next t) of
                          (Some te, t) \<Rightarrow>
                            (Some (Joined [Wrap ''flush: generation committed with cleanup error'' e,
                                     Wrap ''flush: truncate wal after committed generation'' te]), t)
                        | (None, t) \<Rightarrow> (Some (Wrap ''flush: generation committed with cleanup error'' e), t))
                     else (Some (Wrap ''flush: publish generation'' e),
                           t\<lparr>t_backend := snd (removeObject (fio_remove fio) outName (t_backend t))\<rparr>)
                 | None \<Rightarrow>
                     (case truncate_wal fio (commit_flush (fio_seed fio) next t) of
                        (Some te, t) \<Rightarrow> (Some (Wrap ''flush: truncate wal'' te), t)
                      | (None, t) \<Rightarrow> (None, t))))"

definition flushLocked :: "flush_io \<Rightarrow> tablet \<Rightarrow> (go_err option \<times> tablet) option" where
  "flushLocked fio t =
     (if sl_Len (t_active t) = 0 then Some (None, t)
      else case slIter_Seek InfiniteRange [] False (sl_Iterator (t_active t)) of
        None \<Rightarrow> None
      | Some (it, Some e) \<Rightarrow> Some (Some (Wrap ''flush: seek'' e), t)
      | Some (it, None) \<Rightarrow>
          (case tablet_encode (fio_encode fio) t it of
             None \<Rightarrow> None
           | Some (Inl e) \<Rightarrow> Some (Some (Wrap ''flush'' e), t)
           | Some (Inr data) \<Rightarrow>
               (case freeFlushName (objectExists (fio_probe fio) (t_backend t))
                       (nextNameMillis (fio_now fio) (is_nameHighWater (t_imm t)))
                       (extension (o_FileFormat (t_opts t)))
                       (is_obsolete (t_imm t) @ t_files t) of
                  None \<Rightarrow> None
                | Some (Inl e) \<Rightarrow> Some (Some (Wrap ''flush'' e), t)
                | Some (Inr outName) \<Rightarrow>
                    (case mintInstanceLocked (fio_rand fio) t of
                       (Inl e, t) \<Rightarrow> Some (Some (Wrap ''flush'' e), t)
                     | (Inr inst, t) \<Rightarrow> Some (publish_flush fio outName data inst t)))))"

section \<open>Writes\<close>

definition ingestMutation :: "mutation \<Rightarrow> tablet \<Rightarrow> tablet option" where
  "ingestMutation m t =
     map_option (\<lambda>sl. t\<lparr>t_active := sl\<rparr>) (sl_insert_all (mutation_Cells m) (t_active t))"

fun ingestMutations :: "mutation list \<Rightarrow> tablet \<Rightarrow> tablet option" where
  "ingestMutations [] t = Some t"
| "ingestMutations (m # ms) t =
     (case ingestMutation m t of None \<Rightarrow> None | Some t \<Rightarrow> ingestMutations ms t)"

definition auto_flush :: "flush_io \<Rightarrow> tablet \<Rightarrow> (go_err option \<times> tablet) option" where
  "auto_flush fio t =
     (if int (sl_Len (t_active t)) \<ge> o_FlushThreshold (t_opts t)
      then (case flushLocked fio t of
              None \<Rightarrow> None
            | Some (Some e, t) \<Rightarrow> Some (Some (Wrap ''tablet: auto-flush'' e), t)
            | Some (None, t) \<Rightarrow> Some (None, t))
      else Some (None, t))"

type_synonym append_io = "(nat \<times> go_err) option \<times> go_err option"

definition writeLocked ::
    "append_io \<Rightarrow> flush_io \<Rightarrow> mutation list \<Rightarrow> tablet \<Rightarrow> (go_err option \<times> tablet) option" where
  "writeLocked aio fio mutations t =
     (case wal_Append (fst aio) (snd aio) mutations (t_wal t) of
        ((_, Some e), w) \<Rightarrow> Some (Some (Wrap ''tablet: wal append'' e), t\<lparr>t_wal := w\<rparr>)
      | ((_, None), w) \<Rightarrow>
          (case ingestMutations mutations (t\<lparr>t_wal := w\<rparr>) of
             None \<Rightarrow> None
           | Some t \<Rightarrow> auto_flush fio t))"

text \<open>
  \<^verbatim>\<open>ConditionalWrite\<close>: the loop over the requests from position \<open>i\<close>, with the results so far;
  \<open>aio i\<close> is the log's answer to the \<open>i\<close>-th append.
\<close>

fun conditional_loop ::
    "(string \<Rightarrow> go_err option) \<Rightarrow> (nat \<Rightarrow> append_io) \<Rightarrow> nat \<Rightarrow> (mutation \<times> condition list) list \<Rightarrow>
       bool list \<Rightarrow> tablet \<Rightarrow> (bool list res \<times> tablet) option" where
  "conditional_loop oio aio i [] results t = Some (Inr results, t)"
| "conditional_loop oio aio i ((m, conditions) # reqs) results t =
     (case conditionsMatchLocked oio (mut_row m) conditions t of
        None \<Rightarrow> None
      | Some (Inl e) \<Rightarrow> Some (Inl e, t)
      | Some (Inr False) \<Rightarrow> conditional_loop oio aio (i + 1) reqs (results @ [False]) t
      | Some (Inr True) \<Rightarrow>
          (case wal_Append (fst (aio i)) (snd (aio i)) [m] (t_wal t) of
             ((_, Some e), w) \<Rightarrow> Some (Inl (Wrap ''tablet: wal append'' e), t\<lparr>t_wal := w\<rparr>)
           | ((_, None), w) \<Rightarrow>
               (case ingestMutation m (t\<lparr>t_wal := w\<rparr>) of
                  None \<Rightarrow> None
                | Some t \<Rightarrow> conditional_loop oio aio (i + 1) reqs (results @ [True]) t)))"

definition ConditionalWrite ::
    "(string \<Rightarrow> go_err option) \<Rightarrow> (nat \<Rightarrow> append_io) \<Rightarrow> flush_io \<Rightarrow> (mutation \<times> condition list) list \<Rightarrow>
       tablet \<Rightarrow> (bool list res \<times> tablet) option" where
  "ConditionalWrite oio aio fio mutations t =
     (case conditional_loop oio aio 0 mutations [] t of
        None \<Rightarrow> None
      | Some (Inl e, t) \<Rightarrow> Some (Inl e, t)
      | Some (Inr results, t) \<Rightarrow>
          (case auto_flush fio t of
             None \<Rightarrow> None
           | Some (Some e, t) \<Rightarrow> Some (Inl e, t)
           | Some (None, t) \<Rightarrow> Some (Inr results, t)))"

text \<open>\<^verbatim>\<open>Close\<close> flushes what is pending, and closes the log whether or not that worked.\<close>

definition tablet_Close :: "flush_io \<Rightarrow> go_err option \<Rightarrow> go_err option \<Rightarrow> tablet \<Rightarrow> (go_err option \<times> tablet) option" where
  "tablet_Close fio sio cio t =
     (case (if sl_Len (t_active t) > 0 then flushLocked fio t else Some (None, t)) of
        None \<Rightarrow> None
      | Some (_, t) \<Rightarrow>
          (let (err, w) = wal_Close sio cio (t_wal t) in Some (err, t\<lparr>t_wal := w\<rparr>)))"

section \<open>Open\<close>

text \<open>
  \<^verbatim>\<open>Open\<close> on a directory with the objects \<open>b\<close> and the log file \<open>log\<close>. \<open>vio\<close> is the validation of
  the default embedding, \<open>dio\<close>, \<open>lio\<close>, \<open>rio\<close> and \<open>wio\<close> the errors of making the directory, listing
  it, reading the manifest and opening the log.
\<close>

record open_io =
  oio_validate :: "go_err option"
  oio_mkdir :: "go_err option"
  oio_list :: "go_err option"
  oio_read :: "go_err option"
  oio_wal :: "go_err option"
  oio_now :: int
  oio_seed :: "nat \<Rightarrow> bool"

definition DefaultFlushThreshold :: int where
  "DefaultFlushThreshold = 256000"

definition tablet_Open ::
    "open_io \<Rightarrow> tablet_options \<Rightarrow> string \<Rightarrow> SyncMode \<Rightarrow> file_image backend \<Rightarrow> bytes \<Rightarrow> tablet res option" where
  "tablet_Open io opts format mode b log =
     (let opts = (if o_FlushThreshold opts \<le> 0 then opts\<lparr>o_FlushThreshold := DefaultFlushThreshold\<rparr> else opts)
      in case ParseFileFormat format of
           Inl e \<Rightarrow> Some (Inl e)
         | Inr fmt \<Rightarrow>
             (let opts = opts\<lparr>o_FileFormat := fmt\<rparr>
              in if o_DefaultEmbedding opts \<noteq> [] \<and> oio_validate io \<noteq> None
                 then Some (Inl (Wrap ''tablet: invalid default embedding state'' (the (oio_validate io))))
                 else case oio_mkdir io of
                   Some e \<Rightarrow> Some (Inl (Wrap ''tablet: mkdir'' e))
                 | None \<Rightarrow>
                     (case discoverImmutableFiles (oio_now io) (oio_list io) (oio_read io) False b of
                        Inl e \<Rightarrow> Some (Inl (Wrap ''tablet: list'' e))
                      | Inr found \<Rightarrow>
                          (case oio_wal io of
                             Some e \<Rightarrow> Some (Inl (Wrap ''tablet: open wal'' e))
                           | None \<Rightarrow>
                               (let t = \<lparr>t_active = newSkiplistMemtable (oio_seed io), t_imm = found,
                                         t_wal = wal_Open mode log, t_backend = b, t_instance = [],
                                         t_opts = opts\<rparr>;
                                    ((replayed, err), s) = wal_Replay (replay_fn (\<lambda>m s. case s of
                                        None \<Rightarrow> None | Some t \<Rightarrow> ingestMutation m t)) (t_wal t) (Some t)
                                in case s of
                                     None \<Rightarrow> None
                                   | Some t \<Rightarrow>
                                       (case err of
                                          Some e \<Rightarrow> Some (Inl (Wrap ''tablet: replay wal'' e))
                                        | None \<Rightarrow> Some (Inr t)))))))"

section \<open>What a flush does\<close>

text \<open>
  A flush that does not publish leaves the memtable, the live files and the log as they are;
  at most an object with a new name appears beside them.
\<close>

definition unpublished :: "tablet \<Rightarrow> tablet \<Rightarrow> bool" where
  "unpublished t t' \<longleftrightarrow> t_active t' = t_active t \<and> t_wal t' = t_wal t \<and> t_opts t' = t_opts t \<and>
     t_imm t' \<in> {(t_imm t)\<lparr>is_nameHighWater := hw\<rparr> | hw. is_nameHighWater (t_imm t) \<le> hw} \<and>
     (\<exists>name. name \<noteq> ''files.json'' \<and> map_of (t_backend t) name = None \<and>
        (\<forall>n. n \<noteq> name \<longrightarrow> map_of (t_backend t') n = map_of (t_backend t) n))"

text \<open>
  A flush that publishes appends one file with the cells of the memtable, records it in the
  manifest and empties the memtable; the log is truncated, or that fails.
\<close>

definition published :: "flush_io \<Rightarrow> tablet \<Rightarrow> tablet \<Rightarrow> bool" where
  "published fio t t' \<longleftrightarrow> (\<exists>name next.
     name \<noteq> ''files.json'' \<and> map_of (t_backend t) name = None \<and>
     (filepath_Ext name = ''.rf'' \<or> filepath_Ext name = ''.parquet'') \<and>
     t_files t' = t_files t @ [name] \<and> is_active next = t_files t' \<and>
     map_of (t_backend t') = (map_of (t_backend t))(
       name \<mapsto> File \<lparr>fi_cells = sl_cells (t_active t), fi_state = o_DefaultEmbedding (t_opts t)\<rparr>,
       ''files.json'' \<mapsto> FilesJson (manifest_of next)) \<and>
     t_active t' = newSkiplistMemtable (fio_seed fio) \<and> t_opts t' = t_opts t \<and>
     is_nameHighWater (t_imm t) \<le> is_nameHighWater (t_imm t') \<and>
     t_wal t' = t_wal (snd (truncate_wal fio t)))"

lemma flushName_not_manifest: "flushName k ext \<noteq> ''files.json''"
  by (simp add: flushName_def)

lemma truncate_wal_keeps:
  "t_active (snd (truncate_wal fio t)) = t_active t" "t_imm (snd (truncate_wal fio t)) = t_imm t"
  "t_backend (snd (truncate_wal fio t)) = t_backend t" "t_opts (snd (truncate_wal fio t)) = t_opts t"
  by (simp_all add: truncate_wal_def case_prod_beta Let_def)

lemma truncate_wal_wal: "t_wal (snd (truncate_wal fio t)) =
    snd (case fio_truncate fio of (tio, kio, oio) \<Rightarrow> wal_Truncate tio kio oio (t_wal t))"
  by (simp add: truncate_wal_def case_prod_beta Let_def)

lemma publish_flush_cases:
  assumes name: "map_of (t_backend t) name = None" "name \<noteq> ''files.json''"
      "filepath_Ext name = ''.rf'' \<or> filepath_Ext name = ''.parquet''"
    and data: "data = \<lparr>fi_cells = sl_cells (t_active t), fi_state = o_DefaultEmbedding (t_opts t)\<rparr>"
    and pub: "publish_flush fio name data inst t = (err, t')"
  shows "unpublished t t' \<and> err \<noteq> None \<or> published fio t t'"
proof -
  define hw where "hw = namesHighWater (is_nameHighWater (t_imm t)) [name]"
  define t1 where "t1 = t\<lparr>t_imm := (t_imm t)\<lparr>is_nameHighWater := hw\<rparr>\<rparr>"
  define b1 where "b1 = snd (WriteAll (fio_write fio) name (File data) (t_backend t))"
  define free where "free = (if sl_Deletes (t_active t) = 0 then List.insert name (is_tombstoneFree (t_imm t))
    else is_tombstoneFree (t_imm t))"
  define nxt where "nxt = (tablet_state t1 (t_files t @ [name]) (is_obsolete (t_imm t)))
    \<lparr>is_minted := (is_minted (t_imm t))(name \<mapsto> inst), is_tombstoneFree := free\<rparr>"
  define b2 where "b2 = snd (persistImmutableManifest (fio_manifest fio) nxt b1)"
  have hw: "is_nameHighWater (t_imm t) \<le> hw"
    unfolding hw_def by (rule namesHighWater_ge_floor)
  have other: "\<forall>n. n \<noteq> name \<longrightarrow> map_of b1 n = map_of (t_backend t) n"
    by (auto simp: b1_def map_of_WriteAll)
  have fail: "unpublished t (t1\<lparr>t_backend := b\<rparr>)"
    if "\<forall>n. n \<noteq> name \<longrightarrow> map_of b n = map_of (t_backend t) n" for b
    using that name hw by (auto simp: unpublished_def t1_def)
  consider (unwritten) e where "fio_write fio = Some e"
    | (unrecorded) e where "fio_write fio = None" "fio_manifest fio = Some e" "\<not> IsCommittedWriteError e"
    | (recorded) "fio_write fio = None" "fio_manifest fio = None \<or> IsCommittedWriteError (the (fio_manifest fio))"
    by (cases "fio_write fio"; cases "fio_manifest fio") auto
  then show ?thesis
  proof cases
    case unwritten
    then have "t' = t1\<lparr>t_backend := b1\<rparr> \<and> err \<noteq> None"
      using pub by (auto simp: publish_flush_def Let_def WriteAll_def t1_def b1_def hw_def)
    with fail [OF other] show ?thesis by blast
  next
    case unrecorded
    then have "t' = t1\<lparr>t_backend := snd (removeObject (fio_remove fio) name b2)\<rparr> \<and> err \<noteq> None"
      using pub unfolding publish_flush_def
      by (auto simp: Let_def WriteAll_def t1_def b1_def b2_def hw_def nxt_def free_def
          persistImmutableManifest_def tablet_state_def)
    moreover have "\<forall>n. n \<noteq> name \<longrightarrow> map_of (snd (removeObject (fio_remove fio) name b2)) n = map_of (t_backend t) n"
      using other unrecorded by (auto simp: map_of_removeObject b2_def persistImmutableManifest_def map_of_WriteAll)
    ultimately show ?thesis using fail by blast
  next
    case recorded
    let ?t2 = "commit_flush (fio_seed fio) nxt (t1\<lparr>t_backend := b2\<rparr>)"
    have t': "t' = snd (truncate_wal fio ?t2)"
      using pub recorded unfolding publish_flush_def
      by (auto simp: Let_def WriteAll_def t1_def b1_def b2_def hw_def nxt_def free_def
          persistImmutableManifest_def tablet_state_def split: prod.splits option.splits if_splits)
    have "map_of b2 = (map_of (t_backend t))(name \<mapsto> File data, ''files.json'' \<mapsto> FilesJson (manifest_of nxt))"
      using recorded by (auto simp: b2_def b1_def persistImmutableManifest_def map_of_WriteAll)
    then have "published fio t t'"
      unfolding published_def using name hw data
      by (intro exI [of _ name] exI [of _ nxt])
        (simp add: t' truncate_wal_keeps truncate_wal_wal commit_flush_def nxt_def tablet_state_def t1_def)
    then show ?thesis by blast
  qed
qed

text \<open>A flush always returns, with the table published or left as it was.\<close>

lemma flushLocked_cases:
  assumes "tablet_ok t"
  shows "\<exists>err t'. flushLocked fio t = Some (err, t') \<and>
    (sl_cells (t_active t) = [] \<and> t' = t \<and> err = None \<or> unpublished t t' \<and> err \<noteq> None \<or> published fio t t')"
proof (cases "sl_Len (t_active t) = 0")
  case True
  then show ?thesis
    using assms by (simp add: flushLocked_def tablet_ok_def sl_ok_def sl_Len_def)
next
  case len: False
  obtain it where it: "slIter_Seek InfiniteRange [] False (sl_Iterator (t_active t)) = Some (it, None)"
      "drain_loop slIter_skvi [] it = Some (sl_cells (t_active t), None)"
    using sl_drain [of "t_active t"] assms by (auto simp: tablet_ok_def)
  have same: "unpublished t (t\<lparr>t_instance := s\<rparr>)" for s
    using ex_new_if_finite [OF infinite_UNIV_listI, of "insert ''files.json'' (dom (map_of (t_backend t)))"]
    by (auto simp: unpublished_def finite_dom_map_of intro!: exI [of _ "is_nameHighWater (t_imm t)"])
  let ?data = "\<lparr>fi_cells = sl_cells (t_active t), fi_state = o_DefaultEmbedding (t_opts t)\<rparr>"
  let ?probe = "objectExists (fio_probe fio) (t_backend t)"
  have "0 \<le> nextNameMillis (fio_now fio) (is_nameHighWater (t_imm t))"
    using nextNameMillis_above [of "is_nameHighWater (t_imm t)" "fio_now fio"] assms
    by (simp add: tablet_ok_def)
  from freeFlushName_returns [OF objectExists_finite this, of "fio_probe fio" "t_backend t"
      "extension (o_FileFormat (t_opts t))" "is_obsolete (t_imm t) @ t_files t"]
  obtain r where r: "freeFlushName ?probe (nextNameMillis (fio_now fio) (is_nameHighWater (t_imm t)))
        (extension (o_FileFormat (t_opts t))) (is_obsolete (t_imm t) @ t_files t) = Some r"
      and fresh: "\<And>name. r = Inr name \<Longrightarrow>
        (\<exists>k. name = flushName k (extension (o_FileFormat (t_opts t)))) \<and> ?probe name = Inr False"
    by blast
  show ?thesis
  proof (cases "fio_encode fio")
    case (Some e)
    then show ?thesis
      using same [of "t_instance t"] len it by (simp add: flushLocked_def tablet_encode_def)
  next
    case None
    then have flush: "flushLocked fio t = (case r of
          Inl e \<Rightarrow> Some (Some (Wrap ''flush'' e), t)
        | Inr outName \<Rightarrow> (case mintInstanceLocked (fio_rand fio) t of
              (Inl e, t) \<Rightarrow> Some (Some (Wrap ''flush'' e), t)
            | (Inr inst, t) \<Rightarrow> Some (publish_flush fio outName ?data inst t)))"
      using len it r by (simp add: flushLocked_def tablet_encode_def)
    show ?thesis
    proof (cases r)
      case (Inl e)
      then show ?thesis
        using same [of "t_instance t"] flush by simp
    next
      case (Inr name)
      obtain i t1 where mint: "mintInstanceLocked (fio_rand fio) t = (i, t1)" by fastforce
      define s where "s = t_instance t1"
      have t1: "t1 = t\<lparr>t_instance := s\<rparr>"
        using mint by (auto simp: mintInstanceLocked_def s_def split: if_splits sum.splits)
      show ?thesis
      proof (cases i)
        case (Inl e)
        then show ?thesis
          using same [of s] flush mint \<open>r = Inr name\<close> t1 by simp
      next
        case (Inr inst)
        obtain err t' where pub: "publish_flush fio name ?data inst t1 = (err, t')" by fastforce
        have ext: "filepath_Ext name = ''.rf'' \<or> filepath_Ext name = ''.parquet''"
          using fresh [OF \<open>r = Inr name\<close>] extension_cases [of "o_FileFormat (t_opts t)"]
          by (metis filepath_Ext_flushName)
        have name: "map_of (t_backend t1) name = None" "name \<noteq> ''files.json''"
            "filepath_Ext name = ''.rf'' \<or> filepath_Ext name = ''.parquet''"
          using fresh [OF \<open>r = Inr name\<close>] ext
          by (auto simp: t1 objectExists_def flushName_not_manifest split: option.splits)
        have "?data = \<lparr>fi_cells = sl_cells (t_active t1), fi_state = o_DefaultEmbedding (t_opts t1)\<rparr>"
          by (simp add: t1)
        from publish_flush_cases [OF name this pub]
        have "unpublished t t' \<and> err \<noteq> None \<or> published fio t t'"
          by (simp add: unpublished_def published_def t1 truncate_wal_wal)
        then show ?thesis
          using flush mint \<open>r = Inr name\<close> Inr pub by simp
      qed
    qed
  qed
qed

section \<open>A flush keeps the table\<close>

lemma file_cells_cong:
  "(\<And>n. n \<in> set names \<Longrightarrow> map_of b' n = map_of b n) \<Longrightarrow>
     map (file_cells b') names = map (file_cells b) names"
  by (induction names) (simp_all add: file_cells_def)

lemma has_files_cong:
  "(\<And>n. n \<in> set names \<Longrightarrow> map_of b' n = map_of b n) \<Longrightarrow>
     list_all (has_file b') names = list_all (has_file b) names"
  by (induction names) (simp_all add: has_file_def)

text \<open>Changing objects that are not live changes neither the invariant nor the cells.\<close>

lemma files_cong:
  assumes "t_files t' = t_files t" "\<And>n. n \<in> set (t_files t) \<Longrightarrow> map_of (t_backend t') n = map_of (t_backend t) n"
  shows "files_ok t' = files_ok t" "immutable_cells t' = immutable_cells t"
proof -
  show "files_ok t' = files_ok t"
    using assms has_files_cong [of "t_files t" "t_backend t'" "t_backend t"] by (simp add: files_ok_def)
  have cells: "map (file_cells (t_backend t')) (rev (t_files t)) = map (file_cells (t_backend t)) (rev (t_files t))"
    using assms by (intro file_cells_cong) simp
  show "immutable_cells t' = immutable_cells t"
    by (simp only: immutable_cells_def assms(1) cells)
qed

lemma live_file_present: "files_ok t \<Longrightarrow> n \<in> set (t_files t) \<Longrightarrow> map_of (t_backend t) n \<noteq> None \<and> n \<noteq> ''files.json''"
  by (auto simp: files_ok_def list_all_iff has_file_def)

lemma unpublished_keeps:
  assumes "unpublished t t'" "tablet_ok t"
  shows "tablet_ok t' \<and> table_cells t' = table_cells t \<and> immutable_cells t' = immutable_cells t"
proof -
  have imm: "t_files t' = t_files t" "is_nameHighWater (t_imm t) \<le> is_nameHighWater (t_imm t')"
    using assms(1) by (auto simp: unpublished_def)
  have "map_of (t_backend t') n = map_of (t_backend t) n" if "n \<in> set (t_files t)" for n
  proof -
    obtain name where "map_of (t_backend t) name = None"
        "\<forall>n. n \<noteq> name \<longrightarrow> map_of (t_backend t') n = map_of (t_backend t) n"
      using assms(1) unfolding unpublished_def by blast
    moreover have "map_of (t_backend t) n \<noteq> None"
      using assms(2) that live_file_present unfolding tablet_ok_def by blast
    ultimately show ?thesis by metis
  qed
  from files_cong [OF imm(1) this] assms imm show ?thesis
    by (auto simp: tablet_ok_def table_cells_def unpublished_def)
qed

lemma published_keeps:
  assumes pub: "published fio t t'" and ok: "tablet_ok t"
  shows "tablet_ok t' \<and> table_cells t' = table_cells t \<and> sl_cells (t_active t') = []"
proof -
  obtain name nxt where name: "name \<noteq> ''files.json''" "map_of (t_backend t) name = None"
      "filepath_Ext name = ''.rf'' \<or> filepath_Ext name = ''.parquet''"
    and files: "t_files t' = t_files t @ [name]"
    and b: "map_of (t_backend t') = (map_of (t_backend t))(
       name \<mapsto> File \<lparr>fi_cells = sl_cells (t_active t), fi_state = o_DefaultEmbedding (t_opts t)\<rparr>,
       ''files.json'' \<mapsto> FilesJson (manifest_of nxt))"
    and act: "t_active t' = newSkiplistMemtable (fio_seed fio)"
    and hw: "is_nameHighWater (t_imm t) \<le> is_nameHighWater (t_imm t')"
    using pub unfolding published_def by (elim exE conjE) (rule that; assumption)
  have old: "map_of (t_backend t') n = map_of (t_backend t) n" "n \<noteq> name" if "n \<in> set (t_files t)" for n
    using that ok live_file_present [of t n] name by (auto simp: b tablet_ok_def)
  have new: "file_cells (t_backend t') name = sl_cells (t_active t)" "has_file (t_backend t') name"
    using name ok sl_ok_sorted [of "t_active t"]
    by (simp_all add: b file_cells_def has_file_def tablet_ok_def)
  have cells: "map (file_cells (t_backend t')) (rev (t_files t)) = map (file_cells (t_backend t)) (rev (t_files t))"
    using old(1) by (intro file_cells_cong) simp
  have "immutable_cells t' = table_cells t"
    by (simp add: immutable_cells_def table_cells_def files new cells)
  moreover have "files_ok t'"
  proof -
    have "list_all (has_file (t_backend t')) (t_files t)"
      using ok old(1) has_files_cong [of "t_files t" "t_backend t'" "t_backend t"]
      by (simp add: files_ok_def tablet_ok_def)
    then show ?thesis
      using ok old(2) new by (auto simp: files_ok_def files tablet_ok_def)
  qed
  ultimately show ?thesis
    using ok hw act by (simp add: tablet_ok_def table_cells_def [of t'] sl_ok_new)
qed

lemma flushLocked_keeps:
  assumes "tablet_ok t" "flushLocked fio t = Some (err, t')"
  shows "tablet_ok t' \<and> table_cells t' = table_cells t"
  using flushLocked_cases [OF assms(1), of fio] assms unpublished_keeps [of t t'] published_keeps [of fio t t']
  by auto

section \<open>Ingesting mutations\<close>

lemma inserted_append: "inserted (as @ bs) ds = inserted bs (inserted as ds)"
  by (simp add: inserted_def)

definition mutations_cells :: "mutation list \<Rightarrow> cell list" where
  "mutations_cells ms = concat (map mutation_Cells ms)"

lemma mutations_cells_simps [simp]:
  "mutations_cells [] = []" "mutations_cells (m # ms) = mutation_Cells m @ mutations_cells ms"
  "mutations_cells (ms @ ms') = mutations_cells ms @ mutations_cells ms'"
  by (simp_all add: mutations_cells_def)

lemma tablet_ok_active: "tablet_ok t \<Longrightarrow> sl_ok sl \<Longrightarrow> tablet_ok (t\<lparr>t_active := sl\<rparr>)"
  by (simp add: tablet_ok_def files_ok_def)

lemma tablet_ok_wal [simp]: "tablet_ok (t\<lparr>t_wal := w\<rparr>) = tablet_ok t"
  by (simp add: tablet_ok_def files_ok_def)

lemma ingestMutations_ok:
  "tablet_ok t \<Longrightarrow> \<exists>sl. ingestMutations ms t = Some (t\<lparr>t_active := sl\<rparr>) \<and> sl_ok sl \<and>
     sl_cells sl = inserted (mutations_cells ms) (sl_cells (t_active t))"
proof (induction ms arbitrary: t)
  case Nil
  have "t\<lparr>t_active := t_active t\<rparr> = t" by simp
  with Nil show ?case
    by (intro exI [of _ "t_active t"]) (simp add: tablet_ok_def)
next
  case (Cons m ms)
  then obtain sl where sl: "sl_insert_all (mutation_Cells m) (t_active t) = Some sl" "sl_ok sl"
      "sl_cells sl = inserted (mutation_Cells m) (sl_cells (t_active t))"
    using sl_insert_all_spec [of "t_active t" "mutation_Cells m"] by (auto simp: tablet_ok_def)
  from Cons.IH [OF tablet_ok_active [OF Cons.prems sl(2)]] sl show ?case
    by (simp add: ingestMutation_def inserted_append)
qed

lemma replay_ingest:
  "fold (\<lambda>m s. case s of None \<Rightarrow> None | Some t \<Rightarrow> ingestMutation m t) ms (Some t) = ingestMutations ms t"
proof (induction ms arbitrary: t)
  case (Cons m ms)
  have none: "fold (\<lambda>m s. case s of None \<Rightarrow> None | Some t \<Rightarrow> ingestMutation m t) ms None = None"
    by (induction ms) simp_all
  show ?case
    by (cases "ingestMutation m t") (simp_all add: none Cons.IH)
qed simp

section \<open>The durable state\<close>

text \<open>
  The directory's manifest lists the live files (a new directory has neither), the log holds
  the records of the mutations in the memtable, and those are well formed.
\<close>

definition manifest_current :: "tablet \<Rightarrow> bool" where
  "manifest_current t \<longleftrightarrow>
     (\<exists>s. map_of (t_backend t) ''files.json'' = Some (FilesJson (manifest_of s)) \<and> is_active s = t_files t) \<or>
     map_of (t_backend t) ''files.json'' = None \<and> t_files t = [] \<and> available (t_backend t) = []"

definition tablet_inv :: "tablet \<Rightarrow> mutation list \<Rightarrow> bool" where
  "tablet_inv t ms \<longleftrightarrow> tablet_ok t \<and> manifest_current t \<and> wal_open (t_wal t) \<and> wal_inv (t_wal t) ms \<and>
     list_all mutation_ok ms \<and> sl_cells (t_active t) = inserted (mutations_cells ms) []"

text \<open>
  The answers of the storage a run allows: the log can be emptied, one way or the other, and
  the first flush of a new directory does not leave its file behind without a manifest.
\<close>

definition truncates :: "flush_io \<Rightarrow> bool" where
  "truncates fio \<longleftrightarrow> (case fio_truncate fio of (tio, kio, oio) \<Rightarrow> tio = None \<or> oio = None)"

definition no_orphan :: "tablet \<Rightarrow> tablet \<Rightarrow> bool" where
  "no_orphan t t' \<longleftrightarrow> map_of (t_backend t') ''files.json'' \<noteq> None \<or> available (t_backend t') = available (t_backend t)"

lemma truncate_wal_inv:
  assumes "truncates fio" "wal_open (t_wal t)"
  shows "wal_inv (t_wal (snd (truncate_wal fio t))) [] \<and> wal_open (t_wal (snd (truncate_wal fio t)))"
  using assms unfolding truncate_wal_wal
  by (auto simp: truncates_def wal_Truncate_def wal_inv_def Let_def split: prod.splits option.splits)

lemma unpublished_inv:
  assumes "unpublished t t'" "no_orphan t t'" "tablet_inv t ms"
  shows "tablet_inv t' ms"
proof -
  have "map_of (t_backend t') ''files.json'' = map_of (t_backend t) ''files.json''" "t_files t' = t_files t"
    using assms(1) by (auto simp: unpublished_def)
  then have "manifest_current t'"
    using assms(2,3) by (auto simp: tablet_inv_def manifest_current_def no_orphan_def)
  with assms show ?thesis
    using unpublished_keeps [of t t'] by (auto simp: tablet_inv_def unpublished_def)
qed

lemma published_inv:
  assumes pub: "published fio t t'" and "truncates fio" "tablet_inv t ms"
  shows "tablet_inv t' []"
proof -
  have "manifest_current t'" "t_wal t' = t_wal (snd (truncate_wal fio t))"
    using pub by (auto simp: published_def manifest_current_def)
  with truncate_wal_inv [of fio t] published_keeps [OF pub] assms show ?thesis
    by (simp add: tablet_inv_def)
qed

lemma flush_inv:
  assumes "tablet_inv t ms" "flushLocked fio t = Some (err, t')" "truncates fio" "no_orphan t t'"
  shows "\<exists>ms'. tablet_inv t' ms' \<and> (ms' = ms \<or> ms' = [])"
proof -
  have "tablet_ok t" using assms(1) by (simp add: tablet_inv_def)
  from flushLocked_cases [OF this, of fio] assms(2)
  consider "t' = t" | "unpublished t t'" | "published fio t t'"
    by auto
  then show ?thesis
    by cases (use assms unpublished_inv published_inv in blast)+
qed

lemma auto_flush_inv:
  assumes "tablet_inv t ms" "auto_flush fio t = Some (err, t')" "truncates fio" "no_orphan t t'"
  shows "\<exists>ms'. tablet_inv t' ms' \<and> (ms' = ms \<or> ms' = [])"
proof (cases "int (sl_Len (t_active t)) \<ge> o_FlushThreshold (t_opts t)")
  case True
  then obtain e where "flushLocked fio t = Some (e, t')"
    using assms(2) by (auto simp: auto_flush_def split: option.splits)
  then show ?thesis using flush_inv assms by blast
next
  case False
  then show ?thesis using assms by (auto simp: auto_flush_def)
qed

section \<open>Writes\<close>

lemma insert_cell_merge2: "insert_cell c cs = merge2 [c] cs"
  by (induction cs) auto

lemma inserted_merge2: "merge2 (inserted cs ds) es = inserted cs (merge2 ds es)"
  by (induction cs arbitrary: ds) (simp_all add: insert_cell_merge2 merge2_assoc)

lemma wal_Append_open: "wal_Append wio sio bs w = (out, w') \<Longrightarrow> wal_open w \<Longrightarrow> wal_open w'"
  by (auto simp: wal_Append_def Let_def file_Write_def syncLocked_def
      split: option.splits prod.splits if_splits)

lemma append_ingest:
  assumes inv: "tablet_inv t ms" and bs: "list_all wal_fits bs" "list_all mutation_ok bs"
    and app: "wal_Append None sio bs (t_wal t) = ((n, None), w)"
  shows "\<exists>sl. ingestMutations bs (t\<lparr>t_wal := w\<rparr>) = Some (t\<lparr>t_wal := w, t_active := sl\<rparr>) \<and>
    tablet_inv (t\<lparr>t_wal := w, t_active := sl\<rparr>) (ms @ bs) \<and>
    table_cells (t\<lparr>t_wal := w, t_active := sl\<rparr>) = inserted (mutations_cells bs) (table_cells t)"
proof -
  have ok: "tablet_ok (t\<lparr>t_wal := w\<rparr>)" and w: "wal_inv w (ms @ bs)" "wal_open w"
    using inv bs app wal_Append_inv wal_Append_open by (auto simp: tablet_inv_def)
  obtain sl where sl: "ingestMutations bs (t\<lparr>t_wal := w\<rparr>) = Some (t\<lparr>t_wal := w, t_active := sl\<rparr>)" "sl_ok sl"
      "sl_cells sl = inserted (mutations_cells bs) (sl_cells (t_active t))"
    using ingestMutations_ok [OF ok, of bs] by auto
  have "tablet_inv (t\<lparr>t_wal := w, t_active := sl\<rparr>) (ms @ bs)"
    using inv w sl bs tablet_ok_active [OF ok sl(2)]
    by (auto simp: tablet_inv_def manifest_current_def inserted_append)
  moreover have "table_cells (t\<lparr>t_wal := w, t_active := sl\<rparr>) = inserted (mutations_cells bs) (table_cells t)"
    using sl(3) by (simp add: table_cells_def immutable_cells_def inserted_merge2)
  ultimately show ?thesis using sl(1) by blast
qed

lemma auto_flush_returns:
  assumes "tablet_ok t"
  shows "\<exists>err t'. auto_flush fio t = Some (err, t') \<and> tablet_ok t' \<and> table_cells t' = table_cells t"
proof -
  obtain err t' where "flushLocked fio t = Some (err, t')"
    using flushLocked_cases [OF assms] by blast
  with flushLocked_keeps [OF assms this] assms show ?thesis
    by (cases err) (auto simp: auto_flush_def)
qed

text \<open>The log's answers a run allows: everything is written and synced, or nothing is written.\<close>

definition append_clean :: "append_io \<Rightarrow> bool" where
  "append_clean aio \<longleftrightarrow> snd aio = None \<and> (case fst aio of None \<Rightarrow> True | Some (n, e) \<Rightarrow> n = 0)"

lemma append_clean_fails:
  assumes "append_clean aio" "wal_Append (fst aio) (snd aio) bs w = ((n, Some e), w')" "wal_open w"
  shows "w' = w"
  using assms by (auto simp: append_clean_def wal_Append_def Let_def file_Write_def syncLocked_def
      split: option.splits prod.splits if_splits)

lemma append_clean_acks:
  assumes "append_clean aio" "wal_Append (fst aio) (snd aio) bs w = ((n, None), w')" "wal_open w"
  shows "wal_Append None (snd aio) bs w = ((n, None), w')"
  using assms by (auto simp: append_clean_def wal_Append_def Let_def file_Write_def syncLocked_def
      split: option.splits prod.splits if_splits)

lemma write_inv:
  assumes inv: "tablet_inv t ms" and bs: "list_all wal_fits bs" "list_all mutation_ok bs"
    and wr: "writeLocked aio fio bs t = Some (err, t')"
    and io: "append_clean aio" "truncates fio" "no_orphan t t'"
  shows "\<exists>ms'. tablet_inv t' ms'"
proof -
  have open': "wal_open (t_wal t)" using inv by (simp add: tablet_inv_def)
  obtain n e w where app: "wal_Append (fst aio) (snd aio) bs (t_wal t) = ((n, e), w)"
    by (metis prod.collapse)
  show ?thesis
  proof (cases e)
    case (Some x)
    then have "w = t_wal t"
      using append_clean_fails [OF io(1)] app open' by blast
    with wr app Some inv show ?thesis
      by (auto simp: writeLocked_def)
  next
    case None
    then have "wal_Append None (snd aio) bs (t_wal t) = ((n, None), w)"
      using append_clean_acks [OF io(1)] app open' by blast
    from append_ingest [OF inv bs this] obtain sl where sl:
        "ingestMutations bs (t\<lparr>t_wal := w\<rparr>) = Some (t\<lparr>t_wal := w, t_active := sl\<rparr>)"
        "tablet_inv (t\<lparr>t_wal := w, t_active := sl\<rparr>) (ms @ bs)"
      by blast
    moreover have "auto_flush fio (t\<lparr>t_wal := w, t_active := sl\<rparr>) = Some (err, t')"
      using wr app None sl by (simp add: writeLocked_def)
    moreover have "no_orphan (t\<lparr>t_wal := w, t_active := sl\<rparr>) t'"
      using io(3) by (simp add: no_orphan_def)
    ultimately show ?thesis
      using auto_flush_inv io(2) by blast
  qed
qed

section \<open>Opening after a crash\<close>

lemma files_available:
  "files_ok t \<Longrightarrow> set (t_files t) \<subseteq> set (available (t_backend t))"
  by (auto simp: set_available files_ok_def list_all_iff has_file_def)

lemma discover_current:
  assumes "manifest_current t" "files_ok t"
  shows "\<exists>s. discoverImmutableFiles now None None False (t_backend t) = Inr s \<and>
    is_active s = t_files t \<and> 0 \<le> is_nameHighWater s"
proof -
  have nonneg: "0 \<le> namesHighWater (namesHighWater (namesHighWater 0 xs) ys) zs" for xs ys zs
    using namesHighWater_ge_floor [of 0 xs] namesHighWater_ge_floor [of "namesHighWater 0 xs" ys]
      namesHighWater_ge_floor [of "namesHighWater (namesHighWater 0 xs) ys" zs] by linarith
  show ?thesis
  proof (cases "map_of (t_backend t) ''files.json''")
    case None
    then have "t_files t = []" "available (t_backend t) = []"
      using assms(1) by (auto simp: manifest_current_def)
    then show ?thesis
      using None by (simp add: discoverImmutableFiles_def discoverImmutableFilesRaw_def
          assumeExportedUntracked_def legacyRecencyOrder_def)
  next
    case (Some obj)
    then obtain s where s: "map_of (t_backend t) ''files.json'' = Some (FilesJson (manifest_of s))"
        "is_active s = t_files t"
      using assms(1) by (auto simp: manifest_current_def)
    have "distinct (is_active s)" "set (is_active s) \<subseteq> set (available (t_backend t))"
      using assms(2) files_available s(2) by (auto simp: files_ok_def)
    from discover_persisted [OF s(1) this, of now]
    obtain s' where s': "discoverImmutableFiles now None None False (t_backend t) = Inr s'" "is_active s' = t_files t"
        "0 \<le> is_nameHighWater s'"
      using s(2) by metis
    with s' show ?thesis by blast
  qed
qed

definition open_works :: "open_io \<Rightarrow> bool" where
  "open_works io \<longleftrightarrow> oio_validate io = None \<and> oio_mkdir io = None \<and> oio_list io = None \<and>
     oio_read io = None \<and> oio_wal io = None"

lemma mutations_cells_wal_image:
  "list_all mutation_ok ms \<Longrightarrow> mutations_cells (map wal_image ms) = mutations_cells ms"
  by (induction ms) (simp_all add: mutation_Cells_wal_image)

lemma open_recovers:
  assumes inv: "tablet_inv t ms" and io: "open_works io" "ParseFileFormat format = Inr fmt"
    and img: "prefix img (wal_bytes (t_wal t))"
  obtains n t' q where "tablet_Open io opts format mode (t_backend t) img = Some (Inr t')"
    "n \<le> length ms" "tablet_ok t'" "t_files t' = t_files t" "t_backend t' = t_backend t"
    "sl_cells (t_active t') = inserted (mutations_cells (take n ms)) []"
    "t_wal t' = wal_Open mode img" "img = wal_bytes (t_wal t) \<Longrightarrow> n = length ms"
    "\<And>k. k \<le> length ms \<Longrightarrow> length (log_of mutation_frame (take k ms)) \<le> length img \<Longrightarrow> k \<le> n"
    "img = log_of mutation_frame (take n ms) @ q" "eof_res (readMutation q)"
proof -
  have ok: "tablet_ok t" and fits: "list_all wal_fits ms" and p: "prefix img (log_of mutation_frame ms)"
    using inv img by (auto simp: tablet_inv_def wal_inv_def)
  obtain n q where n: "n \<le> length ms" and q: "img = log_of mutation_frame (take n ms) @ q" "eof_res (readMutation q)"
    and full: "img = log_of mutation_frame ms \<Longrightarrow> n = length ms"
    by (rule Replay_loop_prefix [where 's = unit, OF fits p]) blast
  have fits': "list_all wal_fits (take n ms)" and ok': "list_all mutation_ok (take n ms)"
    using fits inv by (auto simp: list_all_iff tablet_inv_def dest: in_set_takeD)
  have replay: "Replay_loop (replay_fn f) img count s =
      ((count + int n, None), fold f (map wal_image (take n ms)) s)" for f count and s :: 's
    using Replay_loop_log [OF fits' q(2), of f count s] n by (simp add: q(1))
  have cover: "k \<le> n" if "k \<le> length ms" "length (log_of mutation_frame (take k ms)) \<le> length img" for k
    by (rule Replay_covers [OF fits p that, of n "\<lambda>f s. fold f (map wal_image (take n ms)) s"])
      (use n in \<open>simp add: q(1) Replay_loop_log [OF fits' q(2)]\<close>)
  obtain found where found: "discoverImmutableFiles (oio_now io) None None False (t_backend t) = Inr found"
      "is_active found = t_files t" "0 \<le> is_nameHighWater found"
    using discover_current inv ok by (auto simp: tablet_inv_def tablet_ok_def)
  define opts1 where "opts1 = (if o_FlushThreshold opts \<le> 0 then opts\<lparr>o_FlushThreshold := DefaultFlushThreshold\<rparr>
    else opts)\<lparr>o_FileFormat := fmt\<rparr>"
  define t0 where "t0 = \<lparr>t_active = newSkiplistMemtable (oio_seed io), t_imm = found, t_wal = wal_Open mode img,
    t_backend = t_backend t, t_instance = [], t_opts = opts1\<rparr>"
  have t0: "tablet_ok t0" "sl_cells (t_active t0) = []"
    using ok found sl_ok_new [of "oio_seed io"] by (auto simp: t0_def tablet_ok_def files_ok_def)
  obtain sl where sl: "ingestMutations (map wal_image (take n ms)) t0 = Some (t0\<lparr>t_active := sl\<rparr>)" "sl_ok sl"
      "sl_cells sl = inserted (mutations_cells (take n ms)) []"
    using ingestMutations_ok [OF t0(1), of "map wal_image (take n ms)"] t0(2) mutations_cells_wal_image [OF ok']
    by auto
  have "wal_Replay (replay_fn (\<lambda>m s. case s of None \<Rightarrow> None | Some t \<Rightarrow> ingestMutation m t)) (t_wal t0) (Some t0) =
      ((int n, None), Some (t0\<lparr>t_active := sl\<rparr>))"
    using replay [of "\<lambda>m s. case s of None \<Rightarrow> None | Some t \<Rightarrow> ingestMutation m t" 0 "Some t0"] sl(1)
    by (simp add: t0_def wal_Replay_Open replay_ingest)
  then have "tablet_Open io opts format mode (t_backend t) img = Some (Inr (t0\<lparr>t_active := sl\<rparr>))"
    using io found(1) by (simp add: tablet_Open_def open_works_def t0_def opts1_def)
  moreover note n tablet_ok_active [OF t0(1) sl(2)]
  moreover have "t_files (t0\<lparr>t_active := sl\<rparr>) = t_files t" "t_backend (t0\<lparr>t_active := sl\<rparr>) = t_backend t"
      "sl_cells (t_active (t0\<lparr>t_active := sl\<rparr>)) = inserted (mutations_cells (take n ms)) []"
      "t_wal (t0\<lparr>t_active := sl\<rparr>) = wal_Open mode img"
    using found(2) sl(3) by (simp_all add: t0_def)
  moreover have "img = wal_bytes (t_wal t) \<Longrightarrow> n = length ms"
    using full inv by (simp add: tablet_inv_def wal_inv_def)
  moreover note cover q
  ultimately show thesis
    by (rule that)
qed

section \<open>Conditional writes\<close>

text \<open>
  The abstract operation on the table contents: requests in order, each applied to the table
  its predecessors left if its conditions hold there.
\<close>

fun apply_conditional :: "(mutation \<times> condition list) list \<Rightarrow> cell list \<Rightarrow> bool list \<times> cell list" where
  "apply_conditional [] cs = ([], cs)"
| "apply_conditional ((m, conditions) # reqs) cs =
     (if list_all (condition_true cs (mut_row m)) conditions
      then apfst (Cons True) (apply_conditional reqs (inserted (mutation_Cells m) cs))
      else apfst (Cons False) (apply_conditional reqs cs))"

fun accepted :: "(mutation \<times> condition list) list \<Rightarrow> cell list \<Rightarrow> mutation list" where
  "accepted [] cs = []"
| "accepted ((m, conditions) # reqs) cs =
     (if list_all (condition_true cs (mut_row m)) conditions
      then m # accepted reqs (inserted (mutation_Cells m) cs) else accepted reqs cs)"

definition request_ok :: "mutation \<times> condition list \<Rightarrow> bool" where
  "request_ok req \<longleftrightarrow> wal_fits (fst req) \<and> mutation_ok (fst req) \<and>
     list_all (\<lambda>c. c_Kind c \<noteq> ConditionUnsupported) (snd req)"

definition log_accepts :: "append_io \<Rightarrow> bool" where
  "log_accepts aio \<longleftrightarrow> fst aio = None \<and> snd aio = None"

lemma wal_Append_accepts:
  assumes "log_accepts aio" "wal_open w"
  shows "\<exists>n w'. wal_Append (fst aio) (snd aio) bs w = ((n, None), w')"
  using assms by (auto simp: log_accepts_def wal_Append_def Let_def file_Write_def syncLocked_def)

lemma conditional_loop_spec:
  assumes "tablet_inv t ms" "opens oio t" "list_all request_ok reqs" "\<forall>i. log_accepts (aio i)"
  shows "\<exists>t'. conditional_loop oio aio i reqs results t =
      Some (Inr (results @ fst (apply_conditional reqs (table_cells t))), t') \<and>
      tablet_inv t' (ms @ accepted reqs (table_cells t)) \<and>
      table_cells t' = snd (apply_conditional reqs (table_cells t)) \<and> immutable_cells t' = immutable_cells t \<and>
      t_backend t' = t_backend t"
  using assms
proof (induction reqs arbitrary: t ms i results)
  case (Cons req reqs)
  obtain m conditions where req: "req = (m, conditions)" by (cases req)
  have m: "list_all wal_fits [m]" "list_all mutation_ok [m]"
      and kinds: "list_all (\<lambda>c. c_Kind c \<noteq> ConditionUnsupported) conditions"
    using Cons.prems(3) by (auto simp: req request_ok_def)
  have ok: "tablet_ok t" and w: "wal_open (t_wal t)"
    using Cons.prems(1) by (simp_all add: tablet_inv_def)
  note match = conditions_match [OF ok Cons.prems(2) kinds, of "mut_row m"]
  show ?case
  proof (cases "list_all (condition_true (table_cells t) (mut_row m)) conditions")
    case False
    with match Cons.IH [OF Cons.prems(1,2), of "i + 1" "results @ [False]"] Cons.prems(3,4) show ?thesis
      by (simp add: req)
  next
    case True
    obtain n w' where app: "wal_Append (fst (aio i)) (snd (aio i)) [m] (t_wal t) = ((n, None), w')"
      using wal_Append_accepts w Cons.prems(4) by blast
    then have "wal_Append None (snd (aio i)) [m] (t_wal t) = ((n, None), w')"
      using Cons.prems(4) by (simp add: log_accepts_def)
    from append_ingest [OF Cons.prems(1) m this] obtain sl where sl:
        "ingestMutations [m] (t\<lparr>t_wal := w'\<rparr>) = Some (t\<lparr>t_wal := w', t_active := sl\<rparr>)"
        "tablet_inv (t\<lparr>t_wal := w', t_active := sl\<rparr>) (ms @ [m])"
        "table_cells (t\<lparr>t_wal := w', t_active := sl\<rparr>) = inserted (mutations_cells [m]) (table_cells t)"
      by blast
    have "ingestMutation m (t\<lparr>t_wal := w'\<rparr>) = Some (t\<lparr>t_wal := w', t_active := sl\<rparr>)"
      using sl(1) by (simp split: option.splits)
    moreover have "opens oio (t\<lparr>t_wal := w', t_active := sl\<rparr>)"
      using Cons.prems(2) by (simp add: opens_def)
    ultimately show ?thesis
      using match True app Cons.IH [OF sl(2), of "i + 1" "results @ [True]"] Cons.prems(3,4) sl(3)
      by (auto simp: req immutable_cells_def)
  qed
qed auto

section \<open>Properties\<close>


definition example_flush_io :: flush_io where
  "example_flush_io =
     \<lparr>fio_encode = None, fio_probe = (\<lambda>_. None), fio_rand = Inr ''00'', fio_write = None,
      fio_manifest = Some (CommittedWriteError (Errorf ''cleanup'')), fio_remove = None,
      fio_truncate = (None, None, None), fio_now = 5, fio_seed = (\<lambda>_. False)\<rparr>"



text \<open>A new tablet: the directory is empty, and so is the log.\<close>

definition fresh_tablet :: tablet where
  "fresh_tablet =
     \<lparr>t_active = newSkiplistMemtable (\<lambda>_. False),
      t_imm = example_state\<lparr>is_active := []\<rparr>, t_wal = wal_Open SyncFull [], t_backend = [], t_instance = [],
      t_opts = \<lparr>o_FlushThreshold = 2, o_FileFormat = FormatRFile, o_DefaultEmbedding = [],
        o_TombstoneRetention = 0\<rparr>\<rparr>"

lemma fresh_tablet_inv: "tablet_inv fresh_tablet []" "table_cells fresh_tablet = []"
  by (simp_all add: tablet_inv_def tablet_ok_def files_ok_def manifest_current_def fresh_tablet_def
      example_state_def sl_ok_new wal_Open_def wal_inv_def available_def table_cells_def immutable_cells_def)

lemma example_mutation_ok: "mutation_ok example_mutation"
  by (simp add: example_mutation_def mutation_DeleteLatest_def mutation_Put_def mutation_Delete_def
      mutation_ok_def entry_ok_def)

lemma fresh_write:
  "\<exists>t'. writeLocked (None, None) (example_flush_io\<lparr>fio_manifest := None\<rparr>) [example_mutation]
     (fresh_tablet\<lparr>t_opts := (t_opts fresh_tablet)\<lparr>o_FlushThreshold := 9\<rparr>\<rparr>) = Some (None, t')"
proof -
  let ?t = "fresh_tablet\<lparr>t_opts := (t_opts fresh_tablet)\<lparr>o_FlushThreshold := 9\<rparr>\<rparr>"
  have inv: "tablet_inv ?t []"
    using fresh_tablet_inv(1) by (simp add: tablet_inv_def tablet_ok_def files_ok_def manifest_current_def)
  obtain n w where app: "wal_Append None None [example_mutation] (t_wal ?t) = ((n, None), w)"
    using wal_Append_accepts [of "(None, None)" "t_wal ?t" "[example_mutation]"]
    by (auto simp: log_accepts_def fresh_tablet_def wal_Open_def)
  from append_ingest [OF inv _ _ app] obtain sl where sl:
      "ingestMutations [example_mutation] (?t\<lparr>t_wal := w\<rparr>) = Some (?t\<lparr>t_wal := w, t_active := sl\<rparr>)"
      "sl_ok sl" "sl_cells sl = inserted (mutation_Cells example_mutation) []"
    using example_mutation_fits example_mutation_ok by (auto simp: tablet_inv_def tablet_ok_def)
  have "length (inserted (mutation_Cells example_mutation) []) = 2"
    by (simp add: example_mutation_def mutation_DeleteLatest_def mutation_Put_def mutation_Delete_def
        mutation_Cells_def)
  then have "sl_Len sl = 2"
    using sl(2,3) by (simp add: sl_ok_def sl_Len_def)
  with app sl(1) show ?thesis
    by (simp add: writeLocked_def auto_flush_def)
qed




end
