(* ===== verification/Tablet_Compact.thy ===== *)
theory Tablet_Compact
  imports Tablet_Write
begin

text \<open>
  Compaction of a tablet and the retention of exported tombstones (\<^verbatim>\<open>Compact\<close> of
  \<^verbatim>\<open>internal/tablet/tablet.go\<close>, \<^verbatim>\<open>internal/tablet/tombstone_retention.go\<close>). The files are
  compacted in runs of one embedding state; a compaction of all files into one drops
  tombstones, and on an exported tablet writes the ones consumers may still need into files
  of their own. The theory shows that a compaction keeps the live view of the files, whatever
  fails, and which tombstones survive it.
\<close>

section \<open>Retention\<close>

record input =
  in_Name :: string
  in_image :: file_image

record tombstoneGroup =
  tg_exportedAt :: int
  tg_inputs :: "input list"

text \<open>\<^verbatim>\<open>time.Duration\<close> counts nanoseconds; \<^verbatim>\<open>Milliseconds\<close> truncates.\<close>

definition DefaultTombstoneRetention :: int where
  "DefaultTombstoneRetention = 7 * 24 * 3600000000000"

definition tombstoneBuckets :: int where
  "tombstoneBuckets = 4"

definition Milliseconds :: "int \<Rightarrow> int" where
  "Milliseconds d = (if d < 0 then - (- d div 1000000) else d div 1000000)"

definition retentionMillis :: "tablet \<Rightarrow> int" where
  "retentionMillis t =
     (let r = o_TombstoneRetention (t_opts t)
      in if r < 0 then 0
         else if r = 0 then Milliseconds DefaultTombstoneRetention
         else if Milliseconds r > 0 then Milliseconds r else 1)"

definition effectiveExportTime :: "tablet \<Rightarrow> string \<Rightarrow> int option" where
  "effectiveExportTime t name =
     (if get_int (is_exported (t_imm t)) name > 0 then Some (get_int (is_exported (t_imm t)) name)
      else if is_assumedAt (t_imm t) > 0 then Some (is_assumedAt (t_imm t))
      else None)"

text \<open>
  The bucket and export time of one input, or \<open>None\<close> if its tombstones are not kept; the
  pending bucket is \<open>- 1\<close>.
\<close>

definition retained_bucket :: "int \<Rightarrow> int \<Rightarrow> int \<Rightarrow> tablet \<Rightarrow> string \<Rightarrow> (int \<times> int) option" where
  "retained_bucket now horizon width t name =
     (if name \<in> set (is_tombstoneFree (t_imm t)) then None
      else let at = get_int (is_exported (t_imm t)) name
        in case (if at = 0 \<and> \<not> is_exportedLineage (t_imm t) then effectiveExportTime t name else Some at) of
             None \<Rightarrow> None
           | Some at \<Rightarrow>
               if at > 0 then (if now - at \<ge> horizon then None else Some (at div width, at))
               else Some (- 1, at))"

definition add_to_group :: "input \<Rightarrow> int \<Rightarrow> int \<Rightarrow> (int \<times> tombstoneGroup) list \<Rightarrow> (int \<times> tombstoneGroup) list" where
  "add_to_group inp bucket at groups =
     (let group = (case map_of groups bucket of
            None \<Rightarrow> \<lparr>tg_exportedAt = 0, tg_inputs = []\<rparr> | Some g \<Rightarrow> g)
      in AList.update bucket
           \<lparr>tg_exportedAt = (if at > tg_exportedAt group then at else tg_exportedAt group),
            tg_inputs = tg_inputs group @ [inp]\<rparr> groups)"

definition plan_step :: "int \<Rightarrow> int \<Rightarrow> int \<Rightarrow> tablet \<Rightarrow> input \<Rightarrow> (int \<times> tombstoneGroup) list \<Rightarrow> (int \<times> tombstoneGroup) list" where
  "plan_step now horizon width t inp groups =
     (case retained_bucket now horizon width t (in_Name inp) of
        None \<Rightarrow> groups
      | Some (bucket, at) \<Rightarrow> add_to_group inp bucket at groups)"

definition planRetainedTombstones :: "int \<Rightarrow> input list \<Rightarrow> tablet \<Rightarrow> tombstoneGroup list" where
  "planRetainedTombstones now inputs t =
     (let horizon = retentionMillis t
      in if horizon = 0 then []
         else let width = (if horizon div tombstoneBuckets < 1 then 1 else horizon div tombstoneBuckets);
                  groups = fold (plan_step now horizon width t) (rev inputs) []
              in map snd (sort_key fst groups))"

text \<open>The loop of \<^verbatim>\<open>recompactionIsNoOpLocked\<close>: the common name prefix so far and the count of tombstone-free files.\<close>

fun noop_loop :: "tablet \<Rightarrow> input list \<Rightarrow> string \<Rightarrow> nat \<Rightarrow> nat option" where
  "noop_loop t [] base free = Some free"
| "noop_loop t (inp # inputs) base free =
     (let name = in_Name inp
      in if fileFormat name \<noteq> o_FileFormat (t_opts t) \<or> length name < 15 \<or> name ! 0 \<noteq> CHR ''C'' \<or>
            name ! 14 \<noteq> CHR ''-'' then None
         else if nameMillis name = None then None
         else if base \<noteq> [] \<and> take 15 name \<noteq> base then None
         else noop_loop t inputs (if base = [] then take 15 name else base)
                (if name \<in> set (is_tombstoneFree (t_imm t)) then free + 1 else free))"

definition recompactionIsNoOp :: "input list \<Rightarrow> tombstoneGroup list \<Rightarrow> tablet \<Rightarrow> bool" where
  "recompactionIsNoOp inputs retained t =
     (if length inputs < 2 then False
      else case noop_loop t inputs [] 0 of
        None \<Rightarrow> False
      | Some free \<Rightarrow>
          if free \<noteq> 1 \<or> length retained \<noteq> length inputs - 1 then False
          else list_all (\<lambda>g. length (tg_inputs g) = 1) retained)"

section \<open>Identities of imported files\<close>

definition to_lower :: "char \<Rightarrow> char" where
  "to_lower c = (let n = of_char c :: nat in if 65 \<le> n \<and> n \<le> 90 then char_of (n + 32) else c)"

definition is_hex :: "char \<Rightarrow> bool" where
  "is_hex c = (let n = of_char c :: nat
     in 48 \<le> n \<and> n \<le> 57 \<or> 97 \<le> n \<and> n \<le> 102 \<or> 65 \<le> n \<and> n \<le> 70)"

definition immutableFileIdentity :: "string \<Rightarrow> string" where
  "immutableFileIdentity name =
     (if \<not> HasPrefix name importNamePrefix then name
      else let encoded = drop (length importNamePrefix) name
        in if length encoded < 64 then name
           else let digest = take 64 encoded
             in if \<not> list_all is_hex digest then name
                else if length encoded = 64 \<or> encoded ! 64 \<noteq> CHR ''-'' \<and> encoded ! 64 \<noteq> CHR ''.'' then name
                else importNamePrefix @ map to_lower digest @ filepath_Ext name)"

definition legacyContentIdentity :: "string \<Rightarrow> string option" where
  "legacyContentIdentity name =
     (let identity = immutableFileIdentity name
      in if identity = name then None else Some (''content:'' @ identity))"

text \<open>The identities held after the files \<open>old\<close> are folded into the outputs.\<close>

definition absorb_identities :: "tablet \<Rightarrow> string list \<Rightarrow> strset" where
  "absorb_identities t old =
     fold (\<lambda>name absorbed.
        let source = get_string (is_sources (t_imm t)) name
        in if source \<noteq> [] then List.insert source absorbed
           else case legacyContentIdentity name of
             Some digest \<Rightarrow> List.insert digest absorbed
           | None \<Rightarrow> absorbed) old (is_absorbed (t_imm t))"

section \<open>Compact\<close>

record compact_io =
  cio_read :: "string \<Rightarrow> go_err option"
  cio_probe :: "string \<Rightarrow> go_err option"
  cio_rand :: "string res"
  cio_encode :: "nat \<Rightarrow> go_err option"
  cio_write :: "nat \<Rightarrow> go_err option"
  cio_manifest :: "go_err option"
  cio_remove :: "string \<Rightarrow> go_err option"
  cio_final :: "go_err option"
  cio_now :: int
  cio_clock :: int

record inputRun =
  run_state :: string
  run_inputs :: "input list"

definition read_input :: "(string \<Rightarrow> go_err option) \<Rightarrow> file_image backend \<Rightarrow> string \<Rightarrow> input res" where
  "read_input rio b name =
     (case rio name of
        Some e \<Rightarrow> Inl (Wrap ''tablet: read for compaction'' e)
      | None \<Rightarrow>
          (case map_of b name of
             Some (File f) \<Rightarrow> Inr \<lparr>in_Name = name, in_image = f\<rparr>
           | _ \<Rightarrow> Inl (Wrap ''tablet: read for compaction'' (Errorf ''storage: not found''))))"

definition add_to_runs :: "input \<Rightarrow> inputRun list \<Rightarrow> inputRun list" where
  "add_to_runs inp runs =
     (if runs = [] \<or> run_state (last runs) \<noteq> fi_state (in_image inp)
      then runs @ [\<lparr>run_state = fi_state (in_image inp), run_inputs = [inp]\<rparr>]
      else butlast runs @ [(last runs)\<lparr>run_inputs := run_inputs (last runs) @ [inp]\<rparr>])"

fun build_runs ::
    "(string \<Rightarrow> go_err option) \<Rightarrow> file_image backend \<Rightarrow> string list \<Rightarrow> inputRun list \<Rightarrow> inputRun list res" where
  "build_runs rio b [] runs = Inr runs"
| "build_runs rio b (path # paths) runs =
     rbind (read_input rio b path) (\<lambda>inp. build_runs rio b paths (add_to_runs inp runs))"

definition ErrMixedEmbeddingCompactionStack :: go_err where
  "ErrMixedEmbeddingCompactionStack =
     Errorf ''tablet: iterator stack requires a whole-table view across mixed embedding spaces''"

record compactedOutput =
  co_name :: string
  co_entries :: nat
  co_exportedAt :: int
  co_tombstoneFree :: bool

text \<open>
  One call of \<^verbatim>\<open>compaction.Compact\<close> over inputs given newest first: the output file, the cells
  written and the tombstones among them. The output carries the inputs' embedding state.
\<close>

definition run_compaction ::
    "go_err option \<Rightarrow> spec \<Rightarrow> input list \<Rightarrow> (file_image \<times> nat \<times> nat) res option" where
  "run_compaction eio sp inputs =
     (case compactOnce slice_skvi (slice_Init (None :: unit option)) sp
             (slice_leaves (map (\<lambda>inp. fi_cells (in_image inp)) inputs)) of
        None \<Rightarrow> None
      | Some (Inl e) \<Rightarrow> Some (Inl e)
      | Some (Inr (cs, n)) \<Rightarrow>
          (case eio of
             Some e \<Rightarrow> Some (Inl e)
           | None \<Rightarrow> Some (Inr (\<lparr>fi_cells = cs,
                fi_state = (case inputs of [] \<Rightarrow> [] | inp # _ \<Rightarrow> fi_state (in_image inp))\<rparr>, length cs, n))))"

definition cleanupOutputs :: "compact_io \<Rightarrow> compactedOutput list \<Rightarrow> file_image backend \<Rightarrow> file_image backend" where
  "cleanupOutputs cio outputs b =
     fold (\<lambda>out b. snd (removeObject (cio_remove cio (co_name out)) (co_name out) b)) outputs b"

text \<open>
  The two output loops. Both return the outputs written and the objects of the directory, or the
  error and the objects after the cleanup; \<open>index\<close> numbers the output names.
\<close>

type_synonym outputs_result = "(go_err \<times> file_image backend) + (compactedOutput list \<times> file_image backend)"

definition multi_export_time :: "tablet \<Rightarrow> bool \<Rightarrow> bool \<Rightarrow> input list \<Rightarrow> int" where
  "multi_export_time t full free inputs =
     (if \<not> full \<and> \<not> free \<and> \<not> is_exportedLineage (t_imm t)
      then fold (\<lambda>inp at. case effectiveExportTime t (in_Name inp) of
             Some e \<Rightarrow> if e > at then e else at | None \<Rightarrow> at) inputs 0
      else 0)"

fun main_outputs ::
    "compact_io \<Rightarrow> iter_spec list \<Rightarrow> bool \<Rightarrow> tablet \<Rightarrow> int \<Rightarrow> nat \<Rightarrow> inputRun list \<Rightarrow> compactedOutput list \<Rightarrow>
       file_image backend \<Rightarrow> outputs_result option" where
  "main_outputs cio stack full t base index [] outputs b = Some (Inr (outputs, b))"
| "main_outputs cio stack full t base index (run # runs) outputs b =
     (case run_compaction (cio_encode cio index)
             \<lparr>sp_Stack = stack, sp_Scope = ScopeMajc, sp_FullMajorCompaction = full, sp_TombstonesOnly = False\<rparr>
             (rev (run_inputs run)) of
        None \<Rightarrow> None
      | Some (Inl e) \<Rightarrow> Some (Inl (Wrap ''tablet: compact'' e, cleanupOutputs cio outputs b))
      | Some (Inr (img, entries, tombstones)) \<Rightarrow>
          (let outName = compactionName base index (extension (o_FileFormat (t_opts t)));
               (werr, b) = WriteAll (cio_write cio index) outName (File img) b
           in case werr of
                Some e \<Rightarrow> Some (Inl (Wrap ''tablet: write compacted'' e, cleanupOutputs cio outputs b))
              | None \<Rightarrow>
                  main_outputs cio stack full t base (index + 1) runs
                    (outputs @ [\<lparr>co_name = outName, co_entries = entries,
                       co_exportedAt = multi_export_time t full (tombstones = 0) (run_inputs run),
                       co_tombstoneFree = (tombstones = 0)\<rparr>]) b))"

fun tombstone_outputs ::
    "compact_io \<Rightarrow> tablet \<Rightarrow> int \<Rightarrow> nat \<Rightarrow> tombstoneGroup list \<Rightarrow> compactedOutput list \<Rightarrow>
       file_image backend \<Rightarrow> outputs_result option" where
  "tombstone_outputs cio t base index [] outputs b = Some (Inr (outputs, b))"
| "tombstone_outputs cio t base index (grp # groups) outputs b =
     (case run_compaction (cio_encode cio index)
             \<lparr>sp_Stack = [], sp_Scope = ScopeMajc, sp_FullMajorCompaction = False, sp_TombstonesOnly = True\<rparr>
             (tg_inputs grp) of
        None \<Rightarrow> None
      | Some (Inl e) \<Rightarrow> Some (Inl (Wrap ''tablet: keep exported tombstones'' e, cleanupOutputs cio outputs b))
      | Some (Inr (img, entries, tombstones)) \<Rightarrow>
          if entries = 0 then tombstone_outputs cio t base (index + 1) groups outputs b
          else
            (let outName = compactionName base index (extension (o_FileFormat (t_opts t)));
                 (werr, b) = WriteAll (cio_write cio index) outName (File img) b
             in case werr of
                  Some e \<Rightarrow> Some (Inl (Wrap ''tablet: write kept tombstones'' e, cleanupOutputs cio outputs b))
                | None \<Rightarrow>
                    tombstone_outputs cio t base (index + 1) groups
                      (outputs @ [\<lparr>co_name = outName, co_entries = entries,
                         co_exportedAt = tg_exportedAt grp, co_tombstoneFree = False\<rparr>]) b))"

text \<open>The generation a compaction publishes.\<close>

definition compacted_state :: "tablet \<Rightarrow> string \<Rightarrow> compactedOutput list \<Rightarrow> immutableState" where
  "compacted_state t inst outputs =
     (let old = t_files t
      in (tablet_state t (map co_name outputs)
            (fold List.insert old (is_obsolete (t_imm t))))
           \<lparr>is_sources := Map.empty, is_absorbed := absorb_identities t old,
            is_minted := map_of (map (\<lambda>out. (co_name out, inst)) outputs),
            is_exported := map_of (map (\<lambda>out. (co_name out, co_exportedAt out))
              (filter (\<lambda>out. co_exportedAt out > 0) outputs)),
            is_tombstoneFree := map co_name (filter co_tombstoneFree outputs)\<rparr>)"

text \<open>The removal of the old files: an object that is gone is no longer obsolete.\<close>

fun remove_old :: "compact_io \<Rightarrow> string list \<Rightarrow> tablet \<Rightarrow> tablet" where
  "remove_old cio [] t = t"
| "remove_old cio (old # olds) t =
     (case removeObject (cio_remove cio old) old (t_backend t) of
        (None, b) \<Rightarrow> remove_old cio olds
          (t\<lparr>t_backend := b, t_imm := (t_imm t)\<lparr>is_obsolete := removeAll old (is_obsolete (t_imm t))\<rparr>\<rparr>)
      | (Some e, b) \<Rightarrow> remove_old cio olds (t\<lparr>t_backend := b\<rparr>))"

definition publish_compaction ::
    "compact_io \<Rightarrow> string \<Rightarrow> compactedOutput list \<Rightarrow> tablet \<Rightarrow> go_err option \<times> tablet" where
  "publish_compaction cio inst outputs t =
     (let next = compacted_state t inst outputs;
          (merr, b) = persistImmutableManifest (cio_manifest cio) next (t_backend t);
          t1 = t\<lparr>t_backend := b\<rparr>;
          committed = t1\<lparr>t_imm := next\<rparr>
      in case merr of
           Some e \<Rightarrow>
             if IsCommittedWriteError e
             then (Some (Wrap ''tablet: publish compacted generation committed with cleanup error'' e), committed)
             else (Some (Wrap ''tablet: publish compacted generation'' e),
                   t1\<lparr>t_backend := cleanupOutputs cio outputs b\<rparr>)
         | None \<Rightarrow>
             (let t2 = remove_old cio (t_files t) committed;
                  (ferr, b) = persistImmutableManifest (cio_final cio) (t_imm t2) (t_backend t2)
              in (None, t2\<lparr>t_backend := b\<rparr>)))"

text \<open>From the outputs on, with the plan made and the name base and the instance drawn.\<close>

definition compact_runs ::
    "compact_io \<Rightarrow> iter_spec list \<Rightarrow> inputRun list \<Rightarrow> tombstoneGroup list \<Rightarrow> int \<Rightarrow> string \<Rightarrow> tablet \<Rightarrow>
       (go_err option \<times> tablet) option" where
  "compact_runs cio stack runs retained base inst t =
     (case main_outputs cio stack (length runs = 1) t base 0 runs [] (t_backend t) of
        None \<Rightarrow> None
      | Some (Inl (e, b)) \<Rightarrow> Some (Some e, t\<lparr>t_backend := b\<rparr>)
      | Some (Inr (outputs, b)) \<Rightarrow>
          (case tombstone_outputs cio t base (length runs) retained outputs b of
             None \<Rightarrow> None
           | Some (Inl (e, b)) \<Rightarrow> Some (Some e, t\<lparr>t_backend := b\<rparr>)
           | Some (Inr (outputs, b)) \<Rightarrow> Some (publish_compaction cio inst outputs (t\<lparr>t_backend := b\<rparr>))))"

definition tablet_Compact ::
    "compact_io \<Rightarrow> iter_spec list \<Rightarrow> tablet \<Rightarrow> (go_err option \<times> tablet) option" where
  "tablet_Compact cio stack t =
     (if length (t_files t) = 0 \<or>
         length (t_files t) = 1 \<and> fileFormat (t_files t ! 0) = o_FileFormat (t_opts t)
      then Some (None, t)
      else case build_runs (cio_read cio) (t_backend t) (t_files t) [] of
        Inl e \<Rightarrow> Some (Some e, t)
      | Inr runs \<Rightarrow>
          if length (remdups (map run_state runs)) > 1 \<and> length stack > 0
          then Some (Some ErrMixedEmbeddingCompactionStack, t)
          else
            let full = (length runs = 1);
                retained = (if full then planRetainedTombstones (cio_clock cio) (run_inputs (runs ! 0)) t else [])
            in if full \<and> recompactionIsNoOp (run_inputs (runs ! 0)) retained t then Some (None, t)
               else
                 (case freeCompactionBase (objectExists (cio_probe cio) (t_backend t))
                         (nextNameMillis (cio_now cio) (is_nameHighWater (t_imm t)))
                         (length runs + length retained) (extension (o_FileFormat (t_opts t)))
                         (is_obsolete (t_imm t) @ t_files t) of
                    None \<Rightarrow> None
                  | Some (Inl e) \<Rightarrow> Some (Some e, t)
                  | Some (Inr base) \<Rightarrow>
                      (case mintInstanceLocked (cio_rand cio) t of
                         (Inl e, t) \<Rightarrow> Some (Some e, t)
                       | (Inr inst, t) \<Rightarrow>
                           compact_runs cio stack runs retained base inst
                             (t\<lparr>t_imm := (t_imm t)\<lparr>is_nameHighWater := base\<rparr>\<rparr>))))"

section \<open>Merges of runs\<close>

lemma merge_all_append: "merge_all (as @ bs) = merge2 (merge_all as) (merge_all bs)"
  by (induction as) (simp_all add: merge2_assoc)

lemma merge_all_concat: "merge_all (concat csss) = merge_all (map merge_all csss)"
  by (induction csss) (simp_all add: merge_all_append)

lemma set_merge_all: "set (merge_all css) = (\<Union>cs\<in>set css. set cs)"
  by (induction css) simp_all

lemma merge2_all_greater: "\<forall>d\<in>set ds. \<forall>c\<in>set cs. fst d < fst c \<Longrightarrow> merge2 cs ds = ds @ cs"
  by (induction ds) (simp_all add: merge2_Cons_all_greater)

lemma suppress_run_False: "suppress_run False cs = takeWhile (\<lambda>c. \<not> Deleted (fst c)) cs"
  by (induction cs) simp_all

lemma live_before_tombstone:
  "sorted_cells cs \<Longrightarrow> c \<in> set (suppress_run False cs) \<Longrightarrow> d \<in> set cs \<Longrightarrow> Deleted (fst d) \<Longrightarrow> fst c < fst d"
  unfolding suppress_run_False
proof (induction cs)
  case (Cons a cs)
  then show ?case
    by (auto simp: sorted_cells_Cons order.strict_iff_order split: if_splits)
qed simp

text \<open>Tombstones of the inputs beside the live cells hide nothing of them.\<close>

lemma suppress_with_tombstones:
  assumes "sorted_cells cs" "sorted_cells ts" "set ts \<subseteq> set cs" "\<forall>c\<in>set ts. Deleted (fst c)"
  shows "suppress False (merge2 ts (suppress False cs)) = suppress False cs"
proof (rule sorted_coord_eqI)
  fix x
  let ?live = "suppress_run False (at_coord x cs)"
  have "\<forall>d\<in>set ?live. \<forall>c\<in>set (at_coord x ts). fst d < fst c"
  proof (intro ballI)
    fix d c assume d: "d \<in> set ?live" and c: "c \<in> set (at_coord x ts)"
    then have "c \<in> set (at_coord x cs)" "Deleted (fst c)"
      using assms(3,4) by auto
    then show "fst d < fst c"
      using live_before_tombstone [OF _ d] assms(1) by simp
  qed
  then have "merge2 (at_coord x ts) ?live = ?live @ at_coord x ts"
    by (rule merge2_all_greater)
  moreover have "suppress_run False (?live @ at_coord x ts) = ?live"
    using assms(4) by (cases "at_coord x ts") (auto simp: suppress_run_False takeWhile_tail filter_eq_Cons_iff
        takeWhile_append takeWhile_eq_all_conv dest: set_takeWhileD)
  ultimately show "at_coord x (suppress False (merge2 ts (suppress False cs))) = at_coord x (suppress False cs)"
    using assms(1,2) by (simp add: at_coord_suppress filter_merge2)
qed (use assms in simp_all)

text \<open>
  A compaction of the lower layer keeps the live cells of the whole if no tombstone of the
  lower layer hides a cell of the upper one.
\<close>

definition unhidden :: "cell list \<Rightarrow> cell list \<Rightarrow> bool" where
  "unhidden as bs \<longleftrightarrow> (\<forall>c\<in>set as. \<forall>d\<in>set bs. Deleted (fst d) \<and> same_coord c d \<longrightarrow> fst c \<le> fst d)"

lemma suppress_run_unhidden:
  "\<forall>c\<in>set as. \<forall>d\<in>set bs. Deleted (fst d) \<longrightarrow> fst c \<le> fst d \<Longrightarrow>
     suppress_run False (merge2 as (suppress_run False bs)) = suppress_run False (merge2 as bs)"
  by (induction as bs rule: merge2.induct) (auto simp: suppress_run_False takeWhile_idem)

lemma suppress_unhidden:
  assumes "sorted_cells as" "sorted_cells bs" "unhidden as bs"
  shows "suppress False (merge2 as (suppress False bs)) = suppress False (merge2 as bs)"
proof (rule sorted_coord_eqI)
  fix x
  have "\<forall>c\<in>set (at_coord x as). \<forall>d\<in>set (at_coord x bs). Deleted (fst d) \<longrightarrow> fst c \<le> fst d"
    using assms(3) by (auto simp: unhidden_def)
  from suppress_run_unhidden [OF this] assms(1,2)
  show "at_coord x (suppress False (merge2 as (suppress False bs))) = at_coord x (suppress False (merge2 as bs))"
    by (simp add: at_coord_suppress filter_merge2)
qed (use assms in simp_all)

section \<open>Runs of the live files\<close>

text \<open>
  Reading the files groups them, in order, into runs of one embedding state; the inputs are
  the objects of the directory.
\<close>

definition input_of :: "file_image backend \<Rightarrow> input \<Rightarrow> bool" where
  "input_of b inp \<longleftrightarrow> map_of b (in_Name inp) = Some (File (in_image inp))"

definition run_ok :: "inputRun \<Rightarrow> bool" where
  "run_ok r \<longleftrightarrow> run_inputs r \<noteq> [] \<and> (\<forall>inp\<in>set (run_inputs r). fi_state (in_image inp) = run_state r)"

abbreviation all_inputs :: "inputRun list \<Rightarrow> input list" where
  "all_inputs runs \<equiv> concat (map run_inputs runs)"

lemma read_input_Inr: "read_input rio b name = Inr inp \<Longrightarrow> in_Name inp = name \<and> input_of b inp"
  by (auto simp: read_input_def input_of_def split: option.splits object.splits)

lemma add_to_runs_ok:
  "all_inputs (add_to_runs inp runs) = all_inputs runs @ [inp]"
  "list_all run_ok runs \<Longrightarrow> list_all run_ok (add_to_runs inp runs)"
  by (cases runs rule: rev_cases; auto simp: add_to_runs_def run_ok_def)+

lemma build_runs_Inr:
  "build_runs rio b paths runs = Inr runs' \<Longrightarrow> list_all run_ok runs \<Longrightarrow>
     list_all run_ok runs' \<and> (\<exists>inps. all_inputs runs' = all_inputs runs @ inps \<and>
       map in_Name inps = paths \<and> (\<forall>inp\<in>set inps. input_of b inp))"
proof (induction paths arbitrary: runs)
  case (Cons path paths)
  then obtain inp where inp: "read_input rio b path = Inr inp" "build_runs rio b paths (add_to_runs inp runs) = Inr runs'"
    by (cases "read_input rio b path") auto
  from Cons.IH [OF this(2)] Cons.prems(2) add_to_runs_ok [where runs = runs and inp = inp] obtain inps where
      "list_all run_ok runs'" "all_inputs runs' = all_inputs runs @ inp # inps"
      "map in_Name inps = paths" "\<forall>inp\<in>set inps. input_of b inp"
    by auto
  then show ?case
    using read_input_Inr [OF inp(1)] by (auto intro!: exI [of _ "inp # inps"])
qed auto

lemma build_runs_files:
  assumes "build_runs rio b paths [] = Inr runs"
  shows "list_all run_ok runs" "map in_Name (all_inputs runs) = paths" "\<forall>inp\<in>set (all_inputs runs). input_of b inp"
  using build_runs_Inr [OF assms] by auto

abbreviation input_cells :: "input \<Rightarrow> cell list" where
  "input_cells inp \<equiv> fi_cells (in_image inp)"

lemma input_cells_file: "input_of b inp \<Longrightarrow> input_cells inp = file_cells b (in_Name inp)"
  by (simp add: input_of_def file_cells_def)

lemma inputs_cells:
  "\<forall>inp\<in>set inps. input_of b inp \<Longrightarrow> map input_cells inps = map (file_cells b) (map in_Name inps)"
  by (simp add: input_cells_file)

text \<open>The cells of one run, newest input first.\<close>

abbreviation run_cells :: "inputRun \<Rightarrow> cell list" where
  "run_cells r \<equiv> merge_all (map input_cells (rev (run_inputs r)))"

lemma runs_immutable:
  assumes "build_runs rio (t_backend t) (t_files t) [] = Inr runs"
  shows "immutable_cells t = merge_all (map run_cells (rev runs))"
proof -
  note runs = build_runs_files [OF assms]
  have "immutable_cells t = merge_all (rev (map (file_cells (t_backend t)) (map in_Name (all_inputs runs))))"
    by (simp only: immutable_cells_def rev_map runs(2))
  also have "\<dots> = merge_all (rev (map input_cells (all_inputs runs)))"
    by (simp only: inputs_cells [OF runs(3)])
  also have "rev (map input_cells (all_inputs runs)) = concat (map (\<lambda>r. map input_cells (rev (run_inputs r))) (rev runs))"
    by (simp add: rev_map rev_concat map_concat comp_def)
  finally show ?thesis
    by (simp add: merge_all_concat comp_def)
qed

lemma inputs_sorted:
  assumes "files_ok t" "map in_Name inps = t_files t" "\<forall>inp\<in>set inps. input_of (t_backend t) inp"
  shows "\<forall>inp\<in>set inps. sorted_cells (input_cells inp)"
proof
  fix inp assume "inp \<in> set inps"
  then have "in_Name inp \<in> set (t_files t)" "input_of (t_backend t) inp"
    using assms(2,3) by (metis image_eqI set_map, blast)
  then show "sorted_cells (input_cells inp)"
    using assms(1) has_file_sorted by (auto simp: files_ok_def list_all_iff input_cells_file)
qed

section \<open>The output loops\<close>

text \<open>
  A compaction without a stack writes \<^const>\<open>compacted\<close> of its inputs, unless the writer fails.
\<close>

lemma run_compaction_eq:
  assumes "\<forall>inp\<in>set inputs. sorted_cells (input_cells inp)" "sp_Stack sp = []"
  shows "run_compaction eio sp inputs = Some (case eio of Some e \<Rightarrow> Inl e | None \<Rightarrow>
    Inr (\<lparr>fi_cells = compacted sp (map input_cells inputs),
          fi_state = (case inputs of [] \<Rightarrow> [] | inp # _ \<Rightarrow> fi_state (in_image inp))\<rparr>,
         length (compacted sp (map input_cells inputs)),
         length (filter (\<lambda>c. Deleted (fst c)) (compacted sp (map input_cells inputs)))))"
proof -
  have "\<forall>cs\<in>set (map input_cells inputs). sorted_cells cs"
    using assms(1) by simp
  from compactOnce_slices [OF this assms(2)] show ?thesis
    by (cases eio) (simp_all add: run_compaction_def comp_def)
qed

text \<open>
  The outputs the loops write: one for each run, and one for each group that has a tombstone.
\<close>

abbreviation tablet_ext :: "tablet \<Rightarrow> string" where
  "tablet_ext t \<equiv> extension (o_FileFormat (t_opts t))"

definition main_out :: "tablet \<Rightarrow> bool \<Rightarrow> int \<Rightarrow> nat \<times> inputRun \<Rightarrow> compactedOutput \<times> file_image" where
  "main_out t full base ir =
     (let cs = suppress (\<not> full) (run_cells (snd ir)); free = (filter (\<lambda>c. Deleted (fst c)) cs = [])
      in (\<lparr>co_name = compactionName base (fst ir) (tablet_ext t), co_entries = length cs,
           co_exportedAt = multi_export_time t full free (run_inputs (snd ir)), co_tombstoneFree = free\<rparr>,
          \<lparr>fi_cells = cs, fi_state = (case rev (run_inputs (snd ir)) of [] \<Rightarrow> [] | inp # _ \<Rightarrow> fi_state (in_image inp))\<rparr>))"

definition group_cells :: "tombstoneGroup \<Rightarrow> cell list" where
  "group_cells g = filter (\<lambda>c. Deleted (fst c)) (suppress True (merge_all (map input_cells (tg_inputs g))))"

definition tombstone_out :: "tablet \<Rightarrow> int \<Rightarrow> nat \<times> tombstoneGroup \<Rightarrow> compactedOutput \<times> file_image" where
  "tombstone_out t base ig =
     (\<lparr>co_name = compactionName base (fst ig) (tablet_ext t), co_entries = length (group_cells (snd ig)),
       co_exportedAt = tg_exportedAt (snd ig), co_tombstoneFree = False\<rparr>,
      \<lparr>fi_cells = group_cells (snd ig),
       fi_state = (case tg_inputs (snd ig) of [] \<Rightarrow> [] | inp # _ \<Rightarrow> fi_state (in_image inp))\<rparr>)"

text \<open>What an output loop does to the directory, when it succeeds and when it fails.\<close>

definition objects_of :: "(compactedOutput \<times> file_image) list \<Rightarrow> string \<rightharpoonup> file_image object" where
  "objects_of news = map_of (rev (map (\<lambda>(out, img). (co_name out, File img)) news))"

definition names_from :: "tablet \<Rightarrow> int \<Rightarrow> nat \<Rightarrow> nat \<Rightarrow> string set" where
  "names_from t base i j = (\<lambda>k. compactionName base k (tablet_ext t)) ` {i..<j}"

definition outputs_spec :: "tablet \<Rightarrow> int \<Rightarrow> nat \<Rightarrow> nat \<Rightarrow> compactedOutput list \<Rightarrow> file_image backend \<Rightarrow>
    (compactedOutput \<times> file_image) list \<Rightarrow> outputs_result \<Rightarrow> bool" where
  "outputs_spec t base i j outputs b news r \<longleftrightarrow>
     (case r of
        Inl (e, b') \<Rightarrow> \<forall>n. n \<notin> names_from t base i j \<and> n \<notin> co_name ` set outputs \<longrightarrow> map_of b' n = map_of b n
      | Inr (outputs', b') \<Rightarrow> outputs' = outputs @ map fst news \<and> map_of b' = map_of b ++ objects_of news)"

lemma cleanupOutputs_other:
  "n \<notin> co_name ` set outputs \<Longrightarrow> map_of (cleanupOutputs cio outputs b) n = map_of b n"
  unfolding cleanupOutputs_def by (induction outputs arbitrary: b) (simp_all add: map_of_removeObject)

lemma WriteAll_other: "n \<noteq> name \<Longrightarrow> map_of (snd (WriteAll io name obj b)) n = map_of b n"
  by (simp add: map_of_WriteAll)

lemma fst_WriteAll: "fst (WriteAll io name obj b) = io"
  by (simp add: WriteAll_def split: option.splits)

lemma objects_of_simps [simp]:
  "objects_of [] = Map.empty"
  "objects_of (x # news) = [co_name (fst x) \<mapsto> File (snd x)] ++ objects_of news"
  by (simp_all add: objects_of_def case_prod_beta)

lemma names_from_step:
  "compactionName base i (tablet_ext t) \<in> names_from t base i (Suc i + k)"
  "names_from t base (Suc i) (Suc i + k) \<subseteq> names_from t base i (Suc i + k)"
  by (auto simp: names_from_def)

text \<open>One step of an output loop: after the write of an output the rest of the loop goes on.\<close>

lemma outputs_spec_step:
  assumes "co_name (fst x) = compactionName base i (tablet_ext t)"
    and "outputs_spec t base (Suc i) (Suc i + k) (outputs @ [fst x]) (snd (WriteAll None (co_name (fst x)) (File (snd x)) b)) news r"
  shows "outputs_spec t base i (Suc i + k) outputs b (x # news) r"
proof (cases r)
  case (Inl eb)
  then show ?thesis
    using assms names_from_step [where base = base and i = i and t = t and k = k]
    by (cases eb) (auto simp: outputs_spec_def map_of_WriteAll split: if_splits)
next
  case (Inr ob)
  then show ?thesis
    using assms by (cases ob) (simp add: outputs_spec_def map_of_WriteAll)
qed

lemma outputs_spec_fail:
  assumes "name \<in> names_from t base i j"
  shows "outputs_spec t base i j outputs b news (Inl (e, cleanupOutputs cio outputs (snd (WriteAll io name obj b))))"
  using assms by (auto simp: outputs_spec_def cleanupOutputs_other intro!: WriteAll_other)

lemma zip_upt_Cons: "zip [i..<i + length (x # xs)] (x # xs) = (i, x) # zip [Suc i..<Suc i + length xs] xs"
  by (simp add: upt_conv_Cons del: upt_Suc)

lemma main_outputs_spec:
  assumes "\<forall>inp\<in>set (all_inputs runs). sorted_cells (input_cells inp)"
  shows "\<exists>r. main_outputs cio [] full t base i runs outputs b = Some r \<and>
    outputs_spec t base i (i + length runs) outputs b (map (main_out t full base) (zip [i..<i + length runs] runs)) r"
  using assms
proof (induction runs arbitrary: i outputs b)
  case (Cons run runs)
  let ?sp = "\<lparr>sp_Stack = [], sp_Scope = ScopeMajc, sp_FullMajorCompaction = full, sp_TombstonesOnly = False\<rparr>"
  let ?x = "main_out t full base (i, run)"
  let ?name = "compactionName base i (tablet_ext t)"
  have "\<forall>inp\<in>set (rev (run_inputs run)). sorted_cells (input_cells inp)"
    using Cons.prems by simp
  note run = run_compaction_eq [OF this, of ?sp]
  have x: "co_name (fst ?x) = ?name" by (simp add: main_out_def Let_def)
  have name: "?name \<in> names_from t base i (i + length (run # runs))"
    using names_from_step(1) [of base i t "length runs"] by simp
  show ?case
  proof (cases "cio_encode cio i")
    case (Some e)
    then show ?thesis
      using run by (simp add: outputs_spec_def cleanupOutputs_other)
  next
    case enc: None
    show ?thesis
    proof (cases "cio_write cio i")
      case (Some e)
      then show ?thesis
        using run enc outputs_spec_fail [OF name]
        by (simp add: case_prod_beta Let_def fst_WriteAll)
    next
      case None
      let ?b = "snd (WriteAll None ?name (File (snd ?x)) b)"
      have step: "main_outputs cio [] full t base i (run # runs) outputs b =
          main_outputs cio [] full t base (Suc i) runs (outputs @ [fst ?x]) ?b"
        using run enc None
        by (simp add: case_prod_beta Let_def fst_WriteAll main_out_def compacted_def propagates_def)
      from Cons.IH [of "Suc i" "outputs @ [fst ?x]" ?b] Cons.prems obtain r where
          "main_outputs cio [] full t base (Suc i) runs (outputs @ [fst ?x]) ?b = Some r"
          "outputs_spec t base (Suc i) (Suc i + length runs) (outputs @ [fst ?x]) ?b
             (map (main_out t full base) (zip [Suc i..<Suc i + length runs] runs)) r"
        by auto
      with outputs_spec_step [OF x, of "length runs"] show ?thesis
        unfolding step zip_upt_Cons list.map x by fastforce
    qed
  qed
qed (simp add: outputs_spec_def)

lemma outputs_spec_skip:
  "outputs_spec t base (Suc i) (Suc i + k) outputs b news r \<Longrightarrow> outputs_spec t base i (Suc i + k) outputs b news r"
  using names_from_step(2) [of t base i k] by (auto simp: outputs_spec_def split: sum.splits)

lemma tombstone_outputs_spec:
  assumes "\<forall>g\<in>set groups. \<forall>inp\<in>set (tg_inputs g). sorted_cells (input_cells inp)"
  shows "\<exists>r. tombstone_outputs cio t base i groups outputs b = Some r \<and>
    outputs_spec t base i (i + length groups) outputs b
      (map (tombstone_out t base) (filter (\<lambda>ig. group_cells (snd ig) \<noteq> []) (zip [i..<i + length groups] groups))) r"
  using assms
proof (induction groups arbitrary: i outputs b)
  case (Cons g groups)
  let ?sp = "\<lparr>sp_Stack = [], sp_Scope = ScopeMajc, sp_FullMajorCompaction = False, sp_TombstonesOnly = True\<rparr>"
  let ?x = "tombstone_out t base (i, g)"
  let ?name = "compactionName base i (tablet_ext t)"
  let ?news = "\<lambda>i. map (tombstone_out t base)
    (filter (\<lambda>ig. group_cells (snd ig) \<noteq> []) (zip [i..<i + length groups] groups))"
  have "\<forall>inp\<in>set (tg_inputs g). sorted_cells (input_cells inp)"
    using Cons.prems by simp
  from run_compaction_eq [OF this, of ?sp]
  have run: "run_compaction eio ?sp (tg_inputs g) = Some (case eio of Some e \<Rightarrow> Inl e | None \<Rightarrow>
      Inr (snd ?x, length (group_cells g), length (filter (\<lambda>c. Deleted (fst c)) (group_cells g))))" for eio
    by (simp add: compacted_def tombstone_out_def group_cells_def del: filter_filter split: option.split)
  have IH: "\<exists>r. tombstone_outputs cio t base (Suc i) groups outs b = Some r \<and>
      outputs_spec t base (Suc i) (Suc i + length groups) outs b (?news (Suc i)) r" for outs b
    using Cons.IH [of "Suc i" outs b] Cons.prems by simp
  have x: "co_name (fst ?x) = ?name" by (simp add: tombstone_out_def)
  have name: "?name \<in> names_from t base i (i + length (g # groups))"
    using names_from_step(1) [of base i t "length groups"] by simp
  show ?case
  proof (cases "cio_encode cio i")
    case (Some e)
    then show ?thesis
      using run by (simp add: outputs_spec_def cleanupOutputs_other)
  next
    case enc: None
    show ?thesis
    proof (cases "group_cells g = []")
      case True
      then have "tombstone_outputs cio t base i (g # groups) outputs b =
          tombstone_outputs cio t base (Suc i) groups outputs b"
        using run enc by simp
      with IH [of outputs b] outputs_spec_skip [of t base i "length groups"] True show ?thesis
        unfolding zip_upt_Cons by fastforce
    next
      case False
      show ?thesis
      proof (cases "cio_write cio i")
        case (Some e)
        then show ?thesis
          using run enc False outputs_spec_fail [OF name]
          by (simp add: case_prod_beta Let_def fst_WriteAll)
      next
        case None
        let ?b = "snd (WriteAll None ?name (File (snd ?x)) b)"
        have step: "tombstone_outputs cio t base i (g # groups) outputs b =
            tombstone_outputs cio t base (Suc i) groups (outputs @ [fst ?x]) ?b"
          using run enc None False
          by (simp add: case_prod_beta Let_def fst_WriteAll) (simp add: tombstone_out_def)
        have "filter (\<lambda>ig. group_cells (snd ig) \<noteq> []) ((i, g) # zip [Suc i..<Suc i + length groups] groups) =
            (i, g) # filter (\<lambda>ig. group_cells (snd ig) \<noteq> []) (zip [Suc i..<Suc i + length groups] groups)"
          using False by simp
        with IH [of "outputs @ [fst ?x]" ?b] outputs_spec_step [OF x, of "length groups"] show ?thesis
          unfolding step zip_upt_Cons x by fastforce
      qed
    qed
  qed
qed (simp add: outputs_spec_def)

section \<open>Publishing a compaction\<close>

lemma compactionName_not_manifest: "compactionName base i ext \<noteq> ''files.json''"
  by (simp add: compactionName_def)

lemma inj_compactionName_index: "compactionName base i ext = compactionName base j ext \<Longrightarrow> i = j"
  using zero_padded_inj [of 3 i j] by (simp add: compactionName_def)

lemma persist_other: "n \<noteq> ''files.json'' \<Longrightarrow> map_of (snd (persistImmutableManifest io s b)) n = map_of b n"
  by (simp add: persistImmutableManifest_def map_of_WriteAll)

lemma remove_old_keeps:
  "\<exists>obs. t_imm (remove_old cio olds t) = (t_imm t)\<lparr>is_obsolete := obs\<rparr>"
  "t_active (remove_old cio olds t) = t_active t" "t_wal (remove_old cio olds t) = t_wal t"
  "t_opts (remove_old cio olds t) = t_opts t"
  "n \<notin> set olds \<Longrightarrow> map_of (t_backend (remove_old cio olds t)) n = map_of (t_backend t) n"
proof -
  have *: "(\<exists>obs. t_imm (remove_old cio olds t) = (t_imm t)\<lparr>is_obsolete := obs\<rparr>) \<and>
      t_active (remove_old cio olds t) = t_active t \<and> t_wal (remove_old cio olds t) = t_wal t \<and>
      t_opts (remove_old cio olds t) = t_opts t \<and>
      (n \<notin> set olds \<longrightarrow> map_of (t_backend (remove_old cio olds t)) n = map_of (t_backend t) n)"
  proof (induction olds arbitrary: t)
    case Nil
    then show ?case by (auto intro: exI [of _ "is_obsolete (t_imm t)"])
  next
    case (Cons old olds)
    obtain err b where rem: "removeObject (cio_remove cio old) old (t_backend t) = (err, b)"
      by fastforce
    then have "n \<noteq> old \<Longrightarrow> map_of b n = map_of (t_backend t) n"
      using map_of_removeObject [of "cio_remove cio old" old "t_backend t"] by auto
    with Cons [of "t\<lparr>t_backend := b\<rparr>"]
      Cons [of "t\<lparr>t_backend := b, t_imm := (t_imm t)\<lparr>is_obsolete := removeAll old (is_obsolete (t_imm t))\<rparr>\<rparr>"] rem
    show ?case by (cases err) auto
  qed
  from * show "\<exists>obs. t_imm (remove_old cio olds t) = (t_imm t)\<lparr>is_obsolete := obs\<rparr>"
    "t_active (remove_old cio olds t) = t_active t" "t_wal (remove_old cio olds t) = t_wal t"
    "t_opts (remove_old cio olds t) = t_opts t"
    "n \<notin> set olds \<Longrightarrow> map_of (t_backend (remove_old cio olds t)) n = map_of (t_backend t) n"
    by blast+
qed

text \<open>A compaction that does not publish leaves every object that was there, and the state but for the high-water mark.\<close>

definition compact_unpublished :: "tablet \<Rightarrow> tablet \<Rightarrow> bool" where
  "compact_unpublished t t' \<longleftrightarrow> t_active t' = t_active t \<and> t_wal t' = t_wal t \<and> t_opts t' = t_opts t \<and>
     (\<exists>hw\<ge>is_nameHighWater (t_imm t). t_imm t' = (t_imm t)\<lparr>is_nameHighWater := hw\<rparr>) \<and>
     (\<forall>n. map_of (t_backend t) n \<noteq> None \<longrightarrow> map_of (t_backend t') n = map_of (t_backend t) n)"

text \<open>A compaction that publishes makes the new files the live ones, in memory and in the manifest.\<close>

definition compact_published :: "tablet \<Rightarrow> (compactedOutput \<times> file_image) list \<Rightarrow> tablet \<Rightarrow> bool" where
  "compact_published t news t' \<longleftrightarrow> t_active t' = t_active t \<and> t_wal t' = t_wal t \<and> t_opts t' = t_opts t \<and>
     (\<exists>hw\<ge>is_nameHighWater (t_imm t). \<exists>inst obs.
        t_imm t' = (compacted_state t inst (map fst news))\<lparr>is_obsolete := obs, is_nameHighWater := hw\<rparr>) \<and>
     (\<forall>x\<in>set news. map_of (t_backend t') (co_name (fst x)) = Some (File (snd x))) \<and>
     (\<exists>s. map_of (t_backend t') ''files.json'' = Some (FilesJson (manifest_of s)) \<and>
        is_active s = map (\<lambda>x. co_name (fst x)) news)"

lemma publish_compaction_cases:
  assumes pub: "publish_compaction cio inst (map fst news) t = (err, t')"
    and fresh: "\<forall>x\<in>set news. co_name (fst x) \<notin> set (t_files t) \<and> co_name (fst x) \<noteq> ''files.json''"
    and live: "''files.json'' \<notin> set (t_files t)"
    and written: "\<forall>x\<in>set news. map_of (t_backend t) (co_name (fst x)) = Some (File (snd x))"
  shows "t_imm t' = t_imm t \<and> t_active t' = t_active t \<and> t_wal t' = t_wal t \<and> t_opts t' = t_opts t \<and>
      (\<forall>n. n \<notin> (\<lambda>x. co_name (fst x)) ` set news \<longrightarrow> map_of (t_backend t') n = map_of (t_backend t) n) \<or>
    compact_published t news t'"
proof -
  let ?next = "compacted_state t inst (map fst news)"
  let ?b = "snd (persistImmutableManifest (cio_manifest cio) ?next (t_backend t))"
  let ?t1 = "t\<lparr>t_backend := ?b, t_imm := ?next\<rparr>"
  let ?t2 = "remove_old cio (t_files t) ?t1"
  have active: "is_active ?next = map (\<lambda>x. co_name (fst x)) news"
    by (simp add: compacted_state_def tablet_state_def Let_def)
  have kept: "\<forall>x\<in>set news. map_of ?b (co_name (fst x)) = Some (File (snd x))"
    using written fresh by (simp add: persist_other)
  have next_hw: "\<exists>hw\<ge>is_nameHighWater (t_imm t). \<exists>i obs. ?next\<lparr>is_obsolete := obs'\<rparr> =
      (compacted_state t i (map fst news))\<lparr>is_obsolete := obs, is_nameHighWater := hw\<rparr>" for obs'
    by (rule exI [of _ "is_nameHighWater (t_imm t)"]) (auto simp: compacted_state_def tablet_state_def Let_def)
  consider (fail) e where "cio_manifest cio = Some e" "\<not> IsCommittedWriteError e"
    | (committed) e where "cio_manifest cio = Some e" "IsCommittedWriteError e"
    | (ok) "cio_manifest cio = None"
    by (cases "cio_manifest cio") auto
  then show ?thesis
  proof cases
    case fail
    then have "t' = t\<lparr>t_backend := cleanupOutputs cio (map fst news) (t_backend t)\<rparr>"
      using pub by (simp add: publish_compaction_def persistImmutableManifest_def WriteAll_def Let_def)
    then show ?thesis by (auto simp: cleanupOutputs_other image_image)
  next
    case committed
    then have "t' = ?t1"
      using pub by (simp add: publish_compaction_def persistImmutableManifest_def WriteAll_def Let_def)
    moreover have "map_of ?b ''files.json'' = Some (FilesJson (manifest_of ?next))"
      using committed by (simp add: persistImmutableManifest_def map_of_WriteAll)
    ultimately show ?thesis
      using kept active next_hw [of "is_obsolete ?next"] by (auto simp: compact_published_def)
  next
    case ok
    then have "t' = ?t2\<lparr>t_backend := snd (persistImmutableManifest (cio_final cio) (t_imm ?t2) (t_backend ?t2))\<rparr>"
      using pub by (auto simp: publish_compaction_def persistImmutableManifest_def WriteAll_def Let_def
          case_prod_beta)
    moreover obtain obs where "t_imm ?t2 = ?next\<lparr>is_obsolete := obs\<rparr>"
      using remove_old_keeps(1) [of cio "t_files t" ?t1] by auto
    moreover have "map_of (t_backend ?t2) ''files.json'' = Some (FilesJson (manifest_of ?next))"
      using ok live by (simp add: remove_old_keeps persistImmutableManifest_def map_of_WriteAll)
    moreover have "\<forall>x\<in>set news. map_of (t_backend ?t2) (co_name (fst x)) = Some (File (snd x))"
      using kept fresh by (simp add: remove_old_keeps)
    moreover have "\<exists>s. map_of (snd (persistImmutableManifest (cio_final cio) (t_imm ?t2) (t_backend ?t2))) ''files.json'' =
        Some (FilesJson (manifest_of s)) \<and> is_active s = map (\<lambda>x. co_name (fst x)) news"
      using calculation(2,3) active by (auto simp: persistImmutableManifest_def map_of_WriteAll)
    ultimately show ?thesis
      using next_hw [of obs] fresh
      by (auto simp: compact_published_def remove_old_keeps persist_other)
  qed
qed

section \<open>A compaction returns\<close>

text \<open>
  The files a compaction of the runs writes: one for each run, and for a compaction of the
  whole tablet the kept tombstones.
\<close>

definition retained_groups :: "compact_io \<Rightarrow> inputRun list \<Rightarrow> tablet \<Rightarrow> tombstoneGroup list" where
  "retained_groups cio runs t =
     (if length runs = 1 then planRetainedTombstones (cio_clock cio) (run_inputs (runs ! 0)) t else [])"

definition compaction_news :: "compact_io \<Rightarrow> inputRun list \<Rightarrow> int \<Rightarrow> tablet \<Rightarrow> (compactedOutput \<times> file_image) list" where
  "compaction_news cio runs base t =
     (let n = length runs; groups = retained_groups cio runs t
      in map (main_out t (n = 1) base) (zip [0..<n] runs) @
         map (tombstone_out t base) (filter (\<lambda>ig. group_cells (snd ig) \<noteq> []) (zip [n..<n + length groups] groups)))"

text \<open>
  The plan in closed form: a bucket holds its inputs, newest first, and the latest of their
  export times.
\<close>

definition bucket_of :: "int \<Rightarrow> int \<Rightarrow> int \<Rightarrow> tablet \<Rightarrow> input \<Rightarrow> int option" where
  "bucket_of now horizon width t inp = map_option fst (retained_bucket now horizon width t (in_Name inp))"

definition time_of :: "int \<Rightarrow> int \<Rightarrow> int \<Rightarrow> tablet \<Rightarrow> input \<Rightarrow> int" where
  "time_of now horizon width t inp = snd (the (retained_bucket now horizon width t (in_Name inp)))"

definition bucket_inputs :: "int \<Rightarrow> int \<Rightarrow> int \<Rightarrow> tablet \<Rightarrow> input list \<Rightarrow> int \<Rightarrow> input list" where
  "bucket_inputs now horizon width t inputs k = filter (\<lambda>inp. bucket_of now horizon width t inp = Some k) inputs"

definition bucket_group :: "int \<Rightarrow> int \<Rightarrow> int \<Rightarrow> tablet \<Rightarrow> input list \<Rightarrow> int \<Rightarrow> tombstoneGroup" where
  "bucket_group now horizon width t inputs k =
     (let ins = bucket_inputs now horizon width t inputs k
      in \<lparr>tg_exportedAt = fold max (map (time_of now horizon width t) ins) 0, tg_inputs = ins\<rparr>)"

lemma plan_fold:
  "distinct (map fst (fold (plan_step now horizon width t) inputs [])) \<and>
   map_of (fold (plan_step now horizon width t) inputs []) =
     (\<lambda>k. if bucket_inputs now horizon width t inputs k = [] then None
          else Some (bucket_group now horizon width t inputs k))"
proof (induction inputs rule: rev_induct)
  case (snoc inp inputs)
  let ?groups = "fold (plan_step now horizon width t) inputs []"
  show ?case
  proof (cases "retained_bucket now horizon width t (in_Name inp)")
    case None
    then have "bucket_of now horizon width t inp = None"
      by (simp add: bucket_of_def)
    then have "bucket_inputs now horizon width t (inputs @ [inp]) = bucket_inputs now horizon width t inputs"
      by (simp add: bucket_inputs_def fun_eq_iff)
    moreover from this have "bucket_group now horizon width t (inputs @ [inp]) = bucket_group now horizon width t inputs"
      by (simp add: bucket_group_def fun_eq_iff)
    moreover have "plan_step now horizon width t inp ?groups = ?groups"
      using None by (simp add: plan_step_def)
    ultimately show ?thesis
      using snoc by (simp only: fold_append comp_apply fold_simps)
  next
    case (Some ka)
    obtain k at where ka: "ka = (k, at)" by fastforce
    have bucket: "bucket_of now horizon width t inp = Some k" "time_of now horizon width t inp = at"
      using Some ka by (simp_all add: bucket_of_def time_of_def)
    have "bucket_inputs now horizon width t (inputs @ [inp]) j =
        bucket_inputs now horizon width t inputs j @ (if j = k then [inp] else [])" for j
      using bucket by (simp add: bucket_inputs_def)
    with Some ka snoc bucket show ?thesis
      by (auto simp: plan_step_def add_to_group_def Let_def bucket_group_def update_conv' fun_eq_iff max_def
          intro: distinct_update)
  qed
qed (simp add: bucket_inputs_def fun_eq_iff)

definition bucket_width :: "tablet \<Rightarrow> int" where
  "bucket_width t = (if retentionMillis t div tombstoneBuckets < 1 then 1 else retentionMillis t div tombstoneBuckets)"

lemma set_plan:
  "set (planRetainedTombstones now inputs t) =
     (if retentionMillis t = 0 then {}
      else {bucket_group now (retentionMillis t) (bucket_width t) t (rev inputs) k |k.
              bucket_inputs now (retentionMillis t) (bucket_width t) t (rev inputs) k \<noteq> []})"
proof (cases "retentionMillis t = 0")
  case False
  let ?step = "plan_step now (retentionMillis t) (bucket_width t) t"
  have "snd ` set (fold ?step (rev inputs) []) = ran (map_of (fold ?step (rev inputs) []))"
    using plan_fold [of now "retentionMillis t" "bucket_width t" t "rev inputs"] ran_distinct by metis
  also have "\<dots> = {bucket_group now (retentionMillis t) (bucket_width t) t (rev inputs) k |k.
              bucket_inputs now (retentionMillis t) (bucket_width t) t (rev inputs) k \<noteq> []}"
    using plan_fold [of now "retentionMillis t" "bucket_width t" t "rev inputs"] by (auto simp: ran_def)
  finally show ?thesis
    using False by (simp add: planRetainedTombstones_def Let_def bucket_width_def)
qed (simp add: planRetainedTombstones_def)

lemma plan_inputs:
  "g \<in> set (planRetainedTombstones now inputs t) \<Longrightarrow> set (tg_inputs g) \<subseteq> set inputs"
  unfolding set_plan by (auto simp: bucket_group_def bucket_inputs_def Let_def split: if_splits)

text \<open>The names of the outputs are new and distinct.\<close>

lemma compaction_news_names:
  "\<exists>is. map (\<lambda>x. co_name (fst x)) (compaction_news cio runs base t) =
     map (\<lambda>i. compactionName base i (tablet_ext t)) is \<and> sorted_wrt (<) is \<and>
     set is \<subseteq> {0..<length runs + length (retained_groups cio runs t)}"
proof -
  let ?n = "length runs" and ?gs = "retained_groups cio runs t"
  let ?js = "map fst (filter (\<lambda>ig. group_cells (snd ig) \<noteq> []) (zip [?n..<?n + length ?gs] ?gs))"
  have names: "map (\<lambda>x. co_name (fst x)) (compaction_news cio runs base t) =
      map (\<lambda>i. compactionName base i (tablet_ext t)) ([0..<?n] @ ?js)"
  proof -
    have "map (\<lambda>ir. compactionName base (fst ir) (tablet_ext t)) (zip [0..<?n] runs) =
        map (\<lambda>i. compactionName base i (tablet_ext t)) (map fst (zip [0..<?n] runs))"
      by (simp only: map_map comp_def)
    then show ?thesis
      by (simp add: compaction_news_def Let_def comp_def main_out_def tombstone_out_def)
  qed
  have all: "map fst (zip [?n..<?n + length ?gs] ?gs) = [?n..<?n + length ?gs]"
    by simp
  have "sorted_wrt (<) (map fst (zip [?n..<?n + length ?gs] ?gs))"
    unfolding all by (rule sorted_wrt_upt)
  then have "sorted_wrt (<) ?js"
    unfolding sorted_wrt_map by (rule sorted_wrt_filter)
  moreover have "set ?js \<subseteq> {?n..<?n + length ?gs}"
    by (auto dest: set_zip_leftD)
  ultimately have "sorted_wrt (<) ([0..<?n] @ ?js) \<and> set ([0..<?n] @ ?js) \<subseteq> {0..<?n + length ?gs}"
    unfolding sorted_wrt_append set_append by (force simp: sorted_wrt_upt)
  with names show ?thesis by blast
qed

lemma objects_of_append: "objects_of (as @ bs) = objects_of as ++ objects_of bs"
  by (simp add: objects_of_def)

lemma objects_of_None: "n \<notin> (\<lambda>x. co_name (fst x)) ` set news \<Longrightarrow> objects_of news n = None"
  by (induction news) (auto simp: map_add_def split: option.splits)

lemma objects_of_Some:
  "distinct (map (\<lambda>x. co_name (fst x)) news) \<Longrightarrow> x \<in> set news \<Longrightarrow>
     objects_of news (co_name (fst x)) = Some (File (snd x))"
proof (induction news)
  case (Cons y news)
  then show ?case
    using objects_of_None [of "co_name (fst y)" news] by (auto simp: map_add_def)
qed simp

text \<open>The output files of a compaction do not replace an object that is there.\<close>

definition fresh_names :: "tablet \<Rightarrow> int \<Rightarrow> nat \<Rightarrow> bool" where
  "fresh_names t base n \<longleftrightarrow> (\<forall>name\<in>names_from t base 0 n. map_of (t_backend t) name = None)"

lemma news_fresh:
  assumes "fresh_names t base (length runs + length (retained_groups cio runs t))" "x \<in> set (compaction_news cio runs base t)"
  shows "map_of (t_backend t) (co_name (fst x)) = None" "co_name (fst x) \<noteq> ''files.json''"
    "co_name (fst x) \<in> names_from t base 0 (length runs + length (retained_groups cio runs t))"
proof -
  obtain js where js: "map (\<lambda>x. co_name (fst x)) (compaction_news cio runs base t) =
      map (\<lambda>i. compactionName base i (tablet_ext t)) js"
      "set js \<subseteq> {0..<length runs + length (retained_groups cio runs t)}"
    using compaction_news_names [of cio runs base t] by blast
  have "co_name (fst x) \<in> set (map (\<lambda>x. co_name (fst x)) (compaction_news cio runs base t))"
    using assms(2) by simp
  then obtain i where i: "co_name (fst x) = compactionName base i (tablet_ext t)" "i \<in> set js"
    unfolding js(1) by auto
  with js(2) show name: "co_name (fst x) \<in> names_from t base 0 (length runs + length (retained_groups cio runs t))"
    by (auto simp: names_from_def)
  with assms(1) show "map_of (t_backend t) (co_name (fst x)) = None"
    by (simp add: fresh_names_def)
  from i show "co_name (fst x) \<noteq> ''files.json''"
    by (simp add: compactionName_not_manifest)
qed

lemma distinct_news: "distinct (map (\<lambda>x. co_name (fst x)) (compaction_news cio runs base t))"
proof -
  obtain js where "map (\<lambda>x. co_name (fst x)) (compaction_news cio runs base t) =
      map (\<lambda>i. compactionName base i (tablet_ext t)) js" "sorted_wrt (<) js"
    using compaction_news_names [of cio runs base t] by blast
  then show ?thesis
    by (auto simp: distinct_map strict_sorted_iff intro!: inj_onI dest: inj_compactionName_index)
qed

lemma compact_runs_cases:
  assumes ok: "files_ok t" and fresh: "fresh_names t base (length runs + length (retained_groups cio runs t))"
    and inputs: "\<forall>inp\<in>set (all_inputs runs). sorted_cells (input_cells inp)"
  shows "\<exists>err t'. compact_runs cio [] runs (retained_groups cio runs t) base inst t = Some (err, t') \<and>
    (compact_unpublished t t' \<or> compact_published t (compaction_news cio runs base t) t')"
proof -
  let ?n = "length runs" and ?gs = "retained_groups cio runs t" and ?b = "t_backend t"
  let ?main = "map (main_out t (?n = 1) base) (zip [0..<?n] runs)"
  let ?tombs = "map (tombstone_out t base) (filter (\<lambda>ig. group_cells (snd ig) \<noteq> []) (zip [?n..<?n + length ?gs] ?gs))"
  let ?news = "compaction_news cio runs base t"
  have news: "?news = ?main @ ?tombs"
    by (simp add: compaction_news_def Let_def)
  have groups: "\<forall>g\<in>set ?gs. \<forall>inp\<in>set (tg_inputs g). sorted_cells (input_cells inp)"
  proof (intro ballI)
    fix g inp assume "g \<in> set ?gs" "inp \<in> set (tg_inputs g)"
    then have "?n = 1" "inp \<in> set (run_inputs (runs ! 0))"
      by (auto simp: retained_groups_def split: if_splits dest!: plan_inputs)
    then show "sorted_cells (input_cells inp)"
      using inputs by (auto simp: length_Suc_conv)
  qed
  have same: "compact_unpublished t (t\<lparr>t_backend := b\<rparr>)"
    if "\<And>n. n \<notin> names_from t base 0 (?n + length ?gs) \<Longrightarrow> map_of b n = map_of ?b n" for b
    using fresh that by (force simp: compact_unpublished_def fresh_names_def intro: exI [of _ "is_nameHighWater (t_imm t)"])
  have names: "names_from t base i j \<subseteq> names_from t base 0 (?n + length ?gs)" if "j \<le> ?n + length ?gs" for i j
    using that by (auto simp: names_from_def)
  have outs: "(\<lambda>x. co_name (fst x)) ` set ?main \<subseteq> names_from t base 0 (?n + length ?gs)"
    using news_fresh(3) [OF fresh] news by auto
  obtain r1 where r1: "main_outputs cio [] (?n = 1) t base 0 runs [] ?b = Some r1"
      "outputs_spec t base 0 ?n [] ?b ?main r1"
    using main_outputs_spec [OF inputs, where i = 0 and full = "?n = 1" and t = t and base = base and outputs = "[]" and b = ?b and cio = cio]
    by auto
  show ?thesis
  proof (cases r1)
    case (Inl eb)
    then show ?thesis
      using r1 same [of "snd eb"] names [of ?n 0] by (cases eb) (auto simp: compact_runs_def outputs_spec_def)
  next
    case (Inr ob)
    then obtain b1 where b1: "r1 = Inr (map fst ?main, b1)" "map_of b1 = map_of ?b ++ objects_of ?main"
      using r1(2) by (cases ob) (auto simp: outputs_spec_def)
    obtain r2 where r2: "tombstone_outputs cio t base ?n ?gs (map fst ?main) b1 = Some r2"
        "outputs_spec t base ?n (?n + length ?gs) (map fst ?main) b1 ?tombs r2"
      using tombstone_outputs_spec [OF groups] by blast
    show ?thesis
    proof (cases r2)
      case (Inl eb)
      have "map_of (snd eb) n = map_of ?b n" if "n \<notin> names_from t base 0 (?n + length ?gs)" for n
      proof -
        have "n \<notin> co_name ` set (map fst ?main)" "n \<notin> names_from t base ?n (?n + length ?gs)"
          using that outs names [of "?n + length ?gs" ?n] by (auto simp: image_image)
        then have "map_of (snd eb) n = map_of b1 n"
          using r2(2) Inl by (cases eb) (simp add: outputs_spec_def)
        also have "objects_of ?main n = None"
          using that outs by (intro objects_of_None) blast
        then have "map_of b1 n = map_of ?b n"
          by (simp add: b1(2) map_add_def)
        finally show ?thesis .
      qed
      from same [OF this] show ?thesis
        using r1 b1 r2 Inl by (cases eb) (auto simp: compact_runs_def)
    next
      case (Inr ob)
      then obtain b2 where b2: "r2 = Inr (map fst ?news, b2)" "map_of b2 = map_of ?b ++ objects_of ?news"
        using r2(2) b1(2) by (cases ob) (auto simp: outputs_spec_def news objects_of_append)
      obtain err t' where pub: "publish_compaction cio inst (map fst ?news) (t\<lparr>t_backend := b2\<rparr>) = (err, t')"
        by fastforce
      have run: "compact_runs cio [] runs ?gs base inst t = Some (err, t')"
        using r1 b1 r2 b2 pub by (simp add: compact_runs_def)
      have new: "\<forall>x\<in>set ?news. map_of b2 (co_name (fst x)) = Some (File (snd x))"
        using objects_of_Some [OF distinct_news] by (simp add: b2(2))
      have live: "\<forall>x\<in>set ?news. co_name (fst x) \<notin> set (t_files t) \<and> co_name (fst x) \<noteq> ''files.json''"
          "''files.json'' \<notin> set (t_files t)"
        using news_fresh [OF fresh] live_file_present [OF ok] by blast+
      have "\<forall>n. n \<notin> (\<lambda>x. co_name (fst x)) ` set ?news \<longrightarrow> map_of b2 n = map_of ?b n"
        using objects_of_None by (auto simp: b2(2) map_add_def)
      moreover have "map_of ?b n \<noteq> None \<Longrightarrow> n \<notin> (\<lambda>x. co_name (fst x)) ` set ?news" for n
        using news_fresh(1) [OF fresh] by auto
      moreover have "compact_published t ?news t' = compact_published (t\<lparr>t_backend := b2\<rparr>) ?news t'"
        by (simp add: compact_published_def compacted_state_def tablet_state_def absorb_identities_def)
      ultimately show ?thesis
        using run publish_compaction_cases [OF pub] live new
        by (auto simp: compact_unpublished_def intro: exI [of _ "is_nameHighWater (t_imm t)"])
    qed
  qed
qed

text \<open>Drawing the instance and the name base changes neither the plan nor the outputs.\<close>

lemma named_tablet_same:
  fixes t :: tablet and s :: string and base :: int
  defines "t1 \<equiv> t\<lparr>t_instance := s, t_imm := (t_imm t)\<lparr>is_nameHighWater := base\<rparr>\<rparr>"
  shows "retained_groups cio runs t1 = retained_groups cio runs t"
    "compaction_news cio runs base t1 = compaction_news cio runs base t"
proof -
  have time: "effectiveExportTime t1 = effectiveExportTime t"
    by (simp add: t1_def effectiveExportTime_def fun_eq_iff)
  have imm: "is_exported (t_imm t1) = is_exported (t_imm t)" "is_tombstoneFree (t_imm t1) = is_tombstoneFree (t_imm t)"
      "is_exportedLineage (t_imm t1) = is_exportedLineage (t_imm t)"
    by (simp_all add: t1_def)
  have bucket: "retained_bucket now horizon width t1 = retained_bucket now horizon width t" for now horizon width
    unfolding retained_bucket_def Let_def time imm ..
  have "plan_step now horizon width t1 = plan_step now horizon width t" for now horizon width
    by (simp add: plan_step_def fun_eq_iff bucket)
  moreover have "retentionMillis t1 = retentionMillis t"
    by (simp add: t1_def retentionMillis_def)
  ultimately show groups: "retained_groups cio runs t1 = retained_groups cio runs t"
    by (simp add: retained_groups_def planRetainedTombstones_def Let_def)
  have "multi_export_time t1 = multi_export_time t"
    by (simp add: multi_export_time_def fun_eq_iff time) (simp add: t1_def)
  then have "main_out t1 = main_out t" "tombstone_out t1 = tombstone_out t"
    by (simp_all add: main_out_def tombstone_out_def fun_eq_iff) (simp_all add: t1_def)
  with groups show "compaction_news cio runs base t1 = compaction_news cio runs base t"
    by (simp add: compaction_news_def)
qed

lemma compact_unpublished_refl: "compact_unpublished t (t\<lparr>t_instance := s\<rparr>)"
  by (auto simp: compact_unpublished_def intro: exI [of _ "is_nameHighWater (t_imm t)"])

lemma tablet_Compact_cases:
  assumes ok: "tablet_ok t"
  shows "\<exists>err t'. tablet_Compact cio [] t = Some (err, t') \<and>
    (compact_unpublished t t' \<or>
     (\<exists>runs base. build_runs (cio_read cio) (t_backend t) (t_files t) [] = Inr runs \<and> t_files t \<noteq> [] \<and>
        fresh_names t base (length runs + length (retained_groups cio runs t)) \<and>
        compact_published t (compaction_news cio runs base t) t'))"
proof -
  have same: "compact_unpublished t t"
    using compact_unpublished_refl [of t "t_instance t"] by simp
  show ?thesis
  proof (cases "length (t_files t) = 0 \<or> length (t_files t) = 1 \<and> fileFormat (t_files t ! 0) = o_FileFormat (t_opts t)")
    case True
    then show ?thesis using same by (auto simp: tablet_Compact_def)
  next
    case files: False
    show ?thesis
    proof (cases "build_runs (cio_read cio) (t_backend t) (t_files t) []")
      case (Inl e)
      then show ?thesis using same files by (auto simp: tablet_Compact_def)
    next
      case (Inr runs)
      let ?gs = "retained_groups cio runs t"
      let ?probe = "objectExists (cio_probe cio) (t_backend t)"
      let ?base = "freeCompactionBase ?probe (nextNameMillis (cio_now cio) (is_nameHighWater (t_imm t)))
        (length runs + length ?gs) (tablet_ext t) (is_obsolete (t_imm t) @ t_files t)"
      have above: "is_nameHighWater (t_imm t) < nextNameMillis (cio_now cio) (is_nameHighWater (t_imm t))"
        by (rule nextNameMillis_above)
      then have "0 \<le> nextNameMillis (cio_now cio) (is_nameHighWater (t_imm t))"
        using ok by (simp add: tablet_ok_def)
      from freeCompactionBase_returns [OF objectExists_finite this, of "cio_probe cio" "t_backend t"
          "length runs + length ?gs" "tablet_ext t" "is_obsolete (t_imm t) @ t_files t"]
      obtain r where r: "?base = Some r" and base: "\<And>k. r = Inr k \<Longrightarrow>
          is_nameHighWater (t_imm t) \<le> k \<and> (\<forall>i<length runs + length ?gs. ?probe (compactionName k i (tablet_ext t)) = Inr False)"
        using above by fastforce
      let ?noop = "length runs = 1 \<and> recompactionIsNoOp (run_inputs (runs ! 0)) ?gs t"
      have step: "tablet_Compact cio [] t = (if ?noop then Some (None, t) else case r of
            Inl e \<Rightarrow> Some (Some e, t)
          | Inr base \<Rightarrow> (case mintInstanceLocked (cio_rand cio) t of
               (Inl e, t) \<Rightarrow> Some (Some e, t)
             | (Inr inst, t) \<Rightarrow> compact_runs cio [] runs ?gs base inst
                 (t\<lparr>t_imm := (t_imm t)\<lparr>is_nameHighWater := base\<rparr>\<rparr>)))"
        unfolding tablet_Compact_def Let_def retained_groups_def [symmetric] if_not_P [OF files]
        using Inr r by simp
      show ?thesis
      proof (cases "?noop \<or> (\<exists>e. r = Inl e)")
        case True
        then show ?thesis using step same by auto
      next
        case False
        then obtain k where k: "r = Inr k" by (cases r) auto
        obtain i t1 where mint: "mintInstanceLocked (cio_rand cio) t = (i, t1)" by fastforce
        define s where "s = t_instance t1"
        have t1: "t1 = t\<lparr>t_instance := s\<rparr>"
          using mint by (auto simp: mintInstanceLocked_def s_def split: if_splits sum.splits)
        show ?thesis
        proof (cases i)
          case (Inl e)
          then show ?thesis
            using step False k mint compact_unpublished_refl [of t s] t1 by auto
        next
          case inst: (Inr inst)
          let ?t = "t\<lparr>t_instance := s, t_imm := (t_imm t)\<lparr>is_nameHighWater := k\<rparr>\<rparr>"
          note same_t = named_tablet_same [where t = t and s = s and base = k]
          have fresh: "fresh_names t k (length runs + length ?gs)"
            using base [OF k] by (auto simp: fresh_names_def names_from_def objectExists_def split: option.splits)
          note runs = build_runs_files [OF Inr]
          have "\<forall>inp\<in>set (all_inputs runs). sorted_cells (input_cells inp)"
            using inputs_sorted [OF _ runs(2,3)] ok by (simp add: tablet_ok_def)
          moreover have "files_ok ?t" "fresh_names ?t k (length runs + length (retained_groups cio runs ?t))"
            using ok fresh same_t by (simp_all add: tablet_ok_def files_ok_def fresh_names_def names_from_def)
          ultimately obtain err t' where run: "compact_runs cio [] runs (retained_groups cio runs ?t) k inst ?t = Some (err, t')"
              and cases: "compact_unpublished ?t t' \<or> compact_published ?t (compaction_news cio runs k ?t) t'"
            using compact_runs_cases by blast
          have "tablet_Compact cio [] t = Some (err, t')"
            using step False k mint inst run same_t t1 by auto
          moreover have "compact_unpublished ?t t' \<Longrightarrow> compact_unpublished t t'"
            using base [OF k] by (auto simp: compact_unpublished_def) (use order_trans in blast)
          moreover have "compact_published ?t news t' \<Longrightarrow> compact_published t news t'" for news
            using base [OF k] by (auto simp: compact_published_def compacted_state_def tablet_state_def
                absorb_identities_def Let_def) (use order_trans in blast)
          moreover have "t_files t \<noteq> []"
            using files by auto
          ultimately show ?thesis
            using cases fresh Inr same_t(2) by metis
        qed
      qed
    qed
  qed
qed

section \<open>What a compaction keeps\<close>

lemma compact_unpublished_keeps:
  assumes "compact_unpublished t t'" "tablet_ok t"
  shows "tablet_ok t'" "immutable_cells t' = immutable_cells t" "table_cells t' = table_cells t"
    "manifest_current t \<Longrightarrow> t_files t \<noteq> [] \<Longrightarrow> manifest_current t'"
proof -
  have files: "t_files t' = t_files t" and active: "t_active t' = t_active t"
      and hw: "is_nameHighWater (t_imm t) \<le> is_nameHighWater (t_imm t')"
    using assms(1) by (auto simp: compact_unpublished_def)
  have old: "\<And>n. map_of (t_backend t) n \<noteq> None \<Longrightarrow> map_of (t_backend t') n = map_of (t_backend t) n"
    using assms(1) by (simp add: compact_unpublished_def)
  have "files_ok t" using assms(2) by (simp add: tablet_ok_def)
  have "\<And>n. n \<in> set (t_files t) \<Longrightarrow> map_of (t_backend t') n = map_of (t_backend t) n"
    using old live_file_present [OF \<open>files_ok t\<close>] by blast
  note cong = files_cong [OF files this]
  show "tablet_ok t'" "immutable_cells t' = immutable_cells t" "table_cells t' = table_cells t"
    using cong assms(2) active hw by (auto simp: tablet_ok_def table_cells_def)
  show "manifest_current t'" if "manifest_current t" "t_files t \<noteq> []"
    using that files old [of "''files.json''"] by (auto simp: manifest_current_def)
qed

lemma sorted_group_cells:
  "\<forall>inp\<in>set (tg_inputs g). sorted_cells (input_cells inp) \<Longrightarrow> sorted_cells (group_cells g)"
  by (simp add: group_cells_def)

lemma set_suppress: "c \<in> set (suppress p cs) \<Longrightarrow> c \<in> set cs"
  using list_emb_set [OF per_coord_subseq [OF run_op_suppress]] unfolding suppress_def by blast

lemma set_group_cells:
  "c \<in> set (group_cells g) \<Longrightarrow> Deleted (fst c) \<and> (\<exists>inp\<in>set (tg_inputs g). c \<in> set (input_cells inp))"
  by (auto simp: group_cells_def set_merge_all dest: set_suppress)

text \<open>The inputs of the groups are inputs of the compaction.\<close>

lemma retained_groups_inputs:
  "g \<in> set (retained_groups cio runs t) \<Longrightarrow> length runs = 1 \<and> set (tg_inputs g) \<subseteq> set (all_inputs runs)"
  by (auto simp: retained_groups_def length_Suc_conv split: if_splits dest!: plan_inputs)

lemma news_sorted:
  assumes "\<forall>inp\<in>set (all_inputs runs). sorted_cells (input_cells inp)" "x \<in> set (compaction_news cio runs base t)"
  shows "sorted_cells (fi_cells (snd x))"
proof -
  from assms(2) consider (main) i r where "x = main_out t (length runs = 1) base (i, r)" "r \<in> set runs"
    | (tomb) i g where "x = tombstone_out t base (i, g)" "g \<in> set (retained_groups cio runs t)"
    by (auto simp: compaction_news_def Let_def dest: set_zip_rightD)
  then show ?thesis
  proof cases
    case main
    with assms(1) show ?thesis
      by (simp add: main_out_def Let_def)
  next
    case tomb
    then have "\<forall>inp\<in>set (tg_inputs g). sorted_cells (input_cells inp)"
      using retained_groups_inputs [OF tomb(2)] assms(1) by blast
    with tomb(1) show ?thesis
      by (simp add: tombstone_out_def sorted_group_cells)
  qed
qed

lemma compact_published_ok:
  assumes pub: "compact_published t (compaction_news cio runs base t) t'" and ok: "tablet_ok t"
    and inputs: "\<forall>inp\<in>set (all_inputs runs). sorted_cells (input_cells inp)"
  shows "tablet_ok t'" "manifest_current t'"
    "immutable_cells t' = merge_all (map (\<lambda>x. fi_cells (snd x)) (rev (compaction_news cio runs base t)))"
proof -
  let ?news = "compaction_news cio runs base t"
  have files: "t_files t' = map (\<lambda>x. co_name (fst x)) ?news"
    using pub by (auto simp: compact_published_def compacted_state_def tablet_state_def Let_def)
  have b: "\<forall>x\<in>set ?news. map_of (t_backend t') (co_name (fst x)) = Some (File (snd x))"
    using pub by (simp add: compact_published_def)
  have "filepath_Ext (co_name (fst x)) \<in> {''.rf'', ''.parquet''} \<and> co_name (fst x) \<noteq> ''files.json''" if "x \<in> set ?news" for x
  proof -
    have "co_name (fst x) \<in> set (map (\<lambda>x. co_name (fst x)) ?news)" using that by simp
    then obtain i where "co_name (fst x) = compactionName base i (tablet_ext t)"
      using compaction_news_names [of cio runs base t] by force
    then show ?thesis
      using extension_cases [of "o_FileFormat (t_opts t)"]
      by (auto simp: filepath_Ext_compactionName compactionName_not_manifest)
  qed
  then have "list_all (has_file (t_backend t')) (t_files t')"
    using b news_sorted [OF inputs] by (auto simp: list_all_iff files has_file_def)
  moreover have "distinct (t_files t')"
    unfolding files by (rule distinct_news)
  ultimately show "tablet_ok t'"
    using pub ok by (auto simp: tablet_ok_def files_ok_def compact_published_def)
  show "manifest_current t'"
    using pub files by (auto simp: manifest_current_def compact_published_def)
  have "map (file_cells (t_backend t')) (t_files t') = map (\<lambda>x. fi_cells (snd x)) ?news"
    using b by (simp add: files file_cells_def)
  then show "immutable_cells t' = merge_all (map (\<lambda>x. fi_cells (snd x)) (rev ?news))"
    by (simp only: immutable_cells_def rev_map [symmetric])
qed

text \<open>The live cells after a compaction: all of them, and in a partial one the tombstones too.\<close>

lemma map_snd_zip_upt: "map (\<lambda>ir. f (snd ir)) (zip [i..<i + length xs] xs) = map f xs"
proof -
  have "map (\<lambda>ir. f (snd ir)) (zip [i..<i + length xs] xs) = map f (map snd (zip [i..<i + length xs] xs))"
    by (simp only: map_map comp_def)
  then show ?thesis by simp
qed

lemma partial_compaction_cells:
  assumes "\<forall>inp\<in>set (all_inputs runs). sorted_cells (input_cells inp)" "length runs \<noteq> 1"
  shows "suppress p (merge_all (map (\<lambda>x. fi_cells (snd x)) (rev (compaction_news cio runs base t)))) =
    suppress p (merge_all (map run_cells (rev runs)))"
proof -
  have "map (\<lambda>x. fi_cells (snd x)) (compaction_news cio runs base t) = map (\<lambda>r. suppress True (run_cells r)) runs"
    using assms(2) map_snd_zip_upt [of "\<lambda>r. suppress True (run_cells r)" 0 runs]
    by (simp add: compaction_news_def retained_groups_def main_out_def Let_def comp_def)
  then have "map (\<lambda>x. fi_cells (snd x)) (rev (compaction_news cio runs base t)) =
      map (suppress True) (map run_cells (rev runs))"
    by (simp add: rev_map comp_def flip: rev_map)
  moreover have "\<forall>cs\<in>set (map run_cells (rev runs)). sorted_cells cs"
    using assms(1) by auto
  ultimately show ?thesis
    by (simp only: suppress_merge_all)
qed

lemma full_compaction_cells:
  assumes "\<forall>inp\<in>set (run_inputs r). sorted_cells (input_cells inp)"
  shows "suppress False (merge_all (map (\<lambda>x. fi_cells (snd x)) (rev (compaction_news cio [r] base t)))) =
    suppress False (run_cells r)"
proof -
  define groups where "groups = filter (\<lambda>ig. group_cells (snd ig) \<noteq> [])
    (zip [1..<1 + length (retained_groups cio [r] t)] (retained_groups cio [r] t))"
  let ?ts = "merge_all (map (\<lambda>ig. group_cells (snd ig)) (rev groups))"
  have news: "merge_all (map (\<lambda>x. fi_cells (snd x)) (rev (compaction_news cio [r] base t))) =
      merge2 ?ts (suppress False (run_cells r))"
    by (simp add: compaction_news_def Let_def main_out_def tombstone_out_def rev_map comp_def merge_all_append
        groups_def [simplified])
  have group: "set (tg_inputs (snd ig)) \<subseteq> set (run_inputs r)" if "ig \<in> set groups" for ig
  proof -
    have "snd ig \<in> set (retained_groups cio [r] t)"
      by (insert that, cases ig, simp add: groups_def del: upt_Suc) (blast dest: set_zip_rightD)
    from retained_groups_inputs [OF this] show ?thesis by simp
  qed
  have "sorted_cells ?ts"
    using group assms sorted_group_cells by (intro sorted_merge_all) fastforce
  moreover have "set ?ts \<subseteq> set (run_cells r)" "\<forall>c\<in>set ?ts. Deleted (fst c)"
    using group by (fastforce simp: set_merge_all dest!: set_group_cells)+
  moreover have "sorted_cells (run_cells r)"
    using assms by simp
  ultimately show ?thesis
    unfolding news by (intro suppress_with_tombstones)
qed

text \<open>A compaction writes no cell its inputs do not have.\<close>

lemma news_cells_subset:
  assumes "x \<in> set (compaction_news cio runs base t)" "c \<in> set (fi_cells (snd x))"
  shows "\<exists>inp\<in>set (all_inputs runs). c \<in> set (input_cells inp)"
proof -
  from assms(1) consider (main) i r where "x = main_out t (length runs = 1) base (i, r)" "r \<in> set runs"
    | (tomb) i g where "x = tombstone_out t base (i, g)" "g \<in> set (retained_groups cio runs t)"
    by (auto simp: compaction_news_def Let_def dest: set_zip_rightD)
  then show ?thesis
  proof cases
    case main
    with assms(2) have "c \<in> set (run_cells r)"
      by (auto simp: main_out_def Let_def dest: set_suppress)
    with main(2) show ?thesis
      by (auto simp: set_merge_all)
  next
    case tomb
    with assms(2) have "c \<in> set (group_cells g)"
      by (simp add: tombstone_out_def)
    from set_group_cells [OF this] retained_groups_inputs [OF tomb(2)] show ?thesis by blast
  qed
qed

lemma runs_cells:
  assumes "build_runs rio (t_backend t) (t_files t) [] = Inr runs"
  shows "set (immutable_cells t) = (\<Union>inp\<in>set (all_inputs runs). set (input_cells inp))"
  unfolding runs_immutable [OF assms] by (auto simp: set_merge_all)

definition file_state :: "file_image backend \<Rightarrow> string \<Rightarrow> string" where
  "file_state b name = (case map_of b name of Some (File f) \<Rightarrow> fi_state f | _ \<Rightarrow> [])"

lemma mixed_runs:
  assumes "build_runs rio b paths [] = Inr runs" "m \<in> set paths" "n \<in> set paths" "file_state b m \<noteq> file_state b n"
  shows "length runs \<noteq> 1"
proof
  assume "length runs = 1"
  then obtain r where r: "runs = [r]" by (auto simp: length_Suc_conv)
  note runs = build_runs_files [OF assms(1)]
  have "file_state b p = run_state r" if "p \<in> set paths" for p
  proof -
    from that runs(2) r obtain inp where inp: "inp \<in> set (run_inputs r)" "in_Name inp = p" by auto
    then have "map_of b p = Some (File (in_image inp))"
      using runs(3) r by (auto simp: input_of_def)
    then show ?thesis
      using inp runs(1) r by (auto simp: file_state_def run_ok_def)
  qed
  with assms show False by simp
qed

lemma compact_published_keeps:
  assumes runs: "build_runs rio (t_backend t) (t_files t) [] = Inr runs" "t_files t \<noteq> []"
    and pub: "compact_published t (compaction_news cio runs base t) t'" and ok: "tablet_ok t"
  shows "tablet_ok t'" "manifest_current t'" "set (immutable_cells t') \<subseteq> set (immutable_cells t)"
    "suppress False (immutable_cells t') = suppress False (immutable_cells t)"
    "length runs \<noteq> 1 \<Longrightarrow> suppress p (immutable_cells t') = suppress p (immutable_cells t)"
proof -
  note files = build_runs_files [OF runs(1)]
  have inputs: "\<forall>inp\<in>set (all_inputs runs). sorted_cells (input_cells inp)"
    using inputs_sorted [OF _ files(2,3)] ok by (simp add: tablet_ok_def)
  note new = compact_published_ok [OF pub ok inputs]
  show "tablet_ok t'" "manifest_current t'" by (rule new)+
  show "set (immutable_cells t') \<subseteq> set (immutable_cells t)"
    unfolding new(3) runs_cells [OF runs(1)] using news_cells_subset by (fastforce simp: set_merge_all)
  show partial: "suppress p (immutable_cells t') = suppress p (immutable_cells t)" if "length runs \<noteq> 1" for p
    unfolding new(3) runs_immutable [OF runs(1)] by (rule partial_compaction_cells [OF inputs that])
  show "suppress False (immutable_cells t') = suppress False (immutable_cells t)"
  proof (cases "length runs = 1")
    case True
    then obtain r where "runs = [r]" by (auto simp: length_Suc_conv)
    with full_compaction_cells [of r cio base t] inputs show ?thesis
      unfolding new(3) runs_immutable [OF runs(1)] by simp
  qed (rule partial)
qed

lemma immutable_sorted: "tablet_ok t \<Longrightarrow> sorted_cells (immutable_cells t)"
  unfolding immutable_cells_def tablet_ok_def by (intro sorted_merge_all files_sorted) auto

text \<open>From the files to the whole table, with a memtable over them.\<close>

lemma table_suppress:
  assumes "tablet_ok t" "tablet_ok t'" "t_active t' = t_active t"
    and "suppress True (immutable_cells t') = suppress True (immutable_cells t)"
  shows "suppress p (table_cells t') = suppress p (table_cells t)"
proof -
  have "sorted_cells (sl_cells (t_active t))" "sorted_cells (immutable_cells t)" "sorted_cells (immutable_cells t')"
    using assms(1,2) immutable_sorted sl_ok_sorted by (auto simp: tablet_ok_def)
  then have "suppress p (merge2 (sl_cells (t_active t)) (immutable_cells t')) =
      suppress p (merge2 (sl_cells (t_active t)) (immutable_cells t))"
    using assms(4) by (metis suppress_merge2)
  with assms(3) show ?thesis by (simp add: table_cells_def)
qed

lemma table_suppress_unhidden:
  assumes "tablet_ok t" "tablet_ok t'" "t_active t' = t_active t"
    and "suppress False (immutable_cells t') = suppress False (immutable_cells t)"
    and "set (immutable_cells t') \<subseteq> set (immutable_cells t)"
    and "unhidden (sl_cells (t_active t)) (immutable_cells t)"
  shows "suppress False (table_cells t') = suppress False (table_cells t)"
proof -
  have "sorted_cells (sl_cells (t_active t))" "sorted_cells (immutable_cells t)" "sorted_cells (immutable_cells t')"
    using assms(1,2) immutable_sorted sl_ok_sorted by (auto simp: tablet_ok_def)
  moreover have "unhidden (sl_cells (t_active t)) (immutable_cells t')"
    using assms(5,6) unfolding unhidden_def by blast
  ultimately have "suppress False (merge2 (sl_cells (t_active t)) (immutable_cells t')) =
      suppress False (merge2 (sl_cells (t_active t)) (immutable_cells t))"
    using assms(4,6) by (metis suppress_unhidden)
  with assms(3) show ?thesis by (simp add: table_cells_def)
qed

section \<open>Which tombstones survive\<close>

text \<open>
  A full compaction at time \<open>now\<close> writes the tombstones of the file \<open>name\<close> into a file of kept
  tombstones: they were exported, or may be in an export, less than the retention ago.
\<close>

definition tombstones_kept :: "int \<Rightarrow> tablet \<Rightarrow> string \<Rightarrow> bool" where
  "tombstones_kept now t name \<longleftrightarrow> retentionMillis t \<noteq> 0 \<and>
     retained_bucket now (retentionMillis t) (bucket_width t) t name \<noteq> None"

definition export_time :: "tablet \<Rightarrow> string \<Rightarrow> int option" where
  "export_time t name =
     (if get_int (is_exported (t_imm t)) name = 0 \<and> \<not> is_exportedLineage (t_imm t)
      then effectiveExportTime t name else Some (get_int (is_exported (t_imm t)) name))"

lemma retained_bucket_Some:
  "retained_bucket now horizon width t name = Some (k, at) \<longleftrightarrow>
     name \<notin> set (is_tombstoneFree (t_imm t)) \<and> export_time t name = Some at \<and>
     (if at > 0 then now - at < horizon \<and> k = at div width else k = - 1)"
  by (auto simp: retained_bucket_def export_time_def Let_def split: option.splits if_splits)

lemma tombstones_kept_iff:
  "tombstones_kept now t name \<longleftrightarrow> retentionMillis t \<noteq> 0 \<and> name \<notin> set (is_tombstoneFree (t_imm t)) \<and>
     (\<exists>at. export_time t name = Some at \<and> (at > 0 \<longrightarrow> now - at < retentionMillis t))"
proof -
  have "(\<exists>k at. retained_bucket now h w t name = Some (k, at)) \<longleftrightarrow> name \<notin> set (is_tombstoneFree (t_imm t)) \<and>
      (\<exists>at. export_time t name = Some at \<and> (at > 0 \<longrightarrow> now - at < h))" for h w
    by (auto simp: retained_bucket_Some)
  then show ?thesis
    unfolding tombstones_kept_def by (metis not_None_eq prod.collapse)
qed

lemma export_time_pending:
  assumes "export_time t name = Some at" "at \<le> 0" "0 \<le> get_int (is_exported (t_imm t)) name"
  shows "is_exportedLineage (t_imm t)"
  using assms by (auto simp: export_time_def effectiveExportTime_def split: if_splits)

lemma export_time_effective:
  assumes "export_time t name = Some at" "\<not> is_exportedLineage (t_imm t)" "0 \<le> get_int (is_exported (t_imm t)) name"
  shows "effectiveExportTime t name = Some at" "at > 0"
  using assms by (auto simp: export_time_def effectiveExportTime_def split: if_splits)

text \<open>The export times of a published generation.\<close>

lemma published_times:
  assumes "compact_published t news t'" "distinct (map (\<lambda>x. co_name (fst x)) news)" "x \<in> set news"
  shows "get_int (is_exported (t_imm t')) (co_name (fst x)) = max 0 (co_exportedAt (fst x))"
    "co_name (fst x) \<in> set (is_tombstoneFree (t_imm t')) \<longleftrightarrow> co_tombstoneFree (fst x)"
    "is_exportedLineage (t_imm t') = is_exportedLineage (t_imm t)" "retentionMillis t' = retentionMillis t"
proof -
  obtain hw inst obs where imm: "t_imm t' = (compacted_state t inst (map fst news))\<lparr>is_obsolete := obs, is_nameHighWater := hw\<rparr>"
    using assms(1) by (auto simp: compact_published_def)
  have inj: "y \<in> set news \<Longrightarrow> co_name (fst y) = co_name (fst x) \<longleftrightarrow> y = x" for y
    using assms(2,3) by (auto simp: distinct_map inj_on_def)
  have "map_of (map (\<lambda>out. (co_name out, co_exportedAt out)) (filter (\<lambda>out. co_exportedAt out > 0) (map fst news)))
      (co_name (fst x)) = (if co_exportedAt (fst x) > 0 then Some (co_exportedAt (fst x)) else None)" (is "map_of ?l _ = _")
  proof (cases "co_exportedAt (fst x) > 0")
    case True
    have "distinct (map fst ?l)"
      using assms(2) by (simp add: comp_def distinct_map_filter filter_map)
    with True assms(3) show ?thesis by (auto intro!: map_of_is_SomeI)
  next
    case False
    with inj show ?thesis by (auto simp: map_of_eq_None_iff) (metis fst_conv)
  qed
  then show "get_int (is_exported (t_imm t')) (co_name (fst x)) = max 0 (co_exportedAt (fst x))"
    by (auto simp: imm compacted_state_def get_int_def Let_def)
  show "co_name (fst x) \<in> set (is_tombstoneFree (t_imm t')) \<longleftrightarrow> co_tombstoneFree (fst x)"
    using assms(3) inj by (auto simp: imm compacted_state_def Let_def) (metis fst_conv)
  show "is_exportedLineage (t_imm t') = is_exportedLineage (t_imm t)"
    by (simp add: imm compacted_state_def tablet_state_def Let_def)
  show "retentionMillis t' = retentionMillis t"
    using assms(1) by (simp add: compact_published_def retentionMillis_def)
qed

lemma suppress_run_first:
  "sorted_cells cs \<Longrightarrow> d \<in> set cs \<Longrightarrow> Deleted (fst d) \<Longrightarrow>
     \<exists>d'\<in>set (suppress_run True cs). Deleted (fst d') \<and> fst d' \<le> fst d"
  by (induction cs) (auto simp: sorted_cells_Cons)

text \<open>A tombstone is kept, or covered by a newer one of its coordinate.\<close>

lemma suppress_covers:
  assumes "sorted_cells cs" "d \<in> set cs" "Deleted (fst d)"
  shows "\<exists>d'\<in>set (suppress True cs). Deleted (fst d') \<and> coord (fst d') = coord (fst d) \<and> fst d' \<le> fst d"
proof -
  have "\<exists>d'\<in>set (suppress_run True (at_coord (coord (fst d)) cs)). Deleted (fst d') \<and> fst d' \<le> fst d"
    using assms by (intro suppress_run_first) simp_all
  then show ?thesis
    unfolding at_coord_suppress [OF assms(1), symmetric] set_filter by blast
qed

lemma fold_max_ge: "(m :: int) \<le> fold max xs m \<and> (\<forall>x\<in>set xs. x \<le> fold max xs m)"
proof (induction xs arbitrary: m)
  case (Cons a xs)
  from Cons [of "max a m"] show ?case by auto
qed simp

lemma fold_max_nonpos: "\<forall>x\<in>set xs. x \<le> 0 \<Longrightarrow> fold max xs (0 :: int) = 0"
  by (induction xs) (auto simp: max_def)

text \<open>The output that holds the tombstones of a file, in a full and in a partial compaction.\<close>

lemma full_output:
  assumes inp: "inp \<in> set (run_inputs r)" and kept: "tombstones_kept (cio_clock cio) t (in_Name inp)"
    and d: "d \<in> set (input_cells inp)" "Deleted (fst d)"
    and inputs: "\<forall>inp\<in>set (run_inputs r). sorted_cells (input_cells inp)"
    and at: "export_time t (in_Name inp) = Some at"
  shows "\<exists>x\<in>set (compaction_news cio [r] base t). \<exists>d'\<in>set (fi_cells (snd x)).
    Deleted (fst d') \<and> coord (fst d') = coord (fst d) \<and> fst d' \<le> fst d \<and>
    \<not> co_tombstoneFree (fst x) \<and> at \<le> co_exportedAt (fst x) \<and> (at \<le> 0 \<longrightarrow> co_exportedAt (fst x) = 0)"
proof -
  let ?now = "cio_clock cio" and ?h = "retentionMillis t" and ?w = "bucket_width t" and ?ins = "rev (run_inputs r)"
  have "?h \<noteq> 0" using kept by (simp add: tombstones_kept_def)
  obtain k where k: "retained_bucket ?now ?h ?w t (in_Name inp) = Some (k, at)"
    using kept at by (auto simp: tombstones_kept_def retained_bucket_Some)
  let ?g = "bucket_group ?now ?h ?w t ?ins k"
  have inp_g: "inp \<in> set (tg_inputs ?g)" "time_of ?now ?h ?w t inp = at"
    using inp k by (simp_all add: bucket_group_def bucket_inputs_def bucket_of_def time_of_def Let_def)
  then have g: "?g \<in> set (retained_groups cio [r] t)"
    using \<open>?h \<noteq> 0\<close> by (auto simp: retained_groups_def set_plan bucket_group_def Let_def)
  then obtain i where i: "i < length (retained_groups cio [r] t)" "retained_groups cio [r] t ! i = ?g"
    by (auto simp: in_set_conv_nth)
  have "\<forall>inp\<in>set (tg_inputs ?g). sorted_cells (input_cells inp)"
    using inputs retained_groups_inputs [OF g] by auto
  then have "sorted_cells (merge_all (map input_cells (tg_inputs ?g)))"
    by simp
  moreover have "d \<in> set (merge_all (map input_cells (tg_inputs ?g)))"
    using inp_g(1) d(1) by (auto simp: set_merge_all)
  ultimately obtain d' where d': "d' \<in> set (group_cells ?g)" "Deleted (fst d')" "coord (fst d') = coord (fst d)"
      "fst d' \<le> fst d"
    using suppress_covers [of "merge_all (map input_cells (tg_inputs ?g))" d] d(2)
    unfolding group_cells_def set_filter by blast
  have "(Suc i, ?g) \<in> set (zip [1..<1 + length (retained_groups cio [r] t)] (retained_groups cio [r] t))"
    using i by (force simp: in_set_zip simp del: upt_Suc)
  with d'(1) have x: "tombstone_out t base (Suc i, ?g) \<in> set (compaction_news cio [r] base t)"
    by (auto simp: compaction_news_def Let_def simp del: upt_Suc)
  have times: "tg_exportedAt ?g = fold max (map (time_of ?now ?h ?w t) (tg_inputs ?g)) 0"
    by (simp add: bucket_group_def Let_def)
  have "at \<le> tg_exportedAt ?g"
    unfolding times using inp_g fold_max_ge [of 0 "map (time_of ?now ?h ?w t) (tg_inputs ?g)"] by auto
  moreover have "tg_exportedAt ?g = 0" if "at \<le> 0"
  proof -
    have "k = - 1" using k that by (simp add: retained_bucket_Some)
    have "time_of ?now ?h ?w t i \<le> 0" if mem: "i \<in> set (tg_inputs ?g)" for i
    proof -
      obtain a where a: "retained_bucket ?now ?h ?w t (in_Name i) = Some (k, a)"
        using mem by (auto simp: bucket_group_def bucket_inputs_def bucket_of_def Let_def)
      have False if "a > 0"
      proof -
        have "0 \<le> a div ?w"
          using that by (simp add: bucket_width_def pos_imp_zdiv_nonneg_iff)
        moreover have "a div ?w = - 1"
          using a that \<open>k = - 1\<close> by (simp add: retained_bucket_Some)
        ultimately show False by simp
      qed
      then show ?thesis
        using a by (force simp: time_of_def)
    qed
    then show ?thesis
      unfolding times by (intro fold_max_nonpos) auto
  qed
  ultimately show ?thesis
    using x d' by (intro bexI [OF _ x] bexI [of _ d']) (simp_all add: tombstone_out_def)
qed

lemma multi_export_time_ge:
  assumes "inp \<in> set inputs" "effectiveExportTime t (in_Name inp) = Some at" "\<not> is_exportedLineage (t_imm t)"
  shows "at \<le> multi_export_time t False False inputs"
proof -
  let ?f = "\<lambda>inp at. case effectiveExportTime t (in_Name inp) of Some e \<Rightarrow> if e > at then e else at | None \<Rightarrow> at"
  have mono: "m \<le> fold ?f xs m" for xs m
    by (induction xs arbitrary: m) (auto split: option.splits intro: order_trans less_imp_le order.trans)
  have "at \<le> fold ?f inputs m" for m
    using assms(1)
  proof (induction inputs arbitrary: m)
    case (Cons a inputs)
    then show ?case
      using mono [of "?f a m" inputs] assms(2) by (auto split: if_splits)
  qed simp
  with assms(3) show ?thesis by (simp add: multi_export_time_def)
qed

lemma partial_output:
  assumes inp: "r \<in> set runs" "inp \<in> set (run_inputs r)" and n: "length runs \<noteq> 1"
    and d: "d \<in> set (input_cells inp)" "Deleted (fst d)"
    and inputs: "\<forall>inp\<in>set (run_inputs r). sorted_cells (input_cells inp)"
  shows "\<exists>x\<in>set (compaction_news cio runs base t). \<exists>d'\<in>set (fi_cells (snd x)).
    Deleted (fst d') \<and> coord (fst d') = coord (fst d) \<and> fst d' \<le> fst d \<and>
    \<not> co_tombstoneFree (fst x) \<and> co_exportedAt (fst x) = multi_export_time t False False (run_inputs r)"
proof -
  obtain i where i: "i < length runs" "runs ! i = r"
    using inp(1) by (auto simp: in_set_conv_nth)
  have "sorted_cells (run_cells r)" "d \<in> set (run_cells r)"
    using inputs inp(2) d(1) by (auto simp: set_merge_all)
  from suppress_covers [OF this d(2)] obtain d' where d': "d' \<in> set (suppress True (run_cells r))" "Deleted (fst d')"
      "coord (fst d') = coord (fst d)" "fst d' \<le> fst d"
    by blast
  then have "filter (\<lambda>c. Deleted (fst c)) (suppress True (run_cells r)) \<noteq> []"
    by (metis (mono_tags, lifting) filter_empty_conv)
  moreover have "(i, r) \<in> set (zip [0..<length runs] runs)"
    using i by (force simp: in_set_zip)
  then have x: "main_out t False base (i, r) \<in> set (compaction_news cio runs base t)"
    using n by (force simp: compaction_news_def Let_def)
  ultimately show ?thesis
    using d' by (intro bexI [OF _ x] bexI [of _ d']) (simp_all add: main_out_def Let_def)
qed

lemma published_kept:
  assumes "compact_published t news t'" "distinct (map (\<lambda>x. co_name (fst x)) news)" "x \<in> set news"
    and "\<not> co_tombstoneFree (fst x)" "export_time t name = Some at"
    and "at > 0 \<and> at \<le> co_exportedAt (fst x) \<or> is_exportedLineage (t_imm t) \<and> co_exportedAt (fst x) \<le> 0"
    and "tombstones_kept now t name"
  shows "tombstones_kept now t' (co_name (fst x))"
  using assms(4-7) published_times [OF assms(1-3)]
  by (auto simp: tombstones_kept_iff export_time_def [of t' "co_name (fst x)"])

section \<open>Properties\<close>


lemma unpublished_keeps_tombstones:
  assumes "files_ok t" "compact_unpublished t t'" "name \<in> set (t_files t)"
  shows "t_files t' = t_files t" "file_cells (t_backend t') name = file_cells (t_backend t) name"
    "tombstones_kept now t' name = tombstones_kept now t name"
  using assms(2) live_file_present [OF assms(1,3)]
  by (auto simp: compact_unpublished_def file_cells_def tombstones_kept_iff export_time_def
      effectiveExportTime_def retentionMillis_def)

text \<open>Among the outputs of a compaction is one that holds the tombstone and is exported no earlier.\<close>

lemma news_hold_tombstone:
  assumes ok: "files_ok t" and runs: "build_runs (cio_read cio) (t_backend t) (t_files t) [] = Inr runs"
    and times: "\<forall>n. 0 \<le> get_int (is_exported (t_imm t)) n"
    and d: "name \<in> set (t_files t)" "d \<in> set (file_cells (t_backend t) name)" "Deleted (fst d)"
    and kept: "tombstones_kept (cio_clock cio) t name" and at: "export_time t name = Some at"
  shows "\<exists>x\<in>set (compaction_news cio runs base t). \<exists>d'\<in>set (fi_cells (snd x)).
    Deleted (fst d') \<and> coord (fst d') = coord (fst d) \<and> fst d' \<le> fst d \<and> \<not> co_tombstoneFree (fst x) \<and>
    (at > 0 \<and> at \<le> co_exportedAt (fst x) \<or> is_exportedLineage (t_imm t) \<and> co_exportedAt (fst x) \<le> 0)"
proof -
  note files = build_runs_files [OF runs]
  have inputs: "\<forall>inp\<in>set (all_inputs runs). sorted_cells (input_cells inp)"
    by (rule inputs_sorted [OF ok files(2,3)])
  obtain r inp where inp: "r \<in> set runs" "inp \<in> set (run_inputs r)" "in_Name inp = name"
    using d(1) unfolding files(2) [symmetric] set_map set_concat by blast
  then have din: "d \<in> set (input_cells inp)"
    using d(2) files(3) input_cells_file by force
  show ?thesis
  proof (cases "length runs = 1")
    case True
    then have r: "runs = [r]"
      using inp(1) by (auto simp: length_Suc_conv)
    show ?thesis
      using full_output [where r = r and base = base, OF inp(2) _ din d(3)] inp(3) at times kept inputs r
        export_time_pending [OF at] by fastforce
  next
    case False
    have "\<forall>inp\<in>set (run_inputs r). sorted_cells (input_cells inp)"
      using inputs inp(1) by auto
    note out = partial_output [OF inp(1,2) False din d(3) this, of cio base t]
    let ?at = "multi_export_time t False False (run_inputs r)"
    have "at > 0 \<and> at \<le> ?at \<or> is_exportedLineage (t_imm t) \<and> ?at \<le> 0"
    proof (cases "is_exportedLineage (t_imm t)")
      case True
      then show ?thesis by (simp add: multi_export_time_def)
    next
      case no: False
      then show ?thesis
        using multi_export_time_ge [OF inp(2) _ no] export_time_effective [OF at no] times inp(3) by blast
    qed
    with out show ?thesis by metis
  qed
qed


text \<open>Two files, the newer with a tombstone exported at 5 over the cell of the older.\<close>

definition two_file_tablet :: tablet where
  "two_file_tablet = example_tablet
     \<lparr>t_active := newSkiplistMemtable (\<lambda>_. False),
      t_imm := example_state\<lparr>is_active := [''F1.rf'', ''F2.rf''], is_exported := [''F2.rf'' \<mapsto> 5],
        is_exportedLineage := True\<rparr>,
      t_backend := [(''F1.rf'', File \<lparr>fi_cells = [(example_key 7 False, [1])], fi_state = []\<rparr>),
        (''F2.rf'', File \<lparr>fi_cells = [(example_key 9 True, [])], fi_state = []\<rparr>)]\<rparr>"

definition example_compact_io :: compact_io where
  "example_compact_io =
     \<lparr>cio_read = (\<lambda>_. None), cio_probe = (\<lambda>_. None), cio_rand = Inr ''00'', cio_encode = (\<lambda>_. None),
      cio_write = (\<lambda>_. None), cio_manifest = None, cio_remove = (\<lambda>_. None), cio_final = None,
      cio_now = 6, cio_clock = 6\<rparr>"

lemma two_file_tablet_ok: "tablet_ok two_file_tablet"
  by (simp add: tablet_ok_def files_ok_def has_file_def two_file_tablet_def example_tablet_def example_state_def
      sl_ok_new filepath_Ext_def)

lemma two_file_tablet_cells:
  "table_cells two_file_tablet = [(example_key 9 True, []), (example_key 7 False, [1])]"
  "sl_cells (t_active two_file_tablet) = []"
proof -
  have "example_key 9 True \<le> example_key 7 False" by code_simp
  then show "table_cells two_file_tablet = [(example_key 9 True, []), (example_key 7 False, [1])]"
    by (simp add: table_cells_def immutable_cells_def two_file_tablet_def example_tablet_def example_state_def
        sl_ok_new file_cells_def)
  show "sl_cells (t_active two_file_tablet) = []"
    by (simp add: two_file_tablet_def sl_ok_new)
qed



text \<open>The buckets of the times within the retention.\<close>

lemma bucket_in_window:
  assumes "retained_bucket now (4 * w) w t name = Some (k, at)" "0 < w" "at \<le> now"
  shows "k = - 1 \<or> k \<in> {now div w - 4..now div w}"
proof (cases "at > 0")
  case True
  then have "now - at < 4 * w" and k: "k = at div w"
    using assms(1) by (simp_all add: retained_bucket_Some)
  then have "now - 4 * w \<le> at" by simp
  then have "(now - 4 * w) div w \<le> at div w"
    using assms(2) by (intro zdiv_mono1) auto
  moreover have "(now - 4 * w) div w = now div w - 4"
    using assms(2) div_mult_self1 [of w now "- 4"] by (simp add: algebra_simps)
  moreover have "at div w \<le> now div w"
    using assms(2,3) by (intro zdiv_mono1) auto
  ultimately show ?thesis using k by simp
qed (use assms(1) in \<open>simp add: retained_bucket_Some\<close>)

lemma length_plan:
  assumes "retentionMillis t \<noteq> 0"
  shows "length (planRetainedTombstones now inputs t) =
    card {k. bucket_inputs now (retentionMillis t) (bucket_width t) t (rev inputs) k \<noteq> []}"
proof -
  let ?groups = "fold (plan_step now (retentionMillis t) (bucket_width t) t) (rev inputs) []"
  note plan = plan_fold [of now "retentionMillis t" "bucket_width t" t "rev inputs"]
  have "length (planRetainedTombstones now inputs t) = length (map fst ?groups)"
    using assms by (simp add: planRetainedTombstones_def Let_def bucket_width_def)
  also have "\<dots> = card (fst ` set ?groups)"
    using plan by (metis distinct_card list.set_map)
  also have "fst ` set ?groups = dom (map_of ?groups)"
    by (simp add: dom_map_of_conv_image_fst)
  finally show ?thesis
    using plan by (simp add: dom_def)
qed

text \<open>The members of a bucket with an export time lie in one window of its width.\<close>

lemma group_times:
  assumes "g \<in> set (planRetainedTombstones now inputs t)" "inp \<in> set (tg_inputs g)" "0 < tg_exportedAt g"
  shows "\<exists>at. export_time t (in_Name inp) = Some at \<and> at \<le> tg_exportedAt g \<and> tg_exportedAt g < at + bucket_width t"
proof -
  let ?h = "retentionMillis t" and ?w = "bucket_width t"
  have w: "0 < ?w" by (simp add: bucket_width_def)
  obtain k where g: "g = bucket_group now ?h ?w t (rev inputs) k"
    using assms(1) by (auto simp: set_plan split: if_splits)
  have times: "tg_exportedAt g = fold max (map (time_of now ?h ?w t) (tg_inputs g)) 0"
    by (simp add: g bucket_group_def Let_def)
  have member: "\<exists>at. retained_bucket now ?h ?w t (in_Name i) = Some (k, at) \<and> time_of now ?h ?w t i = at"
    if "i \<in> set (tg_inputs g)" for i
    using that by (auto simp: g bucket_group_def bucket_inputs_def bucket_of_def time_of_def Let_def)
  have "fold max xs m \<in> insert m (set xs)" for xs and m :: int
    by (induction xs arbitrary: m) (auto simp: max_def split: if_splits)
  from this [of "map (time_of now ?h ?w t) (tg_inputs g)" 0] assms(3) times obtain j where
      j: "j \<in> set (tg_inputs g)" "time_of now ?h ?w t j = tg_exportedAt g"
    by auto
  have k: "k = tg_exportedAt g div ?w"
    using member [OF j(1)] j(2) assms(3) by (auto simp: retained_bucket_Some)
  then have "k \<noteq> - 1"
    using assms(3) w by (smt (verit) pos_imp_zdiv_nonneg_iff)
  obtain at where at: "retained_bucket now ?h ?w t (in_Name inp) = Some (k, at)" "time_of now ?h ?w t inp = at"
    using member [OF assms(2)] by blast
  have "at > 0" "k = at div ?w"
    using at(1) \<open>k \<noteq> - 1\<close> by (auto simp: retained_bucket_Some split: if_splits)
  moreover have "at \<le> tg_exportedAt g"
    using fold_max_ge [of 0 "map (time_of now ?h ?w t) (tg_inputs g)"] at(2) assms(2) by (auto simp: times)
  moreover have "tg_exportedAt g < at + ?w"
  proof -
    have "?w * (at div ?w) \<le> at" "tg_exportedAt g < ?w * (tg_exportedAt g div ?w) + ?w"
      using w mult_div_mod_eq [of ?w at] mult_div_mod_eq [of ?w "tg_exportedAt g"]
        pos_mod_bound [OF w, of "tg_exportedAt g"] pos_mod_sign [OF w, of at] by linarith+
    then show ?thesis
      using k \<open>k = at div ?w\<close> by simp
  qed
  ultimately show ?thesis
    using at(1) by (auto simp: retained_bucket_Some)
qed



end
