(* ===== verification/Tablet_Run.thy ===== *)
theory Tablet_Run
  imports Tablet_Compact
begin

text \<open>
  Runs of a tablet: the operations of \<^verbatim>\<open>internal/tablet/tablet.go\<close> in any order, with whatever
  the storage answers and with crashes between them. A tablet refines an abstract table that
  has cells on disk and a log of mutations not yet flushed; a crash loses at most the end of
  the log, and nothing that was synced. The lock of the tablet makes every operation one step.
\<close>

section \<open>The abstract table\<close>

record durable =
  d_disk :: "cell list"
  d_log :: "mutation list"

definition table_of :: "durable \<Rightarrow> cell list" where
  "table_of s = inserted (mutations_cells (d_log s)) (d_disk s)"

definition logged :: "mutation list \<Rightarrow> durable \<Rightarrow> durable" where
  "logged bs s = s\<lparr>d_log := d_log s @ bs\<rparr>"

definition flushed :: "durable \<Rightarrow> durable" where
  "flushed s = \<lparr>d_disk = table_of s, d_log = []\<rparr>"

text \<open>The operations of a run; a write carries whether it was acknowledged.\<close>

datatype tablet_op =
  Put "mutation list" bool
| Conditional "(mutation \<times> condition list) list"
| Flush
| Sync
| Compact
| Crash

inductive table_step :: "tablet_op \<Rightarrow> durable \<Rightarrow> durable \<Rightarrow> bool" where
  put: "s' \<in> {logged bs s, flushed (logged bs s)} \<Longrightarrow> table_step (Put bs ack) s s'"
| put_fails: "table_step (Put bs False) s s"
| conditional: "bs = accepted reqs (table_of s) \<Longrightarrow> s' \<in> {logged bs s, flushed (logged bs s)} \<Longrightarrow>
     table_step (Conditional reqs) s s'"
| flush: "s' \<in> {s, flushed s} \<Longrightarrow> table_step Flush s s'"
| sync: "table_step Sync s s"
| compact: "suppress False disk = suppress False (d_disk s) \<Longrightarrow> set disk \<subseteq> set (d_disk s) \<Longrightarrow>
     table_step Compact s (s\<lparr>d_disk := disk\<rparr>)"
| crash: "table_step Crash s (s\<lparr>d_log := take n (d_log s)\<rparr>)"

inductive table_run :: "tablet_op list \<Rightarrow> durable \<Rightarrow> bool" where
  empty: "table_run [] \<lparr>d_disk = [], d_log = []\<rparr>"
| step: "table_run ops s \<Longrightarrow> table_step op s s' \<Longrightarrow> table_run (ops @ [op]) s'"

section \<open>Steps of a tablet\<close>

text \<open>
  The steps of a run. The conditions on the answers of the storage are those under which the
  log and the directory stay readable: an append writes all of its record or nothing, the log can
  be emptied, and the first flush of a directory leaves no file without a manifest. A crash
  keeps the synced bytes of the log and cuts it between two records. (A tablet opened on a log
  that is cut inside a record reads it well, but appends behind the torn record.)
\<close>

inductive tablet_step :: "tablet_op \<Rightarrow> tablet \<Rightarrow> tablet \<Rightarrow> bool" where
  put: "writeLocked aio fio bs t = Some (err, t') \<Longrightarrow> list_all wal_fits bs \<Longrightarrow> list_all mutation_ok bs \<Longrightarrow>
     append_clean aio \<Longrightarrow> truncates fio \<Longrightarrow> no_orphan t t' \<Longrightarrow> tablet_step (Put bs (err = None)) t t'"
| conditional: "ConditionalWrite oio aios fio reqs t = Some (r, t') \<Longrightarrow> opens oio t \<Longrightarrow> list_all request_ok reqs \<Longrightarrow>
     \<forall>i. log_accepts (aios i) \<Longrightarrow> truncates fio \<Longrightarrow> no_orphan t t' \<Longrightarrow> tablet_step (Conditional reqs) t t'"
| flush: "flushLocked fio t = Some (err, t') \<Longrightarrow> truncates fio \<Longrightarrow> no_orphan t t' \<Longrightarrow> tablet_step Flush t t'"
| sync: "wal_Sync sio (t_wal t) = (out, w) \<Longrightarrow> tablet_step Sync t (t\<lparr>t_wal := w\<rparr>)"
| compact: "tablet_Compact cio [] t = Some (err, t') \<Longrightarrow> tablet_step Compact t t'"
| crash: "open_works io \<Longrightarrow> ParseFileFormat format = Inr fmt \<Longrightarrow> prefix img (wal_bytes (t_wal t)) \<Longrightarrow>
     wal_synced (t_wal t) \<le> length img \<Longrightarrow> img = log_of mutation_frame whole \<Longrightarrow> list_all wal_fits whole \<Longrightarrow>
     tablet_Open io opts format mode (t_backend t) img = Some (Inr t') \<Longrightarrow> tablet_step Crash t t'"

inductive tablet_run :: "tablet_op list \<Rightarrow> tablet \<Rightarrow> bool" where
  fresh: "open_works io \<Longrightarrow> ParseFileFormat format = Inr fmt \<Longrightarrow>
     tablet_Open io opts format mode [] [] = Some (Inr t) \<Longrightarrow> tablet_run [] t"
| step: "tablet_run ops t \<Longrightarrow> tablet_step op t t' \<Longrightarrow> tablet_run (ops @ [op]) t'"

section \<open>The simulation\<close>

definition holds :: "tablet \<Rightarrow> durable \<Rightarrow> bool" where
  "holds t s \<longleftrightarrow> tablet_inv t (d_log s) \<and> immutable_cells t = d_disk s"

lemma holds_table: "holds t s \<Longrightarrow> table_cells t = table_of s"
  by (simp add: holds_def table_cells_def table_of_def tablet_inv_def inserted_merge2)

lemma flush_simulates:
  assumes "holds t s" "flushLocked fio t = Some (err, t')" "truncates fio" "no_orphan t t'"
  shows "\<exists>s'\<in>{s, flushed s}. holds t' s'"
proof -
  have inv: "tablet_inv t (d_log s)" and ok: "tablet_ok t"
    using assms(1) by (simp_all add: holds_def tablet_inv_def)
  from flushLocked_cases [OF ok, of fio] assms(2)
  consider "t' = t" | (un) "unpublished t t'" | (pub) "published fio t t'"
    by auto
  then show ?thesis
  proof cases
    case un
    then have "holds t' s"
      using unpublished_inv [OF un assms(4) inv] unpublished_keeps [OF un ok] assms(1) by (simp add: holds_def)
    then show ?thesis by blast
  next
    case pub
    have keeps: "table_cells t' = table_cells t" "sl_cells (t_active t') = []"
      using published_keeps [OF pub ok] by simp_all
    then have "immutable_cells t' = table_of s"
      using holds_table [OF assms(1)] by (simp add: table_cells_def [of t'])
    then have "holds t' (flushed s)"
      using published_inv [OF pub assms(3) inv] by (simp add: holds_def flushed_def)
    then show ?thesis by blast
  qed (use assms(1) in blast)
qed

lemma auto_flush_simulates:
  assumes "holds t s" "auto_flush fio t = Some (err, t')" "truncates fio" "no_orphan t t'"
  shows "\<exists>s'\<in>{s, flushed s}. holds t' s'"
proof (cases "int (sl_Len (t_active t)) \<ge> o_FlushThreshold (t_opts t)")
  case True
  then obtain e where "flushLocked fio t = Some (e, t')"
    using assms(2) by (auto simp: auto_flush_def split: option.splits)
  then show ?thesis using flush_simulates assms by blast
next
  case False
  then show ?thesis using assms by (auto simp: auto_flush_def)
qed

lemma logged_holds:
  assumes "holds t s" "tablet_inv t' (d_log s @ bs)" "immutable_cells t' = immutable_cells t"
  shows "holds t' (logged bs s)"
  using assms by (simp add: holds_def logged_def)

lemma write_simulates:
  assumes sim: "holds t s" and wr: "writeLocked aio fio bs t = Some (err, t')"
    and bs: "list_all wal_fits bs" "list_all mutation_ok bs"
    and io: "append_clean aio" "truncates fio" "no_orphan t t'"
  shows "\<exists>s'. table_step (Put bs (err = None)) s s' \<and> holds t' s'"
proof -
  have inv: "tablet_inv t (d_log s)" and open': "wal_open (t_wal t)"
    using sim by (simp_all add: holds_def tablet_inv_def)
  obtain n e w where app: "wal_Append (fst aio) (snd aio) bs (t_wal t) = ((n, e), w)"
    by (metis prod.collapse)
  show ?thesis
  proof (cases e)
    case (Some x)
    then have "w = t_wal t"
      using append_clean_fails [OF io(1)] app open' by blast
    then have "t' = t" "err \<noteq> None"
      using wr app Some by (auto simp: writeLocked_def)
    then show ?thesis
      using sim table_step.put_fails [of bs s] by auto
  next
    case None
    then have "wal_Append None (snd aio) bs (t_wal t) = ((n, None), w)"
      using append_clean_acks [OF io(1)] app open' by blast
    from append_ingest [OF inv bs this] obtain sl where sl:
        "ingestMutations bs (t\<lparr>t_wal := w\<rparr>) = Some (t\<lparr>t_wal := w, t_active := sl\<rparr>)"
        "tablet_inv (t\<lparr>t_wal := w, t_active := sl\<rparr>) (d_log s @ bs)"
      by blast
    let ?t = "t\<lparr>t_wal := w, t_active := sl\<rparr>"
    have "holds ?t (logged bs s)"
      using logged_holds [OF sim sl(2)] by (simp add: immutable_cells_def)
    moreover have "auto_flush fio ?t = Some (err, t')" "no_orphan ?t t'"
      using wr app None sl io(3) by (simp_all add: writeLocked_def no_orphan_def)
    ultimately show ?thesis
      using auto_flush_simulates [OF _ _ io(2)] table_step.put by blast
  qed
qed

lemma conditional_simulates:
  assumes sim: "holds t s" and wr: "ConditionalWrite oio aios fio reqs t = Some (r, t')"
    and io: "opens oio t" "list_all request_ok reqs" "\<forall>i. log_accepts (aios i)" "truncates fio" "no_orphan t t'"
  shows "\<exists>s'. table_step (Conditional reqs) s s' \<and> holds t' s'"
proof -
  have inv: "tablet_inv t (d_log s)" using sim by (simp add: holds_def)
  obtain t1 where t1: "conditional_loop oio aios 0 reqs [] t =
        Some (Inr (fst (apply_conditional reqs (table_cells t))), t1)"
      "tablet_inv t1 (d_log s @ accepted reqs (table_cells t))" "immutable_cells t1 = immutable_cells t"
      "t_backend t1 = t_backend t"
    using conditional_loop_spec [OF inv io(1-3), of 0 "[]"] by auto
  have "holds t1 (logged (accepted reqs (table_of s)) s)"
    using logged_holds [OF sim t1(2,3)] by (simp add: holds_table [OF sim])
  moreover obtain err where "auto_flush fio t1 = Some (err, t')"
    using wr t1(1) by (auto simp: ConditionalWrite_def split: option.splits prod.splits)
  moreover have "no_orphan t1 t'"
    using io(5) t1(4) by (simp add: no_orphan_def)
  ultimately show ?thesis
    using auto_flush_simulates [OF _ _ io(4)] table_step.conditional [OF refl] by blast
qed

lemma compact_simulates:
  assumes sim: "holds t s" and run: "tablet_Compact cio [] t = Some (err, t')"
  shows "\<exists>s'. table_step Compact s s' \<and> holds t' s'"
proof -
  have same: "table_step Compact s s"
    using table_step.compact [of "d_disk s" s] by simp
  have inv: "tablet_inv t (d_log s)" and ok: "tablet_ok t"
    using sim by (simp_all add: holds_def tablet_inv_def)
  consider (empty) "t' = t" | (un) "compact_unpublished t t'" "t_files t \<noteq> []" | (pub) runs base where
      "build_runs (cio_read cio) (t_backend t) (t_files t) [] = Inr runs" "t_files t \<noteq> []"
      "compact_published t (compaction_news cio runs base t) t'"
    using tablet_Compact_cases [OF ok, of cio] run by (cases "t_files t = []") (auto simp: tablet_Compact_def)
  then show ?thesis
  proof cases
    case un
    then have "holds t' s"
      using sim compact_unpublished_keeps [OF un(1) ok]
      by (auto simp: holds_def tablet_inv_def compact_unpublished_def)
    then show ?thesis using same by blast
  next
    case pub
    note keeps = compact_published_keeps [OF pub ok]
    have "holds t' (s\<lparr>d_disk := immutable_cells t'\<rparr>)"
      using sim keeps(1,2) pub(3) by (auto simp: holds_def tablet_inv_def compact_published_def)
    moreover have "table_step Compact s (s\<lparr>d_disk := immutable_cells t'\<rparr>)"
      using sim keeps(3,4) by (intro table_step.compact) (simp_all add: holds_def)
    ultimately show ?thesis by blast
  qed (use sim same in blast)
qed

text \<open>Opening a directory and a log of whole records.\<close>

lemma reopen_simulates:
  assumes sim: "holds t s" and io: "open_works io" "ParseFileFormat format = Inr fmt"
    and img: "prefix img (wal_bytes (t_wal t))" "img = log_of mutation_frame whole" "list_all wal_fits whole"
    and run: "tablet_Open io opts format mode (t_backend t) img = Some (Inr t')"
  shows "\<exists>s'. table_step Crash s s' \<and> holds t' s'"
proof -
  have inv: "tablet_inv t (d_log s)" using sim by (simp add: holds_def)
  obtain n t'' q where n: "n \<le> length (d_log s)" and t'': "tablet_Open io opts format mode (t_backend t) img = Some (Inr t'')"
      and ok: "tablet_ok t''" and files: "t_files t'' = t_files t" "t_backend t'' = t_backend t"
      and cells: "sl_cells (t_active t'') = inserted (mutations_cells (take n (d_log s))) []"
      and wal: "t_wal t'' = wal_Open mode img"
      and q: "img = log_of mutation_frame (take n (d_log s)) @ q" "eof_res (readMutation q)"
    using open_recovers [OF inv io img(1), of opts mode] by metis
  have log: "list_all wal_fits (take n (d_log s))" "list_all mutation_ok (take n (d_log s))"
    using inv by (auto simp: tablet_inv_def wal_inv_def list_all_iff dest: in_set_takeD)
  have "q = []"
    using wal_log.whole_log_tail [of whole "take n (d_log s)" q] img(2,3) q log(1) by simp
  then have "wal_inv (t_wal t'') (take n (d_log s))"
    using q(1) log(1) by (simp add: wal wal_inv_def wal_Open_def)
  then have "tablet_inv t'' (take n (d_log s))"
    using ok files cells log(2) inv by (simp add: tablet_inv_def manifest_current_def wal wal_Open_def)
  moreover have "immutable_cells t'' = immutable_cells t"
    by (simp add: immutable_cells_def files)
  ultimately have "holds t'' (s\<lparr>d_log := take n (d_log s)\<rparr>)"
    using sim by (simp add: holds_def)
  then show ?thesis
    using run t'' table_step.crash by auto
qed

lemma step_simulates:
  assumes "tablet_step op t t'" "holds t s"
  shows "\<exists>s'. table_step op s s' \<and> holds t' s'"
  using assms
proof (induction rule: tablet_step.induct)
  case (flush fio t err t')
  then show ?case using flush_simulates table_step.flush by meson
next
  case (sync sio t out w)
  then have "holds (t\<lparr>t_wal := w\<rparr>) s"
    using syncLocked_inv [of "t_wal t" "d_log s" sio]
    by (auto simp: holds_def tablet_inv_def wal_Sync_def immutable_cells_def manifest_current_def syncLocked_def
        split: if_splits option.splits)
  then show ?case using table_step.sync by blast
qed (blast intro: write_simulates conditional_simulates compact_simulates reopen_simulates)+

lemma fresh_holds:
  assumes "open_works io" "ParseFileFormat format = Inr fmt" "tablet_Open io opts format mode [] [] = Some (Inr t)"
  shows "holds t \<lparr>d_disk = [], d_log = []\<rparr>"
proof -
  have "wal_bytes (t_wal fresh_tablet) = []" "t_backend fresh_tablet = []"
    by (simp_all add: fresh_tablet_def wal_Open_def)
  then obtain t' where t': "tablet_Open io opts format mode [] [] = Some (Inr t')" "tablet_ok t'"
      "t_files t' = []" "t_backend t' = []" "sl_cells (t_active t') = []" "t_wal t' = wal_Open mode []"
    using open_recovers [OF fresh_tablet_inv(1) assms(1,2), of "[]" opts mode]
    by (auto simp: fresh_tablet_def example_state_def)
  with assms(3) show ?thesis
    by (simp add: holds_def tablet_inv_def immutable_cells_def manifest_current_def wal_Open_def wal_inv_def available_def)
qed

lemma run_simulates: "tablet_run ops t \<Longrightarrow> \<exists>s. table_run ops s \<and> holds t s"
proof (induction rule: tablet_run.induct)
  case (fresh io format fmt opts mode t)
  then show ?case using fresh_holds table_run.empty by blast
next
  case (step ops t op t')
  then show ?case
    using step_simulates table_run.step by blast
qed

section \<open>Properties\<close>



text \<open>What a write leaves of the log: the log it appended to, or an empty one.\<close>

lemma auto_flush_wal:
  assumes "tablet_ok t" "auto_flush fio t = Some (err, t')" "truncates fio" "wal_open (t_wal t)"
  shows "t_wal t' = t_wal t \<or> wal_bytes (t_wal t') = []"
proof (cases "int (sl_Len (t_active t)) \<ge> o_FlushThreshold (t_opts t)")
  case True
  then obtain e where "flushLocked fio t = Some (e, t')"
    using assms(2) by (auto simp: auto_flush_def split: option.splits)
  with flushLocked_cases [OF assms(1), of fio] consider "t' = t" | "unpublished t t'" | "published fio t t'"
    by auto
  then show ?thesis
  proof cases
    case 3
    then have "wal_inv (t_wal t') []"
      using truncate_wal_inv [OF assms(3,4)] by (auto simp: published_def)
    then show ?thesis by (simp add: wal_inv_def)
  qed (simp_all add: unpublished_def)
next
  case False
  then show ?thesis using assms(2) by (auto simp: auto_flush_def)
qed


text \<open>A run: a new directory, and a write into it.\<close>

definition example_open_io :: open_io where
  "example_open_io =
     \<lparr>oio_validate = None, oio_mkdir = None, oio_list = None, oio_read = None, oio_wal = None,
      oio_now = 0, oio_seed = (\<lambda>_. False)\<rparr>"

lemma example_open_works: "open_works example_open_io" "ParseFileFormat ''rfile'' = Inr FormatRFile"
  by (simp_all add: open_works_def example_open_io_def ParseFileFormat_def)

lemma example_open:
  "\<exists>t. tablet_Open example_open_io (t_opts example_tablet) ''rfile'' SyncFull [] [] = Some (Inr t) \<and>
     t_wal t = wal_Open SyncFull [] \<and> t_backend t = [] \<and> t_opts t = t_opts example_tablet"
proof -
  have "wal_Replay (replay_fn f) (wal_Open SyncFull []) s = ((0, None), s)" for f and s :: "tablet option"
    using Replay_loop_log [OF _ wal_log.dec_empty, of "[]" f 0 s] by (simp add: wal_Replay_Open)
  then show ?thesis
    by (simp add: tablet_Open_def example_open_works(2) discoverImmutableFiles_def discoverImmutableFilesRaw_def
        example_open_io_def example_tablet_def Let_def available_def)
qed

lemma example_put:
  assumes "tablet_inv t []" "t_opts t = t_opts example_tablet" "wal_open (t_wal t)"
  shows "\<exists>t'. writeLocked (None, None) example_flush_io [example_mutation] t = Some (None, t') \<and>
    t_backend t' = t_backend t"
proof -
  obtain n w where app: "wal_Append None None [example_mutation] (t_wal t) = ((n, None), w)"
    using wal_Append_accepts [of "(None, None)" "t_wal t" "[example_mutation]"] assms(3)
    by (auto simp: log_accepts_def)
  from append_ingest [OF assms(1) _ _ app] obtain sl where sl:
      "ingestMutations [example_mutation] (t\<lparr>t_wal := w\<rparr>) = Some (t\<lparr>t_wal := w, t_active := sl\<rparr>)"
      "sl_ok sl" "sl_cells sl = inserted (mutation_Cells example_mutation) []"
    using example_mutation_fits example_mutation_ok by (auto simp: tablet_inv_def tablet_ok_def)
  have "length (inserted (mutation_Cells example_mutation) []) = 2"
    by (simp add: example_mutation_def mutation_DeleteLatest_def mutation_Put_def mutation_Delete_def
        mutation_Cells_def)
  then have "sl_Len sl = 2"
    using sl(2,3) by (simp add: sl_ok_def sl_Len_def)
  with app sl(1) assms(2) show ?thesis
    by (simp add: writeLocked_def auto_flush_def example_tablet_def)
qed

definition example_ops :: "tablet_op list" where
  "example_ops = [Put [example_mutation] True]"

lemma example_run:
  "\<exists>t t'. tablet_run [] t \<and> wal_mode (t_wal t) = SyncFull \<and> table_cells t = [] \<and>
     writeLocked (None, None) example_flush_io [example_mutation] t = Some (None, t') \<and> no_orphan t t' \<and>
     tablet_run example_ops t'"
proof -
  obtain t where t: "tablet_Open example_open_io (t_opts example_tablet) ''rfile'' SyncFull [] [] = Some (Inr t)"
      "t_wal t = wal_Open SyncFull []" "t_opts t = t_opts example_tablet"
    using example_open by blast
  have run: "tablet_run [] t"
    by (rule tablet_run.fresh [OF example_open_works t(1)])
  have holds: "holds t \<lparr>d_disk = [], d_log = []\<rparr>"
    by (rule fresh_holds [OF example_open_works t(1)])
  then have "table_cells t = []"
    using holds_table [OF holds] by (simp add: table_of_def)
  moreover obtain t' where t': "writeLocked (None, None) example_flush_io [example_mutation] t = Some (None, t')"
      "t_backend t' = t_backend t"
    using example_put [of t] holds t(2,3) by (auto simp: holds_def wal_Open_def)
  moreover have "no_orphan t t'"
    using t'(2) by (simp add: no_orphan_def)
  moreover have "tablet_step (Put [example_mutation] True) t t'"
    using tablet_step.put [OF t'(1)] \<open>no_orphan t t'\<close> example_mutation_fits example_mutation_ok
    by (simp add: append_clean_def truncates_def example_flush_io_def)
  then have "tablet_run example_ops t'"
    using tablet_run.step [OF run] by (auto simp: example_ops_def)
  ultimately show ?thesis
    using run t(2) by (auto simp: wal_Open_def)
qed




end
