(* ===== verification/BCFile_Data.thy ===== *)
theory BCFile_Data
  imports Wire_Data
begin

text \<open>
  The wire primitives of the block container, package \<^verbatim>\<open>internal/rfile/bcfile\<close>: its own
  variable-length integers (\<^verbatim>\<open>varint.go\<close>, not the Hadoop format of \<open>Wire_Varint\<close>), its
  strings (\<^verbatim>\<open>string.go\<close>) and block regions (\<^verbatim>\<open>region.go\<close>). The theory shows that every
  reader inverts its writer, and that a region that passes validation lies in the file.

  A sentinel error, a package variable made by \<^verbatim>\<open>errors.New\<close>, is its message; no two of
  them share one.
\<close>

section \<open>Variable-length integers\<close>

definition ErrCorruptVInt :: go_err where
  "ErrCorruptVInt = Errorf ''bcfile: corrupted vint encoding''"

text \<open>\<^verbatim>\<open>readFull\<close>: as many calls of \<^verbatim>\<open>ReadByte\<close> as the buffer is long.\<close>

fun readFull :: "nat \<Rightarrow> bytes \<Rightarrow> (bytes \<times> bytes) res" where
  "readFull 0 r = Inr ([], r)"
| "readFull (Suc n) r =
     rbind (ReadByte r) (\<lambda>(b, r). rbind (readFull n r) (\<lambda>(buf, r). Inr (b # buf, r)))"

text \<open>
  The first byte, read as signed, carries the top bits of a number of up to four bytes, or
  the length of a longer one. The result is the value, the number of bytes consumed and the
  rest of the input.
\<close>

definition bc_ReadVLong :: "bytes \<Rightarrow> (int64 \<times> int \<times> bytes) res" where
  "bc_ReadVLong r =
     rbind (ReadByte r) (\<lambda>(first, r).
       let fb = sint first in
       if fb \<ge> -32 then Inr (scast first, 1, r)
       else
       let bucket = (fb + 128) div 8 in
       if bucket \<in> {11, 10, 9, 8, 7} then
         rbind (rwrap ''bcfile vint byte 1'' (ReadByte r)) (\<lambda>(b, r).
           Inr (push_bit 8 (scast first + 52) OR ucast b, 2, r))
       else if bucket \<in> {6, 5, 4, 3} then
         rbind (rwrap ''bcfile vint 3-byte tail'' (readFull 2 r)) (\<lambda>(buf, r).
           Inr (push_bit 16 (scast first + 88) OR
             (push_bit 8 (ucast (buf ! 0)) OR ucast (buf ! 1)), 3, r))
       else if bucket \<in> {2, 1} then
         rbind (rwrap ''bcfile vint 4-byte tail'' (readFull 3 r)) (\<lambda>(buf, r).
           Inr (push_bit 24 (scast first + 112) OR
             (push_bit 16 (ucast (buf ! 0)) OR push_bit 8 (ucast (buf ! 1)) OR ucast (buf ! 2)), 4, r))
       else if bucket = 0 then
         let dataLen = fb + 129 in
         if dataLen < 4 \<or> dataLen > 8 then Inl (Wrap ''len byte out of [4..8]'' ErrCorruptVInt)
         else rbind (rwrap ''bcfile vint tail'' (readFull (nat dataLen) r)) (\<lambda>(buf, r).
           Inr (foldl (\<lambda>v b. push_bit 8 v OR ucast b) (scast (buf ! 0)) (drop 1 buf),
             1 + dataLen, r))
       else Inl (Wrap ''firstByte'' ErrCorruptVInt))"

definition bc_ReadVInt :: "bytes \<Rightarrow> (int32 \<times> int \<times> bytes) res" where
  "bc_ReadVInt r =
     rbind (bc_ReadVLong r) (\<lambda>(v, n, r).
       if sint v > 2147483647 \<or> sint v < -2147483648
       then Inl (Errorf ''bcfile: vint does not fit in int32'')
       else Inr (ucast v, n, r))"

text \<open>\<^verbatim>\<open>bits.Len64\<close>: the position of the highest set bit, counted from one.\<close>

lemma unat_drop_bit_1: "unat (drop_bit (Suc 0) (w :: 'a::len word)) = unat w div 2"
  unfolding unat_drop_bit_eq by (simp add: drop_bit_eq_div)

function Len64 :: "int64 \<Rightarrow> nat" where
  "Len64 x = (if x = 0 then 0 else Suc (Len64 (drop_bit 1 x)))"
  by auto
termination
proof (relation "measure unat")
  show "(drop_bit 1 x, x) \<in> measure unat" if "x \<noteq> 0" for x :: int64
    using that by (simp add: unat_drop_bit_1 unat_gt_0)
qed simp

declare Len64.simps [simp del]

text \<open>
  \<^verbatim>\<open>WriteVLong\<close>: the byte length of the number selects the case of the Go switch, whose
  branches fall through to the next longer form when the first byte does not fit. The
  buffer does not fail, so the result is the bytes written, and an error only for the
  length no number has.
\<close>

definition magnitude :: "nat \<Rightarrow> int64 \<Rightarrow> bytes" where
  "magnitude k n = map (\<lambda>i. ucast (signed_drop_bit (8 * i) n)) (rev [0..<k])"

definition write_case4 :: "int64 \<Rightarrow> int64 \<Rightarrow> bytes" where
  "write_case4 first n =
     (if sint first < 8 \<and> sint first \<ge> -8 then ucast (first - 112) # magnitude 3 n
      else word_of_int (4 - 129) # magnitude 4 n)"

definition write_case3 :: "int64 \<Rightarrow> int64 \<Rightarrow> bytes" where
  "write_case3 first n =
     (if sint first < 16 \<and> sint first \<ge> -16 then ucast (first - 88) # magnitude 2 n
      else write_case4 (signed_drop_bit 8 first) n)"

definition write_case2 :: "int64 \<Rightarrow> int64 \<Rightarrow> bytes" where
  "write_case2 first n =
     (if sint first < 20 \<and> sint first \<ge> -20 then ucast (first - 52) # magnitude 1 n
      else write_case3 (signed_drop_bit 8 first) n)"

definition bc_WriteVLong :: "int64 \<Rightarrow> bytes res" where
  "bc_WriteVLong n =
     (if sint n < 128 \<and> sint n \<ge> -32 then Inr [ucast n]
      else
        let un = (if sint n < 0 then NOT n else n);
            bitLen = Len64 un;
            dataLen = bitLen div 8 + 1;
            first = signed_drop_bit ((dataLen - 1) * 8) n
        in if dataLen = 1 then Inr (write_case2 (signed_drop_bit 8 first) n)
           else if dataLen = 2 then Inr (write_case2 first n)
           else if dataLen = 3 then Inr (write_case3 first n)
           else if dataLen = 4 then Inr (write_case4 first n)
           else if dataLen < 5 \<or> dataLen > 8
           then Inl (Errorf ''bcfile: WriteVLong impossible len'')
           else Inr (word_of_int (int dataLen - 129) # magnitude dataLen n))"

definition bc_WriteVInt :: "int32 \<Rightarrow> bytes res" where
  "bc_WriteVInt n = bc_WriteVLong (scast n)"

section \<open>The integers read back\<close>

lemma readFull_append [simp]: "length xs = n \<Longrightarrow> readFull n (xs @ r) = Inr (xs, r)"
  by (induction n arbitrary: xs) (auto simp: length_Suc_conv)

lemma length_magnitude [simp]: "length (magnitude k n) = k"
  by (simp add: magnitude_def)

lemma magnitude_Suc: "magnitude (Suc k) n = ucast (signed_drop_bit (8 * k) n) # magnitude k n"
  by (simp add: magnitude_def)

lemma join_byte:
  "push_bit 8 (signed_drop_bit (8 * Suc i) n) OR ucast (ucast (signed_drop_bit (8 * i) n) :: byte) =
     signed_drop_bit (8 * i) (n :: int64)"
  apply (rule bit_word_eqI)
  apply (auto simp: bit_simps min_def)
  done

lemma foldl_magnitude:
  "foldl (\<lambda>v b. push_bit 8 v OR ucast b) (signed_drop_bit (8 * k) n) (magnitude k n) = (n :: int64)"
  by (induction k) (simp_all add: magnitude_Suc join_byte magnitude_def [of 0] del: mult_Suc_right)


lemma unat_less_Len64: "unat x < 2 ^ Len64 x"
proof (induction x rule: Len64.induct)
  case (1 x)
  then show ?case
    by (cases "x = 0") (auto simp: Len64.simps [of x] unat_drop_bit_1)
qed

lemma ucast_byte_of_int: "(ucast (word_of_int i :: int64) :: byte) = word_of_int i"
  by transfer simp

lemma sint_byte_minus:
  assumes "-128 \<le> sint (x :: int64) - c" "sint x - c < 128"
  shows "sint (ucast (x - word_of_int c) :: byte) = sint x - c"
proof -
  have "x - word_of_int c = word_of_int (sint x - c)"
    by simp
  then show ?thesis
    using assms by (simp only: ucast_byte_of_int sint_byte_of_int)
qed

lemma scast_byte_minus:
  assumes "-128 \<le> sint (x :: int64) - c" "sint x - c < 128"
  shows "scast (ucast (x - word_of_int c) :: byte) = x - word_of_int c"
proof -
  have "scast (ucast (x - word_of_int c) :: byte) = (word_of_int (sint x - c) :: int64)"
    unfolding scast_eq sint_byte_minus [OF assms] ..
  then show ?thesis
    by simp
qed

lemma sint_signed_drop_bit_div: "sint (signed_drop_bit k (n :: int64)) = sint n div 2 ^ k"
  by (simp add: sint_signed_drop_bit_eq drop_bit_eq_div)


lemma first_byte:
  assumes "-128 \<le> sint (x :: int64) - c" "sint x - c < -32"
    and lo: "lo \<le> (sint x - c + 128) div 8" and hi: "(sint x - c + 128) div 8 \<le> hi"
  shows "scast (ucast (x - word_of_int c) :: byte) = x - word_of_int c"
    "(sint (ucast (x - word_of_int c) :: byte) + 128) div 8 \<in> {lo..hi}"
    "\<not> -32 \<le> sint (ucast (x - word_of_int c) :: byte)"
  using assms by (simp_all add: sint_byte_minus scast_byte_minus)

lemma atLeastAtMost_Cons: "(lo :: int) \<le> hi \<Longrightarrow> {lo..hi} = insert hi {lo..hi - 1}"
  by auto

lemma read_case2:
  assumes "-20 \<le> sint x" "sint x < 20" and x: "x = signed_drop_bit 8 n"
  shows "bc_ReadVLong ((ucast (x - 52) # magnitude 1 n) @ r) = Inr (n, 2, r)"
proof -
  have "7 \<le> (sint x - 52 + 128) div 8" "(sint x - 52 + 128) div 8 \<le> 11"
    using assms(1,2) by presburger+
  from first_byte [OF _ _ this] assms(1,2)
  have "scast (ucast (x - 52) :: byte) = x - 52" "\<not> -32 \<le> sint (ucast (x - 52) :: byte)"
    "(sint (ucast (x - 52) :: byte) + 128) div 8 \<in> {11, 10, 9, 8, 7}"
    by (simp_all add: atLeastAtMost_Cons del: atLeastAtMost_iff)
  moreover have "push_bit 8 x OR ucast (ucast n :: byte) = n"
    using foldl_magnitude [of 1 n] x by (simp add: magnitude_def)
  ultimately show ?thesis
    by (simp add: bc_ReadVLong_def magnitude_def Let_def)
qed

lemma read_case3:
  assumes "-16 \<le> sint x" "sint x < 16" and x: "x = signed_drop_bit 16 n"
  shows "bc_ReadVLong ((ucast (x - 88) # magnitude 2 n) @ r) = Inr (n, 3, r)"
proof -
  have "3 \<le> (sint x - 88 + 128) div 8" "(sint x - 88 + 128) div 8 \<le> 6"
    using assms(1,2) by presburger+
  from first_byte [OF _ _ this] assms(1,2)
  have "scast (ucast (x - 88) :: byte) = x - 88" "\<not> -32 \<le> sint (ucast (x - 88) :: byte)"
    and b: "(sint (ucast (x - 88) :: byte) + 128) div 8 \<in> {6, 5, 4, 3}"
    by (simp_all add: atLeastAtMost_Cons del: atLeastAtMost_iff)
  moreover have "(sint (ucast (x - 88) :: byte) + 128) div 8 \<notin> {11, 10, 9, 8, 7}"
    using b by auto
  moreover have "push_bit 16 x OR (push_bit 8 (ucast (magnitude 2 n ! 0)) OR ucast (magnitude 2 n ! 1)) = n"
    using foldl_magnitude [of 2 n] x
    by (simp add: magnitude_def numeral_2_eq_2 push_bit_or ac_simps)
  ultimately show ?thesis
    using readFull_append [of "magnitude 2 n" 2 r] by (simp add: bc_ReadVLong_def Let_def)
qed

lemma read_case4:
  assumes "-8 \<le> sint x" "sint x < 8" and x: "x = signed_drop_bit 24 n"
  shows "bc_ReadVLong ((ucast (x - 112) # magnitude 3 n) @ r) = Inr (n, 4, r)"
proof -
  have "1 \<le> (sint x - 112 + 128) div 8" "(sint x - 112 + 128) div 8 \<le> 2"
    using assms(1,2) by presburger+
  from first_byte [OF _ _ this] assms(1,2)
  have "scast (ucast (x - 112) :: byte) = x - 112" "\<not> -32 \<le> sint (ucast (x - 112) :: byte)"
    and b: "(sint (ucast (x - 112) :: byte) + 128) div 8 \<in> {2, 1}"
    by (simp_all add: atLeastAtMost_Cons del: atLeastAtMost_iff)
  moreover have "(sint (ucast (x - 112) :: byte) + 128) div 8 \<notin> {11, 10, 9, 8, 7}"
    "(sint (ucast (x - 112) :: byte) + 128) div 8 \<notin> {6, 5, 4, 3}"
    using b by auto
  moreover have "push_bit 24 x OR (push_bit 16 (ucast (magnitude 3 n ! 0)) OR
      push_bit 8 (ucast (magnitude 3 n ! 1)) OR ucast (magnitude 3 n ! 2)) = n"
    using foldl_magnitude [of 3 n] x
    by (simp add: magnitude_def numeral_3_eq_3 push_bit_or ac_simps)
  ultimately show ?thesis
    using readFull_append [of "magnitude 3 n" 3 r] by (simp add: bc_ReadVLong_def Let_def)
qed

text \<open>A number of four to eight bytes, with its length in the first byte.\<close>

lemma read_long:
  assumes "4 \<le> k" "k \<le> 8" "-128 \<le> sint x" "sint x < 128" and x: "x = signed_drop_bit (8 * (k - 1)) n"
  shows "bc_ReadVLong ((word_of_int (int k - 129) # magnitude k n) @ r) = Inr (n, 1 + int k, r)"
proof -
  obtain j where k: "k = Suc j"
    using assms(1) by (cases k) auto
  have b: "sint (word_of_int (int k - 129) :: byte) = int k - 129"
    using assms(1,2) by (intro sint_byte_of_int) auto
  have "scast (ucast x :: byte) = x"
    using scast_byte_minus [of x 0] assms(3,4) by simp
  then have "foldl (\<lambda>v b. push_bit 8 v OR ucast b) (scast (magnitude k n ! 0)) (drop 1 (magnitude k n)) = n"
    using foldl_magnitude [of j n] x by (simp add: k magnitude_Suc)
  moreover have "(int k - 1) div 8 = 0"
    using assms(1,2) by simp
  ultimately show ?thesis
    using readFull_append [of "magnitude k n" k r] assms(1,2) b [simplified]
    by (simp add: bc_ReadVLong_def Let_def)
qed


lemma signed_drop_bit_8_8: "signed_drop_bit 8 (signed_drop_bit k (n :: int64)) = signed_drop_bit (8 + k) n"
  by (rule bit_word_eqI) (auto simp: bit_simps min_def)

text \<open>The switch of the writer, entered where the first byte is known to fit four bytes.\<close>

lemma read_write_case4:
  assumes "-128 \<le> sint x" "sint x < 128" "x = signed_drop_bit 24 n"
  shows "bc_ReadVLong (write_case4 x n @ r) = Inr (n, int (length (write_case4 x n)), r)"
  using read_case4 [of x n r] read_long [of 4 x n r] assms by (simp add: write_case4_def)

lemma read_write_case3:
  assumes "-128 \<le> sint x" "sint x < 128" "x = signed_drop_bit 16 n"
  shows "bc_ReadVLong (write_case3 x n @ r) = Inr (n, int (length (write_case3 x n)), r)"
proof (cases "sint x < 16 \<and> sint x \<ge> -16")
  case True
  then show ?thesis
    using read_case3 [of x n r] assms(3) by (simp add: write_case3_def)
next
  case False
  have "-128 \<le> sint (signed_drop_bit 8 x)" "sint (signed_drop_bit 8 x) < 128"
    using assms(1,2) by (simp_all add: sint_signed_drop_bit_div)
  then show ?thesis
    using False read_write_case4 [of "signed_drop_bit 8 x" n r] signed_drop_bit_8_8 [of 16 n] assms(3)
    by (auto simp: write_case3_def)
qed

lemma read_write_case2:
  assumes "-128 \<le> sint x" "sint x < 128" "x = signed_drop_bit 8 n"
  shows "bc_ReadVLong (write_case2 x n @ r) = Inr (n, int (length (write_case2 x n)), r)"
proof (cases "sint x < 20 \<and> sint x \<ge> -20")
  case True
  then show ?thesis
    using read_case2 [of x n r] assms(3) by (simp add: write_case2_def)
next
  case False
  have "-128 \<le> sint (signed_drop_bit 8 x)" "sint (signed_drop_bit 8 x) < 128"
    using assms(1,2) by (simp_all add: sint_signed_drop_bit_div)
  then show ?thesis
    using False read_write_case3 [of "signed_drop_bit 8 x" n r] signed_drop_bit_8_8 [of 8 n] assms(3)
    by (auto simp: write_case2_def)
qed

lemma Len64_le: "unat x < 2 ^ k \<Longrightarrow> Len64 x \<le> k"
proof (induction k arbitrary: x)
  case 0
  then show ?case
    by (simp add: Len64.simps word_unat_eq_iff)
next
  case (Suc k)
  then show ?case
    by (cases "x = 0") (simp_all add: Len64.simps [of x] Len64.simps [of 0] unat_drop_bit_1)
qed

lemma div_range:
  assumes "(0 :: int) < p" "- (c * p) \<le> s" "s < c * p"
  shows "- c \<le> s div p" "s div p < c"
proof -
  show "- c \<le> s div p"
    using zdiv_mono1 [of "- c * p" s p] nonzero_mult_div_cancel_right [of p "- c"] assms
    by (simp del: nonzero_mult_div_cancel_right)
  have "s div p * p < c * p"
    unfolding minus_mod_eq_div_mult [symmetric] using pos_mod_sign [of p s] assms by linarith
  then show "s div p < c"
    using assms(1) by simp
qed

lemma sint_not_64: "sint (NOT (n :: int64)) = - 1 - sint n"
  using sint_ge [of n] sint_less [of n]
  by (simp add: signed_not_eq not_int_def signed_take_bit_int_eq_self)

lemma Len64_bounds:
  fixes n :: int64
  defines "d \<equiv> Len64 (if sint n < 0 then NOT n else n) div 8 + 1"
  shows "d \<le> 8" "-128 \<le> sint n div 2 ^ (8 * (d - 1))" "sint n div 2 ^ (8 * (d - 1)) < 128"
proof -
  define un where "un = (if sint n < 0 then NOT n else n)"
  define q where "q = Len64 un div 8"
  have un0: "0 \<le> sint un"
    unfolding un_def by (rule sint_magnitude)
  have un: "sint un = (if sint n < 0 then - 1 - sint n else sint n)"
    by (simp add: un_def sint_not_64)
  have uint: "int (unat un) = sint un"
    using un0 sint_less [of un] by (simp add: uint_sint take_bit_int_eq_self)
  have "int (unat un) < 2 ^ 63"
    using sint_less [of un] unfolding uint by simp
  then have "unat un < 2 ^ 63"
    by (metis of_nat_less_iff of_nat_numeral of_nat_power)
  then have "Len64 un \<le> 63"
    by (rule Len64_le)
  then show "d \<le> 8"
    unfolding d_def un_def [symmetric] by simp
  have "int (unat un) < 2 ^ Len64 un"
    using unat_less_Len64 [of un] by (metis of_nat_less_iff of_nat_numeral of_nat_power)
  also have "(2 :: int) ^ Len64 un \<le> 2 ^ (8 * q + 7)"
    by (intro power_increasing) (simp_all add: q_def)
  finally have "sint un < 128 * 2 ^ (8 * q)"
    by (simp add: uint [simplified] power_add)
  then have "- (128 * 2 ^ (8 * q)) \<le> sint n" "sint n < 128 * 2 ^ (8 * q)"
    using un un0 by (auto split: if_splits)
  from div_range [OF _ this] show "-128 \<le> sint n div 2 ^ (8 * (d - 1))"
    "sint n div 2 ^ (8 * (d - 1)) < 128"
    by (simp_all add: d_def un_def [symmetric] q_def)
qed

lemma bc_WriteVLong_total: "\<exists>bs. bc_WriteVLong n = Inr bs"
  using Len64_bounds(1) [of n] by (auto simp: bc_WriteVLong_def Let_def)

lemma bc_ReadVLong_WriteVLong [codec]:
  assumes w: "bc_WriteVLong n = Inr bs"
  shows "bc_ReadVLong (bs @ r) = Inr (n, int (length bs), r)"
proof (cases "sint n < 128 \<and> sint n \<ge> -32")
  case True
  then have "bs = [ucast n]" "sint (ucast n :: byte) = sint n" "scast (ucast n :: byte) = n"
    using w sint_byte_minus [of n 0] scast_byte_minus [of n 0] by (simp_all add: bc_WriteVLong_def)
  with True show ?thesis
    by (simp add: bc_ReadVLong_def)
next
  case False
  define d where "d = Len64 (if sint n < 0 then NOT n else n) div 8 + 1"
  define x where "x = signed_drop_bit (8 * (d - 1)) n"
  have x: "-128 \<le> sint x" "sint x < 128"
    unfolding x_def sint_signed_drop_bit_div d_def by (rule Len64_bounds)+
  have "d \<le> 8"
    unfolding d_def by (rule Len64_bounds)
  note W = w [unfolded bc_WriteVLong_def Let_def, folded d_def, unfolded if_not_P [OF False]]
  consider "d = 1" | "d = 2" | "d = 3" | "d = 4" | "5 \<le> d"
    using d_def by linarith
  then show ?thesis
  proof cases
    case 1
    have "sint (signed_drop_bit 8 n) < 128" "-128 \<le> sint (signed_drop_bit 8 n)"
      using x 1 by (simp_all add: x_def sint_signed_drop_bit_div)
    then show ?thesis
      using W 1 read_write_case2 [of "signed_drop_bit 8 n" n r] by simp
  next
    case 2
    then show ?thesis
      using W x read_write_case2 [of x n r] by (simp add: x_def)
  next
    case 3
    then show ?thesis
      using W x read_write_case3 [of x n r] by (simp add: x_def)
  next
    case 4
    then show ?thesis
      using W x read_write_case4 [of x n r] by (simp add: x_def)
  next
    case 5
    then have "bs = word_of_int (int d - 129) # magnitude d n"
      using W \<open>d \<le> 8\<close> by simp
    then show ?thesis
      using read_long [of d x n r] x 5 \<open>d \<le> 8\<close> by (simp add: x_def)
  qed
qed

lemma bc_ReadVInt_WriteVInt [codec]:
  assumes "bc_WriteVInt n = Inr bs"
  shows "bc_ReadVInt (bs @ r) = Inr (n, int (length bs), r)"
proof -
  have "sint (scast n :: int64) = sint n"
    by (rule sint_scast_32_64)
  moreover have "- 2147483648 \<le> sint n" "sint n < 2147483648"
    using sint_ge [of n] sint_less [of n] by simp_all
  moreover have "ucast (scast n :: int64) = n"
    by (rule bit_word_eqI) (simp add: bit_simps)
  ultimately show ?thesis
    using bc_ReadVLong_WriteVLong [of "scast n" bs r] assms by (simp add: bc_ReadVInt_def bc_WriteVInt_def)
qed


section \<open>Strings\<close>

definition ErrCorruptString :: go_err where
  "ErrCorruptString = Errorf ''bcfile: corrupted string encoding''"

text \<open>\<open>None\<close> is the null string. Every caller passes a reader that knows its length.\<close>

definition bc_ReadString :: "bytes \<Rightarrow> (bytes option \<times> bytes) res" where
  "bc_ReadString r =
     rbind (rwrap ''bcfile: read string length'' (bc_ReadVInt r)) (\<lambda>(len, _, r).
       if len = -1 then Inr (None, r)
       else if sint len < 0 then Inl (Wrap ''length'' ErrCorruptString)
       else if sint len > int (length r) then Inl (Wrap ''length exceeds remaining'' ErrCorruptString)
       else rbind (rwrap ''bcfile: read string body'' (ReadFull (nat (sint len)) r))
         (\<lambda>(buf, r). Inr (Some buf, r)))"

definition bc_WriteString :: "bytes \<Rightarrow> bytes res" where
  "bc_WriteString s = rbind (bc_WriteVInt (of_nat (length s))) (\<lambda>n. Inr (n @ s))"

definition bc_WriteNullString :: "bytes res" where
  "bc_WriteNullString = bc_WriteVInt (-1)"

lemma bc_ReadString_WriteString [codec]:
  assumes "bc_WriteString s = Inr bs" "length s < 2 ^ 31"
  shows "bc_ReadString (bs @ r) = Inr (Some s, r)"
proof -
  obtain n where n: "bc_WriteVInt (of_nat (length s)) = Inr n" "bs = n @ s"
    using assms(1) by (auto simp: bc_WriteString_def res_simps)
  have "sint (of_nat (length s) :: int32) = int (length s)"
    using assms(2) by (rule sint_of_nat_32)
  moreover from this have "(of_nat (length s) :: int32) \<noteq> -1"
    by auto
  ultimately show ?thesis
    using bc_ReadVInt_WriteVInt [OF n(1)] n(2) by (simp add: bc_ReadString_def)
qed

lemma bc_ReadString_WriteNullString [codec]:
  "bc_WriteNullString = Inr bs \<Longrightarrow> bc_ReadString (bs @ r) = Inr (None, r)"
  using bc_ReadVInt_WriteVInt [of "-1" bs r] by (simp add: bc_ReadString_def bc_WriteNullString_def)

section \<open>Block regions\<close>

definition MaxCompressedBlockSize :: int where
  "MaxCompressedBlockSize = 256 * 1024 * 1024"

definition MaxRawBlockSize :: int where
  "MaxRawBlockSize = 512 * 1024 * 1024"

record block_region =
  Offset :: int64
  CompressedSize :: int64
  RawSize :: int64

definition ValidateBlockRegion :: "block_region \<Rightarrow> int64 \<Rightarrow> go_err option" where
  "ValidateBlockRegion region fileLength =
     (if sint fileLength < 0 then Some (Errorf ''bcfile: negative file length'')
      else if sint (Offset region) < 0 then Some (Errorf ''bcfile: negative block offset'')
      else if sint (CompressedSize region) < 0 then Some (Errorf ''bcfile: negative CompressedSize'')
      else if sint (RawSize region) < 0 then Some (Errorf ''bcfile: negative RawSize'')
      else if sint (CompressedSize region) > MaxCompressedBlockSize
      then Some (Errorf ''bcfile: compressed block size exceeds limit'')
      else if sint (RawSize region) > MaxRawBlockSize
      then Some (Errorf ''bcfile: raw block size exceeds limit'')
      else if sint (Offset region) > sint fileLength \<or>
        sint (CompressedSize region) > sint (fileLength - Offset region)
      then Some (Errorf ''bcfile: block region out of bounds'')
      else None)"

definition ReadBlockRegion :: "bytes \<Rightarrow> (block_region \<times> bytes) res" where
  "ReadBlockRegion r =
     rbind (rwrap ''BlockRegion offset'' (bc_ReadVLong r)) (\<lambda>(off, _, r).
     rbind (rwrap ''BlockRegion compressedSize'' (bc_ReadVLong r)) (\<lambda>(csz, _, r).
     rbind (rwrap ''BlockRegion rawSize'' (bc_ReadVLong r)) (\<lambda>(rsz, _, r).
     Inr (\<lparr>Offset = off, CompressedSize = csz, RawSize = rsz\<rparr>, r))))"

definition WriteBlockRegion :: "block_region \<Rightarrow> bytes res" where
  "WriteBlockRegion br =
     rbind (bc_WriteVLong (Offset br)) (\<lambda>a.
     rbind (bc_WriteVLong (CompressedSize br)) (\<lambda>b.
     rbind (bc_WriteVLong (RawSize br)) (\<lambda>c.
     Inr (a @ b @ c))))"

lemma ReadBlockRegion_WriteBlockRegion [codec]:
  "WriteBlockRegion br = Inr bs \<Longrightarrow> ReadBlockRegion (bs @ r) = Inr (br, r)"
  by (auto simp: WriteBlockRegion_def ReadBlockRegion_def res_simps bc_ReadVLong_WriteVLong)

lemma sint_minus_64:
  assumes "0 \<le> sint (b :: int64)" "sint b \<le> sint a"
  shows "sint (a - b) = sint a - sint b"
proof -
  have "a - b = word_of_int (sint a - sint b)"
    by simp
  moreover have "sint (word_of_int (sint a - sint b) :: int64) = sint a - sint b"
    unfolding sint_sbintrunc' using assms sint_less [of a] by (simp add: signed_take_bit_int_eq_self)
  ultimately show ?thesis
    by simp
qed

text \<open>A region that validates against a file length lies inside the file; nothing wraps.\<close>

lemma ValidateBlockRegion_None_iff:
  "ValidateBlockRegion region len = None \<longleftrightarrow>
     0 \<le> sint (Offset region) \<and> 0 \<le> sint (CompressedSize region) \<and> 0 \<le> sint (RawSize region) \<and>
     sint (CompressedSize region) \<le> MaxCompressedBlockSize \<and> sint (RawSize region) \<le> MaxRawBlockSize \<and>
     sint (Offset region) + sint (CompressedSize region) \<le> sint len"
  using sint_minus_64 [of "Offset region" len] by (auto simp: ValidateBlockRegion_def)

end
