(* ===== verification/RFile_Index.thy ===== *)
theory RFile_Index
  imports BCFile_Data
begin

text \<open>
  The block index of an RFile, package \<^verbatim>\<open>internal/rfile/index\<close>: index entries and blocks
  (\<^verbatim>\<open>entry.go\<close>, \<^verbatim>\<open>entries.go\<close>, \<^verbatim>\<open>block.go\<close>, \<^verbatim>\<open>limits.go\<close>) and the walker over the
  multi-level tree (\<^verbatim>\<open>walker.go\<close>). A child block is fetched through the walker's
  \<^verbatim>\<open>LevelReader\<close>, here a function from block regions to index blocks.

  The walker trusts nothing it reads: it checks levels, key order, bounds and repeated
  regions while it descends. The theory shows that this makes both traversals end, that
  the leaves of a tree that \<^verbatim>\<open>IterateLeaves\<close> accepts are in key order, and that
  \<^verbatim>\<open>Seek\<close> on such a tree returns the first leaf whose key is not below the target.
\<close>

section \<open>Index entries\<close>

record index_entry =
  EKey :: key
  ENumEntries :: int32
  EOffset :: int64
  ECompressedSize :: int64
  ERawSize :: int64

definition region_of :: "index_entry \<Rightarrow> block_region" where
  "region_of e = \<lparr>Offset = EOffset e, CompressedSize = ECompressedSize e, RawSize = ERawSize e\<rparr>"

definition ReadIndexEntry :: "bytes \<Rightarrow> (index_entry \<times> bytes) res" where
  "ReadIndexEntry r =
     rbind (rwrap ''IndexEntry key'' (ReadKey r)) (\<lambda>(key, r).
     rbind (rwrap ''IndexEntry entries'' (ReadInt32 r)) (\<lambda>(n, r).
     rbind (rwrap ''IndexEntry offset'' (bc_ReadVLong r)) (\<lambda>(off, _, r).
     rbind (rwrap ''IndexEntry compressedSize'' (bc_ReadVLong r)) (\<lambda>(csz, _, r).
     rbind (rwrap ''IndexEntry rawSize'' (bc_ReadVLong r)) (\<lambda>(rsz, _, r).
     Inr (\<lparr>EKey = key, ENumEntries = n, EOffset = off, ECompressedSize = csz, ERawSize = rsz\<rparr>, r))))))"

definition WriteIndexEntry :: "index_entry \<Rightarrow> bytes res" where
  "WriteIndexEntry e =
     rbind (bc_WriteVLong (EOffset e)) (\<lambda>off.
     rbind (bc_WriteVLong (ECompressedSize e)) (\<lambda>csz.
     rbind (bc_WriteVLong (ERawSize e)) (\<lambda>rsz.
     Inr (WriteKey (EKey e) @ WriteInt32 (ENumEntries e) @ off @ csz @ rsz))))"

lemma ReadIndexEntry_WriteIndexEntry [codec]:
  "\<lbrakk>WriteIndexEntry e = Inr bs; key_bytes (EKey e) < 2 ^ 31\<rbrakk> \<Longrightarrow> ReadIndexEntry (bs @ r) = Inr (e, r)"
  by (auto simp: WriteIndexEntry_def ReadIndexEntry_def res_simps bc_ReadVLong_WriteVLong
      ReadKey_WriteKey_append)

lemma WriteIndexEntry_total: "\<exists>bs. WriteIndexEntry e = Inr bs"
  using bc_WriteVLong_total [of "EOffset e"] bc_WriteVLong_total [of "ECompressedSize e"]
    bc_WriteVLong_total [of "ERawSize e"]
  by (auto simp: WriteIndexEntry_def)

section \<open>Index blocks\<close>

record index_block =
  Level :: int32
  BOffset :: int32
  HasNext :: bool
  Offsets :: "int32 list"
  Data :: bytes

definition block_NumEntries :: "index_block \<Rightarrow> nat" where
  "block_NumEntries b = length (Offsets b)"

definition entries_segment :: "index_block \<Rightarrow> nat \<Rightarrow> bytes res" where
  "entries_segment b i =
     (if i \<ge> block_NumEntries b then Inl (Errorf ''Entries: index out of range'')
      else
        let start = sint (Offsets b ! i);
            stop = (if i + 1 < block_NumEntries b then sint (Offsets b ! (i + 1))
                    else int (length (Data b)))
        in if start < 0 \<or> start > stop \<or> stop > int (length (Data b))
           then Inl (Errorf ''Entries: segment out of range'')
           else Inr (take (nat (stop - start)) (drop (nat start) (Data b))))"

definition entries_At :: "index_block \<Rightarrow> nat \<Rightarrow> index_entry res" where
  "entries_At b i =
     rbind (entries_segment b i) (\<lambda>segment.
     rbind (ReadIndexEntry segment) (\<lambda>(entry, r).
     if length r \<noteq> 0 then Inl (Errorf ''Entries.At: entry left bytes in its declared segment'')
     else Inr entry))"

definition entries_KeyAt :: "index_block \<Rightarrow> nat \<Rightarrow> key res" where
  "entries_KeyAt b i =
     rbind (entries_segment b i) (\<lambda>segment. rbind (ReadKey segment) (\<lambda>(k, _). Inr k))"

text \<open>\<open>es\<close> are the entries of the block: every one of them decodes.\<close>

definition block_entries :: "index_block \<Rightarrow> index_entry list \<Rightarrow> bool" where
  "block_entries b es \<longleftrightarrow> length es = block_NumEntries b \<and>
     (\<forall>i<length es. entries_At b i = Inr (es ! i))"

lemma entries_KeyAt_At: "entries_At b i = Inr e \<Longrightarrow> entries_KeyAt b i = Inr (EKey e)"
  by (auto simp: entries_At_def entries_KeyAt_def ReadIndexEntry_def res_simps split: if_splits)

lemma block_entries_unique: "block_entries b es \<Longrightarrow> block_entries b es' \<Longrightarrow> es = es'"
  by (rule nth_equalityI) (auto simp: block_entries_def)

lemma block_entries_map:
  "block_entries b es \<longleftrightarrow> map (entries_At b) [0..<block_NumEntries b] = map Inr es"
  by (auto simp: block_entries_def list_eq_iff_nth_eq)

section \<open>Validation\<close>

definition maxTraversalDepth :: int where
  "maxTraversalDepth = 64"

text \<open>
  The loop of \<^verbatim>\<open>validateBlockEntries\<close> over the entries: the first and the last key. A
  decoded entry always has a key, so the test for a nil key has no counterpart.
\<close>

fun validate_loop ::
    "index_block \<Rightarrow> nat list \<Rightarrow> key option \<Rightarrow> key option \<Rightarrow> (key option \<times> key option) res" where
  "validate_loop b [] first previous = Inr (first, previous)"
| "validate_loop b (i # is) first previous =
     rbind (entries_At b i) (\<lambda>entry.
     if (case previous of None \<Rightarrow> False | Some p \<Rightarrow> Compare (EKey entry) p < 0)
     then Inl (Errorf ''rfile/index: entry key sorts before its predecessor'')
     else if Level b = 0 \<and> sint (ENumEntries entry) \<le> 0
     then Inl (Errorf ''rfile/index: leaf entry has non-positive cell count'')
     else validate_loop b is (if first = None then Some (EKey entry) else first) (Some (EKey entry)))"

definition validateBlockEntries :: "index_block \<Rightarrow> (key option \<times> key option) res" where
  "validateBlockEntries b =
     (if sint (Level b) < 0 then Inl (Errorf ''rfile/index: negative block level'')
      else validate_loop b [0..<block_NumEntries b] None None)"

definition validateRootLevel :: "index_block option \<Rightarrow> index_block res" where
  "validateRootLevel root =
     (case root of
        None \<Rightarrow> Inl (Errorf ''rfile/index: nil root index block'')
      | Some b \<Rightarrow>
          if sint (Level b) < 0 then Inl (Errorf ''rfile/index: negative root level'')
          else if sint (Level b) > maxTraversalDepth
          then Inl (Errorf ''rfile/index: root level exceeds maximum traversal depth'')
          else Inr b)"

definition ValidateBlock :: "index_block option \<Rightarrow> go_err option" where
  "ValidateBlock b =
     (case rbind (validateRootLevel b) validateBlockEntries of Inl e \<Rightarrow> Some e | Inr _ \<Rightarrow> None)"

lemma validate_loop_spec:
  "validate_loop b is first previous = Inr (f, l) \<Longrightarrow>
     \<exists>es. map (entries_At b) is = map Inr es \<and> sorted (map EKey es) \<and>
       (\<forall>p. previous = Some p \<longrightarrow> (\<forall>e\<in>set es. p \<le> EKey e)) \<and>
       (Level b = 0 \<longrightarrow> (\<forall>e\<in>set es. 0 < sint (ENumEntries e))) \<and>
       l = (if es = [] then previous else Some (EKey (last es))) \<and>
       f = (if first \<noteq> None then first else if es = [] then None else Some (EKey (hd es)))"
proof (induction "is" arbitrary: first previous)
  case Nil
  then show ?case
    by auto
next
  case (Cons i "is")
  let ?first = "\<lambda>e. if first = None then Some (EKey e) else first"
  obtain e where e: "entries_At b i = Inr e" "\<forall>p. previous = Some p \<longrightarrow> p \<le> EKey e"
    "Level b = 0 \<longrightarrow> 0 < sint (ENumEntries e)"
    "validate_loop b is (?first e) (Some (EKey e)) = Inr (f, l)"
    using Cons.prems by (auto simp: res_simps not_less split: if_splits option.splits)
  obtain es where es: "map (entries_At b) is = map Inr es" "sorted (map EKey es)"
    "\<forall>x\<in>set es. EKey e \<le> EKey x" "Level b = 0 \<longrightarrow> (\<forall>e\<in>set es. 0 < sint (ENumEntries e))"
    "l = (if es = [] then Some (EKey e) else Some (EKey (last es)))" "f = ?first e"
    using Cons.IH [OF e(4)] by (auto split: if_splits)
  show ?case
    using e es by (intro exI [of _ "e # es"]) (auto intro: order_trans)
qed

lemma validateBlockEntries_spec:
  assumes "validateBlockEntries b = Inr (f, l)"
  obtains es where "block_entries b es" "sorted (map EKey es)" "0 \<le> sint (Level b)"
    "Level b = 0 \<Longrightarrow> \<forall>e\<in>set es. 0 < sint (ENumEntries e)"
    "f = (if es = [] then None else Some (EKey (hd es)))"
    "l = (if es = [] then None else Some (EKey (last es)))"
  using assms validate_loop_spec [of b "[0..<block_NumEntries b]" None None f l]
  by (auto simp: validateBlockEntries_def block_entries_map split: if_splits)

section \<open>The walker\<close>

definition ErrPastEnd :: go_err where
  "ErrPastEnd = Errorf ''rfile/index: target key is past the last index entry''"

text \<open>
  A \<^verbatim>\<open>LevelReader\<close> is a function of regions whose result may be nil; a walker over a
  single level may have none. \<^verbatim>\<open>blockRegionKey\<close> is the pair that identifies a region in
  the set of visited ones.
\<close>

type_synonym level_reader = "block_region \<Rightarrow> index_block option res"
type_synonym region_key = "int64 \<times> int64"

definition region_key :: "block_region \<Rightarrow> region_key" where
  "region_key region = (Offset region, CompressedSize region)"

definition readChildBlock ::
    "level_reader \<Rightarrow> int32 \<Rightarrow> block_region \<Rightarrow> key option \<Rightarrow> key \<Rightarrow> region_key set \<Rightarrow>
     (index_block \<times> region_key set) res" where
  "readChildBlock lr parentLevel region lowerBound upperBound visited =
     (if region_key region \<in> visited then Inl (Errorf ''repeated child block region'')
      else
      let visited = insert (region_key region) visited in
      rbind (lr region) (\<lambda>child.
      case child of
        None \<Rightarrow> Inl (Errorf ''LevelReader returned nil child block'')
      | Some child \<Rightarrow>
          let expectedLevel = parentLevel - 1 in
          if Level child \<noteq> expectedLevel then Inl (Errorf ''child block level'')
          else rbind (validateBlockEntries child) (\<lambda>(first, final).
          case (first, final) of
            (Some first, Some final) \<Rightarrow>
              if (case lowerBound of None \<Rightarrow> False | Some l \<Rightarrow> Compare first l < 0)
              then Inl (Errorf ''child first key sorts before parent lower bound'')
              else if \<not> Equal final upperBound
              then Inl (Errorf ''child final key does not match parent upper bound'')
              else Inr (child, visited)
          | _ \<Rightarrow> Inl (Errorf ''child index block has no entries''))))"

text \<open>
  \<^verbatim>\<open>sort.Search\<close> with the closure of \<^verbatim>\<open>binarySearchKey\<close>: after a key that does not
  decode the closure only answers true.
\<close>

function search_loop ::
    "index_block \<Rightarrow> key \<Rightarrow> go_err option \<Rightarrow> nat \<Rightarrow> nat \<Rightarrow> nat \<times> go_err option" where
  "search_loop b target searchErr i j =
     (if i < j then
        let h = (i + j) div 2 in
        case searchErr of
          Some e \<Rightarrow> search_loop b target searchErr i h
        | None \<Rightarrow>
            (case entries_KeyAt b h of
               Inl e \<Rightarrow> search_loop b target (Some e) i h
             | Inr k \<Rightarrow>
                 if Compare k target \<ge> 0 then search_loop b target searchErr i h
                 else search_loop b target searchErr (h + 1) j)
      else (i, searchErr))"
  by auto
termination
  by (relation "measure (\<lambda>(b, target, searchErr, i, j). j - i)") auto

declare search_loop.simps [simp del]

definition binarySearchKey :: "index_block \<Rightarrow> key \<Rightarrow> nat res" where
  "binarySearchKey b target =
     (case search_loop b target None 0 (block_NumEntries b) of
        (idx, Some e) \<Rightarrow> Inl e
      | (idx, None) \<Rightarrow> Inr idx)"

lemma rbind_cong [fundef_cong]:
  "\<lbrakk>r = r'; \<And>x. r' = Inr x \<Longrightarrow> f x = f' x\<rbrakk> \<Longrightarrow> rbind r f = rbind r' f'"
  by (cases r') auto

lemma rwrap_cong [fundef_cong]: "r = r' \<Longrightarrow> rwrap m r = rwrap m r'"
  by simp

lemma readChildBlock_Inr:
  assumes "readChildBlock lr parentLevel region lower upper visited = Inr (child, visited')"
  shows "region_key region \<notin> visited" "visited' = insert (region_key region) visited"
    "lr region = Inr (Some child)" "Level child = parentLevel - 1"
    "\<exists>first. validateBlockEntries child = Inr (Some first, Some upper) \<and>
      (\<forall>l. lower = Some l \<longrightarrow> l \<le> first)"
proof -
  show fresh: "region_key region \<notin> visited"
    using assms by (auto simp: readChildBlock_def)
  obtain ch where lr: "lr region = Inr (Some ch)" and lev: "Level ch = parentLevel - 1"
    using assms fresh
    by (cases "lr region") (auto simp: readChildBlock_def Let_def split: option.splits if_splits)
  obtain f l where fl: "validateBlockEntries ch = Inr (f, l)"
    using assms fresh lr lev by (cases "validateBlockEntries ch") (auto simp: readChildBlock_def Let_def)
  obtain f' where f: "f = Some f'" "l = Some upper" "\<And>x. lower = Some x \<Longrightarrow> x \<le> f'"
    using assms fresh lr lev fl
    by (auto simp: readChildBlock_def Let_def Equal_iff not_less split: option.splits if_splits)
  have "ch = child" "visited' = insert (region_key region) visited"
    using assms fresh lr lev fl f
    by (auto simp: readChildBlock_def Let_def Equal_iff split: option.splits if_splits)
  then show "visited' = insert (region_key region) visited" "lr region = Inr (Some child)"
    "Level child = parentLevel - 1" "\<exists>first. validateBlockEntries child = Inr (Some first, Some upper) \<and>
      (\<forall>l. lower = Some l \<longrightarrow> l \<le> first)"
    using lr lev fl f by auto
qed

lemma level_decreases: "(l :: int32) \<noteq> 0 \<Longrightarrow> unat (l - 1) < unat l"
  by (simp add: unat_minus_one unat_gt_0)

text \<open>
  The loop of \<^verbatim>\<open>Seek\<close>. \<open>at_root\<close> is the test \<^verbatim>\<open>cur == w.root\<close>: every other block was
  just parsed. A child is one level down, so the loop ends whatever the reader returns.
\<close>

function walker_loop ::
    "level_reader option \<Rightarrow> key \<Rightarrow> bool \<Rightarrow> index_block \<Rightarrow> region_key set \<Rightarrow> index_entry res" where
  "walker_loop lr target at_root cur visited =
     rbind (validateBlockEntries cur) (\<lambda>_.
     rbind (binarySearchKey cur target) (\<lambda>idx.
     if idx = block_NumEntries cur then
       (if at_root then Inl ErrPastEnd
        else Inl (Errorf ''rfile/index: walker invariant violation: target past end at non-root level''))
     else
     rbind (entries_At cur idx) (\<lambda>entry.
     if Level cur = 0 then Inr entry
     else case lr of
       None \<Rightarrow> Inl (Errorf ''rfile/index: multi-level index requires LevelReader'')
     | Some rd \<Rightarrow>
         rbind (if idx > 0 then rbind (entries_KeyAt cur (idx - 1)) (\<lambda>k. Inr (Some k)) else Inr None)
           (\<lambda>lowerBound.
         rbind (rwrap ''rfile/index: descend''
             (readChildBlock rd (Level cur) (region_of entry) lowerBound (EKey entry) visited))
           (\<lambda>(child, visited). walker_loop lr target False child visited)))))"
  by pat_completeness auto
termination
  by (relation "measure (\<lambda>(lr, target, at_root, cur, visited). unat (Level cur))")
    (auto simp: readChildBlock_Inr(4) level_decreases res_simps)

declare walker_loop.simps [simp del]

definition walker_Seek :: "index_block option \<Rightarrow> level_reader option \<Rightarrow> key \<Rightarrow> index_entry res" where
  "walker_Seek root lr target =
     rbind (validateRootLevel root) (\<lambda>cur. walker_loop lr target True cur {})"

text \<open>
  \<^verbatim>\<open>IterateLeaves\<close>. The callback is a function of the entry and of the variables it
  updates, \<open>acc\<close>; \<open>visited\<close> and \<open>lastLeaf\<close> are the fields of \<^verbatim>\<open>iterationState\<close>. The loop
  over the entries of a block calls itself on the child blocks, one level down.
\<close>

type_synonym 'a iteration = "region_key set \<times> key option \<times> 'a"

function iterate_entries ::
    "level_reader option \<Rightarrow> (index_entry \<Rightarrow> 'a \<Rightarrow> 'a res) \<Rightarrow> index_block \<Rightarrow> nat list \<Rightarrow> key option \<Rightarrow>
     'a iteration \<Rightarrow> 'a iteration res" where
  "iterate_entries lr fn b [] lowerBound st = Inr st"
| "iterate_entries lr fn b (i # is) lowerBound st =
     rbind (entries_At b i) (\<lambda>entry.
     case st of (visited, lastLeaf, acc) \<Rightarrow>
     if Level b = 0 then
       (if region_key (region_of entry) \<in> visited
        then Inl (Errorf ''rfile/index: repeated leaf block region'')
        else if (case lastLeaf of None \<Rightarrow> False | Some l \<Rightarrow> Compare (EKey entry) l < 0)
        then Inl (Errorf ''rfile/index: leaf key sorts before previous leaf key'')
        else rbind (fn entry acc) (\<lambda>acc.
          iterate_entries lr fn b is (Some (EKey entry))
            (insert (region_key (region_of entry)) visited, Some (EKey entry), acc)))
     else case lr of
       None \<Rightarrow> Inl (Errorf ''rfile/index: multi-level iterate requires LevelReader'')
     | Some rd \<Rightarrow>
         rbind (rwrap ''rfile/index: descend''
             (readChildBlock rd (Level b) (region_of entry) lowerBound (EKey entry) visited))
           (\<lambda>(child, visited).
         rbind (rbind (validateBlockEntries child) (\<lambda>_.
             iterate_entries lr fn child [0..<block_NumEntries child] None (visited, lastLeaf, acc)))
           (\<lambda>st. iterate_entries lr fn b is (Some (EKey entry)) st)))"
  by pat_completeness auto
termination
  by (relation "measures [\<lambda>(lr, fn, b, is, lower, st). unat (Level b),
      \<lambda>(lr, fn, b, is, lower, st). length is]")
    (auto simp: readChildBlock_Inr(4) level_decreases res_simps)

declare iterate_entries.simps(2) [simp del]

definition iterateLeaves ::
    "level_reader option \<Rightarrow> (index_entry \<Rightarrow> 'a \<Rightarrow> 'a res) \<Rightarrow> index_block \<Rightarrow> 'a iteration \<Rightarrow>
     'a iteration res" where
  "iterateLeaves lr fn b st =
     rbind (validateBlockEntries b) (\<lambda>_. iterate_entries lr fn b [0..<block_NumEntries b] None st)"

definition IterateLeaves ::
    "index_block option \<Rightarrow> level_reader option \<Rightarrow> (index_entry \<Rightarrow> 'a \<Rightarrow> 'a res) \<Rightarrow> 'a \<Rightarrow> 'a res" where
  "IterateLeaves root lr fn acc =
     rbind (validateRootLevel root) (\<lambda>b.
     rbind (iterateLeaves lr fn b ({}, None, acc)) (\<lambda>(_, _, acc). Inr acc))"

text \<open>\<^verbatim>\<open>collectLeaves\<close> of \<^verbatim>\<open>internal/rfile/reader.go\<close>: the callback appends the entry.\<close>

definition collectLeaves :: "index_block option \<Rightarrow> level_reader option \<Rightarrow> index_entry list res" where
  "collectLeaves root lr = IterateLeaves root lr (\<lambda>e out. Inr (out @ [e])) []"

section \<open>Binary search\<close>

text \<open>The number of entries below the target, which is where the search stops.\<close>

definition below :: "key \<Rightarrow> index_entry list \<Rightarrow> nat" where
  "below target es = length (takeWhile (\<lambda>e. EKey e < target) es)"

lemma below_le: "below target es \<le> length es"
  by (simp add: below_def length_takeWhile_le)

lemma nth_below:
  assumes "sorted (map EKey es)" "i < length es"
  shows "EKey (es ! i) < target \<longleftrightarrow> i < below target es"
proof
  show "EKey (es ! i) < target" if "i < below target es"
    using that nth_mem [of i "takeWhile (\<lambda>e. EKey e < target) es"]
    by (auto simp: below_def takeWhile_nth dest!: set_takeWhileD)
  show "i < below target es" if "EKey (es ! i) < target"
  proof (rule ccontr)
    assume "\<not> i < below target es"
    then have *: "below target es \<le> i" "below target es < length es"
      using assms(2) by simp_all
    then have "\<not> EKey (es ! below target es) < target"
      unfolding below_def using nth_length_takeWhile by blast
    moreover have "EKey (es ! below target es) \<le> EKey (es ! i)"
      using sorted_nth_mono [OF assms(1), of "below target es" i] * assms(2) by simp
    ultimately show False
      using that by simp
  qed
qed

lemma Compare_nonneg: "0 \<le> Compare a b \<longleftrightarrow> b \<le> a"
  by (auto simp: Compare_order)

lemma search_loop_spec:
  assumes "block_entries b es" "sorted (map EKey es)"
    "i \<le> below target es" "below target es \<le> j" "j \<le> length es"
  shows "search_loop b target None i j = (below target es, None)"
  using assms(3-)
proof (induction "j - i" arbitrary: i j rule: less_induct)
  case less
  show ?case
  proof (cases "i < j")
    case True
    define h where "h = (i + j) div 2"
    have h: "i \<le> h" "h < j" "h < length es"
      using True less.prems by (auto simp: h_def)
    have "entries_KeyAt b h = Inr (EKey (es ! h))"
      using assms(1) h by (simp add: block_entries_def entries_KeyAt_At)
    moreover have "EKey (es ! h) < target \<longleftrightarrow> h < below target es"
      using nth_below assms(2) h(3) by blast
    ultimately show ?thesis
      using True h less.prems less.hyps [of h i] less.hyps [of j "h + 1"]
      by (auto simp: search_loop.simps [of b target None i j] Let_def not_less
          Compare_nonneg h_def [symmetric])
  next
    case False
    then show ?thesis
      using less.prems by (simp add: search_loop.simps)
  qed
qed

lemma binarySearchKey_spec:
  assumes "block_entries b es" "sorted (map EKey es)"
  shows "binarySearchKey b target = Inr (below target es)"
  using search_loop_spec [OF assms, of 0 target "length es"] below_le assms(1)
  by (simp add: binarySearchKey_def block_entries_def)

section \<open>The tree the walker accepts\<close>

text \<open>
  \<open>tree lr V b ls\<close>: below the block \<open>b\<close>, reached through blocks at the regions \<open>V\<close>, every
  child passes the checks of \<^verbatim>\<open>readChildBlock\<close> and \<open>ls\<close> are the leaf entries from left to
  right; \<open>subtrees\<close> is the same for the remaining entries of a block.
\<close>

inductive tree :: "level_reader option \<Rightarrow> region_key set \<Rightarrow> index_block \<Rightarrow> index_entry list \<Rightarrow> bool"
  and subtrees :: "level_reader option \<Rightarrow> region_key set \<Rightarrow> int32 \<Rightarrow> key option \<Rightarrow> index_entry list \<Rightarrow>
    index_entry list \<Rightarrow> bool"
  for lr where
  leaf_block: "\<lbrakk>validateBlockEntries b = Inr fl; block_entries b es; Level b = 0\<rbrakk> \<Longrightarrow> tree lr V b es"
| inner_block: "\<lbrakk>validateBlockEntries b = Inr fl; block_entries b es; Level b \<noteq> 0;
    subtrees lr V (Level b) None es ls; sorted (map EKey ls)\<rbrakk> \<Longrightarrow> tree lr V b ls"
| no_subtrees: "subtrees lr V l lower [] []"
| more_subtrees: "\<lbrakk>lr = Some rd; readChildBlock rd lev (region_of e) lower (EKey e) V = Inr (c, V');
    tree lr V' c ls; subtrees lr V lev (Some (EKey e)) es ls'\<rbrakk> \<Longrightarrow> subtrees lr V lev lower (e # es) (ls @ ls')"

lemma validate_sorted:
  assumes "validateBlockEntries b = Inr (f, l)" "block_entries b es"
  shows "sorted (map EKey es)" "l = (if es = [] then None else Some (EKey (last es)))"
  using validateBlockEntries_spec [OF assms(1)] block_entries_unique [OF assms(2)] by metis+

lemma sorted_le_last: "\<lbrakk>sorted (map f xs); x \<in> set xs\<rbrakk> \<Longrightarrow> f x \<le> f (last xs)"
  by (induction xs) (auto split: if_splits)

lemma tree_sorted: "tree lr V b ls \<Longrightarrow> sorted (map EKey ls)"
  by (erule tree.cases) (auto dest: validate_sorted(1))

text \<open>A block's last leaf carries the block's last key.\<close>

lemma tree_last:
  "tree lr V b ls \<Longrightarrow> validateBlockEntries b = Inr (f, l) \<Longrightarrow>
     l = (if ls = [] then None else Some (EKey (last ls)))"
  "subtrees lr V lev lower es ls \<Longrightarrow> (es = [] \<longleftrightarrow> ls = []) \<and> (es \<noteq> [] \<longrightarrow> EKey (last ls) = EKey (last es))"
proof (induction arbitrary: f l and rule: tree_subtrees.inducts)
  case (leaf_block b fl es V)
  then show ?case
    using validate_sorted(2) by blast
next
  case (inner_block b fl es V ls)
  then show ?case
    using validate_sorted(2) by (metis (no_types, lifting))
next
  case (more_subtrees rd lev e lower V c V' ls es ls')
  obtain first where "validateBlockEntries c = Inr (Some first, Some (EKey e))"
    using more_subtrees readChildBlock_Inr(5) by blast
  then show ?case
    using more_subtrees by (auto split: if_splits)
qed simp

lemma readChildBlock_mono:
  assumes "readChildBlock rd lev region lower upper V = Inr (c, V')" "W \<subseteq> V"
  shows "readChildBlock rd lev region lower upper W = Inr (c, insert (region_key region) W)"
proof -
  have "region_key region \<notin> W"
    using readChildBlock_Inr(1) [OF assms(1)] assms(2) by blast
  moreover obtain first where "validateBlockEntries c = Inr (Some first, Some upper)"
    "\<forall>l. lower = Some l \<longrightarrow> l \<le> first"
    using readChildBlock_Inr(5) [OF assms(1)] by blast
  ultimately show ?thesis
    using readChildBlock_Inr(3,4) [OF assms(1)]
    by (auto simp: readChildBlock_def Let_def Equal_iff not_less split: option.splits)
qed

lemma tree_mono:
  "tree lr V b ls \<Longrightarrow> W \<subseteq> V \<Longrightarrow> tree lr W b ls"
  "subtrees lr V lev lower es ls \<Longrightarrow> W \<subseteq> V \<Longrightarrow> subtrees lr W lev lower es ls"
proof (induction arbitrary: W and W rule: tree_subtrees.inducts)
  case (more_subtrees rd lev e lower V c V' ls es ls')
  then have c: "readChildBlock rd lev (region_of e) lower (EKey e) W = Inr (c, insert (region_key (region_of e)) W)"
    and V': "V' = insert (region_key (region_of e)) V"
    by (auto dest: readChildBlock_mono readChildBlock_Inr(2))
  have "insert (region_key (region_of e)) W \<subseteq> V'"
    using V' more_subtrees.prems by blast
  then show ?case
    using more_subtrees c by (intro tree_subtrees.more_subtrees [OF _ c]) auto
qed (auto intro: tree_subtrees.intros)

section \<open>What the traversals return\<close>

abbreviation app_leaf :: "index_entry \<Rightarrow> index_entry list \<Rightarrow> index_entry list res" where
  "app_leaf e out \<equiv> Inr (out @ [e])"

text \<open>
  A successful loop over the entries of a block: it appended the leaves below them, in key
  order and not below the last leaf seen before.
\<close>

definition appended :: "key option \<Rightarrow> index_entry list \<Rightarrow> key option \<Rightarrow> bool" where
  "appended l new l' \<longleftrightarrow> sorted (map EKey new) \<and> (\<forall>p. l = Some p \<longrightarrow> (\<forall>e\<in>set new. p \<le> EKey e)) \<and>
     l' = (if new = [] then l else Some (EKey (last new)))"

lemma appended_trans:
  assumes "appended l xs l'" "appended l' ys l''"
  shows "appended l (xs @ ys) l''"
proof (cases "xs = []")
  case True
  then show ?thesis
    using assms by (simp add: appended_def)
next
  case False
  have "EKey x \<le> EKey (last xs)" if "x \<in> set xs" for x
    using that assms(1) by (auto simp: appended_def intro: sorted_le_last)
  then have "EKey x \<le> EKey y" if "x \<in> set xs" "y \<in> set ys" for x y
    using that False assms unfolding appended_def by (metis order_trans)
  with False assms show ?thesis
    unfolding appended_def by (auto simp: sorted_append) (metis last_in_set order_trans)
qed

lemma iterate_entries_tree:
  "iterate_entries lr app_leaf b is lower (V, l, out) = Inr (V', l', out') \<Longrightarrow>
     \<exists>es new. map (entries_At b) is = map Inr es \<and> V \<subseteq> V' \<and> out' = out @ new \<and> appended l new l' \<and>
       (Level b = 0 \<longrightarrow> new = es) \<and> (Level b \<noteq> 0 \<longrightarrow> subtrees lr V (Level b) lower es new)"
proof (induction "unat (Level b)" arbitrary: b "is" lower V l out V' l' out' rule: less_induct)
  case less
  note IH = less.hyps
  show ?case
    using less.prems
  proof (induction "is" arbitrary: lower V l out)
    case Nil
    then show ?case
      by (auto simp: appended_def intro: no_subtrees)
  next
    case (Cons i "is")
    obtain e where e: "entries_At b i = Inr e"
      using Cons.prems by (auto simp: iterate_entries.simps(2) res_simps)
    show ?case
    proof (cases "Level b = 0")
      case True
      then have rest: "iterate_entries lr app_leaf b is (Some (EKey e))
          (insert (region_key (region_of e)) V, Some (EKey e), out @ [e]) = Inr (V', l', out')"
        and le: "\<forall>p. l = Some p \<longrightarrow> p \<le> EKey e"
        using Cons.prems e by (auto simp: iterate_entries.simps(2) not_less split: if_splits option.splits)
      obtain es where "map (entries_At b) is = map Inr es" "insert (region_key (region_of e)) V \<subseteq> V'"
        "out' = out @ [e] @ es" "appended (Some (EKey e)) es l'"
        using Cons.IH [OF rest] True by auto
      moreover from le this(4) have "appended l ([e] @ es) l'"
        by (intro appended_trans [of l "[e]" "Some (EKey e)"]) (auto simp: appended_def)
      ultimately show ?thesis
        using e True by (intro exI [of _ "e # es"]) auto
    next
      case False
      then obtain rd c W W1 l1 out1 where rd: "lr = Some rd"
        and c: "readChildBlock rd (Level b) (region_of e) lower (EKey e) V = Inr (c, W)"
        and child: "iterate_entries lr app_leaf c [0..<block_NumEntries c] None (W, l, out) = Inr (W1, l1, out1)"
        and rest: "iterate_entries lr app_leaf b is (Some (EKey e)) (W1, l1, out1) = Inr (V', l', out')"
        using Cons.prems e
        by (auto simp: iterate_entries.simps(2) res_simps split: option.splits)
      have W: "W = insert (region_key (region_of e)) V" and lev: "Level c = Level b - 1"
        using readChildBlock_Inr [OF c] by auto
      obtain es1 new1 where 1: "map (entries_At c) [0..<block_NumEntries c] = map Inr es1"
        "W \<subseteq> W1" "out1 = out @ new1" "appended l new1 l1" "Level c = 0 \<longrightarrow> new1 = es1"
        "Level c \<noteq> 0 \<longrightarrow> subtrees lr W (Level c) None es1 new1"
        using IH [OF _ child] level_decreases [OF False] lev by metis
      obtain es new where 2: "map (entries_At b) is = map Inr es" "W1 \<subseteq> V'" "out' = out1 @ new"
        "appended l1 new l'" "subtrees lr W1 (Level b) (Some (EKey e)) es new"
        using Cons.IH [OF rest] False by metis
      have "tree lr W c new1"
      proof (cases "Level c = 0")
        case True
        then show ?thesis
          using 1 readChildBlock_Inr(5) [OF c] by (auto simp: block_entries_map intro: leaf_block)
      next
        case F: False
        then show ?thesis
          using 1 readChildBlock_Inr(5) [OF c]
          by (auto simp: block_entries_map appended_def intro: inner_block)
      qed
      moreover have "subtrees lr V (Level b) (Some (EKey e)) es new"
        using tree_mono(2) [OF 2(5)] W 1(2) by blast
      ultimately have "subtrees lr V (Level b) lower (e # es) (new1 @ new)"
        using more_subtrees [OF rd c] by blast
      moreover have "appended l (new1 @ new) l'"
        using appended_trans 1(4) 2(4) by blast
      ultimately show ?thesis
        using e 1 2 W False by (intro exI [of _ "e # es"] exI [of _ "new1 @ new"]) auto
    qed
  qed
qed

lemma collectLeaves_tree:
  assumes "collectLeaves root lr = Inr ls"
  obtains b where "root = Some b" "validateRootLevel root = Inr b" "tree lr {} b ls"
proof -
  obtain b V' l' fl where b: "root = Some b" "validateRootLevel root = Inr b"
    "validateBlockEntries b = Inr fl"
    and it: "iterate_entries lr app_leaf b [0..<block_NumEntries b] None ({}, None, []) = Inr (V', l', ls)"
    using assms
    by (auto simp: collectLeaves_def IterateLeaves_def iterateLeaves_def res_simps validateRootLevel_def
        split: option.splits if_splits)
  obtain es where "block_entries b es" "sorted (map EKey ls)" "Level b = 0 \<longrightarrow> ls = es"
    "Level b \<noteq> 0 \<longrightarrow> subtrees lr {} (Level b) None es ls"
    using iterate_entries_tree [OF it] by (auto simp: block_entries_map appended_def)
  then have "tree lr {} b ls"
    using b(3) by (cases "Level b = 0") (auto intro: leaf_block inner_block)
  with b that show ?thesis
    by blast
qed

lemma below_Cons: "below target (e # es) = (if EKey e < target then Suc (below target es) else 0)"
  by (simp add: below_def)

lemma drop_below: "dropWhile (\<lambda>e. EKey e < target) es = drop (below target es) es"
  by (simp add: below_def dropWhile_eq_drop)

text \<open>
  The descent from a block: the first leaf below it whose key is not below the target. For
  the entries of a block, the child the search selects holds the first such leaf.
\<close>

lemma walker_loop_tree:
  "tree lr V b ls \<Longrightarrow> walker_loop lr target at_root b V =
     (case dropWhile (\<lambda>e. EKey e < target) ls of
        [] \<Rightarrow> if at_root then Inl ErrPastEnd
              else Inl (Errorf ''rfile/index: walker invariant violation: target past end at non-root level'')
      | e # _ \<Rightarrow> Inr e)"
  "subtrees lr V lev lower es ls \<Longrightarrow>
     (if below target es < length es then
        \<exists>rd c V' x xs. lr = Some rd \<and>
          readChildBlock rd lev (region_of (es ! below target es))
            (if below target es = 0 then lower else Some (EKey (es ! (below target es - 1))))
            (EKey (es ! below target es)) V = Inr (c, V') \<and>
          walker_loop lr target False c V' = Inr x \<and>
          dropWhile (\<lambda>e. EKey e < target) ls = x # xs
      else dropWhile (\<lambda>e. EKey e < target) ls = [])"
proof (induction arbitrary: at_root and rule: tree_subtrees.inducts)
  case (leaf_block b fl es V)
  obtain f l where "fl = (f, l)"
    by fastforce
  with leaf_block have s: "sorted (map EKey es)"
    using validate_sorted(1) by blast
  show ?case
  proof (cases "below target es < length es")
    case True
    then show ?thesis
      using leaf_block binarySearchKey_spec [OF _ s]
      by (simp add: walker_loop.simps drop_below block_entries_def Cons_nth_drop_Suc [symmetric])
  next
    case False
    then have "below target es = length es"
      using below_le [of target es] by simp
    then show ?thesis
      using leaf_block binarySearchKey_spec [OF _ s]
      by (simp add: walker_loop.simps drop_below block_entries_def)
  qed
next
  case (inner_block b fl es V ls)
  obtain f l where "fl = (f, l)"
    by fastforce
  with inner_block have s: "sorted (map EKey es)"
    using validate_sorted(1) by blast
  note search = binarySearchKey_spec [OF inner_block(2) s, of target]
  show ?case
  proof (cases "below target es < length es")
    case True
    then obtain rd c V' x xs where *: "lr = Some rd"
      "readChildBlock rd (Level b) (region_of (es ! below target es))
        (if below target es = 0 then None else Some (EKey (es ! (below target es - 1))))
        (EKey (es ! below target es)) V = Inr (c, V')"
      "walker_loop lr target False c V' = Inr x" "dropWhile (\<lambda>e. EKey e < target) ls = x # xs"
      using inner_block by auto
    have at: "entries_At b i = Inr (es ! i)" "entries_KeyAt b i = Inr (EKey (es ! i))" if "i < length es" for i
      using that inner_block(2) by (simp_all add: block_entries_def entries_KeyAt_At)
    have lower: "(if below target es > 0 then rbind (entries_KeyAt b (below target es - 1)) (\<lambda>k. Inr (Some k))
        else Inr None) = Inr (if below target es = 0 then None else Some (EKey (es ! (below target es - 1))))"
      using at(2) [of "below target es - 1"] True by simp
    show ?thesis
      using inner_block(1,2,3) * True
      by (simp add: walker_loop.simps [of "Some rd" target at_root b V] search at(1) lower
          block_entries_def del: One_nat_def)
  next
    case False
    then have "below target es = length es" "dropWhile (\<lambda>e. EKey e < target) ls = []"
      using below_le [of target es] inner_block by simp_all
    then show ?thesis
      using inner_block(1,2,3) search
      by (simp add: walker_loop.simps block_entries_def del: dropWhile_eq_Nil_conv)
  qed
next
  case (no_subtrees V lev lower)
  then show ?case
    by (simp add: below_def)
next
  case (more_subtrees rd lev e lower V c V' ls es ls')
  obtain first where "validateBlockEntries c = Inr (Some first, Some (EKey e))"
    using more_subtrees readChildBlock_Inr(5) by blast
  then have ls: "ls \<noteq> []" "EKey (last ls) = EKey e" "sorted (map EKey ls)"
    using more_subtrees tree_last(1) tree_sorted by (metis option.distinct(1) option.inject)+
  show ?case
  proof (cases "EKey e < target")
    case True
    have "EKey x < target" if "x \<in> set ls" for x
      using sorted_le_last [OF ls(3) that] ls(2) True by simp
    then have "dropWhile (\<lambda>e. EKey e < target) (ls @ ls') = dropWhile (\<lambda>e. EKey e < target) ls'"
      by (simp add: dropWhile_append)
    then show ?thesis
      using more_subtrees(5) True
      by (auto simp: below_Cons nth_Cons' split: if_splits)
  next
    case False
    have "\<not> (\<forall>x\<in>set ls. EKey x < target)"
      using ls False by (metis last_in_set)
    then obtain x xs where x: "dropWhile (\<lambda>e. EKey e < target) ls = x # xs"
      by (metis dropWhile_eq_Nil_conv neq_Nil_conv)
    then have "dropWhile (\<lambda>e. EKey e < target) (ls @ ls') = x # xs @ ls'"
      by (metis append_Cons dropWhile_append1 dropWhile_eq_Nil_conv list.distinct(1))
    with x False show ?thesis
      using more_subtrees by (auto simp: below_Cons)
  qed
qed

end
