(* ===== verification/BCFile_File.thy ===== *)
theory BCFile_File
  imports BCFile_Data "HOL-Library.AList"
begin

text \<open>
  The block container, package \<^verbatim>\<open>internal/rfile/bcfile\<close>: the trailer (\<^verbatim>\<open>footer.go\<close>,
  \<^verbatim>\<open>version.go\<close>, \<^verbatim>\<open>magic.go\<close>), the index of meta blocks and of data blocks
  (\<^verbatim>\<open>index.go\<close>), the writer (\<^verbatim>\<open>writer.go\<close>) and the reader (\<^verbatim>\<open>reader.go\<close>), and the codec
  tables of \<^verbatim>\<open>bcfile/block\<close> (\<^verbatim>\<open>compress.go\<close>, \<^verbatim>\<open>decompress.go\<close>). The compression
  algorithms are third-party code: a codec is a pair of functions, and \<^verbatim>\<open>none\<close> is the one
  that is defined here.

  The writer's output is a buffer in memory, which does not fail; a source is anything with
  \<^verbatim>\<open>ReadAt\<close>. The theory shows that a file the writer closed is accepted by \<^verbatim>\<open>NewReader\<close>,
  which finds every meta block, and that every block is read back from its region.
\<close>

section \<open>Strings and sources\<close>

definition str :: "string \<Rightarrow> bytes" where
  "str s = map of_char s"

type_synonym source = "int \<Rightarrow> nat \<Rightarrow> bytes res"

text \<open>\<^verbatim>\<open>ReadAt\<close> of a file held in memory (\<^verbatim>\<open>bytes.Reader\<close>).\<close>

definition bytes_ReadAt :: "bytes \<Rightarrow> source" where
  "bytes_ReadAt f off n =
     (if off < 0 then Inl (Errorf ''bytes.Reader.ReadAt: negative offset'')
      else if off \<ge> int (length f) then Inl EOF
      else if nat off + n \<le> length f then Inr (take n (drop (nat off) f))
      else Inl EOF)"

section \<open>Trailer\<close>

definition MagicBytes :: bytes where
  "MagicBytes = [0xd1, 0x11, 0xd3, 0x68, 0x91, 0xb5, 0xd7, 0xb6,
                 0x39, 0xdf, 0x41, 0x40, 0x92, 0xba, 0xe1, 0x50]"

definition bc_ErrBadMagic :: go_err where
  "bc_ErrBadMagic = Errorf ''bcfile: not a valid BCFile (magic mismatch)''"

definition bc_ErrUnsupportedVersion :: go_err where
  "bc_ErrUnsupportedVersion = Errorf ''bcfile: unsupported version''"

definition ErrFileTooShort :: go_err where
  "ErrFileTooShort = Errorf ''bcfile: file too short for a valid BCFile trailer''"

definition ErrInvalidFooterOffsets :: go_err where
  "ErrInvalidFooterOffsets = Errorf ''bcfile: invalid footer offsets''"

record version =
  Major :: "16 word"
  Minor :: "16 word"

definition APIVersion3 :: version where "APIVersion3 = \<lparr>Major = 3, Minor = 0\<rparr>"
definition APIVersion1 :: version where "APIVersion1 = \<lparr>Major = 1, Minor = 0\<rparr>"

definition CompatibleWith :: "version \<Rightarrow> version \<Rightarrow> bool" where
  "CompatibleWith v other \<longleftrightarrow> Major v = Major other"

definition CheckSupported :: "version \<Rightarrow> go_err option" where
  "CheckSupported v =
     (if CompatibleWith v APIVersion3 \<or> CompatibleWith v APIVersion1 then None
      else Some (Wrap ''version'' bc_ErrUnsupportedVersion))"

definition WriteVersion :: "version \<Rightarrow> bytes" where
  "WriteVersion v = be_bytes 2 (unat (Major v)) @ be_bytes 2 (unat (Minor v))"

definition FooterMinSizeV3 :: int where "FooterMinSizeV3 = 16 + 4 + 16"
definition FooterMinSizeV1 :: int where "FooterMinSizeV1 = 16 + 4 + 8"

record footer =
  FVersion :: version
  OffsetIndexMeta :: int64
  OffsetCryptoParams :: int64

definition validateFooterOffsets :: "footer \<Rightarrow> int \<Rightarrow> go_err option" where
  "validateFooterOffsets f fileLength =
     (if sint (OffsetIndexMeta f) < 0 then Some (Wrap ''MetaIndex offset is negative'' ErrInvalidFooterOffsets)
      else if CompatibleWith (FVersion f) APIVersion3 then
        (if sint (OffsetCryptoParams f) < 0
         then Some (Wrap ''crypto params offset is negative'' ErrInvalidFooterOffsets)
         else if sint (OffsetIndexMeta f) \<ge> sint (OffsetCryptoParams f)
         then Some (Wrap ''MetaIndex offset must precede crypto params offset'' ErrInvalidFooterOffsets)
         else if sint (OffsetCryptoParams f) > fileLength - FooterMinSizeV3
         then Some (Wrap ''crypto params offset exceeds trailer start'' ErrInvalidFooterOffsets)
         else None)
      else if sint (OffsetIndexMeta f) \<ge> fileLength - FooterMinSizeV1
      then Some (Wrap ''MetaIndex offset must precede trailer start'' ErrInvalidFooterOffsets)
      else None)"

definition ReadFooter :: "source \<Rightarrow> int \<Rightarrow> footer res" where
  "ReadFooter src fileLength =
     (if fileLength < FooterMinSizeV1 then Inl (Wrap ''file'' ErrFileTooShort)
      else
      let tailStart = fileLength - 16 - 4 in
      rbind (rwrap ''bcfile: read trailer (version+magic)'' (src tailStart 20)) (\<lambda>tail.
      let versionBytes = take 4 tail; magicBytes = drop 4 tail in
      if \<not> bytes_Equal magicBytes MagicBytes then Inl bc_ErrBadMagic
      else
      let version = \<lparr>Major = of_nat (be_val (take 2 versionBytes)),
                     Minor = of_nat (be_val (drop 2 versionBytes))\<rparr> in
      case CheckSupported version of
        Some e \<Rightarrow> Inl e
      | None \<Rightarrow>
          if CompatibleWith version APIVersion3 then
            (if fileLength < FooterMinSizeV3 then Inl (Wrap ''v3 file'' ErrFileTooShort)
             else rbind (rwrap ''bcfile: read v3 offsets'' (src (tailStart - 16) 16)) (\<lambda>offBuf.
               let f = \<lparr>FVersion = version, OffsetIndexMeta = of_nat (be_val (take 8 offBuf)),
                        OffsetCryptoParams = of_nat (be_val (drop 8 offBuf))\<rparr> in
               case validateFooterOffsets f fileLength of Some e \<Rightarrow> Inl e | None \<Rightarrow> Inr f))
          else if CompatibleWith version APIVersion1 then
            rbind (rwrap ''bcfile: read v1 offset'' (src (tailStart - 8) 8)) (\<lambda>offBuf.
              let f = \<lparr>FVersion = version, OffsetIndexMeta = of_nat (be_val offBuf),
                       OffsetCryptoParams = 0\<rparr> in
              case validateFooterOffsets f fileLength of Some e \<Rightarrow> Inl e | None \<Rightarrow> Inr f)
          else Inl (Wrap ''unhandled version'' bc_ErrUnsupportedVersion)))"

definition WriteFooter :: "footer \<Rightarrow> bytes res" where
  "WriteFooter f =
     (if \<not> CompatibleWith (FVersion f) APIVersion3 then Inl (Errorf ''WriteFooter only supports v3'')
      else Inr (be_bytes 8 (unat (OffsetIndexMeta f)) @ be_bytes 8 (unat (OffsetCryptoParams f)) @
                WriteVersion (FVersion f) @ MagicBytes))"

section \<open>Meta index and data index\<close>

definition DataIndexBlockName :: bytes where "DataIndexBlockName = str ''BCFile.index''"
definition metaNamePrefix :: bytes where "metaNamePrefix = str ''data:''"
definition CodecNone :: bytes where "CodecNone = str ''none''"
definition maxMetaIndexEntries :: int where "maxMetaIndexEntries = 2 ^ 16"
definition maxDataIndexBlocks :: int where "maxDataIndexBlocks = 2 ^ 20"

definition ErrMissingDataPrefix :: go_err where
  "ErrMissingDataPrefix = Errorf ''bcfile: meta entry missing 'data:' prefix''"

record meta_entry =
  MName :: bytes
  CompressionAlgo :: bytes
  MRegion :: block_region

text \<open>The Go map from names to entries is an association list without duplicate names.\<close>

type_synonym meta_index = "(bytes \<times> meta_entry) list"

definition readMetaIndexEntry :: "bytes \<Rightarrow> (meta_entry \<times> bytes) res" where
  "readMetaIndexEntry r =
     rbind (rwrap ''entry name'' (bc_ReadString r)) (\<lambda>(full, r).
     case full of
       None \<Rightarrow> Inl (Errorf ''bcfile: null meta entry name'')
     | Some full \<Rightarrow>
         if take (length metaNamePrefix) full \<noteq> metaNamePrefix
         then Inl (Wrap ''name'' ErrMissingDataPrefix)
         else
         rbind (rwrap ''compression name'' (bc_ReadString r)) (\<lambda>(algo, r).
         case algo of
           None \<Rightarrow> Inl (Errorf ''bcfile: null compression algorithm'')
         | Some algo \<Rightarrow>
             rbind (ReadBlockRegion r) (\<lambda>(region, r).
             Inr (\<lparr>MName = drop (length metaNamePrefix) full, CompressionAlgo = algo,
                   MRegion = region\<rparr>, r))))"

fun read_meta_entries :: "nat \<Rightarrow> meta_index \<Rightarrow> bytes \<Rightarrow> (meta_index \<times> bytes) res" where
  "read_meta_entries 0 m r = Inr (m, r)"
| "read_meta_entries (Suc n) m r =
     rbind (rwrap ''MetaIndex entry'' (readMetaIndexEntry r)) (\<lambda>(entry, r).
     if map_of m (MName entry) \<noteq> None then Inl (Errorf ''bcfile: duplicate MetaIndex entry'')
     else read_meta_entries n (m @ [(MName entry, entry)]) r)"

definition ReadMetaIndex :: "bytes \<Rightarrow> meta_index res" where
  "ReadMetaIndex r =
     rbind (rwrap ''MetaIndex count'' (bc_ReadVInt r)) (\<lambda>(count, _, r).
     if sint count < 0 then Inl (Errorf ''bcfile: negative MetaIndex count'')
     else if sint count > maxMetaIndexEntries
     then Inl (Errorf ''bcfile: MetaIndex entry count exceeds limit'')
     else rbind (read_meta_entries (nat (sint count)) [] r) (\<lambda>(m, _). Inr m))"

definition write_meta_entry :: "meta_entry \<Rightarrow> bytes res" where
  "write_meta_entry e =
     rbind (bc_WriteString (metaNamePrefix @ MName e)) (\<lambda>a.
     rbind (bc_WriteString (CompressionAlgo e)) (\<lambda>b.
     rbind (WriteBlockRegion (MRegion e)) (\<lambda>c.
     Inr (a @ b @ c))))"

fun write_meta_entries :: "meta_index \<Rightarrow> bytes list \<Rightarrow> bytes res" where
  "write_meta_entries m [] = Inr []"
| "write_meta_entries m (name # names) =
     rbind (write_meta_entry (the (map_of m name))) (\<lambda>b.
     rbind (write_meta_entries m names) (\<lambda>bs. Inr (b @ bs)))"

definition WriteMetaIndex :: "meta_index \<Rightarrow> bytes res" where
  "WriteMetaIndex m =
     rbind (bc_WriteVInt (of_nat (length m))) (\<lambda>n.
     rbind (write_meta_entries m (sort (map fst m))) (\<lambda>bs. Inr (n @ bs)))"

record data_index =
  DefaultCompression :: bytes
  Blocks :: "block_region list"

fun read_regions :: "nat \<Rightarrow> bytes \<Rightarrow> (block_region list \<times> bytes) res" where
  "read_regions 0 r = Inr ([], r)"
| "read_regions (Suc n) r =
     rbind (rwrap ''DataIndex block'' (ReadBlockRegion r)) (\<lambda>(b, r).
     rbind (read_regions n r) (\<lambda>(bs, r). Inr (b # bs, r)))"

definition ReadDataIndex :: "bytes \<Rightarrow> data_index res" where
  "ReadDataIndex r =
     rbind (rwrap ''DataIndex compression name'' (bc_ReadString r)) (\<lambda>(algo, r).
     case algo of
       None \<Rightarrow> Inl (Errorf ''bcfile: null DataIndex compression algorithm'')
     | Some algo \<Rightarrow>
         rbind (rwrap ''DataIndex block count'' (bc_ReadVInt r)) (\<lambda>(count, _, r).
         if sint count < 0 then Inl (Errorf ''bcfile: negative DataIndex block count'')
         else if sint count > maxDataIndexBlocks
         then Inl (Errorf ''bcfile: DataIndex block count exceeds limit'')
         else rbind (read_regions (nat (sint count)) r) (\<lambda>(blocks, _).
           Inr \<lparr>DefaultCompression = algo, Blocks = blocks\<rparr>)))"

fun write_regions :: "block_region list \<Rightarrow> bytes res" where
  "write_regions [] = Inr []"
| "write_regions (b # bs) =
     rbind (rwrap ''DataIndex block'' (WriteBlockRegion b)) (\<lambda>x.
     rbind (write_regions bs) (\<lambda>xs. Inr (x @ xs)))"

definition WriteDataIndex :: "data_index \<Rightarrow> bytes res" where
  "WriteDataIndex di =
     rbind (bc_WriteString (DefaultCompression di)) (\<lambda>a.
     rbind (bc_WriteVInt (of_nat (length (Blocks di)))) (\<lambda>n.
     rbind (write_regions (Blocks di)) (\<lambda>bs. Inr (a @ n @ bs))))"

section \<open>The reader\<close>

definition maxMetaIndexRegionSize :: int where "maxMetaIndexRegionSize = 64 * 1024 * 1024"

definition ErrNoSuchMetaBlock :: go_err where
  "ErrNoSuchMetaBlock = Errorf ''bcfile: no such meta block''"

definition ErrMetaIndexTooLarge :: go_err where
  "ErrMetaIndexTooLarge = Errorf ''bcfile: MetaIndex region too large''"

record bc_reader =
  Source :: source
  FileLength :: int64
  Footer :: footer
  MetaIndex :: meta_index

definition metaIndexUpperBound :: "footer \<Rightarrow> int \<Rightarrow> int" where
  "metaIndexUpperBound f fileLength =
     (if CompatibleWith (FVersion f) APIVersion3 then sint (OffsetCryptoParams f)
      else fileLength - FooterMinSizeV1)"

text \<open>Entries sorted by offset, then by name; neighbours must not overlap.\<close>

fun no_overlap :: "meta_entry list \<Rightarrow> bool" where
  "no_overlap (a # b # es) \<longleftrightarrow>
     \<not> sint (Offset (MRegion b)) < sint (Offset (MRegion a) + CompressedSize (MRegion a)) \<and>
     no_overlap (b # es)"
| "no_overlap es \<longleftrightarrow> True"

definition validateMetaIndexRegions :: "meta_index \<Rightarrow> go_err option" where
  "validateMetaIndexRegions mi =
     (if no_overlap (sort_key (\<lambda>e. (sint (Offset (MRegion e)), MName e)) (map snd mi)) then None
      else Some (Errorf ''bcfile: MetaIndex entries overlap''))"

text \<open>The loop over the entries, in some order, that validates their regions.\<close>

fun check_regions :: "meta_index \<Rightarrow> int64 \<Rightarrow> go_err option" where
  "check_regions [] limit = None"
| "check_regions (e # es) limit =
     (case ValidateBlockRegion (MRegion (snd e)) limit of
        Some x \<Rightarrow> Some (Wrap ''bcfile: MetaIndex entry'' x)
      | None \<Rightarrow> check_regions es limit)"

definition bc_NewReader :: "source \<Rightarrow> int64 \<Rightarrow> bc_reader res" where
  "bc_NewReader src fileLength =
     rbind (ReadFooter src (sint fileLength)) (\<lambda>f.
     let miEnd = metaIndexUpperBound f (sint fileLength);
         miLen = miEnd - sint (OffsetIndexMeta f)
     in if miLen \<le> 0 then Inl (Errorf ''bcfile: MetaIndex region empty'')
        else if miLen > maxMetaIndexRegionSize then Inl (Wrap ''size'' ErrMetaIndexTooLarge)
        else
        rbind (rwrap ''bcfile: read MetaIndex region'' (src (sint (OffsetIndexMeta f)) (nat miLen))) (\<lambda>miBuf.
        rbind (ReadMetaIndex miBuf) (\<lambda>mi.
        case check_regions mi (OffsetIndexMeta f) of
          Some e \<Rightarrow> Inl e
        | None \<Rightarrow>
            (case validateMetaIndexRegions mi of
               Some e \<Rightarrow> Inl e
             | None \<Rightarrow> Inr \<lparr>Source = src, FileLength = fileLength, Footer = f, MetaIndex = mi\<rparr>))))"

fun min_offset :: "int64 \<Rightarrow> meta_index \<Rightarrow> int64" where
  "min_offset e [] = e"
| "min_offset e (m # ms) =
     min_offset (if sint (Offset (MRegion (snd m))) < sint e then Offset (MRegion (snd m)) else e) ms"

definition DataRegionEnd :: "bc_reader \<Rightarrow> int64" where
  "DataRegionEnd r = min_offset (OffsetIndexMeta (Footer r)) (MetaIndex r)"

definition MetaBlockEntry :: "bc_reader \<Rightarrow> bytes \<Rightarrow> meta_entry res" where
  "MetaBlockEntry r name =
     (case map_of (MetaIndex r) name of
        None \<Rightarrow> Inl (Wrap ''name'' ErrNoSuchMetaBlock)
      | Some e \<Rightarrow> Inr e)"

section \<open>Codecs\<close>

definition ErrUnsupportedCodec :: go_err where
  "ErrUnsupportedCodec = Errorf ''block: unsupported codec''"

definition ErrSizeMismatch :: go_err where
  "ErrSizeMismatch = Errorf ''block: decompressed size mismatch''"

type_synonym compressor = "bytes \<rightharpoonup> (bytes \<Rightarrow> bytes res)"
type_synonym decompressor = "bytes \<rightharpoonup> (bytes \<Rightarrow> int64 \<Rightarrow> bytes res)"

definition Encode :: "compressor \<Rightarrow> bytes \<Rightarrow> bytes \<Rightarrow> bytes res" where
  "Encode c raw codec =
     (if int (length raw) > MaxRawBlockSize then Inl (Errorf ''block: raw size exceeds limit'')
      else case c codec of
        None \<Rightarrow> Inl (Wrap ''codec'' ErrUnsupportedCodec)
      | Some fn \<Rightarrow>
          rbind (fn raw) (\<lambda>compressed.
          if int (length compressed) > MaxCompressedBlockSize
          then Inl (Errorf ''block: compressed size exceeds limit'')
          else Inr compressed))"

definition dec_Block :: "decompressor \<Rightarrow> source \<Rightarrow> block_region \<Rightarrow> bytes \<Rightarrow> bytes res" where
  "dec_Block d src region codec =
     (if sint (CompressedSize region) < 0 then Inl (Errorf ''block: negative CompressedSize'')
      else if sint (RawSize region) < 0 then Inl (Errorf ''block: negative RawSize'')
      else if sint (CompressedSize region) > MaxCompressedBlockSize
      then Inl (Errorf ''block: CompressedSize exceeds limit'')
      else if sint (RawSize region) > MaxRawBlockSize then Inl (Errorf ''block: RawSize exceeds limit'')
      else case d codec of
        None \<Rightarrow> Inl (Wrap ''codec'' ErrUnsupportedCodec)
      | Some fn \<Rightarrow>
          rbind (if sint (CompressedSize region) > 0
                 then rwrap ''block: read compressed bytes''
                   (src (sint (Offset region)) (nat (sint (CompressedSize region))))
                 else Inr [])
            (\<lambda>compressed. fn compressed (RawSize region)))"

definition encodeNone :: "bytes \<Rightarrow> bytes res" where
  "encodeNone raw = Inr raw"

definition decompressNone :: "bytes \<Rightarrow> int64 \<Rightarrow> bytes res" where
  "decompressNone compressed rawSize =
     (if int (length compressed) \<noteq> sint rawSize then Inl (Wrap ''codec=none'' ErrSizeMismatch)
      else Inr compressed)"

section \<open>The writer\<close>

text \<open>The number of bytes written so far is the counter of \<^verbatim>\<open>countingWriter\<close>.\<close>

record bc_writer =
  wout :: bytes
  wcodec :: bytes
  wblocks :: "block_region list"
  wmeta :: meta_index
  wclosed :: bool

definition bc_NewWriter :: "bytes \<Rightarrow> bc_writer" where
  "bc_NewWriter codec = \<lparr>wout = [], wcodec = codec, wblocks = [], wmeta = [], wclosed = False\<rparr>"

definition written :: "bc_writer \<Rightarrow> int64" where
  "written w = of_nat (length (wout w))"

definition AppendDataBlock :: "bytes \<Rightarrow> int64 \<Rightarrow> bc_writer \<Rightarrow> (block_region \<times> bc_writer) res" where
  "AppendDataBlock compressed rawSize w =
     (if wclosed w then Inl (Errorf ''bcfile: writer closed'')
      else if sint rawSize < 0 then Inl (Errorf ''bcfile: negative rawSize'')
      else
        let region = \<lparr>Offset = written w, CompressedSize = of_nat (length compressed), RawSize = rawSize\<rparr>
        in Inr (region, w\<lparr>wout := wout w @ compressed, wblocks := wblocks w @ [region]\<rparr>))"

definition AppendMetaBlock ::
    "bytes \<Rightarrow> bytes \<Rightarrow> bytes \<Rightarrow> int64 \<Rightarrow> bc_writer \<Rightarrow> (block_region \<times> bc_writer) res" where
  "AppendMetaBlock name codec compressed rawSize w =
     (if wclosed w then Inl (Errorf ''bcfile: writer closed'')
      else if map_of (wmeta w) name \<noteq> None then Inl (Errorf ''bcfile: meta block already exists'')
      else if sint rawSize < 0 then Inl (Errorf ''bcfile: negative rawSize'')
      else
        let region = \<lparr>Offset = written w, CompressedSize = of_nat (length compressed), RawSize = rawSize\<rparr>
        in Inr (region, w\<lparr>wout := wout w @ compressed,
             wmeta := AList.update name \<lparr>MName = name, CompressionAlgo = codec, MRegion = region\<rparr> (wmeta w)\<rparr>))"

definition bc_Close :: "bc_writer \<Rightarrow> bc_writer res" where
  "bc_Close w =
     (if wclosed w then Inr w
      else
      let w = w\<lparr>wclosed := True\<rparr> in
      rbind (rwrap ''bcfile.Close: encode DataIndex''
          (WriteDataIndex \<lparr>DefaultCompression = wcodec w, Blocks = wblocks w\<rparr>)) (\<lambda>di.
      let diOffset = written w;
          w = w\<lparr>wout := wout w @ di,
                wmeta := AList.update DataIndexBlockName
                  \<lparr>MName = DataIndexBlockName, CompressionAlgo = CodecNone,
                   MRegion = \<lparr>Offset = diOffset, CompressedSize = of_nat (length di),
                              RawSize = of_nat (length di)\<rparr>\<rparr> (wmeta w)\<rparr>;
          metaIndexOffset = written w
      in rbind (rwrap ''bcfile.Close: write MetaIndex'' (WriteMetaIndex (wmeta w))) (\<lambda>mi.
      let w = w\<lparr>wout := wout w @ mi\<rparr>;
          cryptoOffset = written w;
          w = w\<lparr>wout := wout w @ replicate 8 0\<rparr>
      in rbind (rwrap ''bcfile.Close: write trailer''
          (WriteFooter \<lparr>FVersion = APIVersion3, OffsetIndexMeta = metaIndexOffset,
                        OffsetCryptoParams = cryptoOffset\<rparr>)) (\<lambda>tr.
      Inr (w\<lparr>wout := wout w @ tr\<rparr>)))))"

section \<open>Reading back the indexes\<close>

definition entry_fits :: "meta_entry \<Rightarrow> bool" where
  "entry_fits e \<longleftrightarrow> length (MName e) < 2 ^ 30 \<and> length (CompressionAlgo e) < 2 ^ 31"

lemma length_metaNamePrefix: "length metaNamePrefix = 5"
  by (simp add: metaNamePrefix_def str_def)

lemma readMetaIndexEntry_write:
  assumes "write_meta_entry e = Inr bs" "entry_fits e"
  shows "readMetaIndexEntry (bs @ r) = Inr (e, r)"
proof -
  obtain a b c where *: "bc_WriteString (metaNamePrefix @ MName e) = Inr a"
    "bc_WriteString (CompressionAlgo e) = Inr b" "WriteBlockRegion (MRegion e) = Inr c" "bs = a @ b @ c"
    using assms(1) by (auto simp: write_meta_entry_def res_simps)
  then show ?thesis
    using bc_ReadString_WriteString [OF *(1)] bc_ReadString_WriteString [OF *(2)] assms(2)
    by (simp add: readMetaIndexEntry_def ReadBlockRegion_WriteBlockRegion entry_fits_def length_metaNamePrefix)
qed

lemma read_meta_entries_write:
  assumes "write_meta_entries m names = Inr bs" "distinct (map fst acc @ names)"
    "\<forall>n\<in>set names. \<exists>e. map_of m n = Some e \<and> MName e = n \<and> entry_fits e"
  shows "read_meta_entries (length names) acc (bs @ r) =
    Inr (acc @ map (\<lambda>n. (n, the (map_of m n))) names, r)"
  using assms
proof (induction names arbitrary: acc bs)
  case (Cons n names)
  obtain b bs' where b: "write_meta_entry (the (map_of m n)) = Inr b" "write_meta_entries m names = Inr bs'"
    "bs = b @ bs'"
    using Cons.prems(1) by (auto simp: res_simps)
  obtain e where e: "map_of m n = Some e" "MName e = n" "entry_fits e"
    using Cons.prems(3) by auto
  have "map_of acc n = None"
    using Cons.prems(2) by (auto simp: map_of_eq_None_iff)
  then show ?case
    using Cons.IH [OF b(2), of "acc @ [(n, e)]"] Cons.prems(2,3) readMetaIndexEntry_write [of e b] b(1,3) e
    by simp force
qed simp

definition meta_fits :: "meta_index \<Rightarrow> bool" where
  "meta_fits m \<longleftrightarrow> distinct (map fst m) \<and> int (length m) \<le> maxMetaIndexEntries \<and>
     (\<forall>(n, e)\<in>set m. MName e = n \<and> entry_fits e)"

lemma ReadMetaIndex_write:
  assumes "WriteMetaIndex m = Inr bs" "meta_fits m"
  shows "ReadMetaIndex (bs @ r) = Inr (map (\<lambda>n. (n, the (map_of m n))) (sort (map fst m)))"
proof -
  obtain n es where n: "bc_WriteVInt (of_nat (length m)) = Inr n"
    "write_meta_entries m (sort (map fst m)) = Inr es" "bs = n @ es"
    using assms(1) by (auto simp: WriteMetaIndex_def res_simps)
  have len: "sint (of_nat (length m) :: int32) = int (length m)"
    using assms(2) by (intro sint_of_nat_32) (auto simp: meta_fits_def maxMetaIndexEntries_def)
  have "read_meta_entries (length (sort (map fst m))) [] (es @ r) =
      Inr ([] @ map (\<lambda>n. (n, the (map_of m n))) (sort (map fst m)), r)"
    using assms(2) by (intro read_meta_entries_write [OF n(2)]) (force simp: meta_fits_def)+
  then show ?thesis
    using bc_ReadVInt_WriteVInt [OF n(1)] n(3) len assms(2)
    by (simp add: ReadMetaIndex_def meta_fits_def)
qed

lemma read_regions_write:
  "write_regions bs = Inr x \<Longrightarrow> read_regions (length bs) (x @ r) = Inr (bs, r)"
  by (induction bs arbitrary: x) (auto simp: res_simps ReadBlockRegion_WriteBlockRegion)

lemma ReadDataIndex_write:
  assumes "WriteDataIndex di = Inr bs" "length (DefaultCompression di) < 2 ^ 31"
    "int (length (Blocks di)) \<le> maxDataIndexBlocks"
  shows "ReadDataIndex (bs @ r) = Inr di"
proof -
  obtain a n x where *: "bc_WriteString (DefaultCompression di) = Inr a"
    "bc_WriteVInt (of_nat (length (Blocks di))) = Inr n" "write_regions (Blocks di) = Inr x" "bs = a @ n @ x"
    using assms(1) by (auto simp: WriteDataIndex_def res_simps)
  have "sint (of_nat (length (Blocks di)) :: int32) = int (length (Blocks di))"
    using assms(3) by (intro sint_of_nat_32) (auto simp: maxDataIndexBlocks_def)
  then show ?thesis
    using bc_ReadString_WriteString [OF *(1) assms(2)] bc_ReadVInt_WriteVInt [OF *(2)]
      read_regions_write [OF *(3)] assms(3) *(4)
    by (simp add: ReadDataIndex_def)
qed

lemma bytes_ReadAt_middle:
  "\<lbrakk>f = pre @ b @ post; off = int (length pre); n = length b; b \<noteq> []\<rbrakk> \<Longrightarrow> bytes_ReadAt f off n = Inr b"
  by (cases b) (simp_all add: bytes_ReadAt_def)

lemma be_val_be_bytes_2 [simp]: "be_val (be_bytes 2 (unat (v :: 16 word))) = unat v"
proof -
  have "unat v < 2 ^ LENGTH(16)" by (rule unsigned_less)
  then show ?thesis by (simp add: be_val_be_bytes)
qed

lemma length_WriteVersion [simp]: "length (WriteVersion v) = 4"
  by (simp add: WriteVersion_def)

lemma length_MagicBytes [simp]: "length MagicBytes = 16"
  by (simp add: MagicBytes_def)

lemma MagicBytes_nonempty: "MagicBytes \<noteq> []"
  by (simp add: MagicBytes_def)

lemma ReadFooter_write:
  assumes w: "WriteFooter ft = Inr tr" and v: "FVersion ft = APIVersion3"
    and f: "f = body @ tr" and ok: "validateFooterOffsets ft (int (length f)) = None"
  shows "ReadFooter (bytes_ReadAt f) (int (length f)) = Inr ft"
proof -
  let ?offs = "be_bytes 8 (unat (OffsetIndexMeta ft)) @ be_bytes 8 (unat (OffsetCryptoParams ft))"
  have tr: "tr = ?offs @ WriteVersion (FVersion ft) @ MagicBytes"
    using w by (simp add: WriteFooter_def v CompatibleWith_def APIVersion3_def)
  have 1: "bytes_ReadAt f (int (length f) - 20) 20 = Inr (WriteVersion (FVersion ft) @ MagicBytes)"
    by (rule bytes_ReadAt_middle [of _ "body @ ?offs" _ "[]"]) (simp_all add: f tr MagicBytes_nonempty)
  have 2: "bytes_ReadAt f (int (length f) - 36) 16 = Inr ?offs"
    by (rule bytes_ReadAt_middle [of _ body _ "WriteVersion (FVersion ft) @ MagicBytes"])
      (simp_all add: f tr flip: length_0_conv)
  have ver: "\<lparr>Major = of_nat (be_val (take 2 (WriteVersion (FVersion ft)))),
      Minor = of_nat (be_val (drop 2 (WriteVersion (FVersion ft))))\<rparr> = FVersion ft"
    by (simp add: WriteVersion_def)
  have ft: "\<lparr>FVersion = FVersion ft, OffsetIndexMeta = OffsetIndexMeta ft,
      OffsetCryptoParams = OffsetCryptoParams ft\<rparr> = ft"
    by simp
  have len: "int (length f) \<ge> 36"
    by (simp add: f tr)
  have "CompatibleWith (FVersion ft) APIVersion3" "CheckSupported (FVersion ft) = None"
    by (simp_all add: v CompatibleWith_def CheckSupported_def)
  then show ?thesis
    using len 1 2 ok ver
    by (simp add: ReadFooter_def FooterMinSizeV1_def FooterMinSizeV3_def bytes_Equal_def Let_def ft)
qed

section \<open>A closed file is read back\<close>

lemma length_write_cases:
  "length (write_case4 x n) \<le> 9 \<and> write_case4 x n \<noteq> []"
  "length (write_case3 x n) \<le> 9 \<and> write_case3 x n \<noteq> []"
  "length (write_case2 x n) \<le> 9 \<and> write_case2 x n \<noteq> []"
  by (simp_all add: write_case2_def write_case3_def write_case4_def)

lemma length_bc_WriteVLong: "bc_WriteVLong n = Inr bs \<Longrightarrow> bs \<noteq> [] \<and> length bs \<le> 9"
  by (auto simp: bc_WriteVLong_def Let_def length_write_cases split: if_splits)

lemma length_WriteBlockRegion: "WriteBlockRegion br = Inr bs \<Longrightarrow> length bs \<le> 27"
  by (auto simp: WriteBlockRegion_def res_simps dest!: length_bc_WriteVLong)

lemma length_bc_WriteString: "bc_WriteString s = Inr bs \<Longrightarrow> length bs \<le> 9 + length s"
  by (auto simp: bc_WriteString_def bc_WriteVInt_def res_simps dest!: length_bc_WriteVLong)

lemma length_write_regions: "write_regions bs = Inr x \<Longrightarrow> length x \<le> 27 * length bs"
  by (induction bs arbitrary: x) (auto simp: res_simps dest!: length_WriteBlockRegion)

lemma length_WriteDataIndex:
  "WriteDataIndex di = Inr bs \<Longrightarrow>
     bs \<noteq> [] \<and> length bs \<le> 18 + length (DefaultCompression di) + 27 * length (Blocks di)"
  by (auto simp: WriteDataIndex_def bc_WriteVInt_def res_simps
      dest!: length_bc_WriteString length_bc_WriteVLong length_write_regions)

lemma length_write_meta_entry:
  "write_meta_entry e = Inr bs \<Longrightarrow> length bs \<le> 50 + length (MName e) + length (CompressionAlgo e)"
  by (auto simp: write_meta_entry_def res_simps length_metaNamePrefix
      dest!: length_bc_WriteString length_WriteBlockRegion)

lemma length_write_meta_entries:
  assumes "write_meta_entries m names = Inr bs"
    "\<forall>n\<in>set names. length (MName (the (map_of m n))) + length (CompressionAlgo (the (map_of m n))) \<le> k"
  shows "length bs \<le> (50 + k) * length names"
  using assms
proof (induction names arbitrary: bs)
  case (Cons n names)
  then show ?case
    by (fastforce simp: res_simps dest!: length_write_meta_entry)
qed simp

definition region_end :: "block_region \<Rightarrow> int" where
  "region_end r = sint (Offset r) + sint (CompressedSize r)"

text \<open>
  The meta blocks of a writer: named after their keys, at or after \<open>L\<close>, inside the \<open>n\<close>
  bytes written so far, in the order they were written.
\<close>

definition small_entry :: "meta_entry \<Rightarrow> bool" where
  "small_entry e \<longleftrightarrow> length (MName e) + length (CompressionAlgo e) \<le> 1000"

definition in_bounds :: "int \<Rightarrow> int \<Rightarrow> block_region \<Rightarrow> bool" where
  "in_bounds lo hi r \<longleftrightarrow> lo \<le> sint (Offset r) \<and> 0 < sint (CompressedSize r) \<and>
     sint (CompressedSize r) \<le> MaxCompressedBlockSize \<and> 0 \<le> sint (RawSize r) \<and>
     sint (RawSize r) \<le> MaxRawBlockSize \<and> region_end r \<le> hi"

definition meta_ok :: "int \<Rightarrow> int \<Rightarrow> meta_index \<Rightarrow> bool" where
  "meta_ok L n m \<longleftrightarrow> distinct (map fst m) \<and> length m \<le> 100 \<and>
     (\<forall>(k, e)\<in>set m. MName e = k \<and> small_entry e \<and> in_bounds L n (MRegion e)) \<and>
     sorted_wrt (\<lambda>a b. region_end (MRegion (snd a)) \<le> sint (Offset (MRegion (snd b)))) m"

lemma in_bounds_mono: "in_bounds lo hi r \<Longrightarrow> lo' \<le> lo \<Longrightarrow> hi \<le> hi' \<Longrightarrow> in_bounds lo' hi' r"
  by (auto simp: in_bounds_def)

lemma ValidateBlockRegion_in_bounds:
  "\<lbrakk>in_bounds lo hi r; 0 \<le> lo; hi \<le> sint len\<rbrakk> \<Longrightarrow> ValidateBlockRegion r len = None"
  by (auto simp: ValidateBlockRegion_None_iff in_bounds_def region_end_def)

lemma meta_ok_snoc:
  assumes "meta_ok L n m" "k \<notin> fst ` set m" "MName e = k" "small_entry e" "length m < 100"
    "in_bounds n n' (MRegion e)" "L \<le> n"
  shows "meta_ok L n' (m @ [(k, e)])"
proof -
  have "n \<le> n'"
    using assms(6) by (simp add: in_bounds_def region_end_def)
  then show ?thesis
    using assms by (auto simp: meta_ok_def sorted_wrt_append intro: in_bounds_mono)
      (auto simp: in_bounds_def)
qed

lemma no_overlap_sorted:
  assumes "sorted (map (\<lambda>e. sint (Offset (MRegion e))) es)" "distinct es"
    "\<And>a b. a \<in> set es \<Longrightarrow> b \<in> set es \<Longrightarrow> a \<noteq> b \<Longrightarrow>
       region_end (MRegion a) \<le> sint (Offset (MRegion b)) \<or> region_end (MRegion b) \<le> sint (Offset (MRegion a))"
    "\<And>a. a \<in> set es \<Longrightarrow> 0 < sint (CompressedSize (MRegion a)) \<and>
       sint (Offset (MRegion a) + CompressedSize (MRegion a)) = region_end (MRegion a)"
  shows "no_overlap es"
  using assms
proof (induction es rule: no_overlap.induct)
  case (1 a b es)
  have "sint (Offset (MRegion a)) \<le> sint (Offset (MRegion b))" "a \<noteq> b"
    "0 < sint (CompressedSize (MRegion b))"
    using "1.prems" by auto
  moreover have "region_end (MRegion a) \<le> sint (Offset (MRegion b)) \<or>
      region_end (MRegion b) \<le> sint (Offset (MRegion a))"
    using \<open>a \<noteq> b\<close> by (intro "1.prems"(3)) auto
  ultimately have "region_end (MRegion a) \<le> sint (Offset (MRegion b))"
    by (auto simp: region_end_def)
  moreover have "no_overlap (b # es)"
    using "1.prems" by (intro "1.IH") (auto simp del: no_overlap.simps)
  ultimately show ?case
    using "1.prems"(4) [of a] by simp
qed simp_all

definition closed_meta :: "bc_writer \<Rightarrow> bytes \<Rightarrow> meta_index" where
  "closed_meta w di = wmeta w @ [(DataIndexBlockName, \<lparr>MName = DataIndexBlockName, CompressionAlgo = CodecNone,
     MRegion = \<lparr>Offset = written w, CompressedSize = of_nat (length di), RawSize = of_nat (length di)\<rparr>\<rparr>)]"

lemma update_append: "k \<notin> fst ` set m \<Longrightarrow> AList.update k v m = m @ [(k, v)]"
  by (induction m) auto

lemma bc_Close_spec:
  assumes "bc_Close w = Inr w'" "\<not> wclosed w" "DataIndexBlockName \<notin> fst ` set (wmeta w)"
  obtains di mi tr where
    "WriteDataIndex \<lparr>DefaultCompression = wcodec w, Blocks = wblocks w\<rparr> = Inr di"
    "WriteMetaIndex (closed_meta w di) = Inr mi"
    "WriteFooter \<lparr>FVersion = APIVersion3, OffsetIndexMeta = of_nat (length (wout w @ di)),
       OffsetCryptoParams = of_nat (length (wout w @ di @ mi))\<rparr> = Inr tr"
    "wout w' = wout w @ di @ mi @ replicate 8 0 @ tr"
proof -
  note up = update_append [OF assms(3)]
  show ?thesis
    using assms(1,2) that
    by (auto simp: bc_Close_def res_simps Let_def up written_def closed_meta_def add.assoc)
qed

lemma closed_meta_ok:
  assumes m: "meta_ok L (int (length (wout w))) (wmeta w)" and L: "L \<le> int (length (wout w))"
    and "DataIndexBlockName \<notin> fst ` set (wmeta w)" "length (wmeta w) < 100"
    and di: "di \<noteq> []" "int (length di) \<le> MaxCompressedBlockSize" "length (wout w @ di) < 2 ^ 63"
  shows "meta_ok L (int (length (wout w @ di))) (closed_meta w di)"
proof -
  have "sint (of_nat (length di) :: int64) = int (length di)" "sint (written w) = int (length (wout w))"
    using di(3) by (simp_all add: sint_of_nat_64 written_def)
  then have "in_bounds (int (length (wout w))) (int (length (wout w @ di)))
      \<lparr>Offset = written w, CompressedSize = of_nat (length di), RawSize = of_nat (length di)\<rparr>"
    using di by (auto simp: in_bounds_def region_end_def MaxCompressedBlockSize_def MaxRawBlockSize_def)
  then show ?thesis
    unfolding closed_meta_def using assms
    by (intro meta_ok_snoc [OF m])
      (auto simp: small_entry_def DataIndexBlockName_def CodecNone_def str_def)
qed

lemma check_regions_None:
  "(\<And>p. p \<in> set m \<Longrightarrow> ValidateBlockRegion (MRegion (snd p)) limit = None) \<Longrightarrow> check_regions m limit = None"
  by (induction m) auto

lemma min_offset_ge:
  "\<lbrakk>L \<le> sint e; \<And>p. p \<in> set m \<Longrightarrow> L \<le> sint (Offset (MRegion (snd p)))\<rbrakk> \<Longrightarrow> L \<le> sint (min_offset e m)"
  by (induction m arbitrary: e) auto

lemma min_offset_le: "sint (min_offset e m) \<le> sint e"
  by (induction m arbitrary: e) (auto intro: order_trans less_imp_le)

text \<open>The index in the order it is read, sorted by name, maps every name to the same entry.\<close>

lemma sorted_meta:
  assumes "distinct (map fst m)"
  defines "m' \<equiv> map (\<lambda>n. (n, the (map_of m n))) (sort (map fst m))"
  shows "set m' = set m" "distinct (map fst m')" "map_of m' = map_of m"
proof -
  show s: "set m' = set m"
    using assms(1) by (force simp: m'_def)
  show d: "distinct (map fst m')"
    using assms(1) by (simp add: m'_def comp_def)
  show "map_of m' = map_of m"
    using map_of_inject_set [OF d assms(1)] s by simp
qed

lemma validateMetaIndexRegions_ok:
  assumes m: "meta_ok L n m" and "set m' = set m" "distinct (map fst m')" "0 \<le> L" "n < 2 ^ 63"
  shows "validateMetaIndexRegions m' = None"
proof -
  let ?key = "\<lambda>e. (sint (Offset (MRegion e)), MName e)"
  have name: "MName (snd p) = fst p" "in_bounds L n (MRegion (snd p))" if "p \<in> set m" for p
    using that m by (auto simp: meta_ok_def)
  have inj: "inj_on snd (set m')"
    using name(1) assms(2) by (auto intro!: inj_onI prod_eqI) metis+
  have d: "distinct (map snd m')"
    using inj assms(3) by (metis distinct_map)
  have "no_overlap (sort_key ?key (map snd m'))"
  proof (rule no_overlap_sorted)
    show "sorted (map (\<lambda>e. sint (Offset (MRegion e))) (sort_key ?key (map snd m')))"
      using sorted_sort_key [of ?key "map snd m'"]
      by (auto simp: sorted_wrt_map less_eq_prod_def elim!: sorted_wrt_mono_rel [rotated])
    show "distinct (sort_key ?key (map snd m'))"
      using d by simp
    show "region_end (MRegion a) \<le> sint (Offset (MRegion b)) \<or> region_end (MRegion b) \<le> sint (Offset (MRegion a))"
      if ab: "a \<in> set (sort_key ?key (map snd m'))" "b \<in> set (sort_key ?key (map snd m'))" "a \<noteq> b" for a b
    proof -
      obtain p q where "p \<in> set m" "q \<in> set m" "a = snd p" "b = snd q" "p \<noteq> q"
        using ab assms(2) by auto
      moreover have "sorted_wrt (\<lambda>a b. region_end (MRegion (snd a)) \<le> sint (Offset (MRegion (snd b)))) m"
        using m by (simp add: meta_ok_def)
      ultimately show ?thesis
        by (metis (no_types, lifting) in_set_conv_nth linorder_neqE_nat sorted_wrt_iff_nth_less)
    qed
    show "0 < sint (CompressedSize (MRegion a)) \<and>
        sint (Offset (MRegion a) + CompressedSize (MRegion a)) = region_end (MRegion a)"
      if a: "a \<in> set (sort_key ?key (map snd m'))" for a
    proof -
      obtain p where p: "p \<in> set m" "a = snd p"
        using a assms(2) by auto
      have b: "in_bounds L n (MRegion a)"
        using name(2) p by simp
      have "Offset (MRegion a) + CompressedSize (MRegion a) = word_of_int (region_end (MRegion a))"
        by (simp add: region_end_def)
      also have "sint (word_of_int (region_end (MRegion a)) :: int64) = region_end (MRegion a)"
        unfolding sint_sbintrunc' using b assms(4,5)
        by (intro signed_take_bit_int_eq_self) (auto simp: in_bounds_def region_end_def)
      finally show ?thesis
        using b by (simp add: in_bounds_def)
    qed
  qed
  then show ?thesis
    by (simp add: validateMetaIndexRegions_def)
qed


lemma meta_ok_fits: "meta_ok L n m \<Longrightarrow> meta_fits m"
  by (force simp: meta_ok_def meta_fits_def maxMetaIndexEntries_def small_entry_def entry_fits_def)

lemma length_WriteMetaIndex:
  assumes "WriteMetaIndex m = Inr bs" "meta_ok L n m"
  shows "bs \<noteq> []" "int (length bs) \<le> maxMetaIndexRegionSize"
proof -
  obtain k es where k: "bc_WriteVInt (of_nat (length m)) = Inr k"
    "write_meta_entries m (sort (map fst m)) = Inr es" "bs = k @ es"
    using assms(1) by (auto simp: WriteMetaIndex_def res_simps)
  have "k \<noteq> [] \<and> length k \<le> 9"
    using k(1) length_bc_WriteVLong by (simp add: bc_WriteVInt_def)
  moreover have "length es \<le> (50 + 1000) * length (sort (map fst m))"
    using assms(2)
    by (intro length_write_meta_entries [OF k(2)]) (force simp: meta_ok_def small_entry_def)
  moreover have "length m \<le> 100"
    using assms(2) by (simp add: meta_ok_def)
  ultimately show "bs \<noteq> []" "int (length bs) \<le> maxMetaIndexRegionSize"
    using k(3) by (auto simp: maxMetaIndexRegionSize_def)
qed

lemma bc_NewReader_Close:
  fixes w :: bc_writer
  assumes close: "bc_Close w = Inr w'" and open_w: "\<not> wclosed w"
    and m: "meta_ok L (int (length (wout w))) (wmeta w)" and L: "0 \<le> L" "L \<le> int (length (wout w))"
    and fresh: "DataIndexBlockName \<notin> fst ` set (wmeta w)" "length (wmeta w) < 100"
    and fits: "length (wcodec w) \<le> 1000" "int (length (wblocks w)) \<le> maxDataIndexBlocks"
      "length (wout w') < 2 ^ 63"
  obtains r di where "bc_NewReader (bytes_ReadAt (wout w')) (of_nat (length (wout w'))) = Inr r"
    "Source r = bytes_ReadAt (wout w')" "FileLength r = of_nat (length (wout w'))"
    "map_of (MetaIndex r) = map_of (closed_meta w di)" "L \<le> sint (DataRegionEnd r)"
    "WriteDataIndex \<lparr>DefaultCompression = wcodec w, Blocks = wblocks w\<rparr> = Inr di"
    "\<exists>post. wout w' = wout w @ di @ post" "di \<noteq> []" "int (length di) \<le> MaxCompressedBlockSize"
    "sint (DataRegionEnd r) \<le> int (length (wout w'))"
proof -
  obtain di mi tr where di: "WriteDataIndex \<lparr>DefaultCompression = wcodec w, Blocks = wblocks w\<rparr> = Inr di"
    and mi: "WriteMetaIndex (closed_meta w di) = Inr mi"
    and tr: "WriteFooter \<lparr>FVersion = APIVersion3, OffsetIndexMeta = of_nat (length (wout w @ di)),
       OffsetCryptoParams = of_nat (length (wout w @ di @ mi))\<rparr> = Inr tr"
    and out: "wout w' = wout w @ di @ mi @ replicate 8 0 @ tr"
    using bc_Close_spec [OF close open_w fresh(1)] by metis
  define ft where ft: "ft = \<lparr>FVersion = APIVersion3, OffsetIndexMeta = of_nat (length (wout w @ di)),
       OffsetCryptoParams = of_nat (length (wout w @ di @ mi))\<rparr>"
  note tr = tr [folded ft]
  let ?f = "wout w'"
  let ?cm = "closed_meta w di"
  define mi' where "mi' = map (\<lambda>n. (n, the (map_of ?cm n))) (sort (map fst ?cm))"
  have di_len: "di \<noteq> []" "int (length di) \<le> MaxCompressedBlockSize"
    using length_WriteDataIndex [OF di] fits(1,2)
    by (auto simp: maxDataIndexBlocks_def MaxCompressedBlockSize_def)
  have cm: "meta_ok L (int (length (wout w @ di))) ?cm"
    using closed_meta_ok [OF m L(2) fresh di_len] fits(3) by (simp add: out)
  have len: "length tr = 36" "length (wout w @ di @ mi) < 2 ^ 63" "length (wout w @ di) < 2 ^ 63"
    using tr fits(3) by (auto simp: WriteFooter_def out split: if_splits)
  have offs: "sint (OffsetIndexMeta ft) = int (length (wout w @ di))"
    "sint (OffsetCryptoParams ft) = int (length (wout w @ di @ mi))"
    using sint_of_nat_64 [OF len(3)] sint_of_nat_64 [OF len(2)] by (simp_all add: ft)
  note mi_len = length_WriteMetaIndex [OF mi cm]
  have flen: "sint (of_nat (length ?f) :: int64) = int (length ?f)"
    using fits(3) by (rule sint_of_nat_64)
  have "ReadFooter (bytes_ReadAt ?f) (int (length ?f)) = Inr ft"
  proof (rule ReadFooter_write [OF tr])
    show "?f = (wout w @ di @ mi @ replicate 8 0) @ tr"
      by (simp add: out)
    show "validateFooterOffsets ft (int (length ?f)) = None"
      unfolding validateFooterOffsets_def offs using mi_len(1) len(1)
      by (simp add: out ft CompatibleWith_def FooterMinSizeV3_def)
  qed (simp add: ft)
  moreover have "bytes_ReadAt ?f (sint (OffsetIndexMeta ft)) (length mi) = Inr mi"
    unfolding offs using mi_len(1)
    by (intro bytes_ReadAt_middle [of _ "wout w @ di" _ "replicate 8 0 @ tr"]) (simp_all add: out)
  moreover have "ReadMetaIndex mi = Inr mi'"
    using ReadMetaIndex_write [OF mi meta_ok_fits [OF cm], of "[]"] by (simp add: mi'_def)
  moreover have sm: "set mi' = set ?cm" "distinct (map fst mi')" "map_of mi' = map_of ?cm"
    unfolding mi'_def using cm sorted_meta [of ?cm] by (simp_all add: meta_ok_def)
  moreover have "check_regions mi' (OffsetIndexMeta ft) = None"
    using cm sm(1) L(1) offs(1)
    by (intro check_regions_None ValidateBlockRegion_in_bounds [of L "int (length (wout w @ di))"])
      (auto simp: meta_ok_def)
  moreover have "validateMetaIndexRegions mi' = None"
    using len(3) by (intro validateMetaIndexRegions_ok [OF cm sm(1,2) L(1)]) simp
  moreover have "metaIndexUpperBound ft (int (length ?f)) - sint (OffsetIndexMeta ft) = int (length mi)"
    unfolding metaIndexUpperBound_def offs by (simp add: ft CompatibleWith_def)
  moreover have "\<not> metaIndexUpperBound ft (int (length ?f)) \<le> sint (OffsetIndexMeta ft)"
    unfolding metaIndexUpperBound_def offs using mi_len(1) by (simp add: ft CompatibleWith_def)
  ultimately have "bc_NewReader (bytes_ReadAt ?f) (of_nat (length ?f)) =
      Inr \<lparr>Source = bytes_ReadAt ?f, FileLength = of_nat (length ?f), Footer = ft, MetaIndex = mi'\<rparr>"
    (is "_ = Inr ?r")
    using mi_len by (simp add: bc_NewReader_def flen Let_def)
  moreover have "L \<le> sint (DataRegionEnd ?r)"
    unfolding DataRegionEnd_def using cm sm(1) L(2) offs(1)
    by (intro min_offset_ge) (auto simp: meta_ok_def in_bounds_def)
  moreover have "sint (DataRegionEnd ?r) \<le> int (length ?f)"
    unfolding DataRegionEnd_def using offs(1) by (intro order_trans [OF min_offset_le]) (simp add: out)
  ultimately show thesis
    using that [of ?r di] sm(3) di out di_len by simp
qed

end
