(* ===== verification/RFile_Meta.thy ===== *)
theory RFile_Meta
  imports RFile_Index BCFile_File
begin

text \<open>
  The serialized form of the block index, package \<^verbatim>\<open>internal/rfile/index\<close>: index blocks
  (\<^verbatim>\<open>block.go\<close>), locality groups (\<^verbatim>\<open>localitygroup.go\<close>) and the \<^verbatim>\<open>RFile.index\<close> meta
  block (\<^verbatim>\<open>Parse\<close> of \<^verbatim>\<open>reader.go\<close>, \<^verbatim>\<open>writeRFileIndexMeta\<close> of \<^verbatim>\<open>rfile/writer.go\<close>), with
  the limits a reader puts on counts and lengths (\<^verbatim>\<open>limits.go\<close>). The theory shows that
  \<^verbatim>\<open>Parse\<close> returns the groups that were written when they keep to the limits, and that
  a locality group with more column families than the limit is written without complaint
  and cannot be read.

  Every caller reads from bytes in memory, so the reader knows how many bytes are left. The
  column families of a group are a Go map; it is here an association list without
  duplicate keys, in the order the map is iterated, which the code leaves open.
\<close>

section \<open>Versions and limits\<close>

definition V3 :: int32 where "V3 = 3"
definition V4 :: int32 where "V4 = 4"
definition V6 :: int32 where "V6 = 6"
definition V7 :: int32 where "V7 = 7"
definition V8 :: int32 where "V8 = 8"

lemmas version_defs = V3_def V4_def V6_def V7_def V8_def

definition RIndexMagic :: int32 where "RIndexMagic = 0x20637474"

definition IsSupportedVersion :: "int32 \<Rightarrow> bool" where
  "IsSupportedVersion ver \<longleftrightarrow> ver \<in> {V3, V4, V6, V7, V8}"

definition hasStartBlock :: "int32 \<Rightarrow> bool" where
  "hasStartBlock ver \<longleftrightarrow> ver = V3 \<or> ver = V4 \<or> ver = V6 \<or> ver = V7"

definition hasMultiLevelIndex :: "int32 \<Rightarrow> bool" where
  "hasMultiLevelIndex ver \<longleftrightarrow> ver = V6 \<or> ver = V7 \<or> ver = V8"

definition ErrBadMagic :: go_err where
  "ErrBadMagic = Errorf ''rfile/index: not an RFile.index block (magic mismatch)''"

definition ErrUnsupportedVersion :: go_err where
  "ErrUnsupportedVersion = Errorf ''rfile/index: unsupported RFile version''"

definition ErrCorruptColumnFamilies :: go_err where
  "ErrCorruptColumnFamilies = Errorf ''rfile/index: corrupt column-families table''"

definition maxLocalityGroups :: int where "maxLocalityGroups = 2 ^ 12"
definition maxColumnFamilies :: int where "maxColumnFamilies = 2 ^ 16"
definition maxIndexEntries :: int where "maxIndexEntries = 2 ^ 20"
definition maxIndexDataBytes :: int where "maxIndexDataBytes = 64 * 1024 * 1024"

lemmas limit_defs = maxLocalityGroups_def maxColumnFamilies_def maxIndexEntries_def maxIndexDataBytes_def

definition validateDecodedCount :: "string \<Rightarrow> int32 \<Rightarrow> bytes \<Rightarrow> int \<Rightarrow> int \<Rightarrow> int \<Rightarrow> go_err option" where
  "validateDecodedCount name count r maxCount minBytesPerEntry reservedBytes =
     (if sint count < 0 then Some (Errorf (name @ '': negative count''))
      else if sint count > maxCount then Some (Errorf (name @ '': count exceeds limit''))
      else
        let available = int (length r) - reservedBytes in
        if available < 0 \<or> sint count * minBytesPerEntry > available
        then Some (Errorf (name @ '': count exceeds remaining encoded bytes''))
        else None)"

definition validateDecodedLength :: "string \<Rightarrow> int32 \<Rightarrow> bytes \<Rightarrow> int \<Rightarrow> int \<Rightarrow> go_err option" where
  "validateDecodedLength name len r maxLength reservedBytes =
     (if sint len < 0 then Some (Errorf (name @ '': negative length''))
      else if sint len > maxLength then Some (Errorf (name @ '': length exceeds limit''))
      else
        let available = int (length r) - reservedBytes in
        if available < 0 \<or> sint len > available
        then Some (Errorf (name @ '': length exceeds remaining encoded bytes''))
        else None)"

text \<open>\<^verbatim>\<open>if err := check; err != nil { return err }\<close>.\<close>

definition rcheck :: "go_err option \<Rightarrow> 'a res \<Rightarrow> 'a res" where
  "rcheck e k = (case e of Some x \<Rightarrow> Inl x | None \<Rightarrow> k)"

lemma rcheck_Inr_iff [res_simps]: "rcheck e k = Inr x \<longleftrightarrow> e = None \<and> k = Inr x"
  by (cases e) (simp_all add: rcheck_def)

lemma rcheck_None [simp]: "rcheck None k = k"
  by (simp add: rcheck_def)

section \<open>Index blocks\<close>

fun read_int32s :: "nat \<Rightarrow> bytes \<Rightarrow> (int32 list \<times> bytes) res" where
  "read_int32s 0 r = Inr ([], r)"
| "read_int32s (Suc n) r =
     rbind (rwrap ''IndexBlock offsets'' (ReadInt32 r)) (\<lambda>(v, r).
     rbind (read_int32s n r) (\<lambda>(vs, r). Inr (v # vs, r)))"

fun offsets_increase :: "int32 list \<Rightarrow> int32 \<Rightarrow> int32 option \<Rightarrow> go_err option" where
  "offsets_increase [] indexSize previous = None"
| "offsets_increase (x # xs) indexSize previous =
     (if sint x < 0 \<or> sint x \<ge> sint indexSize then Some (Errorf ''IndexBlock: offset is outside the data'')
      else if (case previous of None \<Rightarrow> False | Some p \<Rightarrow> sint x \<le> sint p)
      then Some (Errorf ''IndexBlock: offset is not greater than the previous one'')
      else offsets_increase xs indexSize (Some x))"

definition validateIndexOffsets :: "int32 list \<Rightarrow> int32 \<Rightarrow> go_err option" where
  "validateIndexOffsets offsets indexSize =
     (if length offsets = 0 then
        (if indexSize \<noteq> 0 then Some (Errorf ''IndexBlock: data bytes have no offsets'') else None)
      else if hd offsets \<noteq> 0 then Some (Errorf ''IndexBlock: first offset is not zero'')
      else offsets_increase offsets indexSize None)"

definition readMultiLevelBlock :: "bytes \<Rightarrow> (index_block \<times> bytes) res" where
  "readMultiLevelBlock r =
     rbind (rwrap ''IndexBlock level'' (ReadInt32 r)) (\<lambda>(level, r).
     rbind (rwrap ''IndexBlock offset'' (ReadInt32 r)) (\<lambda>(offset, r).
     rbind (rwrap ''IndexBlock hasNext'' (ReadBool r)) (\<lambda>(hasNext, r).
     rbind (rwrap ''IndexBlock numOffsets'' (ReadInt32 r)) (\<lambda>(numOffsets, r).
     if sint numOffsets < 0 then Inl (Errorf ''IndexBlock: negative numOffsets'')
     else rcheck (validateDecodedCount ''IndexBlock offsets'' numOffsets r maxIndexEntries 4 4) (
     rbind (read_int32s (nat (sint numOffsets)) r) (\<lambda>(offsets, r).
     rbind (rwrap ''IndexBlock indexSize'' (ReadInt32 r)) (\<lambda>(indexSize, r).
     if sint indexSize < 0 then Inl (Errorf ''IndexBlock: negative indexSize'')
     else rcheck (validateIndexOffsets offsets indexSize) (
     rcheck (validateDecodedLength ''IndexBlock data'' indexSize r maxIndexDataBytes 0) (
     rbind (rwrap ''IndexBlock data'' (ReadFull (nat (sint indexSize)) r)) (\<lambda>(data, r).
     Inr (\<lparr>Level = level, BOffset = offset, HasNext = hasNext, Offsets = offsets, Data = data\<rparr>, r))))))))))) "

fun flat_loop :: "nat \<Rightarrow> int32 list \<Rightarrow> bytes \<Rightarrow> bytes \<Rightarrow> (int32 list \<times> bytes \<times> bytes) res" where
  "flat_loop 0 offsets data r = Inr (offsets, data, r)"
| "flat_loop (Suc n) offsets data r =
     rbind (rwrap ''flat IndexEntry'' (ReadIndexEntry r)) (\<lambda>(entry, r).
     rbind (rwrap ''re-encode flat IndexEntry'' (WriteIndexEntry entry)) (\<lambda>buf.
     flat_loop n (offsets @ [of_nat (length data)]) (data @ buf) r))"

definition readFlatBlock :: "bytes \<Rightarrow> (index_block \<times> bytes) res" where
  "readFlatBlock r =
     rbind (rwrap ''IndexBlock flat size'' (ReadInt32 r)) (\<lambda>(size', r).
     if sint size' < 0 then Inl (Errorf ''IndexBlock: negative flat size'')
     else rcheck (validateDecodedCount ''IndexBlock flat entries'' size' r maxIndexEntries 1 0) (
     rbind (flat_loop (nat (sint size')) [] [] r) (\<lambda>(offsets, data, r).
     Inr (\<lparr>Level = 0, BOffset = 0, HasNext = False, Offsets = offsets, Data = data\<rparr>, r))))"

definition ReadIndexBlock :: "bytes \<Rightarrow> int32 \<Rightarrow> (index_block \<times> bytes) res" where
  "ReadIndexBlock r version =
     (if hasMultiLevelIndex version then readMultiLevelBlock r
      else if version = V3 \<or> version = V4 then readFlatBlock r
      else Inl (Wrap ''version'' ErrUnsupportedVersion))"

definition WriteIndexBlock :: "index_block \<Rightarrow> bytes" where
  "WriteIndexBlock b =
     WriteInt32 (Level b) @ WriteInt32 (BOffset b) @ WriteBool (HasNext b) @
     WriteInt32 (of_nat (length (Offsets b))) @ concat (map WriteInt32 (Offsets b)) @
     WriteInt32 (of_nat (length (Data b))) @ Data b"

text \<open>What a block must keep to for a reader to accept it.\<close>

definition block_fits :: "index_block \<Rightarrow> bool" where
  "block_fits b \<longleftrightarrow> int (length (Offsets b)) \<le> maxIndexEntries \<and> int (length (Data b)) \<le> maxIndexDataBytes \<and>
     validateIndexOffsets (Offsets b) (of_nat (length (Data b))) = None"

lemma length_WriteInt32 [simp]: "length (WriteInt32 v) = 4"
  by (simp add: WriteInt32_def)

lemma length_concat_WriteInt32: "length (concat (map WriteInt32 vs)) = 4 * length vs"
  by (induction vs) simp_all

lemma read_int32s_concat:
  "n = length vs \<Longrightarrow> read_int32s n (concat (map WriteInt32 vs) @ r) = Inr (vs, r)"
  by (induction vs arbitrary: n) simp_all

lemma ReadIndexBlock_WriteIndexBlock [codec]:
  assumes "block_fits b" "hasMultiLevelIndex ver"
  shows "ReadIndexBlock (WriteIndexBlock b @ r) ver = Inr (b, r)"
proof -
  have "sint (of_nat (length (Offsets b)) :: int32) = int (length (Offsets b))"
    "sint (of_nat (length (Data b)) :: int32) = int (length (Data b))"
    using assms(1) by (auto simp: block_fits_def limit_defs intro!: sint_of_nat_32)
  then show ?thesis
    using assms
    by (simp add: ReadIndexBlock_def readMultiLevelBlock_def WriteIndexBlock_def validateDecodedCount_def
        validateDecodedLength_def length_concat_WriteInt32 read_int32s_concat block_fits_def Let_def)
qed

section \<open>Locality groups\<close>

record locality_group =
  IsDefault :: bool
  LGName :: bytes
  StartBlock :: int32
  ColumnFamilies :: "(bytes \<times> int64) list option"
  FirstKey :: "key option"
  NumTotalEntries :: int32
  RootIndex :: index_block

text \<open>The loop over the column families; a repeated family overwrites its count.\<close>

fun families_loop :: "nat \<Rightarrow> (bytes \<times> int64) list \<Rightarrow> bytes \<Rightarrow> ((bytes \<times> int64) list \<times> bytes) res" where
  "families_loop 0 m r = Inr (m, r)"
| "families_loop (Suc n) m r =
     rbind (rwrap ''LG cf length'' (ReadInt32 r)) (\<lambda>(cfLen, r).
     if sint cfLen < 0 then Inl (Wrap ''negative length'' ErrCorruptColumnFamilies)
     else case validateDecodedLength ''LG cf'' cfLen r maxIndexDataBytes 8 of
       Some e \<Rightarrow> Inl (Joined [ErrCorruptColumnFamilies, e])
     | None \<Rightarrow>
     rbind (rwrap ''LG cf body'' (ReadFull (nat (sint cfLen)) r)) (\<lambda>(cf, r).
     rbind (rwrap ''LG cf count'' (ReadInt64 r)) (\<lambda>(count, r).
     if sint count < 0 then Inl (Wrap ''negative count'' ErrCorruptColumnFamilies)
     else families_loop n (AList.update cf count m) r)))"

definition read_families :: "bool \<Rightarrow> bytes \<Rightarrow> ((bytes \<times> int64) list option \<times> bytes) res" where
  "read_families isDefault r =
     rbind (rwrap ''LG cfCount'' (ReadInt32 r)) (\<lambda>(cfCount, r).
     if cfCount = -1 then
       (if \<not> isDefault then Inl (Wrap ''cfCount=-1 on non-default LG'' ErrCorruptColumnFamilies)
        else Inr (None, r))
     else if sint cfCount < 0 then Inl (Wrap ''negative cfCount'' ErrCorruptColumnFamilies)
     else case validateDecodedCount ''LG column families'' cfCount r maxColumnFamilies 12 0 of
       Some e \<Rightarrow> Inl (Joined [ErrCorruptColumnFamilies, e])
     | None \<Rightarrow> rbind (families_loop (nat (sint cfCount)) [] r) (\<lambda>(m, r). Inr (Some m, r)))"

definition ReadLocalityGroup :: "bytes \<Rightarrow> int32 \<Rightarrow> (locality_group \<times> bytes) res" where
  "ReadLocalityGroup r ver =
     rbind (rwrap ''LG isDefault'' (ReadBool r)) (\<lambda>(isDefault, r).
     rbind (if \<not> isDefault then rwrap ''LG name'' (ReadUTF r) else Inr ([], r)) (\<lambda>(name, r).
     rbind (if hasStartBlock ver then rwrap ''LG startBlock'' (ReadInt32 r) else Inr (0, r)) (\<lambda>(sb, r).
     rbind (read_families isDefault r) (\<lambda>(cfs, r).
     rbind (rwrap ''LG hasFirstKey'' (ReadBool r)) (\<lambda>(hasFirstKey, r).
     rbind (if hasFirstKey then rbind (rwrap ''LG firstKey'' (ReadKey r)) (\<lambda>(k, r). Inr (Some k, r))
            else Inr (None, r)) (\<lambda>(firstKey, r).
     rbind (if hasMultiLevelIndex ver then
              rbind (rwrap ''LG MLI size'' (ReadInt32 r)) (\<lambda>(n, r).
              if sint n < 0 then Inl (Errorf ''LG MLI: negative total-entry count'') else Inr (n, r))
            else Inr (0, r)) (\<lambda>(total, r).
     rbind (rwrap ''LG root IndexBlock'' (ReadIndexBlock r ver)) (\<lambda>(root, r).
     Inr (\<lparr>IsDefault = isDefault, LGName = name, StartBlock = sb, ColumnFamilies = cfs,
           FirstKey = firstKey,
           NumTotalEntries = (if hasMultiLevelIndex ver then total else of_nat (block_NumEntries root)),
           RootIndex = root\<rparr>, r)))))))))"

definition write_families :: "(bytes \<times> int64) list \<Rightarrow> bytes" where
  "write_families m =
     WriteInt32 (of_nat (length m)) @
     concat (map (\<lambda>(cf, count). WriteInt32 (of_nat (length cf)) @ cf @ WriteInt64 count) m)"

definition WriteLocalityGroup :: "locality_group \<Rightarrow> int32 \<Rightarrow> bytes res" where
  "WriteLocalityGroup lg ver =
     rbind (if \<not> IsDefault lg then WriteUTF (LGName lg) else Inr []) (\<lambda>name.
     Inr (WriteBool (IsDefault lg) @ name @
       (if hasStartBlock ver then WriteInt32 (StartBlock lg) else []) @
       (case ColumnFamilies lg of None \<Rightarrow> WriteInt32 (-1) | Some m \<Rightarrow> write_families m) @
       WriteBool (FirstKey lg \<noteq> None) @
       (case FirstKey lg of None \<Rightarrow> [] | Some k \<Rightarrow> WriteKey k) @
       (if hasMultiLevelIndex ver then WriteInt32 (NumTotalEntries lg) else []) @
       WriteIndexBlock (RootIndex lg)))"

section \<open>Sampler configuration\<close>

text \<open>
  A version-8 index may end in sample groups and the configuration of the sampler, whose
  strings are in Java's modified UTF-8. \<^verbatim>\<open>decodeModifiedUTF\<close> turns them into UTF-16 code
  units and these into UTF-8; an unpaired surrogate keeps its three bytes.
\<close>

definition ErrCorruptSamplerConfiguration :: go_err where
  "ErrCorruptSamplerConfiguration = Errorf ''rfile/index: corrupt sampler configuration''"

definition maxSamplerOptions :: int where "maxSamplerOptions = 2 ^ 16"

definition samplerConfigurationVersion :: byte where "samplerConfigurationVersion = 1"

record sampler_configuration =
  SVersion :: byte
  ClassName :: bytes
  SOptions :: "(bytes \<times> bytes) list"

fun code_units :: "bytes \<Rightarrow> 16 word list res" where
  "code_units [] = Inr []"
| "code_units (first # rest) =
     (if first AND 0x80 = 0 then
        (if first = 0 then Inl (Errorf ''modified UTF: NUL must use the two-byte encoding'')
         else rbind (code_units rest) (\<lambda>us. Inr (ucast first # us)))
      else if first AND 0xe0 = 0xc0 then
        (case rest of
           [] \<Rightarrow> Inl (Errorf ''modified UTF: truncated two-byte sequence'')
         | second # rest \<Rightarrow>
             if second AND 0xc0 \<noteq> 0x80 then Inl (Errorf ''modified UTF: invalid continuation byte'')
             else
               let u = push_bit 6 (ucast (first AND 0x1f)) OR ucast (second AND 0x3f) in
               if u < 0x80 \<and> u \<noteq> 0 then Inl (Errorf ''modified UTF: overlong two-byte sequence'')
               else if u = 0 \<and> (first \<noteq> 0xc0 \<or> second \<noteq> 0x80)
               then Inl (Errorf ''modified UTF: invalid NUL encoding'')
               else rbind (code_units rest) (\<lambda>us. Inr (u # us)))
      else if first AND 0xf0 = 0xe0 then
        (case rest of
           second # third # rest \<Rightarrow>
             if second AND 0xc0 \<noteq> 0x80 \<or> third AND 0xc0 \<noteq> 0x80
             then Inl (Errorf ''modified UTF: invalid continuation byte'')
             else
               let u = push_bit 12 (ucast (first AND 0x0f)) OR push_bit 6 (ucast (second AND 0x3f)) OR
                       ucast (third AND 0x3f) in
               if u < 0x800 then Inl (Errorf ''modified UTF: overlong three-byte sequence'')
               else rbind (code_units rest) (\<lambda>us. Inr (u # us))
         | _ \<Rightarrow> Inl (Errorf ''modified UTF: truncated three-byte sequence''))
      else Inl (Errorf ''modified UTF: invalid leading byte''))"

definition appendWTF8CodeUnit :: "16 word \<Rightarrow> bytes" where
  "appendWTF8CodeUnit u =
     [0xe0 OR ucast (drop_bit 12 u), 0x80 OR (ucast (drop_bit 6 u) AND 0x3f), 0x80 OR (ucast u AND 0x3f)]"

text \<open>\<^verbatim>\<open>utf8.AppendRune\<close> on the runes that occur: below U+10000 no surrogate, else a pair.\<close>

definition AppendRune :: "nat \<Rightarrow> bytes" where
  "AppendRune c =
     (if c < 0x80 then [of_nat c]
      else if c < 0x800 then [of_nat (0xc0 + c div 64), of_nat (0x80 + c mod 64)]
      else if c < 0x10000
      then [of_nat (0xe0 + c div 4096), of_nat (0x80 + c div 64 mod 64), of_nat (0x80 + c mod 64)]
      else [of_nat (0xf0 + c div 262144), of_nat (0x80 + c div 4096 mod 64),
            of_nat (0x80 + c div 64 mod 64), of_nat (0x80 + c mod 64)])"

definition DecodeRune :: "16 word \<Rightarrow> 16 word \<Rightarrow> nat" where
  "DecodeRune r1 r2 = (unat r1 - 0xd800) * 1024 + (unat r2 - 0xdc00) + 0x10000"

fun decode_units :: "16 word list \<Rightarrow> bytes" where
  "decode_units [] = []"
| "decode_units (u # us) =
     (if 0xd800 \<le> u \<and> u \<le> 0xdbff then
        (case us of
           u2 # us2 \<Rightarrow>
             if 0xdc00 \<le> u2 \<and> u2 \<le> 0xdfff then AppendRune (DecodeRune u u2) @ decode_units us2
             else appendWTF8CodeUnit u @ decode_units us
         | [] \<Rightarrow> appendWTF8CodeUnit u @ decode_units us)
      else if 0xdc00 \<le> u \<and> u \<le> 0xdfff then appendWTF8CodeUnit u @ decode_units us
      else AppendRune (unat u) @ decode_units us)"

definition decodeModifiedUTF :: "bytes \<Rightarrow> bytes res" where
  "decodeModifiedUTF body = rbind (code_units body) (\<lambda>us. Inr (decode_units us))"

definition readModifiedUTF :: "bytes \<Rightarrow> (bytes \<times> bytes) res" where
  "readModifiedUTF r =
     rbind (rwrap ''modified UTF length'' (ReadFull 2 r)) (\<lambda>(lengthBytes, r).
     let len = be_val lengthBytes in
     if len > length r then Inl (Errorf ''modified UTF body length exceeds remaining bytes'')
     else rbind (rwrap ''modified UTF body'' (ReadFull len r)) (\<lambda>(body, r).
     rbind (decodeModifiedUTF body) (\<lambda>s. Inr (s, r))))"

text \<open>\<^verbatim>\<open>fmt.Errorf("%w: ...: %w", ErrCorruptSamplerConfiguration, err)\<close>.\<close>

definition sampler_err :: "'a res \<Rightarrow> 'a res" where
  "sampler_err x =
     (case x of Inl e \<Rightarrow> Inl (Joined [ErrCorruptSamplerConfiguration, e]) | Inr y \<Rightarrow> Inr y)"

fun sampler_options :: "nat \<Rightarrow> (bytes \<times> bytes) list \<Rightarrow> bytes \<Rightarrow> ((bytes \<times> bytes) list \<times> bytes) res" where
  "sampler_options 0 m r = Inr (m, r)"
| "sampler_options (Suc n) m r =
     rbind (sampler_err (readModifiedUTF r)) (\<lambda>(key, r).
     if map_of m key \<noteq> None then Inl (Wrap ''duplicate option key'' ErrCorruptSamplerConfiguration)
     else rbind (sampler_err (readModifiedUTF r)) (\<lambda>(v, r).
     sampler_options n (m @ [(key, v)]) r))"

definition readSamplerConfiguration :: "bytes \<Rightarrow> (sampler_configuration \<times> bytes) res" where
  "readSamplerConfiguration r =
     rbind (sampler_err (ReadByte r)) (\<lambda>(version, r).
     if version \<noteq> samplerConfigurationVersion
     then Inl (Wrap ''unsupported version'' ErrCorruptSamplerConfiguration)
     else
     rbind (sampler_err (readModifiedUTF r)) (\<lambda>(className, r).
     rbind (sampler_err (ReadInt32 r)) (\<lambda>(optionCount, r).
     case validateDecodedCount ''sampler options'' optionCount r maxSamplerOptions 4 0 of
       Some e \<Rightarrow> Inl (Joined [ErrCorruptSamplerConfiguration, e])
     | None \<Rightarrow>
         rbind (sampler_options (nat (sint optionCount)) [] r) (\<lambda>(options, r).
         Inr (\<lparr>SVersion = version, ClassName = className, SOptions = options\<rparr>, r)))))"

section \<open>The RFile.index meta block\<close>

record index_reader =
  Version :: int32
  Groups :: "locality_group list"
  SampleGroups :: "locality_group list"
  SamplerConfiguration :: "sampler_configuration option"
  VectorExtension :: "bytes option"

fun read_groups :: "nat \<Rightarrow> int32 \<Rightarrow> bytes \<Rightarrow> (locality_group list \<times> bytes) res" where
  "read_groups 0 ver r = Inr ([], r)"
| "read_groups (Suc n) ver r =
     rbind (rwrap ''RFile.index group'' (ReadLocalityGroup r ver)) (\<lambda>(lg, r).
     rbind (read_groups n ver r) (\<lambda>(lgs, r). Inr (lg # lgs, r)))"

definition readOptionalBool :: "bytes \<Rightarrow> (bool \<times> bytes) res" where
  "readOptionalBool r =
     (if length r = 0 then Inr (False, r) else rwrap ''RFile.index flag'' (ReadBool r))"

definition readV8Tail :: "bytes \<Rightarrow> index_reader \<Rightarrow> nat \<Rightarrow> index_reader res" where
  "readV8Tail r out groupCount =
     rbind (readOptionalBool r) (\<lambda>(hasSamples, r).
     rbind (if hasSamples then
              rbind (read_groups groupCount V8 r) (\<lambda>(lgs, r).
              rbind (rwrap ''RFile.index sampler configuration'' (readSamplerConfiguration r))
                (\<lambda>(sc, r). Inr (out\<lparr>SampleGroups := lgs, SamplerConfiguration := Some sc\<rparr>, r)))
            else Inr (out, r)) (\<lambda>(out, r).
     rbind (readOptionalBool r) (\<lambda>(hasVector, r).
     if hasVector then Inr (out\<lparr>VectorExtension := Some r\<rparr>)
     else if length r \<noteq> 0 then Inl (Errorf ''RFile.index: trailing bytes after v8 optional flags'')
     else Inr out)))"

definition index_Parse :: "bytes \<Rightarrow> index_reader res" where
  "index_Parse r =
     rbind (rwrap ''RFile.index magic'' (ReadInt32 r)) (\<lambda>(magic, r).
     if magic \<noteq> RIndexMagic then Inl (Wrap ''magic'' ErrBadMagic)
     else
     rbind (rwrap ''RFile.index version'' (ReadInt32 r)) (\<lambda>(version, r).
     if \<not> IsSupportedVersion version then Inl (Wrap ''version'' ErrUnsupportedVersion)
     else
     rbind (rwrap ''RFile.index group count'' (ReadInt32 r)) (\<lambda>(groupCount, r).
     if sint groupCount < 0 then Inl (Errorf ''RFile.index: negative group count'')
     else rcheck (validateDecodedCount ''RFile.index group'' groupCount r maxLocalityGroups 1 0) (
     rbind (read_groups (nat (sint groupCount)) version r) (\<lambda>(groups, r).
     let out = \<lparr>Version = version, Groups = groups, SampleGroups = [], SamplerConfiguration = None,
                VectorExtension = None\<rparr>
     in if version = V8 then readV8Tail r out (nat (sint groupCount)) else Inr out)))))"

fun write_groups :: "locality_group list \<Rightarrow> bytes res" where
  "write_groups [] = Inr []"
| "write_groups (lg # lgs) =
     rbind (WriteLocalityGroup lg V8) (\<lambda>b. rbind (write_groups lgs) (\<lambda>bs. Inr (b @ bs)))"

definition writeRFileIndexMeta :: "locality_group list \<Rightarrow> bytes res" where
  "writeRFileIndexMeta groups =
     rbind (write_groups groups) (\<lambda>bs.
     Inr (WriteInt32 RIndexMagic @ WriteInt32 V8 @ WriteInt32 (of_nat (length groups)) @ bs @
          WriteBool False @ WriteBool False))"

section \<open>Reading back the index\<close>

definition families_fit :: "(bytes \<times> int64) list \<Rightarrow> bool" where
  "families_fit m \<longleftrightarrow> distinct (map fst m) \<and> int (length m) \<le> maxColumnFamilies \<and>
     (\<forall>(cf, count)\<in>set m. int (length cf) \<le> maxIndexDataBytes \<and> 0 \<le> sint count)"

definition group_fits :: "locality_group \<Rightarrow> bool" where
  "group_fits lg \<longleftrightarrow>
     (if IsDefault lg then LGName lg = [] else length (LGName lg) \<le> 0xffff) \<and> StartBlock lg = 0 \<and>
     (case ColumnFamilies lg of None \<Rightarrow> IsDefault lg | Some m \<Rightarrow> families_fit m) \<and>
     (\<forall>k. FirstKey lg = Some k \<longrightarrow> key_bytes k < 2 ^ 31) \<and>
     0 \<le> sint (NumTotalEntries lg) \<and> block_fits (RootIndex lg)"

abbreviation family_bytes :: "bytes \<times> int64 \<Rightarrow> bytes" where
  "family_bytes \<equiv> \<lambda>(cf, count). WriteInt32 (of_nat (length cf)) @ cf @ WriteInt64 count"

lemma length_WriteInt64 [simp]: "length (WriteInt64 v) = 8"
  by (simp add: WriteInt64_def)

lemma length_family_bytes: "12 * length m \<le> length (concat (map family_bytes m))"
  by (induction m) auto

lemma families_loop_read:
  assumes "\<forall>(cf, count)\<in>set m. int (length cf) \<le> maxIndexDataBytes \<and> 0 \<le> sint count"
    "distinct (map fst (acc @ m))"
  shows "families_loop (length m) acc (concat (map family_bytes m) @ r) = Inr (acc @ m, r)"
  using assms
proof (induction m arbitrary: acc)
  case (Cons p m)
  obtain cf count where p: "p = (cf, count)"
    by fastforce
  have "sint (of_nat (length cf) :: int32) = int (length cf)"
    using Cons.prems(1) by (intro sint_of_nat_32) (auto simp: p limit_defs)
  moreover have "AList.update cf count acc = acc @ [(cf, count)]"
    using Cons.prems(2) by (intro update_append) (auto simp: p)
  ultimately show ?case
    using Cons.prems Cons.IH [of "acc @ [p]"] by (simp add: p validateDecodedLength_def limit_defs)
qed simp

lemma read_families_write:
  assumes "families_fit m"
  shows "read_families d (write_families m @ r) = Inr (Some m, r)"
proof -
  have n: "sint (of_nat (length m) :: int32) = int (length m)"
    using assms by (intro sint_of_nat_32) (auto simp: families_fit_def limit_defs)
  then have "(of_nat (length m) :: int32) \<noteq> -1"
    by auto
  with n show ?thesis
    using families_loop_read [of m "[]" r] length_family_bytes [of m] assms
    by (simp add: read_families_def write_families_def families_fit_def validateDecodedCount_def Let_def)
qed

lemma ReadLocalityGroup_WriteLocalityGroup [codec]:
  assumes w: "WriteLocalityGroup lg V8 = Inr bs" and fits: "group_fits lg"
  shows "ReadLocalityGroup (bs @ r) V8 = Inr (lg, r)"
proof -
  have v: "hasMultiLevelIndex V8" "\<not> hasStartBlock V8"
    by (simp_all add: hasMultiLevelIndex_def hasStartBlock_def version_defs)
  obtain name where name: "(if \<not> IsDefault lg then WriteUTF (LGName lg) else Inr []) = Inr name"
    and bs: "bs = WriteBool (IsDefault lg) @ name @
       (case ColumnFamilies lg of None \<Rightarrow> WriteInt32 (-1) | Some m \<Rightarrow> write_families m) @
       WriteBool (FirstKey lg \<noteq> None) @ (case FirstKey lg of None \<Rightarrow> [] | Some k \<Rightarrow> WriteKey k) @
       WriteInt32 (NumTotalEntries lg) @ WriteIndexBlock (RootIndex lg)"
    using w v unfolding WriteLocalityGroup_def rbind_Inr_iff by auto
  have 1: "(if \<not> IsDefault lg then rwrap ''LG name'' (ReadUTF (name @ q)) else Inr ([], name @ q)) =
      Inr (LGName lg, q)" for q
    using name fits by (auto simp: group_fits_def ReadUTF_WriteUTF split: if_splits)
  have 2: "read_families (IsDefault lg)
      ((case ColumnFamilies lg of None \<Rightarrow> WriteInt32 (-1) | Some m \<Rightarrow> write_families m) @ q) =
      Inr (ColumnFamilies lg, q)" for q
    using fits read_families_write by (auto simp: group_fits_def read_families_def split: option.splits)
  have "ReadLocalityGroup (bs @ r) V8 =
      Inr (\<lparr>IsDefault = IsDefault lg, LGName = LGName lg, StartBlock = 0, ColumnFamilies = ColumnFamilies lg,
        FirstKey = FirstKey lg, NumTotalEntries = NumTotalEntries lg, RootIndex = RootIndex lg\<rparr>, r)"
    using fits
    by (cases "FirstKey lg") (simp_all add: ReadLocalityGroup_def bs v 1 2 group_fits_def
        ReadKey_WriteKey_append ReadIndexBlock_WriteIndexBlock [OF _ v(1)])
  moreover have "StartBlock lg = 0"
    using fits by (simp add: group_fits_def)
  ultimately show ?thesis
    by simp
qed

lemma read_groups_write:
  "\<lbrakk>write_groups lgs = Inr bs; \<forall>lg\<in>set lgs. group_fits lg\<rbrakk> \<Longrightarrow>
     read_groups (length lgs) V8 (bs @ r) = Inr (lgs, r)"
  by (induction lgs arbitrary: bs)
    (auto simp: res_simps ReadLocalityGroup_WriteLocalityGroup)

lemma length_write_groups: "write_groups lgs = Inr bs \<Longrightarrow> length lgs \<le> length bs"
  by (induction lgs arbitrary: bs) (force simp: res_simps WriteLocalityGroup_def WriteBool_def)+

lemma index_Parse_write:
  assumes w: "writeRFileIndexMeta lgs = Inr bs" and "\<forall>lg\<in>set lgs. group_fits lg"
    "int (length lgs) \<le> maxLocalityGroups"
  shows "index_Parse bs = Inr \<lparr>Version = V8, Groups = lgs, SampleGroups = [], SamplerConfiguration = None,
    VectorExtension = None\<rparr>"
proof -
  obtain gs where gs: "write_groups lgs = Inr gs"
    and bs: "bs = WriteInt32 RIndexMagic @ WriteInt32 V8 @ WriteInt32 (of_nat (length lgs)) @ gs @
      WriteBool False @ WriteBool False"
    using w unfolding writeRFileIndexMeta_def rbind_Inr_iff by auto
  have n: "sint (of_nat (length lgs) :: int32) = int (length lgs)"
    using assms(3) by (intro sint_of_nat_32) (auto simp: limit_defs)
  have b: "readOptionalBool (WriteBool False @ q) = Inr (False, q)" for q
    using ReadBool_WriteBool [of False q] by (simp add: readOptionalBool_def WriteBool_def)
  show ?thesis
    using assms(2,3) read_groups_write [OF gs, of "WriteBool False @ WriteBool False"] length_write_groups [OF gs]
      b [of "WriteBool False"] b [of "[]"]
    by (simp add: index_Parse_def bs n IsSupportedVersion_def validateDecodedCount_def Let_def readV8Tail_def)
qed

section \<open>More column families than the reader allows\<close>

lemma errors_Is_ErrCorruptColumnFamilies: "errors_Is ErrCorruptColumnFamilies ErrCorruptColumnFamilies"
  by (simp add: ErrCorruptColumnFamilies_def)

lemma index_Parse_over_limit:
  assumes w: "writeRFileIndexMeta [lg] = Inr b" and lg: "IsDefault lg" "ColumnFamilies lg = Some m"
    and m: "int (length m) > maxColumnFamilies" "length m < 2 ^ 31"
  shows "\<exists>x e. index_Parse b = Inl (Wrap x (Joined [ErrCorruptColumnFamilies, e]))"
proof -
  have len: "sint (of_nat (length m) :: int32) = int (length m)"
    using m(2) by (rule sint_of_nat_32)
  then have "(of_nat (length m) :: int32) \<noteq> -1"
    by auto
  with len have fam: "\<exists>e. read_families True (write_families m @ q) = Inl (Joined [ErrCorruptColumnFamilies, e])" for q
    using m(1) by (simp add: read_families_def write_families_def validateDecodedCount_def)
  have v: "hasMultiLevelIndex V8" "\<not> hasStartBlock V8" "IsSupportedVersion V8"
    by (simp_all add: hasMultiLevelIndex_def hasStartBlock_def IsSupportedVersion_def version_defs)
  obtain q where q: "b = WriteInt32 RIndexMagic @ WriteInt32 V8 @ WriteInt32 1 @ WriteBool True @ write_families m @ q"
    using w lg v by (auto simp: writeRFileIndexMeta_def WriteLocalityGroup_def res_simps)
  obtain e where e: "read_families True (write_families m @ q) = Inl (Joined [ErrCorruptColumnFamilies, e])"
    using fam by blast
  have ne: "WriteBool True \<noteq> []"
    by (simp add: WriteBool_def)
  show ?thesis
    using e ne by (simp add: index_Parse_def q v ReadLocalityGroup_def validateDecodedCount_def limit_defs Let_def)
qed

text \<open>
  C40: the writer puts no limit on the number of column families of a locality group, the
  reader does. The index of a default group with more than 65536 column families is written
  without an error, and parsing it fails with \<^verbatim>\<open>ErrCorruptColumnFamilies\<close>.
\<close>

theorem families_over_limit_unreadable:
  assumes "IsDefault lg" "ColumnFamilies lg = Some m" "int (length m) > maxColumnFamilies" "length m < 2 ^ 31"
  shows "\<exists>b e. writeRFileIndexMeta [lg] = Inr b \<and> index_Parse b = Inl e \<and> errors_Is e ErrCorruptColumnFamilies"
proof -
  obtain b where b: "writeRFileIndexMeta [lg] = Inr b"
    using assms(1) by (simp add: writeRFileIndexMeta_def WriteLocalityGroup_def)
  then show ?thesis
    using index_Parse_over_limit [OF b assms] errors_Is_ErrCorruptColumnFamilies by auto
qed

theorem families_over_limit_unreadable_witness:
  "\<exists>b e. writeRFileIndexMeta
      [\<lparr>IsDefault = True, LGName = [], StartBlock = 0, ColumnFamilies = Some (map (\<lambda>i. (be_bytes 3 i, 1)) [0..<65537]),
        FirstKey = None, NumTotalEntries = 0,
        RootIndex = \<lparr>Level = 0, BOffset = 0, HasNext = False, Offsets = [], Data = []\<rparr>\<rparr>] = Inr b \<and>
    index_Parse b = Inl e \<and> errors_Is e ErrCorruptColumnFamilies"
  by (rule families_over_limit_unreadable [where m = "map (\<lambda>i. (be_bytes 3 i, 1)) [0..<65537]"])
    (simp_all add: limit_defs)

end
