(* ===== verification/RFile_Reader.thy ===== *)
theory RFile_Reader
  imports RFile_Meta Rel_Key Iter_Core
begin

text \<open>
  The RFile reader, \<^verbatim>\<open>internal/rfile/reader.go\<close>, over one locality group of a file. Its state
  is its list of leaves, the open block with the decoder of \<open>Rel_Key\<close>, the cell a seek has
  buffered and the flags that end the iteration. The block cache is left out (the cache
  field is nil), and so are the optional meta blocks that speed up a scan: \<open>opt\<close> is the error,
  if any, that loading them reports. The third argument of a skip predicate, the block
  metadata of the file, never changes and is part of the predicate.

  The theory shows that a reader over blocks that decode returns exactly the cells of the
  blocks the skip predicate keeps, from the first key that is not below the seek target.
  \<open>RFile_Source\<close> puts the iterator interface on top of it, and \<open>RFile_Filter\<close> shows that the
  same does not hold with a cell filter: a seek gives up after one block without an accepted
  cell.
\<close>

section \<open>The reader\<close>

record rfile_reader =
  rbc :: bc_reader
  rdec :: decompressor
  rversion :: int32
  rroot :: index_block
  dataCodec :: bytes
  dataBlockSet :: "block_region set option"
  rfilter :: "(key \<Rightarrow> bool) option"
  skipPred :: "(nat \<Rightarrow> index_entry \<Rightarrow> bool) option"
  sharedLeaves :: bool
  leaves :: "index_entry list"
  leafIdx :: nat
  currentBlk :: "reader option"
  pending :: "cell option"
  exhausted :: bool
  lastErr :: "go_err option"

definition fetchBlock :: "bc_reader \<Rightarrow> decompressor \<Rightarrow> block_region \<Rightarrow> bytes \<Rightarrow> bytes res" where
  "fetchBlock bc dec region codec =
     (case ValidateBlockRegion region (FileLength bc) of
        Some e \<Rightarrow> Inl e
      | None \<Rightarrow> dec_Block dec (Source bc) region codec)"

definition fetchDataBlock ::
    "bc_reader \<Rightarrow> decompressor \<Rightarrow> block_region set option \<Rightarrow> block_region \<Rightarrow> bytes \<Rightarrow> bytes res" where
  "fetchDataBlock bc dec declared region codec =
     (case ValidateBlockRegion region (DataRegionEnd bc) of
        Some e \<Rightarrow> Inl e
      | None \<Rightarrow>
          if (case declared of None \<Rightarrow> False | Some s \<Rightarrow> region \<notin> s)
          then Inl (Errorf ''rfile: block region is not declared by BCFile.index'')
          else fetchBlock bc dec region codec)"

definition read_level ::
    "bc_reader \<Rightarrow> decompressor \<Rightarrow> block_region set option \<Rightarrow> bytes \<Rightarrow> int32 \<Rightarrow> level_reader" where
  "read_level bc dec declared codec ver region =
     rbind (rwrap ''level-reader fetch'' (fetchDataBlock bc dec declared region codec)) (\<lambda>raw.
     rbind (ReadIndexBlock raw ver) (\<lambda>(b, _). Inr (Some b)))"

definition reader_leaves :: "rfile_reader \<Rightarrow> index_entry list res" where
  "reader_leaves r =
     collectLeaves (Some (rroot r))
       (Some (read_level (rbc r) (rdec r) (dataBlockSet r) (dataCodec r) (rversion r)))"

subsection \<open>Opening a file\<close>

definition IndexMetaBlockName :: bytes where
  "IndexMetaBlockName = str ''RFile.index''"

definition pickDefaultLG :: "locality_group list \<Rightarrow> locality_group option" where
  "pickDefaultLG groups = find IsDefault groups"

fun check_families :: "(bytes \<times> int64) list \<Rightarrow> bytes set \<Rightarrow> bytes set res" where
  "check_families [] seen = Inr seen"
| "check_families ((cf, _) # m) seen =
     (if cf \<in> seen then Inl (Errorf ''rfile: column family belongs to two locality groups'')
      else check_families m (insert cf seen))"

fun check_groups :: "locality_group list \<Rightarrow> nat \<Rightarrow> bytes set \<Rightarrow> bytes set \<Rightarrow> nat res" where
  "check_groups [] defaultGroups named families = Inr defaultGroups"
| "check_groups (lg # lgs) defaultGroups named families =
     (if IsDefault lg \<and> LGName lg \<noteq> [] then Inl (Errorf ''rfile: default locality group has name'')
      else if \<not> IsDefault lg \<and> LGName lg = []
      then Inl (Errorf ''rfile: named locality group has an empty name'')
      else if \<not> IsDefault lg \<and> LGName lg \<in> named
      then Inl (Errorf ''rfile: locality groups have duplicate name'')
      else
        let defaultGroups = (if IsDefault lg then defaultGroups + 1 else defaultGroups);
            named = (if IsDefault lg then named else insert (LGName lg) named)
        in rbind (case ColumnFamilies lg of None \<Rightarrow> Inr families | Some m \<Rightarrow> check_families m families)
             (\<lambda>families.
           case ValidateBlock (Some (RootIndex lg)) of
             Some e \<Rightarrow> Inl (Wrap ''rfile: locality group root index'' e)
           | None \<Rightarrow>
               if (block_NumEntries (RootIndex lg) = 0) \<noteq> (NumTotalEntries lg = 0)
               then Inl (Errorf ''rfile: total-entry count is inconsistent with its root index'')
               else check_groups lgs defaultGroups named families))"

definition validateReadableIndex :: "index_reader \<Rightarrow> go_err option" where
  "validateReadableIndex idx =
     (if VectorExtension idx \<noteq> None
      then Some (Errorf ''rfile: vector-index extensions are not supported'')
      else if SampleGroups idx \<noteq> [] \<or> SamplerConfiguration idx \<noteq> None
      then Some (Errorf ''rfile: sampled files are not supported'')
      else case check_groups (Groups idx) 0 {} {} of
        Inl e \<Rightarrow> Some e
      | Inr n \<Rightarrow>
          if n \<noteq> 1 then Some (Errorf ''rfile: expected exactly one default locality group'')
          else None)"

fun validateDataRegions :: "block_region list \<Rightarrow> block_region option \<Rightarrow> int64 \<Rightarrow> go_err option" where
  "validateDataRegions [] previous limit = None"
| "validateDataRegions (region # regions) previous limit =
     (case ValidateBlockRegion region limit of
        Some e \<Rightarrow> Some (Wrap ''validate DataIndex block'' e)
      | None \<Rightarrow>
          if (case previous of None \<Rightarrow> False
              | Some p \<Rightarrow> sint (Offset region) < sint (Offset p + CompressedSize p))
          then Some (Errorf ''validate DataIndex block: overlaps or precedes block'')
          else validateDataRegions regions (Some region) limit)"

text \<open>\<^verbatim>\<open>loadDataCodec\<close>: the codec of the data blocks and the regions the file declares.\<close>

definition loadDataCodec ::
    "bc_reader \<Rightarrow> decompressor \<Rightarrow> (bytes \<times> block_region set option) res" where
  "loadDataCodec bc dec =
     rbind (rwrap ''locate BCFile.index'' (MetaBlockEntry bc DataIndexBlockName)) (\<lambda>entry.
     rbind (rwrap ''decompress BCFile.index'' (fetchBlock bc dec (MRegion entry) (CompressionAlgo entry)))
       (\<lambda>raw.
     rbind (rwrap ''parse DataIndex'' (ReadDataIndex raw)) (\<lambda>di.
     rcheck (validateDataRegions (Blocks di) None (DataRegionEnd bc)) (
     Inr (DefaultCompression di, if length (Blocks di) > 0 then Some (set (Blocks di)) else None)))))"

definition new_reader ::
    "bc_reader \<Rightarrow> decompressor \<Rightarrow> int32 \<Rightarrow> index_block \<Rightarrow> bytes \<Rightarrow> block_region set option \<Rightarrow> rfile_reader" where
  "new_reader bc dec ver root codec declared =
     \<lparr>rbc = bc, rdec = dec, rversion = ver, rroot = root, dataCodec = codec, dataBlockSet = declared,
      rfilter = None, skipPred = None, sharedLeaves = False, leaves = [], leafIdx = 0, currentBlk = None,
      pending = None, exhausted = False, lastErr = None\<rparr>"

definition rfile_Open :: "go_err option \<Rightarrow> bc_reader \<Rightarrow> decompressor \<Rightarrow> rfile_reader res" where
  "rfile_Open opt bc dec =
     rbind (rwrap ''rfile: locate RFile.index'' (MetaBlockEntry bc IndexMetaBlockName)) (\<lambda>metaEntry.
     rbind (rwrap ''rfile: decompress RFile.index''
         (fetchBlock bc dec (MRegion metaEntry) (CompressionAlgo metaEntry))) (\<lambda>rawIndex.
     rbind (rwrap ''rfile: parse RFile.index'' (index_Parse rawIndex)) (\<lambda>idx.
     rcheck (validateReadableIndex idx) (
     case pickDefaultLG (Groups idx) of
       None \<Rightarrow> Inl (Errorf ''rfile: no default locality group found'')
     | Some lg \<Rightarrow>
         rbind (rwrap ''rfile: load data codec'' (loadDataCodec bc dec)) (\<lambda>(codec, declared).
         rcheck opt (
         Inr (new_reader bc dec (Version idx) (RootIndex lg) codec declared)))))))"

text \<open>
  \<^verbatim>\<open>OpenShared\<close> parses a file once and collects its leaves; \<^verbatim>\<open>NewReaderFromShared\<close>
  builds a reader over them with a decompressor of its own.
\<close>

definition OpenShared :: "go_err option \<Rightarrow> bc_reader \<Rightarrow> decompressor \<Rightarrow> rfile_reader res" where
  "OpenShared opt bc dec =
     rbind (rfile_Open opt bc dec) (\<lambda>r.
     rbind (reader_leaves r) (\<lambda>ls. Inr (r\<lparr>leaves := ls\<rparr>)))"

definition NewReaderFromShared :: "rfile_reader \<Rightarrow> decompressor \<Rightarrow> rfile_reader" where
  "NewReaderFromShared sf dec =
     (new_reader (rbc sf) dec (rversion sf) (rroot sf) (dataCodec sf) (dataBlockSet sf))
       \<lparr>leaves := leaves sf, sharedLeaves := True\<rparr>"

text \<open>
  \<^verbatim>\<open>OpenAll\<close>: a reader for every locality group whose root index has an entry, all over
  the same container and the same declared blocks.
\<close>

definition OpenAll :: "go_err option \<Rightarrow> bc_reader \<Rightarrow> decompressor \<Rightarrow> rfile_reader list res" where
  "OpenAll opt bc dec =
     rbind (rwrap ''rfile: locate RFile.index'' (MetaBlockEntry bc IndexMetaBlockName)) (\<lambda>metaEntry.
     rbind (rwrap ''rfile: decompress RFile.index''
         (fetchBlock bc dec (MRegion metaEntry) (CompressionAlgo metaEntry))) (\<lambda>rawIndex.
     rbind (rwrap ''rfile: parse RFile.index'' (index_Parse rawIndex)) (\<lambda>idx.
     rcheck (validateReadableIndex idx) (
     rbind (rwrap ''rfile: load data codec'' (loadDataCodec bc dec)) (\<lambda>(codec, declared).
     rcheck opt (
     if Groups idx = [] then Inl (Errorf ''rfile: file has no locality groups'')
     else Inr (map (\<lambda>lg. new_reader bc dec (Version idx) (RootIndex lg) codec declared)
            (filter (\<lambda>lg. block_NumEntries (RootIndex lg) \<noteq> 0) (Groups idx)))))))))"

text \<open>
  The reader that \<^verbatim>\<open>Open\<close> returns is one of those that \<^verbatim>\<open>OpenAll\<close> returns, unless
  the default group is empty.
\<close>

lemma OpenAll_contains_Open:
  assumes opened: "rfile_Open opt bc dec = Inr r" and full: "block_NumEntries (rroot r) \<noteq> 0"
  shows "\<exists>rs. OpenAll opt bc dec = Inr rs \<and> r \<in> set rs"
proof -
  obtain entry raw idx lg codec declared where
    parts: "MetaBlockEntry bc IndexMetaBlockName = Inr entry"
      "fetchBlock bc dec (MRegion entry) (CompressionAlgo entry) = Inr raw"
      "index_Parse raw = Inr idx" "validateReadableIndex idx = None"
      "pickDefaultLG (Groups idx) = Some lg" "loadDataCodec bc dec = Inr (codec, declared)" "opt = None"
    and r: "r = new_reader bc dec (Version idx) (RootIndex lg) codec declared"
    using opened by (auto simp: rfile_Open_def res_simps split: option.splits)
  then have "lg \<in> set (Groups idx)"
    by (auto simp: pickDefaultLG_def find_Some_iff)
  moreover have "block_NumEntries (RootIndex lg) \<noteq> 0"
    using full by (simp add: r new_reader_def)
  ultimately show ?thesis
    using parts by (auto simp: OpenAll_def r)
qed

subsection \<open>Filters and blocks\<close>

definition rfile_SetSkipPredicate ::
    "(nat \<Rightarrow> index_entry \<Rightarrow> bool) option \<Rightarrow> rfile_reader \<Rightarrow> rfile_reader" where
  "rfile_SetSkipPredicate p r = r\<lparr>skipPred := p\<rparr>"

definition rfile_SetFilter :: "(key \<Rightarrow> bool) option \<Rightarrow> rfile_reader \<Rightarrow> rfile_reader" where
  "rfile_SetFilter f r = r\<lparr>rfilter := f, currentBlk := map_option (SetFilter f) (currentBlk r)\<rparr>"

definition closeCurrentBlock :: "rfile_reader \<Rightarrow> rfile_reader" where
  "closeCurrentBlock r = r\<lparr>currentBlk := None, pending := None\<rparr>"

definition openLeaf :: "nat \<Rightarrow> rfile_reader \<Rightarrow> rfile_reader res" where
  "openLeaf i r =
     (let leaf = leaves r ! i in
      rbind (rwrap ''rfile: read data block''
          (fetchDataBlock (rbc r) (rdec r) (dataBlockSet r) (region_of leaf) (dataCodec r))) (\<lambda>raw.
      let blk = NewReader raw (sint (ENumEntries leaf));
          blk = (if rfilter r \<noteq> None then SetFilter (rfilter r) blk else blk)
      in Inr (r\<lparr>currentBlk := Some blk\<rparr>)))"

text \<open>The loop of \<^verbatim>\<open>firstNonSkippedFrom\<close> over the leaves from an index on.\<close>

fun skip_leaves :: "(nat \<Rightarrow> index_entry \<Rightarrow> bool) \<Rightarrow> nat \<Rightarrow> index_entry list \<Rightarrow> nat" where
  "skip_leaves p i [] = i"
| "skip_leaves p i (l # ls) = (if \<not> p i l then i else skip_leaves p (i + 1) ls)"

definition firstNonSkippedFrom :: "nat \<Rightarrow> rfile_reader \<Rightarrow> nat" where
  "firstNonSkippedFrom start r =
     (case skipPred r of
        None \<Rightarrow> start
      | Some p \<Rightarrow> skip_leaves p start (drop start (leaves r)))"

definition advanceBlock :: "rfile_reader \<Rightarrow> rfile_reader \<times> go_err option" where
  "advanceBlock r =
     (let r = closeCurrentBlock r;
          r = r\<lparr>leafIdx := firstNonSkippedFrom (leafIdx r + 1) r\<rparr>
      in if leafIdx r \<ge> length (leaves r) then (r\<lparr>exhausted := True\<rparr>, None)
         else case openLeaf (leafIdx r) r of
           Inl e \<Rightarrow> (r, Some e)
         | Inr r \<Rightarrow> (r, None))"

subsection \<open>Seek and Next\<close>

lemma NextView_loop_progress:
  "NextView_loop blk = (Inr c, blk') \<Longrightarrow> entries blk' = entries blk \<and> accept blk' = accept blk \<and>
     read_count blk < read_count blk' \<and> read_count blk < entries blk"
proof (induction blk rule: NextView_loop.induct)
  case (1 r)
  have nf: "fail r' e \<noteq> (Inr c, blk')" for r' e
    by (simp add: fail_def)
  show ?case
    using "1.prems" nf "1.IH"
    by (subst (asm) NextView_loop.simps) (fastforce simp: Let_def split: if_splits sum.splits prod.splits option.splits)
qed

lemma NextView_progress:
  "NextView blk = (Inr c, blk') \<Longrightarrow>
     nat (entries blk' - read_count blk') < nat (entries blk - read_count blk)"
  using NextView_loop_progress [of blk c blk'] by (auto simp: NextView_def split: option.splits)

text \<open>
  The loop of \<^verbatim>\<open>Seek\<close> inside one block: the first cell at or after the target, none if
  the block ends before, or the error of the decoder.
\<close>

function seek_scan :: "key option \<Rightarrow> reader \<Rightarrow> cell option res \<times> reader" where
  "seek_scan target blk =
     (case NextView blk of
        (Inl e, blk') \<Rightarrow> if errors_Is e EOF then (Inr None, blk') else (Inl e, blk')
      | (Inr (k, v), blk') \<Rightarrow>
          if (case target of None \<Rightarrow> True | Some t \<Rightarrow> Compare k t \<ge> 0) then (Inr (Some (k, v)), blk')
          else seek_scan target blk')"
  by pat_completeness auto
termination
  by (relation "measure (\<lambda>(target, blk). nat (entries blk - read_count blk))")
    (auto dest: NextView_progress [OF sym] NextView_progress)

declare seek_scan.simps [simp del]

text \<open>
  The branch of \<^verbatim>\<open>Seek\<close> for a block that ended: the first cell of the next block that is
  not skipped is the result, whatever its key, and an empty one ends the iteration.
\<close>

definition seek_next_block :: "rfile_reader \<Rightarrow> rfile_reader \<times> go_err option" where
  "seek_next_block r =
     (let r = closeCurrentBlock r;
          r = r\<lparr>leafIdx := firstNonSkippedFrom (leafIdx r + 1) r\<rparr>
      in if leafIdx r \<ge> length (leaves r) then (r\<lparr>exhausted := True\<rparr>, None)
         else case openLeaf (leafIdx r) r of
           Inl e \<Rightarrow> (r\<lparr>exhausted := True\<rparr>, Some e)
         | Inr r \<Rightarrow>
             (case NextView (the (currentBlk r)) of
                (Inl e, blk) \<Rightarrow>
                  let r = r\<lparr>currentBlk := Some blk\<rparr> in
                  if errors_Is e EOF then (r\<lparr>exhausted := True\<rparr>, None) else (r, Some e)
              | (Inr c, blk) \<Rightarrow> (r\<lparr>currentBlk := Some blk, pending := Some c\<rparr>, None)))"

definition seek_block :: "key option \<Rightarrow> rfile_reader \<Rightarrow> rfile_reader \<times> go_err option" where
  "seek_block target r =
     (case seek_scan target (the (currentBlk r)) of
        (Inl e, blk) \<Rightarrow> (r\<lparr>currentBlk := Some blk\<rparr>, Some e)
      | (Inr None, blk) \<Rightarrow> seek_next_block (r\<lparr>currentBlk := Some blk\<rparr>)
      | (Inr (Some c), blk) \<Rightarrow> (r\<lparr>currentBlk := Some blk, pending := Some c\<rparr>, None))"

fun find_leaf :: "key \<Rightarrow> nat \<Rightarrow> index_entry list \<Rightarrow> nat option" where
  "find_leaf target i [] = None"
| "find_leaf target i (l # ls) =
     (if Compare (EKey l) target \<ge> 0 then Some i else find_leaf target (i + 1) ls)"

definition all_leaves :: "rfile_reader \<Rightarrow> index_entry list res" where
  "all_leaves r = (if \<not> sharedLeaves r \<and> leaves r = [] then reader_leaves r else Inr (leaves r))"

definition rfile_Seek :: "key option \<Rightarrow> rfile_reader \<Rightarrow> rfile_reader \<times> go_err option" where
  "rfile_Seek target r =
     (let r = closeCurrentBlock (r\<lparr>exhausted := False, lastErr := None\<rparr>) in
      case all_leaves r of
        Inl e \<Rightarrow> (r, Some (Wrap ''rfile.Seek: collect leaves'' e))
      | Inr ls \<Rightarrow>
          let r = r\<lparr>leaves := ls\<rparr> in
          if ls = [] then (r\<lparr>exhausted := True\<rparr>, None)
          else case (case target of None \<Rightarrow> Some 0 | Some t \<Rightarrow> find_leaf t 0 ls) of
            None \<Rightarrow> (r\<lparr>exhausted := True\<rparr>, None)
          | Some startIdx \<Rightarrow>
              let startIdx = firstNonSkippedFrom startIdx r in
              if startIdx \<ge> length ls then (r\<lparr>exhausted := True\<rparr>, None)
              else
                let r = r\<lparr>leafIdx := startIdx\<rparr> in
                case openLeaf (leafIdx r) r of
                  Inl e \<Rightarrow> (r\<lparr>exhausted := True\<rparr>, Some e)
                | Inr r \<Rightarrow> seek_block target r)"

lemma skip_leaves_ge: "i \<le> skip_leaves p i ls"
  by (induction ls arbitrary: i) (auto simp: Suc_le_lessD intro: order_trans [OF _ less_imp_le])

lemma firstNonSkippedFrom_ge: "i \<le> firstNonSkippedFrom i r"
  by (auto simp: firstNonSkippedFrom_def skip_leaves_ge split: option.splits)

lemma openLeaf_Inr: "openLeaf i r = Inr r' \<Longrightarrow> \<exists>blk. r' = r\<lparr>currentBlk := Some blk\<rparr>"
  by (auto simp: openLeaf_def res_simps Let_def)

lemma advanceBlock_progress:
  assumes "advanceBlock r = (r', None)" "\<not> exhausted r'"
  shows "leaves r' = leaves r" "leafIdx r < leafIdx r'" "leafIdx r' < length (leaves r)"
  using assms firstNonSkippedFrom_ge [of "leafIdx r + 1" "closeCurrentBlock r"]
  by (auto simp: advanceBlock_def closeCurrentBlock_def Let_def Suc_le_eq
      dest!: openLeaf_Inr split: if_splits sum.splits)

lemma advanceBlock_measure:
  "\<lbrakk>advanceBlock r = (r', None); \<not> exhausted r'\<rbrakk> \<Longrightarrow>
     length (leaves r') - leafIdx r' < length (leaves r) - leafIdx r"
  using advanceBlock_progress [of r r'] by simp

text \<open>
  \<^verbatim>\<open>Next\<close> from the point where the open block is read on. The recursive call \<^verbatim>\<open>r.Next()\<close>
  after a change of block finds the block open and nothing buffered, so it comes back here.
  \<open>None\<close> is the nil dereference of a reader without an open block.
\<close>

function next_blocks :: "rfile_reader \<Rightarrow> (cell res \<times> rfile_reader) option" where
  "next_blocks r =
     (case currentBlk r of
        None \<Rightarrow> None
      | Some blk \<Rightarrow>
          (case NextCell blk of
             (Inr c, blk) \<Rightarrow> Some (Inr c, r\<lparr>currentBlk := Some blk\<rparr>)
           | (Inl e, blk) \<Rightarrow>
               let r = r\<lparr>currentBlk := Some blk\<rparr> in
               if errors_Is e EOF then
                 (case advanceBlock r of
                    (r, Some e) \<Rightarrow> Some (Inl e, r\<lparr>lastErr := Some e\<rparr>)
                  | (r, None) \<Rightarrow> if exhausted r then Some (Inl EOF, r) else next_blocks r)
               else Some (Inl e, r\<lparr>lastErr := Some e\<rparr>)))"
  by pat_completeness auto
termination
  by (relation "measure (\<lambda>r. length (leaves r) - leafIdx r)")
    (auto dest!: advanceBlock_measure [OF sym])

declare next_blocks.simps [simp del]

definition rfile_Next :: "rfile_reader \<Rightarrow> (cell res \<times> rfile_reader) option" where
  "rfile_Next r =
     (case lastErr r of
        Some e \<Rightarrow> Some (Inl e, r)
      | None \<Rightarrow>
          if exhausted r then Some (Inl EOF, r)
          else
          (case (if currentBlk r = None \<and> pending r = None then rfile_Seek None r else (r, None)) of
             (r, Some e) \<Rightarrow> Some (Inl e, r\<lparr>lastErr := Some e\<rparr>)
           | (r, None) \<Rightarrow>
               if exhausted r then Some (Inl EOF, r)
               else case pending r of
                 Some c \<Rightarrow> Some (Inr c, r\<lparr>pending := None\<rparr>)
               | None \<Rightarrow> next_blocks r))"

definition SeekRow :: "bytes \<Rightarrow> rfile_reader \<Rightarrow> rfile_reader \<times> go_err option" where
  "SeekRow row r = rfile_Seek (Some (zero_key\<lparr>Row := row\<rparr>)) r"

section \<open>The cells a reader owes\<close>

text \<open>A decoder in the middle of the block of cells \<open>b\<close>, without a filter.\<close>

definition blk_rem :: "reader \<Rightarrow> cell list \<Rightarrow> cell list" where
  "blk_rem blk b = drop (nat (read_count blk)) b"

definition blk_ok :: "reader \<Rightarrow> cell list \<Rightarrow> bool" where
  "blk_ok blk b \<longleftrightarrow> reader_at blk (blk_rem blk b) \<and> entries blk = int (length b) \<and> accept blk = None"

lemma blk_ok_new:
  "\<forall>c\<in>set b. cell_fits c \<Longrightarrow> blk_ok (NewReader (EncodeCells None b) (int (length b))) b"
  using reader_at_NewReader [of b None]
  by (simp add: blk_ok_def blk_rem_def NewReader_def SetFilter_def)

lemma NextView_blk_Nil:
  assumes "blk_ok blk b" "blk_rem blk b = []"
  shows "\<exists>blk'. NextView blk = (Inl EOF, blk')"
proof -
  have "fst (NextView_loop blk) = Inl EOF"
    using NextView_loop_spec [of blk "[]"] assms by (simp add: blk_ok_def)
  then show ?thesis
    using assms by (cases "NextView_loop blk") (simp add: NextView_def blk_ok_def reader_at_def)
qed

lemma drop_suffix:
  assumes "drop n xs = y # ys"
  shows "drop (length xs - length ys) xs = ys"
proof -
  have "ys = drop (Suc n) xs" "n < length xs"
    using assms by (auto simp: drop_Suc drop_tl dest: sym) (metis drop_all list.distinct(1) not_le)
  then show ?thesis
    by simp
qed

lemma NextView_blk_Cons:
  assumes ok: "blk_ok blk b" and rem: "blk_rem blk b = c # cs"
  shows "\<exists>blk'. NextView blk = (Inr c, blk') \<and> blk_ok blk' b \<and> blk_rem blk' b = cs"
proof -
  have "accepts (accept blk) = (\<lambda>_. True)"
    using ok by (auto simp: blk_ok_def accepts_def)
  then obtain blk' where blk': "NextView_loop blk = (Inr c, blk')" "reader_at blk' cs" "accept blk' = accept blk"
    using NextView_loop_spec [of blk "c # cs"] ok rem by (auto simp: blk_ok_def)
  have ent: "entries blk' = int (length b)"
    using NextView_loop_progress [OF blk'(1)] ok by (simp add: blk_ok_def)
  moreover have "read_count blk' = int (length b) - int (length cs)"
    using ent blk'(2) by (simp add: reader_at_def)
  moreover have "drop (length b - length cs) b = cs"
    using rem unfolding blk_rem_def by (rule drop_suffix)
  ultimately have "blk_rem blk' b = cs"
    by (simp add: blk_rem_def nat_diff_distrib')
  then show ?thesis
    using blk' ent ok by (simp add: NextView_def blk_ok_def reader_at_def)
qed


text \<open>The blocks of a file: \<open>B\<close> are the cells of the leaves, in order.\<close>

definition leaf_block :: "rfile_reader \<Rightarrow> index_entry \<Rightarrow> cell list \<Rightarrow> bool" where
  "leaf_block r leaf b \<longleftrightarrow> b \<noteq> [] \<and> sint (ENumEntries leaf) = int (length b) \<and> EKey leaf = fst (last b) \<and>
     (\<forall>c\<in>set b. cell_fits c) \<and>
     fetchDataBlock (rbc r) (rdec r) (dataBlockSet r) (region_of leaf) (dataCodec r) =
       Inr (EncodeCells None b)"

definition skipped :: "rfile_reader \<Rightarrow> nat \<Rightarrow> bool" where
  "skipped r i = (case skipPred r of None \<Rightarrow> False | Some p \<Rightarrow> p i (leaves r ! i))"

text \<open>The cells of the blocks from the \<open>i\<close>-th on that the skip predicate keeps.\<close>

definition kept :: "rfile_reader \<Rightarrow> cell list list \<Rightarrow> nat \<Rightarrow> cell list" where
  "kept r B i = concat (map (\<lambda>j. B ! j) (filter (\<lambda>j. \<not> skipped r j) [i..<length B]))"

definition leaves_ok :: "cell list list \<Rightarrow> rfile_reader \<Rightarrow> bool" where
  "leaves_ok B r \<longleftrightarrow> list_all2 (leaf_block r) (leaves r) B \<and> sorted_cells (concat B) \<and> rfilter r = None"

definition pending_list :: "rfile_reader \<Rightarrow> cell list" where
  "pending_list r = (case pending r of None \<Rightarrow> [] | Some c \<Rightarrow> [c])"

definition reader_rem :: "cell list list \<Rightarrow> rfile_reader \<Rightarrow> cell list" where
  "reader_rem B r =
     (if exhausted r then []
      else pending_list r @ blk_rem (the (currentBlk r)) (B ! leafIdx r) @ kept r B (Suc (leafIdx r)))"

text \<open>A reader that a seek has positioned.\<close>

definition reader_ready :: "cell list list \<Rightarrow> rfile_reader \<Rightarrow> bool" where
  "reader_ready B r \<longleftrightarrow> all_leaves r = Inr (leaves r) \<and> leaves_ok B r \<and> lastErr r = None \<and>
     (\<not> exhausted r \<longrightarrow> leafIdx r < length B \<and>
        (\<exists>blk. currentBlk r = Some blk \<and> blk_ok blk (B ! leafIdx r)))"

lemma leaves_ok_length: "leaves_ok B r \<Longrightarrow> length (leaves r) = length B"
  by (auto simp: leaves_ok_def dest: list_all2_lengthD)

lemma leaf_block_nth: "\<lbrakk>leaves_ok B r; i < length B\<rbrakk> \<Longrightarrow> leaf_block r (leaves r ! i) (B ! i)"
  by (auto simp: leaves_ok_def list_all2_conv_all_nth)

lemma openLeaf_ok:
  assumes "leaves_ok B r" "i < length B"
  shows "openLeaf i r = Inr (r\<lparr>currentBlk := Some (NewReader (EncodeCells None (B ! i)) (int (length (B ! i))))\<rparr>)"
    "blk_ok (NewReader (EncodeCells None (B ! i)) (int (length (B ! i)))) (B ! i)"
  using leaf_block_nth [OF assms] assms(1)
  by (auto simp: openLeaf_def leaf_block_def leaves_ok_def Let_def intro: blk_ok_new)

lemma blk_rem_new: "blk_rem (NewReader raw n) b = b"
  by (simp add: blk_rem_def NewReader_def)

lemma firstNonSkippedFrom_step:
  "firstNonSkippedFrom i r =
     (if i < length (leaves r) \<and> skipped r i then firstNonSkippedFrom (Suc i) r else i)"
  by (cases "i < length (leaves r)")
    (auto simp: firstNonSkippedFrom_def skipped_def simp flip: Cons_nth_drop_Suc split: option.splits)

lemma kept_step:
  assumes "length (leaves r) = length B"
  shows "kept r B i = (let j = firstNonSkippedFrom i r in
    if j < length B then B ! j @ kept r B (Suc j) else [])"
proof (induction "length B - i" arbitrary: i)
  case 0
  then show ?case
    using firstNonSkippedFrom_ge [of i r] by (simp add: kept_def Let_def)
next
  case (Suc n)
  then have i: "i < length B"
    by simp
  then have "kept r B i = (if skipped r i then kept r B (Suc i) else B ! i @ kept r B (Suc i))"
    by (simp add: kept_def upt_conv_Cons)
  then show ?case
    using Suc.hyps(1) [of "Suc i"] Suc.hyps(2) i assms
    by (simp add: firstNonSkippedFrom_step [of i r] Let_def)
qed


text \<open>What the position of a reader depends on: not the cursor.\<close>

lemma kept_cong:
  "\<lbrakk>skipPred r' = skipPred r; leaves r' = leaves r\<rbrakk> \<Longrightarrow> kept r' B i = kept r B i"
  by (simp add: kept_def skipped_def cong: option.case_cong)

lemma leaves_ok_cong:
  "\<lbrakk>rbc r' = rbc r; rdec r' = rdec r; dataBlockSet r' = dataBlockSet r; dataCodec r' = dataCodec r;
    rfilter r' = rfilter r; leaves r' = leaves r\<rbrakk> \<Longrightarrow> leaves_ok B r' = leaves_ok B r"
  by (simp add: leaves_ok_def leaf_block_def [abs_def])

lemma firstNonSkippedFrom_cong:
  "\<lbrakk>skipPred r' = skipPred r; leaves r' = leaves r\<rbrakk> \<Longrightarrow> firstNonSkippedFrom i r' = firstNonSkippedFrom i r"
  by (simp add: firstNonSkippedFrom_def cong: option.case_cong)

lemma all_leaves_cong:
  "\<lbrakk>rbc r' = rbc r; rdec r' = rdec r; dataBlockSet r' = dataBlockSet r; dataCodec r' = dataCodec r;
    rversion r' = rversion r; rroot r' = rroot r; sharedLeaves r' = sharedLeaves r; leaves r' = leaves r\<rbrakk>
   \<Longrightarrow> all_leaves r' = all_leaves r"
  by (simp add: all_leaves_def reader_leaves_def)

text \<open>The fields a seek or a step leaves alone.\<close>

definition same_file :: "rfile_reader \<Rightarrow> rfile_reader \<Rightarrow> bool" where
  "same_file r r' \<longleftrightarrow> rbc r' = rbc r \<and> rdec r' = rdec r \<and> rversion r' = rversion r \<and> rroot r' = rroot r \<and>
     dataCodec r' = dataCodec r \<and> dataBlockSet r' = dataBlockSet r \<and> rfilter r' = rfilter r \<and>
     skipPred r' = skipPred r \<and> sharedLeaves r' = sharedLeaves r"

lemma same_file_refl [simp]: "same_file r r"
  by (simp add: same_file_def)

lemma same_file_trans: "same_file r r' \<Longrightarrow> same_file r' r'' \<Longrightarrow> same_file r r''"
  by (simp add: same_file_def)

lemma next_blocks_spec:
  assumes "reader_ready B r" "\<not> exhausted r" "pending r = None"
  shows "\<exists>r'. next_blocks r = Some (case reader_rem B r of [] \<Rightarrow> Inl EOF | c # _ \<Rightarrow> Inr c, r') \<and>
    reader_ready B r' \<and> reader_rem B r' = tl (reader_rem B r) \<and> same_file r r' \<and> leaves r' = leaves r"
  using assms
proof (induction r rule: next_blocks.induct)
  case (1 r)
  obtain blk where blk: "currentBlk r = Some blk" "blk_ok blk (B ! leafIdx r)" "leafIdx r < length B"
    using "1.prems" by (auto simp: reader_ready_def)
  have err: "err blk = None"
    using blk(2) by (simp add: blk_ok_def reader_at_def)
  have ok: "leaves_ok B r"
    using "1.prems"(1) by (simp add: reader_ready_def)
  show ?case
  proof (cases "blk_rem blk (B ! leafIdx r)")
    case (Cons c cs)
    obtain blk' where blk': "NextView blk = (Inr c, blk')" "blk_ok blk' (B ! leafIdx r)"
      "blk_rem blk' (B ! leafIdx r) = cs"
      using NextView_blk_Cons [OF blk(2) Cons] by blast
    then have "NextCell blk = (Inr c, blk')"
      by (cases c) (simp add: NextCell_def cloneBytes_def)
    then have "next_blocks r = Some (Inr c, r\<lparr>currentBlk := Some blk'\<rparr>)"
      using blk by (simp add: next_blocks.simps)
    moreover have "reader_ready B (r\<lparr>currentBlk := Some blk'\<rparr>)"
      using "1.prems" blk blk' leaves_ok_cong [of "r\<lparr>currentBlk := Some blk'\<rparr>" r B]
        all_leaves_cong [of "r\<lparr>currentBlk := Some blk'\<rparr>" r]
      by (simp add: reader_ready_def)
    ultimately show ?thesis
      using "1.prems" blk blk' Cons kept_cong [of "r\<lparr>currentBlk := Some blk'\<rparr>" r B]
      by (simp add: reader_rem_def pending_list_def same_file_def)
  next
    case Nil
    obtain blk' where "NextView blk = (Inl EOF, blk')"
      using NextView_blk_Nil [OF blk(2) Nil] by blast
    then have n: "NextCell blk = (Inl EOF, blk')"
      by (simp add: NextCell_def)
    let ?r = "r\<lparr>currentBlk := Some blk'\<rparr>"
    define j where "j = firstNonSkippedFrom (Suc (leafIdx r)) r"
    have j: "firstNonSkippedFrom (Suc (leafIdx r)) (r\<lparr>currentBlk := None, pending := None\<rparr>) = j"
      unfolding j_def by (rule firstNonSkippedFrom_cong) simp_all
    have len: "length (leaves r) = length B"
      using ok by (rule leaves_ok_length)
    have rem: "reader_rem B r = (if j < length B then B ! j @ kept r B (Suc j) else [])"
      using "1.prems" blk Nil kept_step [OF len, of "Suc (leafIdx r)"]
      by (simp add: reader_rem_def pending_list_def j_def Let_def)
    show ?thesis
    proof (cases "j < length B")
      case False
      let ?r' = "r\<lparr>currentBlk := None, pending := None, leafIdx := j, exhausted := True\<rparr>"
      have "advanceBlock ?r = (?r', None)"
        using False j len by (simp add: advanceBlock_def closeCurrentBlock_def Let_def)
      then have "next_blocks r = Some (Inl EOF, ?r')"
        using blk n by (simp add: next_blocks.simps)
      moreover have "reader_ready B ?r'"
        using "1.prems" ok leaves_ok_cong [of ?r' r B] all_leaves_cong [of ?r' r] by (simp add: reader_ready_def)
      ultimately show ?thesis
        using rem False by (simp add: reader_rem_def [of B ?r'] same_file_def)
    next
      case True
      let ?new = "NewReader (EncodeCells None (B ! j)) (int (length (B ! j)))"
      let ?r' = "r\<lparr>currentBlk := Some ?new, pending := None, leafIdx := j\<rparr>"
      have "leaves_ok B (r\<lparr>currentBlk := None, pending := None, leafIdx := j\<rparr>)"
        using ok leaves_ok_cong [of "r\<lparr>currentBlk := None, pending := None, leafIdx := j\<rparr>" r B] by simp
      from openLeaf_ok [OF this True]
      have adv: "advanceBlock ?r = (?r', None)" and new: "blk_ok ?new (B ! j)"
        using True j len by (simp_all add: advanceBlock_def closeCurrentBlock_def Let_def)
      have ready: "reader_ready B ?r'"
        using "1.prems" ok leaves_ok_cong [of ?r' r B] all_leaves_cong [of ?r' r] True new by (simp add: reader_ready_def)
      have rem': "reader_rem B ?r' = reader_rem B r"
        using "1.prems" True kept_cong [of ?r' r B] rem
        by (simp add: reader_rem_def [of B ?r'] pending_list_def blk_rem_new)
      have "next_blocks r = next_blocks ?r'"
        using blk n adv "1.prems"(2) by (subst next_blocks.simps) simp
      moreover have "\<exists>r'. next_blocks ?r' = Some (case reader_rem B ?r' of [] \<Rightarrow> Inl EOF | c # _ \<Rightarrow> Inr c, r') \<and>
          reader_ready B r' \<and> reader_rem B r' = tl (reader_rem B ?r') \<and> same_file ?r' r' \<and> leaves r' = leaves ?r'"
        using "1.IH" [OF blk(1) n [symmetric] refl refl _ adv [symmetric] refl] ready "1.prems"(2)
        by simp
      ultimately show ?thesis
        unfolding rem' by (auto simp: same_file_def)
    qed
  qed
qed


definition before :: "key option \<Rightarrow> cell \<Rightarrow> bool" where
  "before target c = (case target of None \<Rightarrow> False | Some t \<Rightarrow> fst c < t)"

lemma seek_scan_spec:
  "blk_ok blk b \<Longrightarrow> case dropWhile (before target) (blk_rem blk b) of
     [] \<Rightarrow> \<exists>blk'. seek_scan target blk = (Inr None, blk')
   | c # cs \<Rightarrow> \<exists>blk'. seek_scan target blk = (Inr (Some c), blk') \<and> blk_ok blk' b \<and> blk_rem blk' b = cs"
proof (induction "blk_rem blk b" arbitrary: blk)
  case Nil
  then obtain blk' where "NextView blk = (Inl EOF, blk')"
    using NextView_blk_Nil by metis
  then show ?case
    using Nil by (simp add: seek_scan.simps flip: Nil.hyps)
next
  case (Cons c cs)
  obtain blk' where blk': "NextView blk = (Inr c, blk')" "blk_ok blk' b" "blk_rem blk' b = cs"
    using NextView_blk_Cons [OF Cons.prems Cons.hyps(2) [symmetric]] by blast
  obtain k v where c: "c = (k, v)"
    by fastforce
  have "seek_scan target blk = (if before target c then seek_scan target blk' else (Inr (Some c), blk'))"
    using blk'(1) by (subst seek_scan.simps)
      (auto simp: c before_def Compare_nonneg not_le split: option.splits)
  then show ?case
    using Cons.hyps(1) [of blk'] blk' Cons.hyps(2) [symmetric]
    by (cases "before target c") (simp_all cong: list.case_cong)
qed

lemma find_leaf_spec:
  "find_leaf t i ls = (let n = below t ls in if n < length ls then Some (i + n) else None)"
  by (induction ls arbitrary: i) (auto simp: below_Cons Compare_nonneg Let_def below_def)

text \<open>The reader after it has collected its leaves.\<close>

definition seeked :: "rfile_reader \<Rightarrow> rfile_reader" where
  "seeked r = r\<lparr>leaves := (case all_leaves r of Inr ls \<Rightarrow> ls | Inl _ \<Rightarrow> [])\<rparr>"

definition reader_ok :: "cell list list \<Rightarrow> rfile_reader \<Rightarrow> bool" where
  "reader_ok B r \<longleftrightarrow> (\<exists>ls. all_leaves r = Inr ls) \<and> leaves_ok B (seeked r)"

definition reader_view :: "cell list list \<Rightarrow> rfile_reader \<Rightarrow> cell list" where
  "reader_view B r = kept (seeked r) B 0"

lemma sorted_concat_blocks:
  "\<lbrakk>sorted_cells (concat B); i < j; j < length B; c \<in> set (B ! i); d \<in> set (B ! j)\<rbrakk> \<Longrightarrow> fst c \<le> fst d"
proof (induction B arbitrary: i j)
  case (Cons b B)
  obtain j' where j: "j = Suc j'"
    using Cons.prems(2) by (cases j) auto
  have d: "d \<in> set (concat B)"
    using Cons.prems(3,5) by (auto simp: j intro: nth_mem)
  show ?case
  proof (cases i)
    case 0
    then show ?thesis
      using Cons.prems(1,4) d by (auto simp: sorted_append)
  next
    case (Suc i')
    then show ?thesis
      using Cons.IH [of i' j'] Cons.prems by (auto simp: j sorted_append)
  qed
qed simp

lemma sorted_block:
  assumes "sorted_cells (concat B)" "i < length B"
  shows "sorted_cells (B ! i)"
proof -
  have "concat B = concat (take i B) @ B ! i @ concat (drop (Suc i) B)"
    using assms(2) by (metis concat.simps(2) concat_append id_take_nth_drop)
  then show ?thesis
    using assms(1) by (auto simp: sorted_append)
qed

text \<open>Every cell of the blocks up to the \<open>j\<close>-th is at most the key of the \<open>j\<close>-th leaf.\<close>

lemma le_leaf_key:
  assumes ok: "leaves_ok B r" and "i \<le> j" "j < length B" "c \<in> set (B ! i)"
  shows "fst c \<le> EKey (leaves r ! j)"
proof -
  have b: "B ! j \<noteq> []" "EKey (leaves r ! j) = fst (last (B ! j))" and s: "sorted_cells (concat B)"
    using leaf_block_nth [OF ok assms(3)] ok by (auto simp: leaf_block_def leaves_ok_def)
  show ?thesis
  proof (cases "i = j")
    case True
    then show ?thesis
      using sorted_le_last [of fst "B ! j" c] sorted_block [OF s assms(3)] assms(4) b by simp
  next
    case False
    then show ?thesis
      using sorted_concat_blocks [OF s, of i j c "last (B ! j)"] assms b by auto
  qed
qed

lemma leaf_keys_sorted:
  assumes "leaves_ok B r"
  shows "sorted (map EKey (leaves r))"
proof -
  have "EKey (leaves r ! i) \<le> EKey (leaves r ! j)" if "i < j" "j < length B" for i j
    using le_leaf_key [OF assms, of i j "last (B ! i)"] leaf_block_nth [OF assms, of i] that
    by (simp add: leaf_block_def)
  then show ?thesis
    using leaves_ok_length [OF assms] by (simp add: sorted_wrt_iff_nth_less)
qed

lemma kept_split: "i \<le> length B \<Longrightarrow> kept r B 0 = concat (map (\<lambda>j. B ! j) (filter (\<lambda>j. \<not> skipped r j) [0..<i])) @ kept r B i"
  using upt_add_eq_append [of 0 i "length B - i"] by (simp add: kept_def)

lemma rfile_Seek_spec:
  assumes ok: "reader_ok B r"
  shows "\<exists>r'. rfile_Seek target r = (r', None) \<and> reader_ready B r' \<and>
    reader_rem B r' = dropWhile (before target) (reader_view B r) \<and> same_file r r' \<and>
    leaves r' = leaves (seeked r)"
proof -
  obtain ls where ls: "all_leaves r = Inr ls"
    using ok by (auto simp: reader_ok_def)
  define r1 where "r1 = r\<lparr>exhausted := False, lastErr := None, currentBlk := None, pending := None, leaves := ls\<rparr>"
  have close: "closeCurrentBlock (r\<lparr>exhausted := False, lastErr := None\<rparr>)\<lparr>leaves := ls\<rparr> = r1"
    "all_leaves (closeCurrentBlock (r\<lparr>exhausted := False, lastErr := None\<rparr>)) = Inr ls"
    using ls by (auto simp: r1_def closeCurrentBlock_def all_leaves_def reader_leaves_def split: if_splits)
  have r1: "leaves_ok B r1" "kept r1 B = kept (seeked r) B"
    using ok ls leaves_ok_cong [of r1 "seeked r" B] kept_cong [of r1 "seeked r" B]
    by (auto simp: reader_ok_def seeked_def r1_def)
  have al: "all_leaves r1 = Inr ls"
    using ls by (auto simp: r1_def all_leaves_def reader_leaves_def split: if_splits)
  have f: "leaves r1 = ls" "same_file r r1" "leaves (seeked r) = ls" "lastErr r1 = None" "\<not> exhausted r1"
    "pending r1 = None"
    using ls by (simp_all add: r1_def same_file_def seeked_def)
  have len: "length ls = length B"
    using leaves_ok_length [OF r1(1)] f(1) by simp
  define start where "start = (case target of None \<Rightarrow> 0 | Some t \<Rightarrow> below t ls)"
  have start: "start \<le> length B"
    using below_le [of _ ls] len by (auto simp: start_def split: option.splits)
  have lo: "before target c" if i: "i < start" "c \<in> set (B ! i)" for i c
  proof -
    obtain t where t: "target = Some t" "i < below t ls"
      using i(1) by (auto simp: start_def split: option.splits)
    have "i < length B"
      using i(1) start by simp
    then have "fst c \<le> EKey (ls ! i)" "EKey (ls ! i) < t"
      using le_leaf_key [OF r1(1), of i i c] i(2) nth_below [of ls i t] leaf_keys_sorted [OF r1(1)] len f(1) t
      by simp_all
    then show ?thesis
      by (simp add: before_def t)
  qed
  have view: "dropWhile (before target) (reader_view B r) = dropWhile (before target) (kept r1 B start)"
    unfolding reader_view_def r1(2) [symmetric] kept_split [OF start]
    by (rule dropWhile_append2) (use lo in auto)
  define j where "j = firstNonSkippedFrom start r1"
  have j: "start \<le> j"
    unfolding j_def by (rule firstNonSkippedFrom_ge)
  have kept: "kept r1 B start = (if j < length B then B ! j @ kept r1 B (Suc j) else [])"
    using kept_step [of r1 B start] len f(1) by (simp add: j_def Let_def)
  have find: "(case target of None \<Rightarrow> Some 0 | Some t \<Rightarrow> find_leaf t 0 ls) =
      (if start < length ls then Some start else None)" if "ls \<noteq> []"
    using that by (simp add: start_def find_leaf_spec Let_def split: option.splits)
  show ?thesis
  proof (cases "j < length B")
    case False
    have "rfile_Seek target r = (r1\<lparr>exhausted := True\<rparr>, None)"
      using False find len start j
      by (auto simp: rfile_Seek_def Let_def close j_def [symmetric] split: option.splits)
    moreover have "reader_ready B (r1\<lparr>exhausted := True\<rparr>)"
      using r1(1) leaves_ok_cong [of "r1\<lparr>exhausted := True\<rparr>" r1 B] all_leaves_cong [of "r1\<lparr>exhausted := True\<rparr>" r1]
        al f by (simp add: reader_ready_def)
    ultimately show ?thesis
      using False view kept f by (simp add: reader_rem_def same_file_def del: dropWhile_eq_Nil_conv)
  next
    case True
    let ?new = "NewReader (EncodeCells None (B ! j)) (int (length (B ! j)))"
    let ?r2 = "r1\<lparr>leafIdx := j\<rparr>"
    have "leaves_ok B ?r2"
      using r1(1) leaves_ok_cong [of ?r2 r1 B] by simp
    note new = openLeaf_ok [OF this True]
    have last: "last (B ! j) \<in> set (B ! j)" "\<not> before target (last (B ! j))"
      using leaf_block_nth [OF r1(1) True] nth_below [of ls j] leaf_keys_sorted [OF r1(1)] True j len f(1)
      by (auto simp: leaf_block_def before_def start_def split: option.splits)
    then obtain c cs where c: "dropWhile (before target) (B ! j) = c # cs"
      by (metis dropWhile_eq_Nil_conv neq_Nil_conv)
    obtain blk where blk: "seek_scan target ?new = (Inr (Some c), blk)" "blk_ok blk (B ! j)"
      "blk_rem blk (B ! j) = cs"
      using seek_scan_spec [OF new(2), of target] c by (auto simp: blk_rem_new)
    let ?r' = "r1\<lparr>leafIdx := j, currentBlk := Some blk, pending := Some c\<rparr>"
    have "rfile_Seek target r = (?r', None)"
      using True find len start j new(1) blk(1)
      by (auto simp: rfile_Seek_def Let_def close j_def [symmetric] seek_block_def)
    moreover have "reader_ready B ?r'"
      using r1(1) leaves_ok_cong [of ?r' r1 B] all_leaves_cong [of ?r' r1] al f blk True
      by (simp add: reader_ready_def)
    moreover have "reader_rem B ?r' = dropWhile (before target) (kept r1 B start)"
      using f blk True c kept kept_cong [of ?r' r1 B] last dropWhile_append1 [of _ "B ! j" "before target"]
      by (simp add: reader_rem_def pending_list_def)
    ultimately show ?thesis
      using view f by (auto simp: same_file_def)
  qed
qed

lemma rfile_Next_spec:
  assumes ready: "reader_ready B r"
  shows "\<exists>r'. rfile_Next r = Some (case reader_rem B r of [] \<Rightarrow> Inl EOF | c # _ \<Rightarrow> Inr c, r') \<and>
    reader_ready B r' \<and> reader_rem B r' = tl (reader_rem B r) \<and> same_file r r' \<and> leaves r' = leaves r"
proof (cases "exhausted r")
  case True
  then show ?thesis
    using ready by (simp add: rfile_Next_def reader_ready_def reader_rem_def)
next
  case False
  then obtain blk where blk: "currentBlk r = Some blk" and err: "lastErr r = None"
    using ready by (auto simp: reader_ready_def)
  show ?thesis
  proof (cases "pending r")
    case None
    then have "rfile_Next r = next_blocks r"
      using False blk err by (simp add: rfile_Next_def)
    then show ?thesis
      using next_blocks_spec [OF ready False None] by simp
  next
    case (Some c)
    let ?r' = "r\<lparr>pending := None\<rparr>"
    have "rfile_Next r = Some (Inr c, ?r')"
      using False blk err Some by (simp add: rfile_Next_def)
    moreover have "reader_ready B ?r'"
      using ready leaves_ok_cong [of ?r' r B] all_leaves_cong [of ?r' r] by (simp add: reader_ready_def)
    ultimately show ?thesis
      using Some False kept_cong [of ?r' r B] by (simp add: reader_rem_def pending_list_def same_file_def)
  qed
qed

lemma ready_ok:
  assumes "reader_ready B r"
  shows "reader_ok B r" "leaves (seeked r) = leaves r"
proof -
  have "seeked r = r"
    using assms by (simp add: seeked_def reader_ready_def)
  then show "reader_ok B r" "leaves (seeked r) = leaves r"
    using assms by (auto simp: reader_ok_def reader_ready_def)
qed

text \<open>The view of a reader survives every operation that leaves its file alone.\<close>

lemma reader_view_cong:
  assumes "same_file r r'" "leaves (seeked r') = leaves (seeked r)"
  shows "reader_view B r' = reader_view B r"
  using assms kept_cong [of "seeked r'" "seeked r" B 0]
  by (simp add: reader_view_def same_file_def seeked_def)

lemma reader_view_sorted:
  assumes "reader_ok B r"
  shows "sorted_cells (reader_view B r)"
proof -
  have s: "sorted_cells (concat B)"
    using assms by (simp add: reader_ok_def leaves_ok_def)
  have "sorted_cells (concat (map ((!) B) (filter P [i..<length B])))" for P i
  proof (induction "length B - i" arbitrary: i)
    case (Suc n)
    then have "i < length B" "[i..<length B] = i # [Suc i..<length B]"
      by (simp_all add: upt_conv_Cons)
    with Suc.hyps(1) [of "Suc i"] Suc.hyps(2) show ?case
      using sorted_block [OF s] sorted_concat_blocks [OF s, of i]
      by (auto simp: sorted_append Suc_le_eq)
  qed simp
  then show ?thesis
    by (simp add: reader_view_def kept_def)
qed

section \<open>Blocks stored in a file\<close>

definition stored :: "bytes \<Rightarrow> block_region \<Rightarrow> bytes \<Rightarrow> bool" where
  "stored f region c \<longleftrightarrow> c \<noteq> [] \<and> (\<exists>pre post. f = pre @ c @ post \<and>
     sint (Offset region) = int (length pre) \<and> sint (CompressedSize region) = int (length c))"

lemma storedI:
  "\<lbrakk>f = pre @ c @ post; c \<noteq> []; sint (Offset region) = int (length pre);
    sint (CompressedSize region) = int (length c)\<rbrakk> \<Longrightarrow> stored f region c"
  by (auto simp: stored_def)

lemma stored_append:
  assumes "stored f region c"
  shows "stored (f @ x) region c"
proof -
  obtain pre post where "f = pre @ c @ post" "c \<noteq> []" "sint (Offset region) = int (length pre)"
    "sint (CompressedSize region) = int (length c)"
    using assms by (auto simp: stored_def)
  then show ?thesis
    by (intro storedI [of _ pre _ "post @ x"]) simp_all
qed

lemma stored_last:
  assumes "c \<noteq> []" "length (f @ c) < 2 ^ 63" "Offset region = of_nat (length f)"
    "CompressedSize region = of_nat (length c)"
  shows "stored (f @ c) region c"
  using assms sint_of_nat_64 [of "length f"] sint_of_nat_64 [of "length c"]
  by (intro storedI [of _ f _ "[]"]) simp_all

lemma fetchBlock_stored:
  assumes "stored f region c" "Source bc = bytes_ReadAt f" "dec codec = Some fn"
    "in_bounds 0 (sint (FileLength bc)) region"
  shows "fetchBlock bc dec region codec = fn c (RawSize region)"
proof -
  obtain pre post where f: "f = pre @ c @ post" "sint (Offset region) = int (length pre)"
    "sint (CompressedSize region) = int (length c)" "c \<noteq> []"
    using assms(1) by (auto simp: stored_def)
  have "bytes_ReadAt f (sint (Offset region)) (nat (sint (CompressedSize region))) = Inr c"
    using f by (intro bytes_ReadAt_middle) simp_all
  then show ?thesis
    using assms ValidateBlockRegion_in_bounds [OF assms(4)]
    by (auto simp: fetchBlock_def dec_Block_def in_bounds_def)
qed

lemma fetchDataBlock_stored:
  assumes "stored f region c" "Source bc = bytes_ReadAt f" "dec codec = Some fn"
    "in_bounds 0 (sint (DataRegionEnd bc)) region" "sint (DataRegionEnd bc) \<le> sint (FileLength bc)"
    "\<forall>s. declared = Some s \<longrightarrow> region \<in> s"
  shows "fetchDataBlock bc dec declared region codec = fn c (RawSize region)"
proof -
  have "fetchBlock bc dec region codec = fn c (RawSize region)"
    using assms by (intro fetchBlock_stored) (auto intro: in_bounds_mono)
  then show ?thesis
    using ValidateBlockRegion_in_bounds [OF assms(4)] assms(6)
    by (auto simp: fetchDataBlock_def split: option.splits)
qed

end
