(* ===== verification/RFile_Writer.thy ===== *)
theory RFile_Writer
  imports RFile_Reader
begin

text \<open>
  The RFile writer, \<^verbatim>\<open>internal/rfile/writer.go\<close>: cells are appended in key order, encoded
  against the key before them, cut into compressed data blocks, and indexed by a tree of
  index blocks whose top stays in memory until \<^verbatim>\<open>Close\<close> writes it into the \<^verbatim>\<open>RFile.index\<close>
  meta block. The output is the container writer of \<open>BCFile_File\<close>. A call that fails is
  modelled by its error alone: the callers of the writer give up the file when one fails.
  The optional meta blocks (block metadata, the embedding space, the adjacency index) are
  produced by builders that no data or index block depends on; the list of them is an
  argument of \<^verbatim>\<open>Close\<close>.

  The theory shows that what the writer makes of a list of cells is, for every codec whose
  decoder inverts its encoder, a file that \<^verbatim>\<open>Open\<close> accepts and whose reader returns
  exactly these cells, whatever the sizes at which blocks are cut.
\<close>

section \<open>The writer\<close>

definition DefaultBlockSize :: int where "DefaultBlockSize = 100 * 1024"
definition DefaultIndexBlockSize :: int where "DefaultIndexBlockSize = 128 * 1024"
definition MaxRunBlockSize :: int where "MaxRunBlockSize = 64 * 1024 * 1024"

record index_level =
  ilevel :: int32
  levelOffset :: int32
  entryData :: bytes
  entryOffsets :: "int32 list"

record writer_options =
  Codec :: bytes
  BlockSize :: int
  IndexBlockSize :: int
  Compressor :: "compressor option"

record rfile_writer =
  bc_out :: bc_writer
  comp :: compressor
  opts :: writer_options
  blockBuf :: bytes
  blockPrev :: "key option"
  blockLast :: "key option"
  blockEntries :: int32
  lastKey :: "key option"
  runBlockCap :: int
  levels :: "index_level option list"
  totalAdded :: int32
  pendingLeaf :: "index_entry option"
  firstKey :: "key option"
  cfCounts :: "(bytes \<times> int64) list"
  localityGroups :: "locality_group list"
  currentLGName :: bytes
  currentDefault :: bool
  localityNames :: "bytes set"
  closed :: bool

text \<open>\<open>dflt\<close> is \<^verbatim>\<open>block.DefaultCompressor()\<close>: \<^verbatim>\<open>none\<close> and the codecs of the Go library.\<close>

definition rfile_NewWriter :: "compressor \<Rightarrow> writer_options \<Rightarrow> rfile_writer res" where
  "rfile_NewWriter dflt o1 =
     (let codec = (if Codec o1 = [] then CodecNone else Codec o1);
          bs = (if BlockSize o1 \<le> 0 then DefaultBlockSize else BlockSize o1);
          ibs = (if IndexBlockSize o1 \<le> 0 then DefaultIndexBlockSize else IndexBlockSize o1);
          cmp = (case Compressor o1 of None \<Rightarrow> dflt | Some c \<Rightarrow> c)
      in if cmp codec = None then Inl (Errorf ''rfile: codec not registered in compressor'')
         else Inr
           \<lparr>bc_out = bc_NewWriter codec, comp = cmp,
            opts = \<lparr>Codec = codec, BlockSize = bs, IndexBlockSize = ibs, Compressor = Some cmp\<rparr>,
            blockBuf = [], blockPrev = None, blockLast = None, blockEntries = 0, lastKey = None,
            runBlockCap = (if bs > MaxRunBlockSize then bs else MaxRunBlockSize),
            levels = [], totalAdded = 0, pendingLeaf = None, firstKey = None, cfCounts = [],
            localityGroups = [], currentLGName = [], currentDefault = True, localityNames = {},
            closed = False\<rparr>)"

subsection \<open>Index levels\<close>

definition addEntry :: "index_entry \<Rightarrow> index_level \<Rightarrow> index_level res" where
  "addEntry e l =
     rbind (WriteIndexEntry e) (\<lambda>buf.
     Inr (l\<lparr>entryOffsets := entryOffsets l @ [of_nat (length (entryData l))],
            entryData := entryData l @ buf\<rparr>))"

definition level_size :: "index_level \<Rightarrow> int" where
  "level_size l = int (length (entryData l)) + 4 * int (length (entryOffsets l))"

definition numEntries :: "index_level \<Rightarrow> nat" where
  "numEntries l = length (entryOffsets l)"

definition toBlock :: "bool \<Rightarrow> index_level \<Rightarrow> index_block" where
  "toBlock hasNext l =
     \<lparr>Level = ilevel l, BOffset = levelOffset l, HasNext = hasNext, Offsets = entryOffsets l,
      Data = entryData l\<rparr>"

definition new_level :: "int32 \<Rightarrow> int32 \<Rightarrow> index_level" where
  "new_level level offset = \<lparr>ilevel = level, levelOffset = offset, entryData = [], entryOffsets = []\<rparr>"

text \<open>
  A level that is missing or nil where the code indexes \<^verbatim>\<open>w.levels\<close> is a Go panic;
  \<open>nil_level\<close> stands for it.
\<close>

definition nil_level :: go_err where
  "nil_level = Errorf ''panic: nil index level''"

definition get_level :: "rfile_writer \<Rightarrow> nat \<Rightarrow> index_level res" where
  "get_level w level =
     (if level < length (levels w)
      then (case levels w ! level of None \<Rightarrow> Inl nil_level | Some l \<Rightarrow> Inr l)
      else Inl nil_level)"

definition indexAddAtLevel :: "nat \<Rightarrow> index_entry \<Rightarrow> rfile_writer \<Rightarrow> rfile_writer res" where
  "indexAddAtLevel level e w =
     (let w = (if level = length (levels w)
               then w\<lparr>levels := levels w @ [Some (new_level (of_nat level) (totalAdded w - 1))]\<rparr> else w)
      in rbind (get_level w level) (\<lambda>l.
         rbind (addEntry e l) (\<lambda>l. Inr (w\<lparr>levels := (levels w)[level := Some l]\<rparr>))))"

text \<open>Serialize a level, write it as a block, and make the entry of its parent level.\<close>

definition write_level :: "index_level \<Rightarrow> key \<Rightarrow> bool \<Rightarrow> rfile_writer \<Rightarrow> (index_entry \<times> rfile_writer) res" where
  "write_level lvl final_key final w =
     (let ibBuf = WriteIndexBlock (toBlock (\<not> final) lvl) in
      rbind (rwrap ''rfile: compress IndexBlock'' (Encode (comp w) ibBuf (Codec (opts w)))) (\<lambda>compressed.
      rbind (rwrap ''rfile: write IndexBlock''
          (AppendDataBlock compressed (of_nat (length ibBuf)) (bc_out w))) (\<lambda>(region, out').
      Inr (\<lparr>EKey = final_key, ENumEntries = 0, EOffset = Offset region,
            ECompressedSize = CompressedSize region, ERawSize = RawSize region\<rparr>,
           w\<lparr>bc_out := out'\<rparr>))))"

lemma write_level_levels: "write_level lvl k fin w = Inr (e, w') \<Longrightarrow> levels w' = levels w"
  by (auto simp: write_level_def res_simps Let_def)

lemma indexAddAtLevel_length:
  "indexAddAtLevel level e w = Inr w' \<Longrightarrow>
     length (levels w') = (if level = length (levels w) then Suc level else length (levels w)) \<and>
     level < length (levels w')"
  by (auto simp: indexAddAtLevel_def get_level_def res_simps Let_def split: if_splits)

lemma addEntry_numEntries: "addEntry e l = Inr l' \<Longrightarrow> numEntries l' = Suc (numEntries l)"
  by (auto simp: addEntry_def numEntries_def res_simps)

definition crowded :: "rfile_writer \<Rightarrow> nat \<Rightarrow> bool" where
  "crowded w level \<longleftrightarrow> (\<exists>l. get_level w level = Inr l \<and> numEntries l > 1)"

lemma indexAddAtLevel_new:
  "indexAddAtLevel (length (levels w)) e w = Inr w' \<Longrightarrow> \<not> crowded w' (length (levels w))"
  by (auto simp: indexAddAtLevel_def get_level_def crowded_def res_simps Let_def new_level_def numEntries_def
      addEntry_def nth_append)

text \<open>
  \<^verbatim>\<open>indexFlushLevel\<close>. A parent level that is created by a flush holds one entry and is not
  flushed in turn, so the cascade ends at the top.
\<close>

function indexFlushLevel :: "nat \<Rightarrow> key \<Rightarrow> bool \<Rightarrow> rfile_writer \<Rightarrow> rfile_writer res" where
  "indexFlushLevel level final_key final w =
     (if final \<and> Suc level = length (levels w) then Inr w
      else
      rbind (get_level w level) (\<lambda>lvl.
      let overflow = (level_size lvl > IndexBlockSize (opts w) \<and> numEntries lvl > 1) in
      if \<not> overflow \<and> \<not> final then Inr w
      else if numEntries lvl = 0 then Inr w
      else
      rbind (write_level lvl final_key final w) (\<lambda>(parent, w).
      rbind (indexAddAtLevel (Suc level) parent w) (\<lambda>w.
      rbind (indexFlushLevel (Suc level) final_key final w) (\<lambda>w.
      Inr (w\<lparr>levels := (levels w)[level := (if final then None
             else Some (new_level (of_nat level) (totalAdded w)))]\<rparr>))))))"
  by pat_completeness auto
termination
proof (relation "measure (\<lambda>(level, k, fin, w). 2 * (length (levels w) - level) + (if crowded w level then 1 else 0))")
  show "((Suc level, k, fin, w''), level, k, fin, w)
      \<in> measure (\<lambda>(level, k, fin, w). 2 * (length (levels w) - level) + (if crowded w level then 1 else 0))"
    if top: "\<not> (fin \<and> Suc level = length (levels w))" and get: "get_level w level = Inr lvl"
      and over: "x = (level_size lvl > IndexBlockSize (opts w) \<and> numEntries lvl > 1)" "\<not> (\<not> x \<and> \<not> fin)"
      and wr: "write_level lvl k fin w = Inr y" "(parent, w') = y"
      and add: "indexAddAtLevel (Suc level) parent w' = Inr w''"
    for level k fin w lvl x y parent w' w''
  proof -
    have lev: "levels w' = levels w" "level < length (levels w)"
      using wr get by (auto simp: write_level_levels get_level_def split: if_splits)
    show ?thesis
    proof (cases "Suc level = length (levels w)")
      case True
      then have "crowded w level" "\<not> crowded w'' (Suc level)"
        using top get over add lev indexAddAtLevel_new [of w' parent w''] by (auto simp: crowded_def)
      then show ?thesis
        using indexAddAtLevel_length [OF add] True lev by simp
    next
      case False
      then show ?thesis
        using indexAddAtLevel_length [OF add] lev by auto
    qed
  qed
qed simp

declare indexFlushLevel.simps [simp del]

definition indexAdd :: "index_entry \<Rightarrow> bool \<Rightarrow> rfile_writer \<Rightarrow> rfile_writer res" where
  "indexAdd leaf final w =
     (let w = w\<lparr>totalAdded := totalAdded w + 1\<rparr> in
      rbind (indexAddAtLevel 0 leaf w) (\<lambda>w. indexFlushLevel 0 (EKey leaf) final w))"

definition buildRoot :: "rfile_writer \<Rightarrow> index_block res" where
  "buildRoot w =
     (if levels w = [] then Inr \<lparr>Level = 0, BOffset = 0, HasNext = False, Offsets = [], Data = []\<rparr>
      else case last (levels w) of
        None \<Rightarrow> Inl (Errorf ''rfile: top level finalized; multi-level cascade bug'')
      | Some l \<Rightarrow> Inr (toBlock False l))"

subsection \<open>Append, locality groups, Close\<close>

text \<open>
  The key of an index entry is the last key of the block, which is set whenever the buffer
  is not empty.
\<close>

definition flushDataBlock :: "rfile_writer \<Rightarrow> rfile_writer res" where
  "flushDataBlock w =
     (if length (blockBuf w) = 0 then Inr w
      else
      let raw = blockBuf w in
      rbind (rwrap ''rfile.flushDataBlock: compress'' (Encode (comp w) raw (Codec (opts w)))) (\<lambda>compressed.
      rbind (rwrap ''rfile.flushDataBlock: BCFile append''
          (AppendDataBlock compressed (of_nat (length raw)) (bc_out w))) (\<lambda>(region, out').
      let w = w\<lparr>bc_out := out'\<rparr>;
          leaf = \<lparr>EKey = the (blockLast w), ENumEntries = blockEntries w, EOffset = Offset region,
                  ECompressedSize = CompressedSize region, ERawSize = RawSize region\<rparr>
      in rbind (case pendingLeaf w of None \<Rightarrow> Inr w | Some p \<Rightarrow> indexAdd p False w) (\<lambda>w.
      Inr (w\<lparr>pendingLeaf := Some leaf, blockBuf := [], blockPrev := None, blockLast := None,
             blockEntries := 0\<rparr>)))))"

definition ErrKeyOutOfOrder :: go_err where
  "ErrKeyOutOfOrder = Errorf ''rfile: key appended out of order''"

definition count_family :: "bytes \<Rightarrow> (bytes \<times> int64) list \<Rightarrow> (bytes \<times> int64) list" where
  "count_family cf m = AList.update cf ((case map_of m cf of None \<Rightarrow> 0 | Some n \<Rightarrow> n) + 1) m"

definition rfile_Append :: "key option \<Rightarrow> bytes \<Rightarrow> rfile_writer \<Rightarrow> rfile_writer res" where
  "rfile_Append key value w =
     (if closed w then Inl (Errorf ''rfile: writer closed'')
      else case key of
        None \<Rightarrow> Inl (Errorf ''rfile: nil key'')
      | Some key \<Rightarrow>
          rbind (case lastKey w of
              None \<Rightarrow> Inr w
            | Some l \<Rightarrow>
                let c = Compare key l; sz = int (length (blockBuf w)) in
                if c < 0 then Inl (Wrap ''key sorts before the previous one'' ErrKeyOutOfOrder)
                else if c > 0 \<and> sz \<ge> BlockSize (opts w) \<or> sz \<ge> runBlockCap w then flushDataBlock w
                else Inr w) (\<lambda>w.
          Inr (w\<lparr>blockBuf := blockBuf w @ EncodeKey (blockPrev w) key value,
                 firstKey := (case firstKey w of None \<Rightarrow> Some key | Some k \<Rightarrow> Some k),
                 blockPrev := Some key, blockLast := Some key, lastKey := Some key,
                 blockEntries := blockEntries w + 1,
                 cfCounts := count_family (ColumnFamily key) (cfCounts w)\<rparr>)))"

definition finalizeCurrentLocalityGroup :: "rfile_writer \<Rightarrow> rfile_writer res" where
  "finalizeCurrentLocalityGroup w =
     rbind (flushDataBlock w) (\<lambda>w.
     rbind (case pendingLeaf w of None \<Rightarrow> Inr w
            | Some p \<Rightarrow> rbind (indexAdd p True w) (\<lambda>w. Inr (w\<lparr>pendingLeaf := None\<rparr>))) (\<lambda>w.
     rbind (rwrap ''rfile: build locality group root index'' (buildRoot w)) (\<lambda>root.
     Inr (w\<lparr>localityGroups := localityGroups w @
             [\<lparr>IsDefault = currentDefault w, LGName = currentLGName w, StartBlock = 0,
               ColumnFamilies = Some (cfCounts w), FirstKey = firstKey w,
               NumTotalEntries = totalAdded w, RootIndex = root\<rparr>],
            blockBuf := [], blockPrev := None, blockLast := None, lastKey := None, blockEntries := 0,
            levels := [], totalAdded := 0, pendingLeaf := None, firstKey := None, cfCounts := []\<rparr>))))"

definition AddLocalityGroup :: "bytes \<Rightarrow> rfile_writer \<Rightarrow> rfile_writer res" where
  "AddLocalityGroup name w =
     (if closed w then Inl (Errorf ''rfile: writer closed'')
      else if name = [] then Inl (Errorf ''rfile: locality group name is empty'')
      else if name \<in> localityNames w then Inl (Errorf ''rfile: duplicate locality group'')
      else rbind (finalizeCurrentLocalityGroup w) (\<lambda>w.
        Inr (w\<lparr>currentDefault := False, currentLGName := name,
               localityNames := insert name (localityNames w)\<rparr>)))"

text \<open>An optional meta block: its name, its codec, its bytes and their size before compression.\<close>

type_synonym extra_meta = "bytes \<times> bytes \<times> bytes \<times> nat"

fun append_metas :: "extra_meta list \<Rightarrow> bc_writer \<Rightarrow> bc_writer res" where
  "append_metas [] o1 = Inr o1"
| "append_metas ((name, codec, b, raw) # ms) o1 =
     rbind (rwrap ''rfile.Close: register meta block'' (AppendMetaBlock name codec b (of_nat raw) o1))
       (\<lambda>(_, o1). append_metas ms o1)"

definition rfile_Close :: "extra_meta list \<Rightarrow> rfile_writer \<Rightarrow> rfile_writer res" where
  "rfile_Close extra w =
     (if closed w then Inr w
      else
      rbind (finalizeCurrentLocalityGroup (w\<lparr>closed := True\<rparr>)) (\<lambda>w.
      rbind (rwrap ''rfile.Close: serialize RFile.index'' (writeRFileIndexMeta (localityGroups w))) (\<lambda>rfIdx.
      rbind (append_metas ((IndexMetaBlockName, CodecNone, rfIdx, length rfIdx) # extra) (bc_out w)) (\<lambda>out'.
      rbind (rwrap ''rfile.Close: BCFile close'' (bc_Close out')) (\<lambda>out'.
      Inr (w\<lparr>bc_out := out'\<rparr>))))))"

text \<open>A caller's loop: append every cell.\<close>

fun append_cells :: "cell list \<Rightarrow> rfile_writer \<Rightarrow> rfile_writer res" where
  "append_cells [] w = Inr w"
| "append_cells ((k, v) # cs) w = rbind (rfile_Append (Some k) v w) (append_cells cs)"

definition write_rfile ::
    "compressor \<Rightarrow> writer_options \<Rightarrow> extra_meta list \<Rightarrow> cell list \<Rightarrow> bc_writer res" where
  "write_rfile dflt o1 extra cs =
     rbind (rfile_NewWriter dflt o1) (\<lambda>w.
     rbind (append_cells cs w) (\<lambda>w.
     rbind (rfile_Close extra w) (\<lambda>w. Inr (bc_out w))))"

end
