(* ===== verification/RFile_Tree.thy ===== *)
theory RFile_Tree
  imports RFile_Writer
begin

text \<open>
  The parts of the RFile round trip that do not depend on the order in which the writer
  works: the entries of an index level decode from the block the level is written as, the
  traversal of the reader collects the leaves of a well-formed tree of index blocks, and the
  container keeps every block it was given. The codec of the blocks is third-party code: the
  locale \<open>block_codec\<close> says what is relied on, and the codec \<^verbatim>\<open>none\<close> satisfies it.
\<close>

section \<open>The entries of an index level\<close>

definition entry_bytes :: "index_entry \<Rightarrow> bytes" where
  "entry_bytes e = projr (WriteIndexEntry e)"

lemma WriteIndexEntry_bytes: "WriteIndexEntry e = Inr (entry_bytes e)"
  using WriteIndexEntry_total [of e] by (auto simp: entry_bytes_def)

definition bytes_before :: "index_entry list \<Rightarrow> nat \<Rightarrow> nat" where
  "bytes_before es i = length (concat (map entry_bytes (take i es)))"

definition level_holds :: "index_level \<Rightarrow> index_entry list \<Rightarrow> bool" where
  "level_holds l es \<longleftrightarrow> entryData l = concat (map entry_bytes es) \<and>
     entryOffsets l = map (\<lambda>i. of_nat (bytes_before es i)) [0..<length es]"

lemma level_holds_new [simp]: "level_holds (new_level a b) []"
  by (simp add: level_holds_def new_level_def)

lemma addEntry_holds:
  assumes "level_holds l es"
  shows "\<exists>l'. addEntry e l = Inr l' \<and> level_holds l' (es @ [e]) \<and> ilevel l' = ilevel l"
  using assms by (auto simp: addEntry_def WriteIndexEntry_bytes level_holds_def bytes_before_def)

lemma level_holds_numEntries: "level_holds l es \<Longrightarrow> numEntries l = length es"
  by (simp add: level_holds_def numEntries_def)

lemma length_WriteKey: "length (WriteKey k) \<le> key_bytes k + 46"
proof -
  have vlong: "length (WriteVLong v) \<le> 9" for v
    using length_WriteVLong by blast
  obtain a b c d where wk: "WriteKey k = WriteVLong a @ WriteVLong b @ WriteVLong c @ WriteVLong d @
      Row k @ ColumnFamily k @ ColumnQualifier k @ ColumnVisibility k @
      WriteVLong (Timestamp k) @ WriteBool (Deleted k)"
    unfolding WriteKey_def Let_def WriteVInt_def by blast
  show ?thesis
    using wk vlong [of a] vlong [of b] vlong [of c] vlong [of d] vlong [of "Timestamp k"]
    by (simp add: WriteBool_def key_bytes_def)
qed

lemma entry_bytes_length: "4 \<le> length (entry_bytes e)"
  "length (entry_bytes e) \<le> key_bytes (EKey e) + 80"
proof -
  obtain off csz rsz where *: "bc_WriteVLong (EOffset e) = Inr off" "bc_WriteVLong (ECompressedSize e) = Inr csz"
    "bc_WriteVLong (ERawSize e) = Inr rsz"
    "entry_bytes e = WriteKey (EKey e) @ WriteInt32 (ENumEntries e) @ off @ csz @ rsz"
    using WriteIndexEntry_bytes [of e] by (auto simp: WriteIndexEntry_def res_simps)
  then show "4 \<le> length (entry_bytes e)" "length (entry_bytes e) \<le> key_bytes (EKey e) + 80"
    using length_WriteKey [of "EKey e"] length_bc_WriteVLong [OF *(1)] length_bc_WriteVLong [OF *(2)]
      length_bc_WriteVLong [OF *(3)]
    by simp_all
qed

lemma bytes_before_Suc:
  "i < length es \<Longrightarrow> bytes_before es (Suc i) = bytes_before es i + length (entry_bytes (es ! i))"
  by (simp add: bytes_before_def take_Suc_conv_app_nth)

lemma bytes_before_le: "i \<le> length es \<Longrightarrow> bytes_before es i \<le> length (concat (map entry_bytes es))"
  unfolding bytes_before_def
  by (metis append_take_drop_id concat_append length_append le_add1 map_append)

lemma toBlock_segment:
  assumes holds: "level_holds l es" and len: "length (entryData l) < 2 ^ 31" and i: "i < length es"
  shows "entries_segment (toBlock h l) i = Inr (entry_bytes (es ! i))"
proof -
  let ?b = "toBlock h l"
  have data: "Data ?b = concat (map entry_bytes es)" and n: "block_NumEntries ?b = length es"
    using holds by (simp_all add: toBlock_def level_holds_def block_NumEntries_def)
  have all: "bytes_before es (length es) = length (Data ?b)"
    by (simp add: bytes_before_def data)
  have off: "sint (Offsets ?b ! j) = int (bytes_before es j)" if "j < length es" for j
  proof -
    have "bytes_before es j < 2 ^ 31"
      using bytes_before_le [of j es] that len holds by (simp add: level_holds_def)
    then show ?thesis
      using that holds by (simp add: toBlock_def level_holds_def sint_of_nat_32)
  qed
  have stop: "(if i + 1 < block_NumEntries ?b then sint (Offsets ?b ! (i + 1)) else int (length (Data ?b))) =
      int (bytes_before es (Suc i))"
    using off [of "i + 1"] i n all by (cases "i + 1 = length es") auto
  have le: "bytes_before es i \<le> bytes_before es (Suc i)" "bytes_before es (Suc i) \<le> length (Data ?b)"
    using i bytes_before_Suc [OF i] bytes_before_le [of "Suc i" es] by (simp_all add: data)
  have "take (bytes_before es (Suc i) - bytes_before es i) (drop (bytes_before es i) (Data ?b)) = entry_bytes (es ! i)"
  proof -
    have "es = take i es @ es ! i # drop (Suc i) es"
      using i by (rule id_take_nth_drop)
    then have "Data ?b = concat (map entry_bytes (take i es)) @ entry_bytes (es ! i) @
        concat (map entry_bytes (drop (Suc i) es))"
      unfolding data by (metis concat.simps(2) concat_append list.simps(9) map_append)
    then show ?thesis
      using bytes_before_Suc [OF i] by (simp add: bytes_before_def)
  qed
  then show ?thesis
    using i n le stop off [OF i]
    by (simp add: entries_segment_def Let_def nat_diff_distrib')
qed

lemma toBlock_entries:
  assumes "level_holds l es" "length (entryData l) < 2 ^ 31" "\<forall>e\<in>set es. key_bytes (EKey e) < 2 ^ 31"
  shows "block_entries (toBlock h l) es"
proof -
  have "entries_At (toBlock h l) i = Inr (es ! i)" if "i < length es" for i
    using toBlock_segment [OF assms(1,2) that]
      ReadIndexEntry_WriteIndexEntry [OF WriteIndexEntry_bytes, of "es ! i" "[]"] assms(3) that
    by (simp add: entries_At_def)
  then show ?thesis
    using assms(1) by (simp add: block_entries_def block_NumEntries_def toBlock_def level_holds_def)
qed

lemma offsets_increase_before:
  assumes "length (concat (map entry_bytes es)) < 2 ^ 31" "i \<le> length es"
    "\<forall>p. previous = Some p \<longrightarrow> 0 < i \<and> p = of_nat (bytes_before es (i - 1))"
  shows "offsets_increase (map (\<lambda>j. of_nat (bytes_before es j)) [i..<length es])
    (of_nat (length (concat (map entry_bytes es)))) previous = None"
  using assms
proof (induction "length es - i" arbitrary: i previous)
  case (Suc n)
  then have i: "i < length es" "[i..<length es] = i # [Suc i..<length es]"
    by (simp_all add: upt_conv_Cons)
  have sint: "sint (of_nat (bytes_before es j) :: int32) = int (bytes_before es j)" if "j \<le> length es" for j
    using bytes_before_le [OF that] Suc.prems(1) by (intro sint_of_nat_32) simp
  have "bytes_before es i < bytes_before es (Suc i)"
    using bytes_before_Suc [OF i(1)] entry_bytes_length(1) [of "es ! i"] by linarith
  moreover have "bytes_before es (Suc i) \<le> length (concat (map entry_bytes es))"
    using i bytes_before_le [of "Suc i" es] by simp
  moreover have "bytes_before es (i - 1) < bytes_before es i" if "0 < i"
    using bytes_before_Suc [of "i - 1" es] entry_bytes_length(1) [of "es ! (i - 1)"] i that
    by (metis One_nat_def Suc_pred less_imp_diff_less less_add_same_cancel1 less_le_trans zero_less_numeral)
  moreover have "offsets_increase (map (\<lambda>j. of_nat (bytes_before es j)) [Suc i..<length es])
      (of_nat (length (concat (map entry_bytes es)))) (Some (of_nat (bytes_before es i))) = None"
    using Suc.hyps(2) i by (intro Suc.hyps(1) Suc.prems(1)) auto
  moreover have "sint (of_nat (bytes_before es (i - 1)) :: int32) = int (bytes_before es (i - 1))"
    using i by (intro sint) simp
  ultimately show ?case
    using sint [of i] sint_of_nat_32 [OF Suc.prems(1)] i Suc.prems(3)
    by (auto split: option.splits)
qed simp

lemma toBlock_fits:
  assumes holds: "level_holds l es" and "length es \<le> 2 ^ 20" "length (entryData l) \<le> 2 ^ 26"
  shows "block_fits (toBlock h l)"
proof -
  have data: "entryData l = concat (map entry_bytes es)"
    using holds by (simp add: level_holds_def)
  have "offsets_increase (map (\<lambda>j. of_nat (bytes_before es j)) [0..<length es])
      (of_nat (length (concat (map entry_bytes es)))) None = None"
    using assms(3) data by (intro offsets_increase_before) simp_all
  moreover have "hd (map (\<lambda>j. of_nat (bytes_before es j)) [0..<length es]) = (0 :: int32)" if "es \<noteq> []"
    using that by (simp add: hd_map bytes_before_def)
  ultimately show ?thesis
    using holds assms by (cases es)
      (simp_all add: block_fits_def toBlock_def level_holds_def limit_defs validateIndexOffsets_def)
qed

section \<open>Reading a tree of index blocks\<close>

text \<open>
  An entry of level \<open>n\<close> with the leaves below it and the regions of all blocks below it:
  an entry of level 0 is a leaf, and the block of an entry of a higher level is stored, its
  last key is the key of the entry, and its own entries are nodes of the level below.
\<close>

primrec node ::
    "(block_region \<Rightarrow> index_block \<Rightarrow> bool) \<Rightarrow> nat \<Rightarrow> index_entry \<Rightarrow> index_entry list \<times> block_region list \<Rightarrow> bool" where
  "node St 0 e t \<longleftrightarrow> t = ([e], [region_of e]) \<and> 0 < sint (ENumEntries e)"
| "node St (Suc n) e t \<longleftrightarrow> (\<exists>b es ts. St (region_of e) b \<and> Level b = of_nat n \<and> block_entries b es \<and>
     es \<noteq> [] \<and> EKey (last es) = EKey e \<and> list_all2 (node St n) es ts \<and>
     t = (concat (map fst ts), region_of e # concat (map snd ts)))"

lemma all2_leaves:
  assumes "list_all2 P es ts" "\<And>e t. P e t \<Longrightarrow> fst t \<noteq> [] \<and> EKey (last (fst t)) = EKey e"
  shows "(concat (map fst ts) = [] \<longleftrightarrow> es = []) \<and>
    (es \<noteq> [] \<longrightarrow> EKey (last (concat (map fst ts))) = EKey (last es))"
  using assms(1)
proof (induction rule: list_all2_induct)
  case (Cons e es t ts)
  then show ?case
    using assms(2) [of e t] by (auto simp: last_append)
qed simp

lemma node_leaves:
  "node St n e t \<Longrightarrow> fst t \<noteq> [] \<and> EKey (last (fst t)) = EKey e"
proof (induction n arbitrary: e t)
  case (Suc n)
  then obtain es ts where *: "es \<noteq> []" "EKey (last es) = EKey e" "list_all2 (node St n) es ts"
    "fst t = concat (map fst ts)"
    by auto
  then show ?case
    using all2_leaves [OF *(3) Suc.IH] by auto
qed simp

lemma node_mono: "\<lbrakk>node St n e t; \<And>r b. St r b \<Longrightarrow> St' r b\<rbrakk> \<Longrightarrow> node St' n e t"
proof (induction n arbitrary: e t)
  case (Suc n)
  obtain b es ts where *: "St (region_of e) b" "Level b = of_nat n" "block_entries b es"
    "es \<noteq> []" "EKey (last es) = EKey e" "list_all2 (node St n) es ts"
    "t = (concat (map fst ts), region_of e # concat (map snd ts))"
    using Suc.prems(1) by auto
  have "list_all2 (node St' n) es ts"
    using *(6) by (rule list_all2_mono) (rule Suc.IH [OF _ Suc.prems(2)])
  then show ?case
    using * Suc.prems(2) [OF *(1)] by auto
qed simp

lemma nodes_leaves:
  assumes "list_all2 (node St n) es ts"
  shows "concat (map fst ts) = [] \<longleftrightarrow> es = []"
    "es \<noteq> [] \<Longrightarrow> EKey (last (concat (map fst ts))) = EKey (last es)"
  using all2_leaves [OF assms node_leaves] by auto

text \<open>The keys of the entries of a level are keys of leaves, so they are in order as well.\<close>

lemma nodes_sorted:
  assumes "list_all2 (node St n) es ts" "sorted (map EKey (concat (map fst ts)))"
  shows "sorted (map EKey es)" "\<forall>e\<in>set es. EKey (hd (concat (map fst ts))) \<le> EKey e"
proof -
  have "sorted (map EKey es) \<and> (\<forall>e\<in>set es. EKey (hd (concat (map fst ts))) \<le> EKey e)"
    using assms
  proof (induction rule: list_all2_induct)
    case (Cons e es t ts)
    have t: "fst t \<noteq> []" "EKey (last (fst t)) = EKey e"
      using node_leaves [OF Cons.hyps(1)] by auto
    have s: "sorted (map EKey (fst t))" "sorted (map EKey (concat (map fst ts)))"
      "\<forall>x\<in>set (fst t). \<forall>y\<in>set (concat (map fst ts)). EKey x \<le> EKey y"
      using Cons.prems by (auto simp: sorted_append)
    have 1: "EKey (hd (fst t)) \<le> EKey e"
      using sorted_le_last [OF s(1), of "hd (fst t)"] t by simp
    have 2: "EKey e \<le> EKey x" if "x \<in> set es" for x
    proof -
      have "concat (map fst ts) \<noteq> []"
        using that nodes_leaves(1) [OF Cons.hyps(2)] by auto
      then have "EKey (last (fst t)) \<le> EKey (hd (concat (map fst ts)))"
        using s(3) t(1) by (meson hd_in_set last_in_set)
      also have "\<dots> \<le> EKey x"
        using Cons.IH s(2) that by blast
      finally show ?thesis
        using t(2) by simp
    qed
    show ?case
      using 1 2 Cons.IH s(2) t(1) by (auto intro: order_trans)
  qed simp
  then show "sorted (map EKey es)" "\<forall>e\<in>set es. EKey (hd (concat (map fst ts))) \<le> EKey e"
    by auto
qed

lemma validate_loop_ok:
  assumes "map (entries_At b) is = map Inr es" "sorted (map EKey es)"
    "\<forall>p. previous = Some p \<longrightarrow> (\<forall>e\<in>set es. p \<le> EKey e)" "Level b = 0 \<longrightarrow> (\<forall>e\<in>set es. 0 < sint (ENumEntries e))"
  shows "validate_loop b is first previous =
    Inr (if first \<noteq> None then first else if es = [] then None else Some (EKey (hd es)),
         if es = [] then previous else Some (EKey (last es)))"
  using assms
proof (induction "is" arbitrary: es first previous)
  case (Cons i "is")
  then obtain e es' where es: "es = e # es'" "entries_At b i = Inr e" "map (entries_At b) is = map Inr es'"
    by (cases es) auto
  have "\<not> (case previous of None \<Rightarrow> False | Some p \<Rightarrow> Compare (EKey e) p < 0)"
    using Cons.prems(3) es(1) Compare_nonneg by (auto simp: not_less split: option.splits)
  moreover have "validate_loop b is (if first = None then Some (EKey e) else first) (Some (EKey e)) =
      Inr (if first = None then Some (EKey e) else first, if es' = [] then Some (EKey e) else Some (EKey (last es')))"
    using Cons.IH [OF es(3), of "Some (EKey e)" "if first = None then Some (EKey e) else first"] Cons.prems es(1) by auto
  ultimately show ?case
    using es Cons.prems(4) by auto
qed simp

lemma validateBlockEntries_ok:
  assumes "block_entries b es" "sorted (map EKey es)" "0 \<le> sint (Level b)"
    "Level b = 0 \<longrightarrow> (\<forall>e\<in>set es. 0 < sint (ENumEntries e))"
  shows "validateBlockEntries b =
    Inr (if es = [] then None else Some (EKey (hd es)), if es = [] then None else Some (EKey (last es)))"
  using assms validate_loop_ok [of b "[0..<block_NumEntries b]" es None None]
  by (simp add: validateBlockEntries_def block_entries_map)

lemma level_of_nat:
  assumes "n \<le> 64"
  shows "sint (of_nat n :: int32) = int n" "(of_nat n :: int32) = 0 \<longleftrightarrow> n = 0"
  using assms sint_of_nat_32 [of n] by (auto simp flip: of_nat_0)

lemma nodes_count:
  "\<lbrakk>list_all2 (node St n) es ts; n = 0; e \<in> set es\<rbrakk> \<Longrightarrow> 0 < sint (ENumEntries e)"
  by (auto simp: list_all2_conv_all_nth in_set_conv_nth)

lemma nodes_validate:
  assumes "list_all2 (node St n) es ts" "sorted (map EKey (concat (map fst ts)))" "block_entries b es"
    "Level b = of_nat n" "n \<le> 64"
  shows "validateBlockEntries b =
    Inr (if es = [] then None else Some (EKey (hd es)), if es = [] then None else Some (EKey (last es)))"
  using assms nodes_sorted(1) [OF assms(1,2)] nodes_count [OF assms(1)] level_of_nat [OF assms(5)]
  by (intro validateBlockEntries_ok) auto

lemma iterate_entries_nodes:
  assumes rd: "\<And>r b. St r b \<Longrightarrow> rd r = Inr (Some b)"
  shows "\<lbrakk>Level b = of_nat n; n \<le> 64; map (entries_At b) is = map Inr es; list_all2 (node St n) es ts;
    sorted (map EKey (concat (map fst ts)));
    \<forall>p. l = Some p \<longrightarrow> (\<forall>x\<in>set (concat (map fst ts)). p \<le> EKey x);
    \<forall>p. lower = Some p \<longrightarrow> (\<forall>x\<in>set (concat (map fst ts)). p \<le> EKey x);
    distinct (map region_key (concat (map snd ts))); V \<inter> region_key ` set (concat (map snd ts)) = {}\<rbrakk> \<Longrightarrow>
    iterate_entries (Some rd) app_leaf b is lower (V, l, out) =
      Inr (V \<union> region_key ` set (concat (map snd ts)),
           if es = [] then l else Some (EKey (last es)), out @ concat (map fst ts))"
proof (induction n arbitrary: b "is" es ts l lower V out)
  case 0
  then show ?case
  proof (induction "is" arbitrary: es ts l lower V out)
    case (Cons i "is")
    obtain e es' ts' where es: "es = e # es'" "entries_At b i = Inr e" "map (entries_At b) is = map Inr es'"
      "ts = ([e], [region_of e]) # ts'" "list_all2 (node St 0) es' ts'"
    proof -
      obtain e es' t ts' where *: "es = e # es'" "entries_At b i = Inr e" "map (entries_At b) is = map Inr es'"
        "ts = t # ts'" "list_all2 (node St 0) es' ts'" "node St 0 e t"
        using Cons.prems(3,4) by (auto simp: Cons_eq_map_conv list_all2_Cons1 simp del: node.simps)
      with that show thesis
        by simp
    qed
    have "\<not> (case l of None \<Rightarrow> False | Some p \<Rightarrow> Compare (EKey e) p < 0)"
      using Cons.prems(6) es by (auto simp: not_less split: option.splits)
    moreover have "region_key (region_of e) \<notin> V"
      using Cons.prems(9) es by auto
    moreover have "iterate_entries (Some rd) app_leaf b is (Some (EKey e))
        (insert (region_key (region_of e)) V, Some (EKey e), out @ [e]) =
        Inr (insert (region_key (region_of e)) V \<union> region_key ` set (concat (map snd ts')),
             if es' = [] then Some (EKey e) else Some (EKey (last es')), (out @ [e]) @ concat (map fst ts'))"
      using Cons.prems es by (intro Cons.IH) auto
    ultimately show ?case
      using es Cons.prems(1) by (simp add: iterate_entries.simps(2))
  qed simp
next
  case (Suc n)
  note level_IH = Suc.IH
  show ?case
    using Suc.prems
  proof (induction "is" arbitrary: es ts l lower V out)
    case (Cons i "is")
    obtain e es' t ts' where es: "es = e # es'" "entries_At b i = Inr e" "map (entries_At b) is = map Inr es'"
      "ts = t # ts'" "list_all2 (node St (Suc n)) es' ts'" "node St (Suc n) e t"
      using Cons.prems(3,4) by (auto simp: Cons_eq_map_conv list_all2_Cons1 simp del: node.simps)
    obtain c ces cts where c: "St (region_of e) c" "Level c = of_nat n" "block_entries c ces" "ces \<noteq> []"
      "EKey (last ces) = EKey e" "list_all2 (node St n) ces cts"
      "t = (concat (map fst cts), region_of e # concat (map snd cts))"
      using es(6) by auto
    have lev: "Level b \<noteq> 0" "Level b - 1 = of_nat n" "n \<le> 64"
      using Cons.prems(1,2) level_of_nat(2) [of "Suc n"] by auto
    have sc: "sorted (map EKey (concat (map fst cts)))"
      using Cons.prems(5) es(4) c(7) by (simp add: sorted_append)
    have val: "validateBlockEntries c = Inr (Some (EKey (hd ces)), Some (EKey e))"
      using nodes_validate [OF c(6) sc c(3,2) lev(3)] c(4,5) by simp
    have ne: "concat (map fst cts) \<noteq> []"
      using nodes_leaves(1) [OF c(6)] c(4) by simp
    have fresh: "region_key (region_of e) \<notin> V"
      using Cons.prems(9) es(4) c(7) by auto
    have "EKey (hd (concat (map fst cts))) \<le> EKey (hd ces)"
      using nodes_sorted(2) [OF c(6) sc] c(4) by simp
    moreover have "hd (concat (map fst cts)) \<in> set (concat (map fst ts))"
      using hd_in_set [OF ne] es(4) c(7) by simp
    ultimately have low: "p \<le> EKey (hd ces)" if "lower = Some p" for p
      using Cons.prems(7) [rule_format, OF that] order_trans by blast
    have child: "readChildBlock rd (Level b) (region_of e) lower (EKey e) V =
        Inr (c, insert (region_key (region_of e)) V)"
      using fresh rd [OF c(1)] c(2) lev(2) val low
      by (auto simp: readChildBlock_def Let_def Equal_iff not_less split: option.splits)
    have dis: "insert (region_key (region_of e)) V \<inter> region_key ` set (concat (map snd cts)) = {}"
      using Cons.prems(8,9) es(4) c(7) by (simp add: image_Un Int_Un_distrib)
    have leaves_c: "iterate_entries (Some rd) app_leaf c [0..<block_NumEntries c] None
        (insert (region_key (region_of e)) V, l, out) =
        Inr (insert (region_key (region_of e)) V \<union> region_key ` set (concat (map snd cts)),
             if ces = [] then l else Some (EKey (last ces)), out @ concat (map fst cts))"
      using Cons.prems(6,8) es(4) c(3,7) lev(3) dis
      by (intro level_IH [OF c(2) _ _ c(6) sc]) (auto simp: block_entries_map simp del: set_concat)
    have rest: "iterate_entries (Some rd) app_leaf b is (Some (EKey e))
        (region_key ` set (snd t) \<union> V, Some (EKey e), out @ fst t) =
        Inr (region_key ` set (snd t) \<union> V \<union> region_key ` set (concat (map snd ts')),
             if es' = [] then Some (EKey e) else Some (EKey (last es')), (out @ fst t) @ concat (map fst ts'))"
    proof (intro Cons.IH Cons.prems(1,2) es(3,5))
      have le: "EKey e \<le> EKey x" if "x \<in> set (concat (map fst ts'))" for x
      proof -
        have "\<forall>x\<in>set (fst t). \<forall>y\<in>set (concat (map fst ts')). EKey x \<le> EKey y"
          using Cons.prems(5) es(4) by (simp add: sorted_append del: set_concat)
        then have "EKey (last (fst t)) \<le> EKey x"
          using node_leaves [OF es(6)] that last_in_set [of "fst t"] by blast
        then show ?thesis
          using node_leaves [OF es(6)] by simp
      qed
      then show "\<forall>p. Some (EKey e) = Some p \<longrightarrow> (\<forall>x\<in>set (concat (map fst ts')). p \<le> EKey x)"
        "\<forall>p. Some (EKey e) = Some p \<longrightarrow> (\<forall>x\<in>set (concat (map fst ts')). p \<le> EKey x)"
        by auto
      show "sorted (map EKey (concat (map fst ts')))"
        using Cons.prems(5) es(4) by (simp add: sorted_append)
      show "distinct (map region_key (concat (map snd ts')))"
        "(region_key ` set (snd t) \<union> V) \<inter> region_key ` set (concat (map snd ts')) = {}"
        using Cons.prems(8,9) es(4) by auto
    qed
    have V: "insert (region_key (region_of e)) V \<union> region_key ` set (concat (map snd cts)) = region_key ` set (snd t) \<union> V"
      using c(7) by auto
    show ?case
      using es lev child val leaves_c rest c(4,5,7) V
      by (simp add: iterate_entries.simps(2) Un_ac image_Un)
  qed simp
qed

lemma collectLeaves_nodes:
  assumes "\<And>r b. St r b \<Longrightarrow> rd r = Inr (Some b)" "Level b = of_nat n" "n \<le> 64" "block_entries b es"
    "list_all2 (node St n) es ts" "sorted (map EKey (concat (map fst ts)))"
    "distinct (map region_key (concat (map snd ts)))"
  shows "collectLeaves (Some b) (Some rd) = Inr (concat (map fst ts))"
proof -
  have "validateRootLevel (Some b) = Inr b"
    using assms(2,3) level_of_nat(1) [OF assms(3)] by (simp add: validateRootLevel_def maxTraversalDepth_def)
  moreover have "iterate_entries (Some rd) app_leaf b [0..<block_NumEntries b] None ({}, None, []) =
      Inr ({} \<union> region_key ` set (concat (map snd ts)), if es = [] then None else Some (EKey (last es)),
           [] @ concat (map fst ts))"
    using assms by (intro iterate_entries_nodes [of St]) (auto simp: block_entries_map)
  ultimately show ?thesis
    using nodes_validate [OF assms(5,6,4,2,3)]
    by (simp add: collectLeaves_def IterateLeaves_def iterateLeaves_def)
qed

section \<open>The walker against the list of leaves\<close>

definition example_entry :: "byte \<Rightarrow> index_entry" where
  "example_entry b = \<lparr>EKey = \<lparr>Row = [b], ColumnFamily = [], ColumnQualifier = [], ColumnVisibility = [],
     Timestamp = 0, Deleted = False\<rparr>, ENumEntries = 1, EOffset = ucast b, ECompressedSize = 1, ERawSize = 1\<rparr>"

definition example_level :: "index_entry list \<Rightarrow> index_level" where
  "example_level es = \<lparr>ilevel = 0, levelOffset = 0, entryData = concat (map entry_bytes es),
     entryOffsets = map (\<lambda>i. of_nat (bytes_before es i)) [0..<length es]\<rparr>"

lemma example_leaves:
  "collectLeaves (Some (toBlock False (example_level [example_entry 1, example_entry 2]))) None =
     Inr [example_entry 1, example_entry 2]"
proof -
  let ?es = "[example_entry 1, example_entry 2]"
  let ?b = "toBlock False (example_level ?es)"
  have small: "length (concat (map entry_bytes ?es)) < 2 ^ 31" "\<forall>e\<in>set ?es. key_bytes (EKey e) < 2 ^ 31"
    using entry_bytes_length(2) [of "example_entry 1"] entry_bytes_length(2) [of "example_entry 2"]
    by (simp_all add: example_entry_def key_bytes_def)
  have "block_entries ?b ?es"
    using small by (intro toBlock_entries) (simp_all add: level_holds_def example_level_def)
  then have at: "entries_At ?b i = Inr (?es ! i)" "block_NumEntries ?b = 2" if "i < 2" for i
    using that by (auto simp: block_entries_def)
  have "validateBlockEntries ?b = Inr (Some (EKey (example_entry 1)), Some (EKey (example_entry 2)))"
    using validateBlockEntries_ok [OF \<open>block_entries ?b ?es\<close>]
    by (simp add: example_entry_def key_le_rank key_rank_def toBlock_def example_level_def)
  moreover have "Level ?b = 0"
    by (simp add: toBlock_def example_level_def)
  moreover have "[0..<block_NumEntries ?b] = [0, 1]"
    using at(2) [of 0] by (simp add: upt_rec)
  moreover have "region_key (region_of (example_entry 1)) \<noteq> region_key (region_of (example_entry 2))"
    "\<not> EKey (example_entry 2) < EKey (example_entry 1)"
    by (simp_all add: example_entry_def region_key_def region_of_def key_less_rank key_rank_def)
  ultimately show ?thesis
    using at(1) [of 0] at(1) [of 1]
    by (simp add: collectLeaves_def IterateLeaves_def validateRootLevel_def maxTraversalDepth_def iterateLeaves_def
        iterate_entries.simps)
qed

text \<open>
  C20: the walker's descent finds the right leaf. If the index is one whose leaves can be
  collected, \<^verbatim>\<open>Walker.Seek\<close> (a binary search on every level) returns the first collected
  leaf whose key is not below the target, and \<^verbatim>\<open>ErrPastEnd\<close> if there is none.
\<close>

theorem walker_seek_first_leaf:
  assumes "collectLeaves root lr = Inr ls"
  shows "walker_Seek root lr target =
    (case find (\<lambda>e. target \<le> EKey e) ls of None \<Rightarrow> Inl ErrPastEnd | Some e \<Rightarrow> Inr e)"
proof -
  obtain b where b: "root = Some b" "validateRootLevel root = Inr b" "tree lr {} b ls"
    using collectLeaves_tree [OF assms] .
  have "find (\<lambda>e. target \<le> EKey e) ls =
      (case dropWhile (\<lambda>e. EKey e < target) ls of [] \<Rightarrow> None | e # _ \<Rightarrow> Some e)"
    by (induction ls) (auto simp: not_less)
  then show ?thesis
    using walker_loop_tree(1) [OF b(3), of target True] b(2)
    by (cases "dropWhile (\<lambda>e. EKey e < target) ls") (simp_all add: walker_Seek_def del: dropWhile_eq_Nil_conv)
qed

theorem walker_seek_first_leaf_witness:
  "walker_Seek (Some (toBlock False (example_level [example_entry 1, example_entry 2]))) None
     (EKey (example_entry 2)) = Inr (example_entry 2)"
proof -
  have "\<not> EKey (example_entry 2) \<le> EKey (example_entry 1)"
    by (simp add: example_entry_def key_le_rank key_rank_def)
  then show ?thesis
    using walker_seek_first_leaf [OF example_leaves, of "EKey (example_entry 2)"] by simp
qed

section \<open>Blocks in a growing container\<close>

definition dense :: "bc_writer \<Rightarrow> bool" where
  "dense o1 \<longleftrightarrow> length (wout o1) \<le> 2 ^ 28 * length (wblocks o1)"

text \<open>The container \<open>o2\<close> has more blocks than \<open>o1\<close> and is otherwise the same.\<close>

definition grown :: "bc_writer \<Rightarrow> bc_writer \<Rightarrow> bool" where
  "grown o1 o2 \<longleftrightarrow> (\<exists>x. wout o2 = wout o1 @ x) \<and> (\<exists>y. wblocks o2 = wblocks o1 @ y) \<and>
     wmeta o2 = wmeta o1 \<and> wcodec o2 = wcodec o1 \<and> wclosed o2 = wclosed o1 \<and> (dense o1 \<longrightarrow> dense o2)"

lemma grown_refl [simp]: "grown o1 o1"
  by (simp add: grown_def)

lemma grown_trans: "grown o1 o2 \<Longrightarrow> grown o2 o3 \<Longrightarrow> grown o1 o3"
  by (auto simp: grown_def)

lemma grown_length: "grown o1 o2 \<Longrightarrow> length (wout o1) \<le> length (wout o2)"
  by (auto simp: grown_def)

definition placed :: "compressor \<Rightarrow> bytes \<Rightarrow> bc_writer \<Rightarrow> block_region \<Rightarrow> bytes \<Rightarrow> bool" where
  "placed c codec o1 region raw \<longleftrightarrow> region \<in> set (wblocks o1) \<and> raw \<noteq> [] \<and> length raw \<le> 2 ^ 27 \<and>
     RawSize region = of_nat (length raw) \<and> (\<exists>z. Encode c raw codec = Inr z \<and> stored (wout o1) region z)"

lemma placed_mono: "placed c codec o1 region raw \<Longrightarrow> grown o1 o2 \<Longrightarrow> placed c codec o2 region raw"
  by (auto simp: placed_def grown_def intro: stored_append)

definition regions_ok :: "bc_writer \<Rightarrow> bool" where
  "regions_ok o1 \<longleftrightarrow> (\<forall>r\<in>set (wblocks o1). in_bounds 0 (int (length (wout o1))) r) \<and>
     sorted_wrt (\<lambda>a b. region_end a \<le> sint (Offset b)) (wblocks o1)"

lemma regions_ok_new: "regions_ok (bc_NewWriter codec)"
  by (simp add: regions_ok_def bc_NewWriter_def)

locale block_codec =
  fixes enc :: "bytes \<Rightarrow> bytes res" and dec :: "bytes \<Rightarrow> int64 \<Rightarrow> bytes res"
  assumes enc_total: "\<lbrakk>raw \<noteq> []; length raw \<le> 2 ^ 27\<rbrakk> \<Longrightarrow> \<exists>z. enc raw = Inr z"
    and enc_size: "\<lbrakk>raw \<noteq> []; length raw \<le> 2 ^ 27; enc raw = Inr z\<rbrakk> \<Longrightarrow> z \<noteq> [] \<and> int (length z) \<le> MaxCompressedBlockSize"
    and dec_enc: "\<lbrakk>raw \<noteq> []; length raw \<le> 2 ^ 27; enc raw = Inr z\<rbrakk> \<Longrightarrow> dec z (of_nat (length raw)) = Inr raw"

text \<open>
  A codec that the writer's compressor and the reader's decompressor both register, next to
  the codec \<^verbatim>\<open>none\<close> the meta blocks use.
\<close>

locale rfile_codec = block_codec +
  fixes cmp :: compressor and dcmp :: decompressor and codec :: bytes
  assumes cmp_codec: "cmp codec = Some enc" and dcmp_codec: "dcmp codec = Some dec"
    and dcmp_none: "dcmp CodecNone = Some decompressNone"
    and codec_name: "codec \<noteq> []" "length codec \<le> 500"
begin

lemma Encode_ok:
  assumes "raw \<noteq> []" "length raw \<le> 2 ^ 27"
  obtains z where "Encode cmp raw codec = Inr z" "enc raw = Inr z" "z \<noteq> []"
    "int (length z) \<le> MaxCompressedBlockSize" "dec z (of_nat (length raw)) = Inr raw"
proof -
  obtain z where z: "enc raw = Inr z"
    using enc_total [OF assms] by blast
  moreover have "int (length raw) \<le> MaxRawBlockSize"
    using assms(2) by (simp add: MaxRawBlockSize_def)
  ultimately show ?thesis
    using that [of z] enc_size [OF assms z] dec_enc [OF assms z] cmp_codec by (simp add: Encode_def)
qed

lemma put_block:
  assumes raw: "raw \<noteq> []" "length raw \<le> 2 ^ 27" and open_o: "\<not> wclosed o1"
  obtains z region o2 where "Encode cmp raw codec = Inr z"
    "AppendDataBlock z (of_nat (length raw)) o1 = Inr (region, o2)" "grown o1 o2"
    "length (wblocks o2) = Suc (length (wblocks o1))"
    "\<lbrakk>length (wout o2) < 2 ^ 63; regions_ok o1\<rbrakk> \<Longrightarrow> placed cmp codec o2 region raw \<and> regions_ok o2 \<and>
       sint (Offset region) = int (length (wout o1))"
proof -
  obtain z where z: "Encode cmp raw codec = Inr z" "z \<noteq> []" "int (length z) \<le> MaxCompressedBlockSize"
    using Encode_ok [OF raw] by blast
  let ?region = "\<lparr>Offset = written o1, CompressedSize = of_nat (length z), RawSize = of_nat (length raw)\<rparr>"
  let ?o2 = "o1\<lparr>wout := wout o1 @ z, wblocks := wblocks o1 @ [?region]\<rparr>"
  have rs: "sint (of_nat (length raw) :: int64) = int (length raw)"
    using raw(2) by (intro sint_of_nat_64) simp
  have app: "AppendDataBlock z (of_nat (length raw)) o1 = Inr (?region, ?o2)"
    using open_o rs by (simp add: AppendDataBlock_def Let_def)
  have "placed cmp codec ?o2 ?region raw \<and> regions_ok ?o2 \<and> sint (Offset ?region) = int (length (wout o1))"
    if small: "length (wout ?o2) < 2 ^ 63" and ok: "regions_ok o1"
  proof -
    have off: "sint (Offset ?region) = int (length (wout o1))" "sint (of_nat (length z) :: int64) = int (length z)"
      using small by (simp_all add: written_def sint_of_nat_64)
    have "stored (wout ?o2) ?region z"
      using off z(2) by (intro storedI [of _ "wout o1" _ "[]"]) simp_all
    moreover have "in_bounds 0 (int (length (wout ?o2))) ?region"
      using off rs raw z by (simp add: in_bounds_def region_end_def MaxRawBlockSize_def)
    moreover have "in_bounds 0 (int (length (wout ?o2))) r" if "r \<in> set (wblocks o1)" for r
      using ok that by (auto simp: regions_ok_def intro: in_bounds_mono)
    moreover have "region_end r \<le> sint (Offset ?region)" if "r \<in> set (wblocks o1)" for r
      using ok that off by (auto simp: regions_ok_def in_bounds_def)
    ultimately show ?thesis
      using raw z(1) off ok by (auto simp: placed_def regions_ok_def sorted_wrt_append)
  qed
  moreover have "grown o1 ?o2"
    using z(3) by (auto simp: grown_def dense_def MaxCompressedBlockSize_def)
  ultimately show ?thesis
    using that [OF z(1) app] by simp
qed

end

interpretation none_codec: block_codec encodeNone decompressNone
proof
  show "decompressNone z (of_nat (length raw)) = Inr raw"
    if "raw \<noteq> []" "length raw \<le> 2 ^ 27" "encodeNone raw = Inr z" for raw z
    using that sint_of_nat_64 [of "length raw"] by (simp add: encodeNone_def decompressNone_def)
qed (auto simp: encodeNone_def MaxCompressedBlockSize_def)

end
