(* ===== verification/RFile_Levels.thy ===== *)
theory RFile_Levels
  imports RFile_Tree
begin

text \<open>
  The multi-level index while the RFile writer builds it. Adding an entry and the cascade of
  \<^verbatim>\<open>indexFlushLevel\<close> always succeed and leave room on every level. The levels are the right
  flank of a tree whose leaves are the entries added so far; every node was made from at
  least two, so the tree is at most logarithmically deep; and with the last leaf the top
  level is the root of the whole tree.
\<close>

section \<open>The size of a level\<close>

definition small_key :: "key \<Rightarrow> bool" where
  "small_key k \<longleftrightarrow> key_bytes k \<le> 2 ^ 24"

definition sized :: "nat \<Rightarrow> nat \<Rightarrow> index_level \<Rightarrow> bool" where
  "sized a b l \<longleftrightarrow> level_size l \<le> int a \<and> numEntries l \<le> b \<and> 8 * int (numEntries l) \<le> level_size l \<and>
     level_size l \<le> (2 ^ 24 + 84) * int (numEntries l)"

text \<open>A level between two calls, and one that an entry was just added to.\<close>

definition roomy :: "index_level \<Rightarrow> bool" where
  "roomy = sized (2 ^ 25) (2 ^ 19)"

definition filled :: "index_level \<Rightarrow> bool" where
  "filled = sized (2 ^ 26) (2 ^ 19 + 1)"

lemmas sized_defs = roomy_def filled_def sized_def

lemma roomy_new [simp]: "roomy (new_level a b)"
  by (simp add: sized_defs new_level_def level_size_def numEntries_def)

lemma addEntry_filled:
  assumes "roomy l" "small_key (EKey e)" "addEntry e l = Inr l'"
  shows "filled l'"
  using assms entry_bytes_length [of e]
  by (auto simp: addEntry_def WriteIndexEntry_bytes sized_defs level_size_def numEntries_def small_key_def)

lemma roomy_stays:
  assumes "filled l" "level_size l \<le> ibs \<or> numEntries l \<le> 1" "ibs \<le> 2 ^ 22"
  shows "roomy l"
  using assms by (cases "numEntries l = 0") (auto simp: sized_defs)

lemma roomy_filled: "roomy l \<Longrightarrow> filled l"
  by (auto simp: sized_defs)

lemma addEntry_total: "\<exists>l'. addEntry e l = Inr l'"
  by (simp add: addEntry_def WriteIndexEntry_bytes)

lemma length_WriteIndexBlock:
  "int (length (WriteIndexBlock (toBlock h l))) = 17 + level_size l"
  by (simp add: WriteIndexBlock_def toBlock_def level_size_def length_concat_WriteInt32 WriteBool_def)

section \<open>Index blocks are written\<close>

definition same_rest :: "rfile_writer \<Rightarrow> rfile_writer \<Rightarrow> bool" where
  "same_rest w w' \<longleftrightarrow> w' = w\<lparr>bc_out := bc_out w', levels := levels w'\<rparr>"

lemma same_rest_refl [simp]: "same_rest w w"
  by (simp add: same_rest_def)

lemma same_rest_trans: "same_rest w w' \<Longrightarrow> same_rest w' w'' \<Longrightarrow> same_rest w w''"
  by (cases w; cases w'; cases w'') (simp add: same_rest_def)

lemma same_restD:
  assumes "same_rest w w'"
  shows "comp w' = comp w" "opts w' = opts w" "totalAdded w' = totalAdded w" "blockBuf w' = blockBuf w"
    "blockPrev w' = blockPrev w" "blockLast w' = blockLast w" "blockEntries w' = blockEntries w"
    "lastKey w' = lastKey w" "runBlockCap w' = runBlockCap w" "pendingLeaf w' = pendingLeaf w"
    "firstKey w' = firstKey w" "cfCounts w' = cfCounts w" "localityGroups w' = localityGroups w"
    "currentLGName w' = currentLGName w" "currentDefault w' = currentDefault w"
    "localityNames w' = localityNames w" "closed w' = closed w"
  by (subst assms [unfolded same_rest_def], simp)+

text \<open>A writer that uses the codec and small index blocks.\<close>

context rfile_codec
begin

definition set_up :: "rfile_writer \<Rightarrow> bool" where
  "set_up w \<longleftrightarrow> comp w = cmp \<and> Codec (opts w) = codec \<and> IndexBlockSize (opts w) \<le> 2 ^ 22 \<and>
     \<not> wclosed (bc_out w)"

lemma set_up_same: "\<lbrakk>set_up w; same_rest w w'; grown (bc_out w) (bc_out w')\<rbrakk> \<Longrightarrow> set_up w'"
  by (simp add: set_up_def same_restD grown_def)

lemma write_level_ok:
  assumes fl: "filled l" and up: "set_up w"
  obtains e o2 where "write_level l k fin w = Inr (e, w\<lparr>bc_out := o2\<rparr>)" "grown (bc_out w) o2" "EKey e = k"
    "\<lbrakk>length (wout o2) < 2 ^ 63; regions_ok (bc_out w)\<rbrakk> \<Longrightarrow>
       placed cmp codec o2 (region_of e) (WriteIndexBlock (toBlock (\<not> fin) l)) \<and> regions_ok o2 \<and>
       sint (Offset (region_of e)) = int (length (wout (bc_out w)))"
proof -
  let ?raw = "WriteIndexBlock (toBlock (\<not> fin) l)"
  have raw: "?raw \<noteq> []" "length ?raw \<le> 2 ^ 27"
    using fl length_WriteIndexBlock [of "\<not> fin" l] by (auto simp: sized_defs WriteIndexBlock_def WriteBool_def)
  obtain z region o2 where *: "Encode cmp ?raw codec = Inr z"
    "AppendDataBlock z (of_nat (length ?raw)) (bc_out w) = Inr (region, o2)" "grown (bc_out w) o2"
    "\<lbrakk>length (wout o2) < 2 ^ 63; regions_ok (bc_out w)\<rbrakk> \<Longrightarrow> placed cmp codec o2 region ?raw \<and> regions_ok o2 \<and>
       sint (Offset region) = int (length (wout (bc_out w)))"
    using up put_block [OF raw, of "bc_out w"] unfolding set_up_def by blast
  let ?e = "\<lparr>EKey = k, ENumEntries = 0, EOffset = Offset region,
            ECompressedSize = CompressedSize region, ERawSize = RawSize region\<rparr>"
  have "region_of ?e = region"
    by (simp add: region_of_def)
  moreover have "write_level l k fin w = Inr (?e, w\<lparr>bc_out := o2\<rparr>)"
    using up *(1,2) by (simp add: write_level_def set_up_def Let_def)
  ultimately show ?thesis
    using that [of ?e o2] *(3,4) by simp
qed

lemma get_level_at: "\<lbrakk>levels w = pre @ Some l # lv; length pre = level\<rbrakk> \<Longrightarrow> get_level w level = Inr l"
  by (auto simp: get_level_def)

lemma indexAddAtLevel_total:
  assumes "levels w = pre @ lv" "length pre = level" "\<forall>x\<in>set lv. \<exists>l. x = Some l \<and> roomy l" "small_key (EKey e)"
  obtains l l' where "indexAddAtLevel level e w = Inr (w\<lparr>levels := pre @ Some l' # tl lv\<rparr>)" "filled l'"
    "addEntry e l = Inr l'"
    "l = (case lv of [] \<Rightarrow> new_level (of_nat level) (totalAdded w - 1) | x # _ \<Rightarrow> the x)"
proof -
  define l where "l = (case lv of [] \<Rightarrow> new_level (of_nat level) (totalAdded w - 1) | x # _ \<Rightarrow> the x)"
  have "roomy l"
    using assms(3) by (auto simp: l_def split: list.splits)
  moreover obtain l' where l': "addEntry e l = Inr l'"
    using addEntry_total by blast
  ultimately have "filled l'"
    using addEntry_filled assms(4) by blast
  moreover have "indexAddAtLevel level e w = Inr (w\<lparr>levels := pre @ Some l' # tl lv\<rparr>)"
  proof (cases lv)
    case Nil
    then show ?thesis
      using assms l' by (auto simp: indexAddAtLevel_def get_level_def l_def nth_append list_update_append)
  next
    case (Cons x lv')
    then obtain m where "x = Some m"
      using assms(3) by auto
    then show ?thesis
      using Cons assms l' get_level_at [of w pre m lv'] by (auto simp: indexAddAtLevel_def l_def list_update_append)
  qed
  ultimately show ?thesis
    using that [of l' l] l' l_def by blast
qed

text \<open>The cascade never fails, and leaves room on every level for the next entry.\<close>

lemma indexFlushLevel_total:
  assumes "levels w = pre @ Some l # lv" "length pre = level" "filled l"
    "\<forall>x\<in>set lv. \<exists>l. x = Some l \<and> roomy l" "small_key k" "set_up w"
  shows "\<exists>w' lv'. indexFlushLevel level k fin w = Inr w' \<and> levels w' = pre @ lv' \<and> lv' \<noteq> [] \<and>
    grown (bc_out w) (bc_out w') \<and> same_rest w w' \<and> (\<exists>l. last lv' = Some l \<and> filled l) \<and>
    (\<not> fin \<longrightarrow> (\<forall>x\<in>set lv'. \<exists>l. x = Some l \<and> roomy l))"
  using assms
proof (induction level k fin w arbitrary: pre l lv rule: indexFlushLevel.induct)
  case (1 level k fin w)
  have get: "get_level w level = Inr l"
    using "1.prems" by (simp add: get_level_at)
  define over where "over = (level_size l > IndexBlockSize (opts w) \<and> numEntries l > 1)"
  show ?case
  proof (cases "fin \<and> Suc level = length (levels w) \<or> \<not> over \<and> \<not> fin \<or> numEntries l = 0")
    case True
    then have "indexFlushLevel level k fin w = Inr w"
      using get by (subst indexFlushLevel.simps) (auto simp: over_def Let_def)
    moreover have "roomy l" if "\<not> fin"
      using True that "1.prems"(3,6) roomy_stays [of l "IndexBlockSize (opts w)"]
      by (auto simp: over_def set_up_def)
    moreover have "\<exists>m. last (Some l # lv) = Some m \<and> filled m"
    proof (cases "lv = []")
      case nonempty: False
      then show ?thesis
        using "1.prems"(4) [rule_format, OF last_in_set] roomy_filled by auto
    qed (use "1.prems"(3) in simp)
    ultimately show ?thesis
      using "1.prems" by auto
  next
    case False
    obtain e o2 where wr: "write_level l k fin w = Inr (e, w\<lparr>bc_out := o2\<rparr>)" "grown (bc_out w) o2" "EKey e = k"
      using write_level_ok [OF "1.prems"(3,6)] by metis
    let ?w1 = "w\<lparr>bc_out := o2\<rparr>"
    obtain l' where add: "indexAddAtLevel (Suc level) e ?w1 = Inr (?w1\<lparr>levels := (pre @ [Some l]) @ Some l' # tl lv\<rparr>)"
      "filled l'"
      using indexAddAtLevel_total [of ?w1 "pre @ [Some l]" lv "Suc level" e] "1.prems" wr(3)
      by simp metis
    let ?w2 = "?w1\<lparr>levels := (pre @ [Some l]) @ Some l' # tl lv\<rparr>"
    have r2: "same_rest w ?w2" "grown (bc_out w) (bc_out ?w2)"
      using wr(2) by (simp_all add: same_rest_def)
    have "\<exists>w' lv'. indexFlushLevel (Suc level) k fin ?w2 = Inr w' \<and> levels w' = (pre @ [Some l]) @ lv' \<and>
        lv' \<noteq> [] \<and> grown (bc_out ?w2) (bc_out w') \<and> same_rest ?w2 w' \<and> (\<exists>l. last lv' = Some l \<and> filled l) \<and>
        (\<not> fin \<longrightarrow> (\<forall>x\<in>set lv'. \<exists>l. x = Some l \<and> roomy l))"
    proof (rule "1.IH")
      show "get_level w level = Inr l" by (fact get)
      show "\<not> (fin \<and> Suc level = length (levels w))" using False by blast
      show "write_level l k fin w = Inr (e, ?w1)" by (fact wr(1))
      show "\<forall>x\<in>set (tl lv). \<exists>l. x = Some l \<and> roomy l"
        using "1.prems"(4) by (cases lv) auto
      show "set_up ?w2"
        using set_up_same [OF "1.prems"(6) r2] .
    qed (use False add "1.prems" over_def in auto)
    then obtain w3 lv3 where w3: "indexFlushLevel (Suc level) k fin ?w2 = Inr w3" "levels w3 = (pre @ [Some l]) @ lv3"
      "lv3 \<noteq> []" "grown (bc_out ?w2) (bc_out w3)" "same_rest ?w2 w3"
      "\<not> fin \<Longrightarrow> \<forall>x\<in>set lv3. \<exists>l. x = Some l \<and> roomy l" "\<exists>l. last lv3 = Some l \<and> filled l"
      by metis
    let ?new = "if fin then None else Some (new_level (of_nat level) (totalAdded w3))"
    let ?w' = "w3\<lparr>levels := (levels w3)[level := ?new]\<rparr>"
    have "indexFlushLevel level k fin w = Inr ?w'"
      using False get wr(1) add(1) w3(1)
      by (subst indexFlushLevel.simps) (auto simp: over_def Let_def simp del: append_assoc)
    moreover have "levels ?w' = pre @ ?new # lv3"
      using w3(2) "1.prems"(2) by (auto simp: list_update_append)
    moreover have "grown (bc_out w) (bc_out ?w')"
      using grown_trans [OF r2(2) w3(4)] by simp
    moreover have "same_rest w ?w'"
      using same_rest_trans [OF same_rest_trans [OF r2(1) w3(5)], of ?w'] by (simp add: same_rest_def)
    ultimately show ?thesis
      using w3(3,6,7) by (intro exI [of _ ?w'] exI [of _ "?new # lv3"]) auto
  qed
qed

end

section \<open>The levels are the right flank of a tree\<close>

definition level_ok ::
    "(block_region \<Rightarrow> index_block \<Rightarrow> bool) \<Rightarrow> nat \<Rightarrow> index_level \<Rightarrow> index_entry list \<Rightarrow>
     (index_entry list \<times> block_region list) list \<Rightarrow> bool" where
  "level_ok St i l es ts \<longleftrightarrow> ilevel l = of_nat i \<and> level_holds l es \<and> list_all2 (node St i) es ts \<and>
     (\<forall>e\<in>set es. small_key (EKey e))"

text \<open>Every node was made from at least two: a tree of \<open>n\<close> leaves has at most \<open>log n\<close> levels.\<close>

definition full :: "nat \<Rightarrow> (index_entry list \<times> block_region list) list \<Rightarrow> bool" where
  "full i ts \<longleftrightarrow> (\<forall>t\<in>set ts. 2 ^ i \<le> length (fst t))"

fun flank ::
    "(block_region \<Rightarrow> index_block \<Rightarrow> bool) \<Rightarrow> nat \<Rightarrow> index_level option list \<Rightarrow> index_entry list \<Rightarrow>
     block_region list \<Rightarrow> bool" where
  "flank St i [] ls rs \<longleftrightarrow> ls = [] \<and> rs = []"
| "flank St i (None # lv) ls rs \<longleftrightarrow> False"
| "flank St i (Some l # lv) ls rs \<longleftrightarrow> (\<exists>es ts ls' rs'. level_ok St i l es ts \<and> roomy l \<and> full i ts \<and>
     (lv = [] \<longrightarrow> es \<noteq> []) \<and> flank St (Suc i) lv ls' rs' \<and>
     ls = ls' @ concat (map fst ts) \<and> rs = rs' @ concat (map snd ts))"

lemma flank_roomy: "flank St i lv ls rs \<Longrightarrow> \<forall>x\<in>set lv. \<exists>l. x = Some l \<and> roomy l"
  by (induction St i lv ls rs rule: flank.induct) auto

lemma level_ok_mono:
  assumes "level_ok St i l es ts" "\<And>r b. St r b \<Longrightarrow> St' r b"
  shows "level_ok St' i l es ts"
proof -
  have "list_all2 (node St' i) es ts"
    using assms(1) list_all2_mono [of "node St i" es ts "node St' i"] node_mono [OF _ assms(2), of St i]
    by (auto simp: level_ok_def)
  then show ?thesis
    using assms(1) by (simp add: level_ok_def)
qed

lemma flank_mono: "flank St i lv ls rs \<Longrightarrow> (\<And>r b. St r b \<Longrightarrow> St' r b) \<Longrightarrow> flank St' i lv ls rs"
proof (induction St i lv ls rs rule: flank.induct)
  case (3 St i l lv ls rs)
  obtain es ts ls' rs' where *: "level_ok St i l es ts" "roomy l" "full i ts" "lv = [] \<longrightarrow> es \<noteq> []"
    "flank St (Suc i) lv ls' rs'" "ls = ls' @ concat (map fst ts)" "rs = rs' @ concat (map snd ts)"
    using "3.prems"(1) by auto
  have "flank St' (Suc i) lv ls' rs'"
    using "3.IH" [OF *(5)] "3.prems"(2) by blast
  then show ?case
    using * level_ok_mono [OF *(1), of St'] "3.prems"(2) by auto
qed simp_all

lemma flank_depth:
  "flank St i lv ls rs \<Longrightarrow> lv \<noteq> [] \<Longrightarrow> 2 ^ (i + length lv - 1) \<le> length ls"
proof (induction St i lv ls rs rule: flank.induct)
  case (3 St i l lv ls rs)
  obtain es ts ls' rs' where *: "level_ok St i l es ts" "full i ts" "lv = [] \<longrightarrow> es \<noteq> []"
    "flank St (Suc i) lv ls' rs'" "ls = ls' @ concat (map fst ts)"
    using "3.prems"(1) by auto
  show ?case
  proof (cases "lv = []")
    case True
    then obtain t ts' where "ts = t # ts'"
      using *(1,3) by (cases ts) (auto simp: level_ok_def)
    then show ?thesis
      using *(2,5) True by (simp add: full_def)
  next
    case False
    then show ?thesis
      using "3.IH" [OF *(4)] *(5) by simp
  qed
qed simp_all

lemma node_lengths: "node St n e t \<Longrightarrow> length (fst t) \<le> length (snd t)"
proof (induction n arbitrary: e t)
  case (Suc n)
  then obtain es ts where *: "list_all2 (node St n) es ts" "t = (concat (map fst ts), region_of e # concat (map snd ts))"
    by auto
  have "length (concat (map fst ts)) \<le> length (concat (map snd ts))"
    using *(1)
  proof (induction rule: list_all2_induct)
    case (Cons e es t ts)
    then show ?case
      using Suc.IH [of e t] by simp
  qed simp
  then show ?case
    using *(2) by simp
qed simp

lemma addEntry_level_ok:
  assumes "addEntry e l = Inr l'" "level_ok St i l es ts" "node St i e t" "small_key (EKey e)"
  shows "level_ok St i l' (es @ [e]) (ts @ [t])"
proof -
  obtain l2 where "addEntry e l = Inr l2" "level_holds l2 (es @ [e])" "ilevel l2 = ilevel l"
    using addEntry_holds [of l es e] assms(2) unfolding level_ok_def by blast
  then show ?thesis
    using assms by (auto simp: level_ok_def intro: list_all2_appendI)
qed

lemma level_ok_block:
  assumes "level_ok St i l es ts" "filled l"
  shows "block_entries (toBlock h l) es" "block_fits (toBlock h l)" "Level (toBlock h l) = of_nat i"
proof -
  have data: "length (entryData l) \<le> 2 ^ 26" "length es \<le> 2 ^ 20"
    using assms level_holds_numEntries [of l es] by (auto simp: level_ok_def sized_defs level_size_def)
  moreover have "\<forall>e\<in>set es. key_bytes (EKey e) < 2 ^ 31"
    using assms(1) by (auto simp: level_ok_def small_key_def)
  ultimately show "block_entries (toBlock h l) es" "block_fits (toBlock h l)"
    using assms(1) by (auto simp: level_ok_def intro!: toBlock_entries toBlock_fits)
  show "Level (toBlock h l) = of_nat i"
    using assms(1) by (simp add: level_ok_def toBlock_def)
qed

lemma full_concat:
  assumes "full i ts" "2 \<le> length ts"
  shows "2 ^ Suc i \<le> length (concat (map fst ts))"
proof -
  obtain a b ts' where "ts = a # b # ts'"
    using assms(2) by (cases ts; cases "tl ts") auto
  then show ?thesis
    using assms(1) by (auto simp: full_def)
qed

lemma flank_new_level:
  assumes "flank St (Suc i) lv ls rs" "lv \<noteq> []"
  shows "flank St i (Some (new_level (of_nat i) n) # lv) ls rs"
proof -
  have "level_ok St i (new_level (of_nat i) n) [] []" "full i []"
    by (simp_all add: level_ok_def full_def new_level_def level_holds_def)
  then show ?thesis
    using assms by fastforce
qed

text \<open>The regions of a tree: blocks of the container, no two at the same place.\<close>

definition regs_ok :: "bc_writer \<Rightarrow> block_region list \<Rightarrow> bool" where
  "regs_ok o1 rs \<longleftrightarrow> distinct (map Offset rs) \<and> set rs \<subseteq> set (wblocks o1)"

lemma regs_ok_insert:
  assumes "regs_ok o1 rs" "regions_ok o1" "grown o1 o2" "r \<in> set (wblocks o2)"
    "sint (Offset r) = int (length (wout o1))" "set rs' = insert r (set rs)" "length rs' = Suc (length rs)"
  shows "regs_ok o2 rs'"
proof -
  have "sint (Offset x) < int (length (wout o1))" if "x \<in> set rs" for x
    using assms(1,2) that by (force simp: regs_ok_def regions_ok_def in_bounds_def region_end_def)
  then have "Offset r \<notin> Offset ` set rs"
    using assms(5) by fastforce
  then have "card (Offset ` set rs') = length rs'"
    using assms(1,6,7) distinct_card [of "map Offset rs"] by (simp add: regs_ok_def)
  then have "distinct (map Offset rs')"
    by (intro card_distinct) simp
  then show ?thesis
    using assms by (auto simp: regs_ok_def grown_def)
qed

context rfile_codec
begin

definition ixblock :: "bc_writer \<Rightarrow> block_region \<Rightarrow> index_block \<Rightarrow> bool" where
  "ixblock o1 region b \<longleftrightarrow> block_fits b \<and> placed cmp codec o1 region (WriteIndexBlock b)"

lemma ixblock_mono: "ixblock o1 r b \<Longrightarrow> grown o1 o2 \<Longrightarrow> ixblock o2 r b"
  by (auto simp: ixblock_def intro: placed_mono)

lemma indexAddAtLevel_flank:
  assumes fl: "flank St i lv ls rs" and w: "levels w = pre @ lv" "length pre = i"
    and e: "node St i e t" "small_key (EKey e)"
  obtains l' es ts ls1 rs1 where "indexAddAtLevel i e w = Inr (w\<lparr>levels := pre @ Some l' # tl lv\<rparr>)" "filled l'"
    "level_ok St i l' (es @ [e]) (ts @ [t])" "full i ts" "flank St (Suc i) (tl lv) ls1 rs1"
    "ls = ls1 @ concat (map fst ts)" "rs = rs1 @ concat (map snd ts)" "lv = [] \<longrightarrow> es = []"
proof -
  obtain l l' where *: "indexAddAtLevel i e w = Inr (w\<lparr>levels := pre @ Some l' # tl lv\<rparr>)" "filled l'"
    "addEntry e l = Inr l'"
    "l = (case lv of [] \<Rightarrow> new_level (of_nat i) (totalAdded w - 1) | x # _ \<Rightarrow> the x)"
    using indexAddAtLevel_total [OF w flank_roomy [OF fl] e(2)] by metis
  show ?thesis
  proof (cases lv)
    case Nil
    then have "level_ok St i l [] []"
      using *(4) by (simp add: level_ok_def new_level_def level_holds_def)
    then have "level_ok St i l' ([] @ [e]) ([] @ [t])"
      by (rule addEntry_level_ok [OF *(3) _ e])
    then show ?thesis
      using that [OF *(1,2), of "[]" "[]" ls rs] fl Nil by (simp add: full_def)
  next
    case (Cons x lv')
    then obtain es ts ls1 rs1 where "x = Some l" "level_ok St i l es ts" "full i ts" "flank St (Suc i) lv' ls1 rs1"
      "ls = ls1 @ concat (map fst ts)" "rs = rs1 @ concat (map snd ts)"
      using fl *(4) by (cases x) auto
    then show ?thesis
      using that [OF *(1,2), of es ts ls1 rs1] addEntry_level_ok [OF *(3) _ e] Cons by simp
  qed
qed

text \<open>One step of the cascade: the level becomes a block, and its parent level gains a node.\<close>

lemma cascade_step:
  assumes w: "levels w = pre @ Some l # lv" "length pre = level" "filled l"
    and ok: "level_ok (ixblock (bc_out w)) level l es ts" "es \<noteq> []" "EKey (last es) = k"
    and fl: "flank (ixblock (bc_out w)) (Suc level) lv ls rs" and k: "small_key k" and up: "set_up w"
    and regs: "regions_ok (bc_out w)" "regs_ok (bc_out w) (rs @ concat (map snd ts) @ X)"
    and cont: "\<not> (fin \<and> Suc level = length (levels w))"
      "level_size l > IndexBlockSize (opts w) \<and> numEntries l > 1 \<or> fin"
    and run: "indexFlushLevel level k fin w = Inr w'" "length (wout (bc_out w')) < 2 ^ 63"
  obtains w2 w3 l' es1 e ts1 t ls1 rs1 where
    "indexFlushLevel (Suc level) k fin w2 = Inr w3"
    "w' = w3\<lparr>levels := (levels w3)[level := (if fin then None else Some (new_level (of_nat level) (totalAdded w3)))]\<rparr>"
    "levels w2 = (pre @ [Some l]) @ Some l' # tl lv" "filled l'"
    "level_ok (ixblock (bc_out w2)) (Suc level) l' (es1 @ [e]) (ts1 @ [t])" "EKey e = k"
    "full (Suc level) ts1" "fst t = concat (map fst ts)"
    "flank (ixblock (bc_out w2)) (Suc (Suc level)) (tl lv) ls1 rs1"
    "ls = ls1 @ concat (map fst ts1)" "set_up w2" "regions_ok (bc_out w2)"
    "regs_ok (bc_out w2) (rs1 @ concat (map snd (ts1 @ [t])) @ X)" "lv = [] \<longrightarrow> es1 = []"
proof -
  obtain e o2 where wr: "write_level l k fin w = Inr (e, w\<lparr>bc_out := o2\<rparr>)" "grown (bc_out w) o2" "EKey e = k"
    and place: "\<lbrakk>length (wout o2) < 2 ^ 63; regions_ok (bc_out w)\<rbrakk> \<Longrightarrow>
       placed cmp codec o2 (region_of e) (WriteIndexBlock (toBlock (\<not> fin) l)) \<and> regions_ok o2 \<and>
       sint (Offset (region_of e)) = int (length (wout (bc_out w)))"
    using write_level_ok [OF w(3) up] by metis
  define t where "t = (concat (map fst ts), region_of e # concat (map snd ts))"
  let ?w1 = "w\<lparr>bc_out := o2\<rparr>"
  have fl2: "flank (ixblock o2) (Suc level) lv ls rs" and ok2: "level_ok (ixblock o2) level l es ts"
    using flank_mono [OF fl] level_ok_mono [OF ok(1)] ixblock_mono [OF _ wr(2)] by blast+
  obtain l0 where tot: "indexAddAtLevel (Suc level) e ?w1 = Inr (?w1\<lparr>levels := (pre @ [Some l]) @ Some l0 # tl lv\<rparr>)"
    "filled l0"
    using indexAddAtLevel_total [of ?w1 "pre @ [Some l]" lv "Suc level" e] flank_roomy [OF fl] w k wr(3)
    by simp metis
  let ?w2 = "?w1\<lparr>levels := (pre @ [Some l]) @ Some l0 # tl lv\<rparr>"
  have nz: "numEntries l \<noteq> 0"
    using ok(1,2) by (auto simp: level_ok_def level_holds_numEntries)
  have "indexFlushLevel level k fin w = rbind (indexFlushLevel (Suc level) k fin ?w2) (\<lambda>w3.
      Inr (w3\<lparr>levels := (levels w3)[level := (if fin then None else Some (new_level (of_nat level) (totalAdded w3)))]\<rparr>))"
    using cont nz get_level_at [OF w(1,2)] wr(1) tot(1)
    by (subst indexFlushLevel.simps) (auto simp: Let_def simp del: append_assoc)
  from run(1) [unfolded this rbind_Inr_iff]
  obtain w3 where w3: "indexFlushLevel (Suc level) k fin ?w2 = Inr w3"
    "w' = w3\<lparr>levels := (levels w3)[level := (if fin then None else Some (new_level (of_nat level) (totalAdded w3)))]\<rparr>"
    by auto
  have up2: "set_up ?w2"
    using up wr(2) by (auto simp: set_up_def grown_def)
  have "grown o2 (bc_out w')"
    using indexFlushLevel_total [of ?w2 "pre @ [Some l]" l0 "tl lv" "Suc level" k fin] flank_roomy [OF fl] w tot(2) k up2 w3
    by (cases lv) auto
  then have small: "length (wout o2) < 2 ^ 63"
    using run(2) grown_length [of o2 "bc_out w'"] by simp
  note place = place [OF small regs(1)]
  have nd: "node (ixblock o2) (Suc level) e t"
    using level_ok_block [OF ok2 w(3), of "\<not> fin"] ok(2,3) wr(3) place ok2
    by (auto simp: ixblock_def level_ok_def t_def)
  obtain l' es1 ts1 ls1 rs1 where add:
    "indexAddAtLevel (Suc level) e ?w1 = Inr (?w1\<lparr>levels := (pre @ [Some l]) @ Some l' # tl lv\<rparr>)" "filled l'"
    "level_ok (ixblock o2) (Suc level) l' (es1 @ [e]) (ts1 @ [t])" "full (Suc level) ts1"
    "flank (ixblock o2) (Suc (Suc level)) (tl lv) ls1 rs1"
    "ls = ls1 @ concat (map fst ts1)" "rs = rs1 @ concat (map snd ts1)" "lv = [] \<longrightarrow> es1 = []"
    using indexAddAtLevel_flank [OF fl2, of ?w1 "pre @ [Some l]"] w nd wr(3) k by simp metis
  have "l' = l0"
    using arg_cong [OF trans [OF add(1) [symmetric] tot(1)], of "\<lambda>r. levels (projr r)"] by simp
  have "regs_ok o2 (rs1 @ concat (map snd (ts1 @ [t])) @ X)"
    using place add(7) by (intro regs_ok_insert [OF regs(2,1) wr(2), of "region_of e"]) (auto simp: t_def placed_def)
  then show ?thesis
    using that [OF w3(1)] w3(2) add place up2 wr(3) by (simp add: t_def \<open>l' = l0\<close>)
qed

lemma indexFlushLevel_flank:
  assumes "indexFlushLevel level k False w = Inr w'" "length (wout (bc_out w')) < 2 ^ 63"
    "levels w = pre @ Some l # lv" "length pre = level" "filled l"
    "level_ok (ixblock (bc_out w)) level l es ts" "es \<noteq> []" "EKey (last es) = k" "full level ts"
    "flank (ixblock (bc_out w)) (Suc level) lv ls rs" "small_key k" "set_up w"
    "regions_ok (bc_out w)" "regs_ok (bc_out w) (rs @ concat (map snd ts) @ X)"
  shows "\<exists>lv' rs'. levels w' = pre @ lv' \<and> lv' \<noteq> [] \<and>
    flank (ixblock (bc_out w')) level lv' (ls @ concat (map fst ts)) rs' \<and> regs_ok (bc_out w') (rs' @ X) \<and>
    regions_ok (bc_out w')"
  using assms
proof (induction "2 * length lv + (if numEntries l > 1 then 1 else 0)"
    arbitrary: level w w' pre l lv es ts ls rs rule: less_induct)
  case less
  note prems = less.prems
  have get: "get_level w level = Inr l"
    using prems(3,4) by (rule get_level_at)
  show ?case
  proof (cases "level_size l > IndexBlockSize (opts w) \<and> numEntries l > 1")
    case False
    then have "w' = w"
      using prems(1) get by (simp add: indexFlushLevel.simps [of level] Let_def)
    moreover have "roomy l"
      using False prems(5,12) roomy_stays [of l "IndexBlockSize (opts w)"] by (auto simp: set_up_def)
    ultimately show ?thesis
      using prems by (intro exI [of _ "Some l # lv"] exI [of _ "rs @ concat (map snd ts)"]) auto
  next
    case True
    obtain w2 w3 l' es1 e ts1 t ls1 rs1 where st:
      "indexFlushLevel (Suc level) k False w2 = Inr w3"
      "w' = w3\<lparr>levels := (levels w3)[level := Some (new_level (of_nat level) (totalAdded w3))]\<rparr>"
      "levels w2 = (pre @ [Some l]) @ Some l' # tl lv" "filled l'"
      "level_ok (ixblock (bc_out w2)) (Suc level) l' (es1 @ [e]) (ts1 @ [t])" "EKey e = k"
      "full (Suc level) ts1" "fst t = concat (map fst ts)"
      "flank (ixblock (bc_out w2)) (Suc (Suc level)) (tl lv) ls1 rs1"
      "ls = ls1 @ concat (map fst ts1)" "set_up w2" "regions_ok (bc_out w2)"
      "regs_ok (bc_out w2) (rs1 @ concat (map snd (ts1 @ [t])) @ X)" "lv = [] \<longrightarrow> es1 = []"
    proof (rule cascade_step [OF prems(3-8,10-14) _ _ prems(1,2)])
    qed (use True that in \<open>simp_all only: if_False simp_thms\<close>)
    have "2 \<le> length ts"
      using True prems(6) by (auto simp: level_ok_def level_holds_numEntries dest!: list_all2_lengthD)
    then have full: "full (Suc level) (ts1 @ [t])"
      using full_concat [OF prems(9)] st(7,8) by (auto simp: full_def)
    have "numEntries l' = Suc (length es1)"
      using st(5) by (auto simp: level_ok_def level_holds_numEntries)
    then have lt: "2 * length (tl lv) + (if numEntries l' > 1 then 1 else 0)
        < 2 * length lv + (if numEntries l > 1 then 1 else 0)"
      using st(14) True by (cases lv) auto
    obtain lv3 rs3 where *: "levels w3 = (pre @ [Some l]) @ lv3" "lv3 \<noteq> []"
      "flank (ixblock (bc_out w3)) (Suc level) lv3 (ls1 @ concat (map fst (ts1 @ [t]))) rs3"
      "regs_ok (bc_out w3) (rs3 @ X)" "regions_ok (bc_out w3)"
      using less.hyps [OF lt st(1) _ st(3) _ st(4,5) _ _ full st(9) prems(11) st(11-13)] prems(2,4) st(2,6)
      by auto
    let ?new = "new_level (of_nat level) (totalAdded w3)"
    have lv': "levels w' = pre @ Some ?new # lv3"
      using st(2) *(1) prems(4) by (auto simp: list_update_append)
    have "flank (ixblock (bc_out w')) level (Some ?new # lv3) (ls @ concat (map fst ts)) rs3"
      using flank_new_level [OF *(3,2)] st(2,8,10) by (simp del: flank.simps)
    then show ?thesis
      using lv' *(4,5) st(2) by (intro exI [of _ "Some ?new # lv3"] exI [of _ rs3]) (simp del: flank.simps)
  qed
qed

text \<open>With the last leaf every level is written but the top one, which is the root.\<close>

lemma indexFlushLevel_root:
  assumes "indexFlushLevel level k True w = Inr w'" "length (wout (bc_out w')) < 2 ^ 63"
    "levels w = pre @ Some l # lv" "length pre = level" "filled l"
    "level_ok (ixblock (bc_out w)) level l es ts" "es \<noteq> []" "EKey (last es) = k"
    "flank (ixblock (bc_out w)) (Suc level) lv ls rs" "small_key k" "set_up w"
    "regions_ok (bc_out w)" "regs_ok (bc_out w) (rs @ concat (map snd ts) @ X)"
  shows "\<exists>mid l' es' ts'. levels w' = pre @ mid @ [Some l'] \<and> length mid = length lv \<and> filled l' \<and>
    level_ok (ixblock (bc_out w')) (level + length lv) l' es' ts' \<and> es' \<noteq> [] \<and>
    concat (map fst ts') = ls @ concat (map fst ts) \<and> regs_ok (bc_out w') (concat (map snd ts') @ X) \<and>
    regions_ok (bc_out w')"
  using assms
proof (induction lv arbitrary: level w w' pre l es ts ls rs)
  case Nil
  then have "w' = w"
    by (simp add: indexFlushLevel.simps [of level])
  then show ?case
    using Nil.prems by (intro exI [of _ "[]"] exI [of _ l] exI [of _ es] exI [of _ ts]) simp
next
  case (Cons x lv)
  note prems = Cons.prems
  obtain w2 w3 l' es1 e ts1 t ls1 rs1 where st:
    "indexFlushLevel (Suc level) k True w2 = Inr w3" "w' = w3\<lparr>levels := (levels w3)[level := None]\<rparr>"
    "levels w2 = (pre @ [Some l]) @ Some l' # tl (x # lv)" "filled l'"
    "level_ok (ixblock (bc_out w2)) (Suc level) l' (es1 @ [e]) (ts1 @ [t])" "EKey e = k"
    "fst t = concat (map fst ts)" "flank (ixblock (bc_out w2)) (Suc (Suc level)) (tl (x # lv)) ls1 rs1"
    "ls = ls1 @ concat (map fst ts1)" "set_up w2" "regions_ok (bc_out w2)"
    "regs_ok (bc_out w2) (rs1 @ concat (map snd (ts1 @ [t])) @ X)"
  proof (rule cascade_step [OF prems(3-13) _ _ prems(1,2)])
    show "\<not> (True \<and> Suc level = length (levels w))"
      using prems(3,4) by simp
  qed (use that in \<open>simp_all only: if_True simp_thms\<close>)
  obtain mid l2 es2 ts2 where *: "levels w3 = (pre @ [Some l]) @ mid @ [Some l2]" "length mid = length lv" "filled l2"
    "level_ok (ixblock (bc_out w3)) (Suc level + length lv) l2 es2 ts2" "es2 \<noteq> []"
    "concat (map fst ts2) = ls1 @ concat (map fst (ts1 @ [t]))" "regs_ok (bc_out w3) (concat (map snd ts2) @ X)"
    "regions_ok (bc_out w3)"
    using Cons.IH [OF st(1) _ st(3) [unfolded list.sel] _ st(4,5) _ _ st(8) [unfolded list.sel] prems(10) st(10-12)]
      prems(2,4) st(2,6) by auto
  have "levels w' = pre @ (None # mid) @ [Some l2]"
    using st(2) *(1) prems(4) by (auto simp: list_update_append)
  then show ?case
    using * st(2,7,9)
    by (intro exI [of _ "None # mid"] exI [of _ l2] exI [of _ es2] exI [of _ ts2]) simp
qed

end

end
