(* ===== verification/RFile_Append.thy ===== *)
theory RFile_Append
  imports RFile_Levels
begin

text \<open>
  The RFile writer between \<^verbatim>\<open>NewWriter\<close> and the end of a locality group. The invariant
  \<open>writing B bl w\<close> says that \<open>w\<close> has put the blocks \<open>B\<close> into the container, indexed all
  but the last, and holds the cells \<open>bl\<close> in its buffer; \<^verbatim>\<open>Append\<close>, \<^verbatim>\<open>flushDataBlock\<close>
  and \<^verbatim>\<open>finalizeCurrentLocalityGroup\<close> succeed on it and keep it.
\<close>

section \<open>Adding a leaf\<close>

abbreviation all_roomy :: "index_level option list \<Rightarrow> bool" where
  "all_roomy lv \<equiv> \<forall>x\<in>set lv. \<exists>l. x = Some l \<and> roomy l"

context rfile_codec
begin

lemma indexAdd_ok:
  assumes up: "set_up w" and roomy: "all_roomy (levels w)" and key: "small_key (EKey p)"
  obtains w' where "indexAdd p fin w = Inr w'" "grown (bc_out w) (bc_out w')"
    "same_rest (w\<lparr>totalAdded := totalAdded w + 1\<rparr>) w'" "\<not> fin \<longrightarrow> all_roomy (levels w')"
    "levels w' \<noteq> []" "\<exists>l. last (levels w') = Some l \<and> filled l"
proof -
  let ?w1 = "w\<lparr>totalAdded := totalAdded w + 1\<rparr>"
  obtain l' where l': "indexAddAtLevel 0 p ?w1 = Inr (?w1\<lparr>levels := [] @ Some l' # tl (levels w)\<rparr>)" "filled l'"
    using indexAddAtLevel_total [of ?w1 "[]" "levels w" 0 p] roomy key by auto
  let ?w2 = "?w1\<lparr>levels := [] @ Some l' # tl (levels w)\<rparr>"
  have up2: "set_up ?w2"
    using up by (simp add: set_up_def)
  obtain w' where w': "indexFlushLevel 0 (EKey p) fin ?w2 = Inr w'" "grown (bc_out ?w2) (bc_out w')"
    "same_rest ?w2 w'" "\<not> fin \<longrightarrow> all_roomy (levels w')" "levels w' \<noteq> []" "\<exists>l. last (levels w') = Some l \<and> filled l"
    using indexFlushLevel_total [of ?w2 "[]" l' "tl (levels w)" 0 "EKey p" fin] l'(2) roomy key up2
    by (cases "levels w") auto
  show ?thesis
  proof (rule that)
    show "indexAdd p fin w = Inr w'"
      using l'(1) w'(1) by (simp add: indexAdd_def)
    show "same_rest ?w1 w'"
      using w'(3) same_rest_trans [of ?w1 ?w2 w'] by (simp add: same_rest_def)
  qed (use w' in auto)
qed

lemma indexAdd_flank:
  assumes run: "indexAdd p fin w = Inr w'" "length (wout (bc_out w')) < 2 ^ 63"
    and up: "set_up w" and regs: "regions_ok (bc_out w)" "regs_ok (bc_out w) (rs @ region_of p # X)"
    and fl: "flank (ixblock (bc_out w)) 0 (levels w) ls rs"
    and p: "small_key (EKey p)" "0 < sint (ENumEntries p)"
  shows "\<not> fin \<Longrightarrow> \<exists>rs'. flank (ixblock (bc_out w')) 0 (levels w') (ls @ [p]) rs' \<and>
      regs_ok (bc_out w') (rs' @ X) \<and> regions_ok (bc_out w')"
    and "fin \<Longrightarrow> \<exists>l n es ts. levels w' \<noteq> [] \<and> last (levels w') = Some l \<and> filled l \<and>
      level_ok (ixblock (bc_out w')) n l es ts \<and> es \<noteq> [] \<and> 2 ^ n \<le> length ls + 1 \<and>
      concat (map fst ts) = ls @ [p] \<and> regs_ok (bc_out w') (concat (map snd ts) @ X) \<and> regions_ok (bc_out w')"
proof -
  let ?w1 = "w\<lparr>totalAdded := totalAdded w + 1\<rparr>"
  have nd: "node (ixblock (bc_out w)) 0 p ([p], [region_of p])"
    using p(2) by simp
  obtain l' es ts ls1 rs1 where add: "indexAddAtLevel 0 p ?w1 = Inr (?w1\<lparr>levels := [] @ Some l' # tl (levels w)\<rparr>)"
    "filled l'" "level_ok (ixblock (bc_out w)) 0 l' (es @ [p]) (ts @ [([p], [region_of p])])" "full 0 ts"
    "flank (ixblock (bc_out w)) (Suc 0) (tl (levels w)) ls1 rs1"
    "ls = ls1 @ concat (map fst ts)" "rs = rs1 @ concat (map snd ts)"
    using indexAddAtLevel_flank [where w = ?w1 and pre = "[]", OF fl _ _ nd p(1)] by simp metis
  let ?w2 = "?w1\<lparr>levels := [] @ Some l' # tl (levels w)\<rparr>" and ?ts = "ts @ [([p], [region_of p])]"
  have flush: "indexFlushLevel 0 (EKey p) fin ?w2 = Inr w'"
    using run(1) add(1) by (simp add: indexAdd_def)
  have flushF: "indexFlushLevel 0 (EKey p) False ?w2 = Inr w'" if "\<not> fin"
    using flush that by simp
  have flushT: "indexFlushLevel 0 (EKey p) True ?w2 = Inr w'" if fin
    using flush that by simp
  have st: "levels ?w2 = [] @ Some l' # tl (levels w)" "level_ok (ixblock (bc_out ?w2)) 0 l' (es @ [p]) ?ts"
    "es @ [p] \<noteq> []" "EKey (last (es @ [p])) = EKey p" "full 0 ?ts"
    "flank (ixblock (bc_out ?w2)) (Suc 0) (tl (levels w)) ls1 rs1" "set_up ?w2" "regions_ok (bc_out ?w2)"
    "regs_ok (bc_out ?w2) (rs1 @ concat (map snd ?ts) @ X)"
    using add up regs by (simp_all add: full_def set_up_def)
  show "\<exists>rs'. flank (ixblock (bc_out w')) 0 (levels w') (ls @ [p]) rs' \<and>
      regs_ok (bc_out w') (rs' @ X) \<and> regions_ok (bc_out w')" if "\<not> fin"
    using indexFlushLevel_flank [OF flushF [OF that] run(2) st(1) _ add(2) st(2-6) p(1) st(7-9)]
      add(6) by auto
  have depth: "2 ^ length (tl (levels w)) \<le> length ls + 1"
    using flank_depth [OF fl] by (cases "levels w") auto
  show "\<exists>l n es ts. levels w' \<noteq> [] \<and> last (levels w') = Some l \<and> filled l \<and>
      level_ok (ixblock (bc_out w')) n l es ts \<and> es \<noteq> [] \<and> 2 ^ n \<le> length ls + 1 \<and>
      concat (map fst ts) = ls @ [p] \<and> regs_ok (bc_out w') (concat (map snd ts) @ X) \<and> regions_ok (bc_out w')"
    if final_run: "fin"
  proof -
    obtain mid l2 es2 ts2 where "levels w' = [] @ mid @ [Some l2]" "filled l2"
      "level_ok (ixblock (bc_out w')) (0 + length (tl (levels w))) l2 es2 ts2" "es2 \<noteq> []"
      "concat (map fst ts2) = ls1 @ concat (map fst ?ts)" "regs_ok (bc_out w') (concat (map snd ts2) @ X)"
      "regions_ok (bc_out w')"
      using indexFlushLevel_root [OF flushT [OF final_run] run(2) st(1) _ add(2) st(2-4,6) p(1) st(7-9)]
      by auto
    then show ?thesis
      using depth add(6)
      by (intro exI [of _ l2] exI [of _ "length (tl (levels w))"] exI [of _ es2] exI [of _ ts2]) simp
  qed
qed

end

section \<open>Appending cells\<close>

definition small_cell :: "cell \<Rightarrow> bool" where
  "small_cell c \<longleftrightarrow> small_key (fst c) \<and> length (snd c) \<le> 2 ^ 25"

lemma small_cell_fits: "small_cell c \<Longrightarrow> cell_fits c"
  by (auto simp: small_cell_def small_key_def key_bytes_def cell_fits_def key_fits_def)

lemma length_writeField: "length (writeField f p fs fp a b) \<le> length f + 18"
proof -
  have "length (WriteVInt v) \<le> 9" for v
    using length_WriteVLong by (simp add: WriteVInt_def)
  from this [of "word_of_int p"] this [of "word_of_int (int (length f) - p)"] this [of "of_nat (length f)"]
  show ?thesis
    by (auto simp: writeField_def)
qed

lemma length_EncodeKey: "length (EncodeKey prev' k v) \<le> key_bytes k + length v + 87" "EncodeKey prev' k v \<noteq> []"
proof -
  obtain fs fp rowP cfP cqP cvP tsDiff where e: "encode_flags prev' k = (fs, fp, rowP, cfP, cqP, cvP, tsDiff)"
    by (metis prod_cases7)
  let ?ts = "if fs AND TSSame = TSSame then [] else if fp AND TSDiff = TSDiff then WriteVLong tsDiff
    else WriteVLong (Timestamp k)"
  have enc: "EncodeKey prev' k v = [fs] @
      (if fs AND PrefixCompressionEnabled = PrefixCompressionEnabled then [fp] else []) @
      writeField (Row k) rowP fs fp RowSame RowCommonPrefix @
      writeField (ColumnFamily k) cfP fs fp CFSame CFCommonPrefix @
      writeField (ColumnQualifier k) cqP fs fp CQSame CQCommonPrefix @
      writeField (ColumnVisibility k) cvP fs fp CVSame CVCommonPrefix @ ?ts @
      be_bytes 4 (unat (of_nat (length v) :: int32)) @ v"
    by (simp add: EncodeKey_def e)
  then show "EncodeKey prev' k v \<noteq> []"
    by simp
  have "length ?ts \<le> 9"
    using length_WriteVLong by simp
  then show "length (EncodeKey prev' k v) \<le> key_bytes k + length v + 87"
    unfolding enc key_bytes_def
    using length_writeField [of "Row k" rowP fs fp RowSame RowCommonPrefix]
      length_writeField [of "ColumnFamily k" cfP fs fp CFSame CFCommonPrefix]
      length_writeField [of "ColumnQualifier k" cqP fs fp CQSame CQCommonPrefix]
      length_writeField [of "ColumnVisibility k" cvP fs fp CVSame CVCommonPrefix]
    by (simp del: length_be_bytes if_split add: length_be_bytes)
qed

lemma EncodeCells_append:
  "EncodeCells p (cs @ [(k, v)]) =
     EncodeCells p cs @ EncodeKey (if cs = [] then p else Some (fst (last cs))) k v"
  by (induction cs arbitrary: p) auto

lemma length_EncodeCells: "length cs \<le> length (EncodeCells p cs)"
proof (induction cs arbitrary: p)
  case (Cons c cs)
  obtain k v where c: "c = (k, v)"
    by fastforce
  have "Suc 0 \<le> length (EncodeKey p k v)"
    using length_EncodeKey(2) by (simp add: Suc_le_eq)
  then show ?case
    using Cons.IH [of "Some k"] by (simp only: c EncodeCells.simps length_append list.size)
qed simp

lemma EncodeCells_Nil_iff [simp]: "EncodeCells p cs = [] \<longleftrightarrow> cs = []"
  using length_EncodeCells [of cs p] by auto

text \<open>The block being filled holds the cells \<open>bl\<close>.\<close>

definition buffered :: "cell list \<Rightarrow> rfile_writer \<Rightarrow> bool" where
  "buffered bl w \<longleftrightarrow> blockBuf w = EncodeCells None bl \<and>
     blockPrev w = (if bl = [] then None else Some (fst (last bl))) \<and>
     blockLast w = (if bl = [] then None else Some (fst (last bl))) \<and> blockEntries w = of_nat (length bl)"

definition pend :: "rfile_writer \<Rightarrow> index_entry list" where
  "pend w = (case pendingLeaf w of None \<Rightarrow> [] | Some p \<Rightarrow> [p])"

definition families :: "cell list \<Rightarrow> (bytes \<times> int64) list" where
  "families cs = fold (\<lambda>c. count_family (ColumnFamily (fst c))) cs []"

definition first_key :: "cell list \<Rightarrow> key option" where
  "first_key cs = (case cs of [] \<Rightarrow> None | c # _ \<Rightarrow> Some (fst c))"

definition final_key :: "cell list \<Rightarrow> key option" where
  "final_key cs = (if cs = [] then None else Some (fst (last cs)))"

lemma first_key_snoc:
  "first_key (cs @ [c]) = (case first_key cs of None \<Rightarrow> Some (fst c) | Some k \<Rightarrow> Some k)"
  by (cases cs) (simp_all add: first_key_def)

lemma final_key_le: "\<lbrakk>sorted_cells (cs @ [(k, v)]); final_key cs = Some l\<rbrakk> \<Longrightarrow> l \<le> k"
  by (cases cs rule: rev_cases) (auto simp: final_key_def sorted_append)

context rfile_codec
begin

definition leaf_of :: "bc_writer \<Rightarrow> index_entry \<Rightarrow> cell list \<Rightarrow> bool" where
  "leaf_of o1 e b \<longleftrightarrow> sint (ENumEntries e) = int (length b) \<and> b \<noteq> [] \<and> EKey e = fst (last b) \<and>
     placed cmp codec o1 (region_of e) (EncodeCells None b)"

text \<open>The index over the finished blocks \<open>B\<close>; the last leaf is held back.\<close>

definition indexed :: "cell list list \<Rightarrow> rfile_writer \<Rightarrow> bool" where
  "indexed B w \<longleftrightarrow> (\<exists>ls rs. regions_ok (bc_out w) \<and> flank (ixblock (bc_out w)) 0 (levels w) ls rs \<and>
     regs_ok (bc_out w) (rs @ map region_of (pend w)) \<and> list_all2 (leaf_of (bc_out w)) (ls @ pend w) B \<and>
     totalAdded w = of_nat (length ls))"

text \<open>A writer of the default group after the cells of \<open>B\<close> and \<open>bl\<close>.\<close>

definition writing :: "cell list list \<Rightarrow> cell list \<Rightarrow> rfile_writer \<Rightarrow> bool" where
  "writing B bl w \<longleftrightarrow> set_up w \<and> all_roomy (levels w) \<and> buffered bl w \<and> length (blockBuf w) \<le> 2 ^ 27 \<and>
     (\<forall>c\<in>set (concat B @ bl). small_cell c) \<and> sorted_cells (concat B @ bl) \<and> 
     lastKey w = final_key (concat B @ bl) \<and> firstKey w = first_key (concat B @ bl) \<and>
     cfCounts w = families (concat B @ bl) \<and> runBlockCap w = 2 ^ 26 \<and> BlockSize (opts w) \<le> 2 ^ 26 \<and>
     (\<forall>p\<in>set (pend w). small_key (EKey p)) \<and> (B \<noteq> [] \<longleftrightarrow> pend w \<noteq> []) \<and>
     localityGroups w = [] \<and> currentDefault w \<and> currentLGName w = [] \<and>
     wmeta (bc_out w) = [] \<and> wcodec (bc_out w) = codec \<and> dense (bc_out w) \<and>
     (length (wout (bc_out w)) < 2 ^ 63 \<longrightarrow> indexed B w)"

lemma leaf_of_mono: "leaf_of o1 e b \<Longrightarrow> grown o1 o2 \<Longrightarrow> leaf_of o2 e b"
  by (auto simp: leaf_of_def intro: placed_mono)

lemma leaves_of_mono: "list_all2 (leaf_of o1) ls B \<Longrightarrow> grown o1 o2 \<Longrightarrow> list_all2 (leaf_of o2) ls B"
  using list_all2_mono [of "leaf_of o1" ls B "leaf_of o2"] leaf_of_mono by blast

lemma leaves_count: "\<lbrakk>list_all2 (leaf_of o1) ls B; p \<in> set ls\<rbrakk> \<Longrightarrow> 0 < sint (ENumEntries p)"
  by (induction rule: list_all2_induct) (auto simp: leaf_of_def)

lemma flank_grown: "flank (ixblock o1) i lv ls rs \<Longrightarrow> grown o1 o2 \<Longrightarrow> flank (ixblock o2) i lv ls rs"
  by (erule flank_mono) (rule ixblock_mono)

text \<open>The leaf that was held back is added when the next one is known.\<close>

lemma promote_ok:
  assumes up: "set_up w" and roomy: "all_roomy (levels w)" and key: "\<forall>p\<in>set (pend w). small_key (EKey p)"
  obtains w' where "(case pendingLeaf w of None \<Rightarrow> Inr w | Some p \<Rightarrow> indexAdd p False w) = Inr w'"
    "grown (bc_out w) (bc_out w')" "same_rest (w\<lparr>totalAdded := totalAdded w + of_nat (length (pend w))\<rparr>) w'"
    "all_roomy (levels w')"
    "\<forall>ls rs X. length (wout (bc_out w')) < 2 ^ 63 \<and> regions_ok (bc_out w) \<and>
       flank (ixblock (bc_out w)) 0 (levels w) ls rs \<and> regs_ok (bc_out w) (rs @ map region_of (pend w) @ X) \<and>
       (\<forall>p\<in>set (pend w). 0 < sint (ENumEntries p)) \<longrightarrow>
       (\<exists>rs'. flank (ixblock (bc_out w')) 0 (levels w') (ls @ pend w) rs' \<and>
         regs_ok (bc_out w') (rs' @ X) \<and> regions_ok (bc_out w'))"
proof (cases "pendingLeaf w")
  case None
  then have "pend w = []"
    by (simp add: pend_def)
  then show ?thesis
    using that [of w] None roomy by (auto simp: same_rest_def)
next
  case (Some p)
  then have p: "pend w = [p]"
    by (simp add: pend_def)
  obtain w' where w': "indexAdd p False w = Inr w'" "grown (bc_out w) (bc_out w')"
    "same_rest (w\<lparr>totalAdded := totalAdded w + 1\<rparr>) w'" "\<not> False \<longrightarrow> all_roomy (levels w')"
    using indexAdd_ok [OF up roomy] key p by (metis list.set_intros(1))
  show ?thesis
  proof (rule that [of w'])
    have "\<exists>rs'. flank (ixblock (bc_out w')) 0 (levels w') (ls @ pend w) rs' \<and>
        regs_ok (bc_out w') (rs' @ X) \<and> regions_ok (bc_out w')"
      if "length (wout (bc_out w')) < 2 ^ 63" "regions_ok (bc_out w)"
        "flank (ixblock (bc_out w)) 0 (levels w) ls rs" "regs_ok (bc_out w) (rs @ map region_of (pend w) @ X)"
        "\<forall>p\<in>set (pend w). 0 < sint (ENumEntries p)" for ls rs X
      using indexAdd_flank(1) [OF w'(1) that(1) up that(2) _ that(3), of X] that(4,5) key p by auto
    then show "\<forall>ls rs X. length (wout (bc_out w')) < 2 ^ 63 \<and> regions_ok (bc_out w) \<and>
       flank (ixblock (bc_out w)) 0 (levels w) ls rs \<and> regs_ok (bc_out w) (rs @ map region_of (pend w) @ X) \<and>
       (\<forall>p\<in>set (pend w). 0 < sint (ENumEntries p)) \<longrightarrow>
       (\<exists>rs'. flank (ixblock (bc_out w')) 0 (levels w') (ls @ pend w) rs' \<and>
         regs_ok (bc_out w') (rs' @ X) \<and> regions_ok (bc_out w'))"
      by blast
  qed (use Some w' p in simp_all)
qed

lemma flushDataBlock_ok:
  assumes w: "writing B bl w" and bl: "bl \<noteq> []"
  obtains w' where "flushDataBlock w = Inr w'" "grown (bc_out w) (bc_out w')" "writing (B @ [bl]) [] w'"
    "closed w' = closed w"
proof -
  let ?raw = "blockBuf w"
  have up: "set_up w" and buf: "?raw = EncodeCells None bl" "blockLast w = Some (fst (last bl))"
    "blockEntries w = of_nat (length bl)" "length ?raw \<le> 2 ^ 27" "?raw \<noteq> []"
    using w bl by (auto simp: writing_def buffered_def)
  obtain z region o2 where put: "Encode cmp ?raw codec = Inr z"
    "AppendDataBlock z (of_nat (length ?raw)) (bc_out w) = Inr (region, o2)" "grown (bc_out w) o2"
    and place: "\<lbrakk>length (wout o2) < 2 ^ 63; regions_ok (bc_out w)\<rbrakk> \<Longrightarrow>
       placed cmp codec o2 region ?raw \<and> regions_ok o2 \<and> sint (Offset region) = int (length (wout (bc_out w)))"
    using put_block [OF buf(5,4), of "bc_out w"] up unfolding set_up_def by metis
  define leaf where "leaf = \<lparr>EKey = fst (last bl), ENumEntries = of_nat (length bl), EOffset = Offset region,
    ECompressedSize = CompressedSize region, ERawSize = RawSize region\<rparr>"
  have leaf: "region_of leaf = region" "EKey leaf = fst (last bl)"
    by (simp_all add: leaf_def region_of_def)
  have "length bl \<le> 2 ^ 27"
    using length_EncodeCells [of bl None] buf(1,4) by simp
  then have count: "sint (ENumEntries leaf) = int (length bl)"
    by (simp add: leaf_def sint_of_nat_32)
  let ?w1 = "w\<lparr>bc_out := o2\<rparr>"
  have pend1: "pend ?w1 = pend w"
    by (simp add: pend_def)
  have "set_up ?w1" "all_roomy (levels ?w1)" "\<forall>p\<in>set (pend ?w1). small_key (EKey p)"
    using w put(3) pend1 by (auto simp: writing_def set_up_def grown_def)
  then obtain w2 where w2: "(case pendingLeaf ?w1 of None \<Rightarrow> Inr ?w1 | Some p \<Rightarrow> indexAdd p False ?w1) = Inr w2"
    "grown (bc_out ?w1) (bc_out w2)" "same_rest (?w1\<lparr>totalAdded := totalAdded ?w1 + of_nat (length (pend ?w1))\<rparr>) w2"
    "all_roomy (levels w2)" and
    fl: "\<forall>ls rs X. length (wout (bc_out w2)) < 2 ^ 63 \<and> regions_ok (bc_out ?w1) \<and>
       flank (ixblock (bc_out ?w1)) 0 (levels ?w1) ls rs \<and> regs_ok (bc_out ?w1) (rs @ map region_of (pend ?w1) @ X) \<and>
       (\<forall>p\<in>set (pend ?w1). 0 < sint (ENumEntries p)) \<longrightarrow>
       (\<exists>rs'. flank (ixblock (bc_out w2)) 0 (levels w2) (ls @ pend ?w1) rs' \<and>
         regs_ok (bc_out w2) (rs' @ X) \<and> regions_ok (bc_out w2))"
    by (rule promote_ok)
  let ?w' = "w2\<lparr>pendingLeaf := Some leaf, blockBuf := [], blockPrev := None, blockLast := None, blockEntries := 0\<rparr>"
  have run: "flushDataBlock w = Inr ?w'"
    using up buf put(1,2) w2(1) by (simp add: flushDataBlock_def set_up_def Let_def leaf_def)
  have grow: "grown (bc_out w) (bc_out ?w')"
    using grown_trans [OF put(3)] w2(2) by simp
  note same = same_restD [OF w2(3)]
  have "indexed (B @ [bl]) ?w'" if small: "length (wout (bc_out ?w')) < 2 ^ 63"
  proof -
    have lens: "length (wout (bc_out w)) < 2 ^ 63" "length (wout o2) < 2 ^ 63"
      using small grown_length [OF grow] grown_length [OF w2(2)] by simp_all
    obtain ls rs where ix: "regions_ok (bc_out w)" "flank (ixblock (bc_out w)) 0 (levels w) ls rs"
      "regs_ok (bc_out w) (rs @ map region_of (pend w))" "list_all2 (leaf_of (bc_out w)) (ls @ pend w) B"
      "totalAdded w = of_nat (length ls)"
      using w lens(1) by (auto simp: writing_def indexed_def)
    note pl = place [OF lens(2) ix(1)]
    have "regs_ok o2 (rs @ map region_of (pend w) @ [region])"
      using pl by (intro regs_ok_insert [OF ix(3,1) put(3), of region]) (auto simp: placed_def)
    moreover have "0 < sint (ENumEntries p)" if "p \<in> set (pend w)" for p
      using leaves_count [OF ix(4)] that by simp
    ultimately obtain rs' where rs': "flank (ixblock (bc_out w2)) 0 (levels w2) (ls @ pend w) rs'"
      "regs_ok (bc_out w2) (rs' @ [region])" "regions_ok (bc_out w2)"
      using fl [THEN spec, THEN spec, THEN spec, of ls rs "[region]"] small pl flank_grown [OF ix(2) put(3)] pend1 by auto
    have "leaf_of (bc_out w2) leaf bl"
      using leaf_of_mono [OF _ w2(2), of leaf bl] pl count bl leaf buf(1) by (simp add: leaf_of_def)
    moreover have "list_all2 (leaf_of (bc_out w2)) (ls @ pend w) B"
      using leaves_of_mono [OF ix(4)] grow by simp
    ultimately have "list_all2 (leaf_of (bc_out w2)) ((ls @ pend w) @ [leaf]) (B @ [bl])"
      by (intro list_all2_appendI) simp_all
    then show ?thesis
      using rs' ix(5) same(3) leaf(1) pend1
      by (auto simp: indexed_def pend_def intro!: exI [of _ "ls @ pend w"])
  qed
  then have "writing (B @ [bl]) [] ?w'"
    using w same w2(4) grow bl leaf(2)
    by (auto simp: writing_def buffered_def set_up_def pend_def grown_def small_cell_def)
  then show ?thesis
    using that [OF run grow] same by simp
qed

end

context rfile_codec
begin

lemma flushDataBlock_all:
  assumes "writing B bl w"
  obtains B' w' where "flushDataBlock w = Inr w'" "grown (bc_out w) (bc_out w')" "writing B' [] w'"
    "concat B' = concat B @ bl" "closed w' = closed w"
proof (cases "bl = []")
  case True
  then have "flushDataBlock w = Inr w"
    using assms by (simp add: flushDataBlock_def writing_def buffered_def)
  then show ?thesis
    using that [of w B] True assms by simp
next
  case False
  then show ?thesis
    using that flushDataBlock_ok [OF assms False] by (metis concat.simps concat_append self_append_conv)
qed

text \<open>The cell itself, once the block has room for it.\<close>

lemma append_cell:
  assumes w: "writing B bl w" and room: "length (blockBuf w) \<le> 2 ^ 26" and c: "small_cell (k, v)"
    and sorted: "sorted_cells (concat B @ bl @ [(k, v)])"
  shows "writing B (bl @ [(k, v)]) (w\<lparr>blockBuf := blockBuf w @ EncodeKey (blockPrev w) k v,
      firstKey := (case firstKey w of None \<Rightarrow> Some k | Some k \<Rightarrow> Some k),
      blockPrev := Some k, blockLast := Some k, lastKey := Some k, blockEntries := blockEntries w + 1,
      cfCounts := count_family (ColumnFamily k) (cfCounts w)\<rparr>)" (is "writing _ _ ?w'")
proof -
  have buf: "blockBuf w = EncodeCells None bl" "blockPrev w = (if bl = [] then None else Some (fst (last bl)))"
    using w by (simp_all add: writing_def buffered_def)
  have "buffered (bl @ [(k, v)]) ?w'"
    using w by (simp add: writing_def buffered_def EncodeCells_append)
  moreover have "length (blockBuf ?w') \<le> 2 ^ 27"
    using room c length_EncodeKey(1) [of "blockPrev w" k v] by (simp add: small_cell_def small_key_def)
  moreover have "firstKey ?w' = first_key (concat B @ bl @ [(k, v)])"
    using w first_key_snoc [of "concat B @ bl" "(k, v)"] by (simp add: writing_def cong: option.case_cong)
  moreover have "cfCounts ?w' = families (concat B @ bl @ [(k, v)])"
    using w by (simp add: writing_def families_def)
  moreover have "indexed B ?w' = indexed B w" "pend ?w' = pend w"
    by (simp_all add: indexed_def pend_def)
  ultimately show ?thesis
    using w c sorted by (simp add: writing_def set_up_def final_key_def)
qed

lemma rfile_Append_ok:
  assumes w: "writing B bl w" "\<not> closed w" and c: "small_cell (k, v)"
    and sorted: "sorted_cells (concat B @ bl @ [(k, v)])"
  obtains B' bl' w' where "rfile_Append (Some k) v w = Inr w'" "writing B' bl' w'" "\<not> closed w'"
    "concat B' @ bl' = concat B @ bl @ [(k, v)]"
proof -
  define sz where "sz = int (length (blockBuf w))"
  have caps: "runBlockCap w = 2 ^ 26" "lastKey w = final_key (concat B @ bl)"
    using w by (simp_all add: writing_def)
  have le: "l \<le> k" if "lastKey w = Some l" for l
    using final_key_le [of "concat B @ bl" k v l] sorted caps(2) that by simp
  consider (keep) "sz < 2 ^ 26"
      "\<And>l. lastKey w = Some l \<Longrightarrow> \<not> (Compare k l > 0 \<and> sz \<ge> BlockSize (opts w) \<or> sz \<ge> 2 ^ 26)"
    | (cut) l where "lastKey w = Some l" "Compare k l > 0 \<and> sz \<ge> BlockSize (opts w) \<or> sz \<ge> 2 ^ 26"
  proof (cases "lastKey w")
    case None
    then have "blockBuf w = []"
      using caps(2) w(1) by (auto simp: final_key_def writing_def buffered_def split: if_splits)
    then show ?thesis
      using keep None by (simp add: sz_def)
  qed (use keep cut in force)
  then show ?thesis
  proof cases
    case keep
    let ?w' = "w\<lparr>blockBuf := blockBuf w @ EncodeKey (blockPrev w) k v,
      firstKey := (case firstKey w of None \<Rightarrow> Some k | Some k \<Rightarrow> Some k),
      blockPrev := Some k, blockLast := Some k, lastKey := Some k, blockEntries := blockEntries w + 1,
      cfCounts := count_family (ColumnFamily k) (cfCounts w)\<rparr>"
    have "rfile_Append (Some k) v w = Inr ?w'"
      using w(2) keep le caps(1) by (auto simp: rfile_Append_def Let_def sz_def split: option.splits)
    moreover have "length (blockBuf w) \<le> 2 ^ 26"
      using keep(1) by (simp add: sz_def)
    ultimately show ?thesis
      using that [of ?w' B "bl @ [(k, v)]"] append_cell [OF w(1) _ c sorted] w(2) by simp
  next
    case cut
    obtain B1 w1 where fl: "flushDataBlock w = Inr w1" "writing B1 [] w1" "concat B1 = concat B @ bl" "\<not> closed w1"
      using flushDataBlock_all [OF w(1)] w(2) by metis
    let ?w' = "w1\<lparr>blockBuf := blockBuf w1 @ EncodeKey (blockPrev w1) k v,
      firstKey := (case firstKey w1 of None \<Rightarrow> Some k | Some k \<Rightarrow> Some k),
      blockPrev := Some k, blockLast := Some k, lastKey := Some k, blockEntries := blockEntries w1 + 1,
      cfCounts := count_family (ColumnFamily k) (cfCounts w1)\<rparr>"
    have "rfile_Append (Some k) v w = Inr ?w'"
      using w(2) cut le caps(1) fl(1) by (auto simp: rfile_Append_def Let_def sz_def)
    moreover have "blockBuf w1 = []"
      using fl(2) by (simp add: writing_def buffered_def)
    ultimately show ?thesis
      using that [of ?w' B1 "[(k, v)]"] append_cell [OF fl(2) _ c] sorted fl(3,4) by simp
  qed
qed

lemma append_cells_ok:
  assumes "writing B bl w" "\<not> closed w" "\<forall>c\<in>set cs. small_cell c" "sorted_cells (concat B @ bl @ cs)"
  shows "\<exists>B' bl' w'. append_cells cs w = Inr w' \<and> writing B' bl' w' \<and> \<not> closed w' \<and>
    concat B' @ bl' = concat B @ bl @ cs"
  using assms
proof (induction cs arbitrary: B bl w)
  case (Cons c cs)
  obtain k v where c: "c = (k, v)"
    by fastforce
  have "sorted_cells (concat B @ bl @ [(k, v)])" "small_cell (k, v)"
    using Cons.prems(3,4) c by (simp_all add: sorted_append)
  then obtain B1 bl1 w1 where 1: "rfile_Append (Some k) v w = Inr w1" "writing B1 bl1 w1" "\<not> closed w1"
    "concat B1 @ bl1 = concat B @ bl @ [(k, v)]"
    using rfile_Append_ok [OF Cons.prems(1,2)] by metis
  then have "sorted_cells (concat B1 @ bl1 @ cs)"
    using Cons.prems(4) c by (metis append_Cons append_Nil append_assoc)
  then obtain B' bl' w' where "append_cells cs w1 = Inr w'" "writing B' bl' w'" "\<not> closed w'"
    "concat B' @ bl' = concat B1 @ bl1 @ cs"
    using Cons.IH [OF 1(2,3)] Cons.prems(3) by auto
  moreover have "concat B1 @ bl1 @ cs = concat B @ bl @ c # cs"
    using 1(4) c by (metis append_Cons append_Nil append_assoc)
  ultimately show ?case
    using 1(1) c by auto
qed auto

end

section \<open>Closing the file\<close>

context rfile_codec
begin

text \<open>The root of a finished group, over the blocks \<open>B\<close>.\<close>

definition rooted :: "bc_writer \<Rightarrow> cell list list \<Rightarrow> index_block \<Rightarrow> bool" where
  "rooted o1 B root \<longleftrightarrow> (\<exists>n es ts. Level root = of_nat n \<and> 2 ^ n \<le> length B + 1 \<and> block_entries root es \<and>
     block_fits root \<and> list_all2 (node (ixblock o1) n) es ts \<and> list_all2 (leaf_of o1) (concat (map fst ts)) B \<and>
     regs_ok o1 (concat (map snd ts)) \<and> regions_ok o1)"

lemma rooted_empty:
  "regions_ok o1 \<Longrightarrow> rooted o1 [] \<lparr>Level = 0, BOffset = 0, HasNext = False, Offsets = [], Data = []\<rparr>"
  unfolding rooted_def
  by (intro exI [of _ 0] exI [of _ "[]"])
    (simp add: block_entries_def block_NumEntries_def block_fits_def limit_defs validateIndexOffsets_def regs_ok_def)

definition default_group :: "cell list \<Rightarrow> int32 \<Rightarrow> index_block \<Rightarrow> locality_group" where
  "default_group cs n root = \<lparr>IsDefault = True, LGName = [], StartBlock = 0, ColumnFamilies = Some (families cs),
     FirstKey = first_key cs, NumTotalEntries = n, RootIndex = root\<rparr>"

definition finished :: "cell list \<Rightarrow> rfile_writer \<Rightarrow> bool" where
  "finished cs w \<longleftrightarrow> \<not> wclosed (bc_out w) \<and> wmeta (bc_out w) = [] \<and> wcodec (bc_out w) = codec \<and>
     dense (bc_out w) \<and> (\<exists>root n. localityGroups w = [default_group cs n root] \<and>
       length (WriteIndexBlock root) \<le> 2 ^ 27 \<and> (length (wout (bc_out w)) < 2 ^ 63 \<longrightarrow>
         (\<exists>B. concat B = cs \<and> n = of_nat (length B) \<and> rooted (bc_out w) B root)))"

lemma index_block_size: "filled l \<Longrightarrow> length (WriteIndexBlock (toBlock h l)) \<le> 2 ^ 27"
  using length_WriteIndexBlock [of h l] by (auto simp: sized_defs)

lemma indexed_empty:
  assumes "indexed [] w" "pend w = []"
  shows "levels w = []" "totalAdded w = 0" "regions_ok (bc_out w)"
proof -
  obtain rs where *: "regions_ok (bc_out w)" "flank (ixblock (bc_out w)) 0 (levels w) [] rs" "totalAdded w = 0"
    using assms by (auto simp: indexed_def)
  then show "levels w = []" "totalAdded w = 0" "regions_ok (bc_out w)"
    using flank_depth [OF *(2)] by auto
qed

lemma indexed_root:
  assumes run: "indexAdd p True w = Inr w'" "length (wout (bc_out w')) < 2 ^ 63" "grown (bc_out w) (bc_out w')"
    and up: "set_up w" and ix: "indexed B w" and p: "pend w = [p]" "small_key (EKey p)"
  shows "\<exists>l. last (levels w') = Some l \<and> rooted (bc_out w') B (toBlock False l)"
    "totalAdded w + 1 = of_nat (length B)"
proof -
  obtain ls rs where *: "regions_ok (bc_out w)" "flank (ixblock (bc_out w)) 0 (levels w) ls rs"
    "regs_ok (bc_out w) (rs @ [region_of p])" "list_all2 (leaf_of (bc_out w)) (ls @ [p]) B"
    "totalAdded w = of_nat (length ls)"
    using ix p by (auto simp: indexed_def)
  have pos: "0 < sint (ENumEntries p)"
    using leaves_count [OF *(4)] by simp
  have len: "length B = length ls + 1"
    using *(4) by (auto dest: list_all2_lengthD)
  obtain l n es ts where t: "last (levels w') = Some l" "filled l"
    "level_ok (ixblock (bc_out w')) n l es ts" "2 ^ n \<le> length ls + 1"
    "concat (map fst ts) = ls @ [p]" "regs_ok (bc_out w') (concat (map snd ts) @ [])" "regions_ok (bc_out w')"
    using indexAdd_flank(2) [OF run(1,2) up *(1) _ *(2) p(2) pos, of "[]"] *(3) by auto
  have "rooted (bc_out w') B (toBlock False l)"
    unfolding rooted_def using t(3-7) level_ok_block [OF t(3,2), of False] len leaves_of_mono [OF *(4) run(3)]
    by (intro exI [of _ n] exI [of _ es] exI [of _ ts]) (simp add: level_ok_def)
  then show "\<exists>l. last (levels w') = Some l \<and> rooted (bc_out w') B (toBlock False l)"
    using t(1) by simp
  show "totalAdded w + 1 = of_nat (length B)"
    using len *(5) by simp
qed

lemma finalize_ok:
  assumes w: "writing B bl w"
  obtains w' where "finalizeCurrentLocalityGroup w = Inr w'" "finished (concat B @ bl) w'" "closed w' = closed w"
proof -
  obtain B1 w1 where fl: "flushDataBlock w = Inr w1" "writing B1 [] w1" "concat B1 = concat B @ bl"
    "closed w1 = closed w"
    using flushDataBlock_all [OF w] by metis
  have w1: "set_up w1" "all_roomy (levels w1)" "wmeta (bc_out w1) = [] \<and> dense (bc_out w1)" "wcodec (bc_out w1) = codec"
    "localityGroups w1 = []" "currentDefault w1" "currentLGName w1 = []" "firstKey w1 = first_key (concat B @ bl)"
    "cfCounts w1 = families (concat B @ bl)" "length (wout (bc_out w1)) < 2 ^ 63 \<Longrightarrow> indexed B1 w1"
    "B1 \<noteq> [] \<longleftrightarrow> pend w1 \<noteq> []" "\<forall>p\<in>set (pend w1). small_key (EKey p)"
    using fl(2,3) by (auto simp: writing_def)
  show ?thesis
  proof (cases "pendingLeaf w1")
    case None
    then have pend: "pend w1 = []" "B1 = []"
      using w1(11) by (simp_all add: pend_def)
    have "\<exists>l. last (levels w1) = Some l \<and> filled l" if "levels w1 \<noteq> []"
      using w1(2) [rule_format, OF last_in_set [OF that]] roomy_filled by blast
    then obtain root where root: "buildRoot w1 = Inr root"
      "levels w1 = [] \<Longrightarrow> root = \<lparr>Level = 0, BOffset = 0, HasNext = False, Offsets = [], Data = []\<rparr>"
      "length (WriteIndexBlock root) \<le> 2 ^ 27"
      using index_block_size by (cases "levels w1 = []") (auto simp: buildRoot_def WriteIndexBlock_def WriteBool_def)
    have "\<exists>Ba. concat Ba = concat B @ bl \<and> totalAdded w1 = of_nat (length Ba) \<and> rooted (bc_out w1) Ba root"
      if "length (wout (bc_out w1)) < 2 ^ 63"
      using indexed_empty [of w1] w1(10) [OF that] pend root(2) rooted_empty fl(3)
      by (intro exI [of _ "[]"]) auto
    then show ?thesis
      using that [of "w1\<lparr>localityGroups := [default_group (concat B @ bl) (totalAdded w1) root],
          blockBuf := [], blockPrev := None, blockLast := None, lastKey := None, blockEntries := 0,
          levels := [], totalAdded := 0, pendingLeaf := None, firstKey := None, cfCounts := []\<rparr>"]
        fl(1,4) w1(1,3-9) None root(1,3)
      by (simp add: finalizeCurrentLocalityGroup_def default_group_def finished_def set_up_def)
  next
    case (Some p)
    then have p: "pend w1 = [p]" "small_key (EKey p)"
      using w1(12) by (simp_all add: pend_def)
    obtain w2 where w2: "indexAdd p True w1 = Inr w2" "grown (bc_out w1) (bc_out w2)"
      "same_rest (w1\<lparr>totalAdded := totalAdded w1 + 1\<rparr>) w2" "levels w2 \<noteq> []"
      "\<exists>l. last (levels w2) = Some l \<and> filled l"
      using indexAdd_ok [OF w1(1,2) p(2), of True] by metis
    note same = same_restD [OF w2(3)]
    obtain l where l: "last (levels w2) = Some l" "filled l"
      using w2(5) by blast
    have "length (wout (bc_out w1)) < 2 ^ 63" if "length (wout (bc_out w2)) < 2 ^ 63"
      using that grown_length [OF w2(2)] by simp
    then have "rooted (bc_out w2) B1 (toBlock False l)" "totalAdded w1 + 1 = of_nat (length B1)"
      if "length (wout (bc_out w2)) < 2 ^ 63"
      using indexed_root [OF w2(1) that w2(2) w1(1) _ p] w1(10) l that by auto
    then show ?thesis
      using that [of "w2\<lparr>localityGroups := [default_group (concat B @ bl) (totalAdded w2) (toBlock False l)],
          blockBuf := [], blockPrev := None, blockLast := None, lastKey := None, blockEntries := 0,
          levels := [], totalAdded := 0, pendingLeaf := None, firstKey := None, cfCounts := []\<rparr>"]
        fl w1(1,3-9) Some w2(1,2,4) same l index_block_size [OF l(2)]
      by (auto simp: finalizeCurrentLocalityGroup_def default_group_def finished_def set_up_def grown_def buildRoot_def)
  qed
qed

end

end
