(* ===== verification/RFile_Roundtrip.thy ===== *)
theory RFile_Roundtrip
  imports RFile_Append
begin

text \<open>
  What the RFile writer writes, the reader returns. The file of a run of \<^verbatim>\<open>NewWriter\<close>,
  \<^verbatim>\<open>Append\<close> for every cell and \<^verbatim>\<open>Close\<close> is opened by \<^verbatim>\<open>Open\<close>, and the blocks the reader
  finds through the index hold the appended cells in order.
\<close>

section \<open>The container is closed\<close>

lemma rbind_total: "\<lbrakk>\<exists>x. r = Inr x; \<And>x. \<exists>y. f x = Inr y\<rbrakk> \<Longrightarrow> \<exists>y. rbind r f = Inr y"
  by auto

lemma rwrap_total: "\<exists>x. r = Inr x \<Longrightarrow> \<exists>x. rwrap m r = Inr x"
  by auto

lemma Inr_total: "\<exists>y. Inr x = Inr y"
  by simp

lemmas write_total = rbind_total rwrap_total Inr_total bc_WriteVLong_total

lemma bc_WriteString_total: "\<exists>b. bc_WriteString s = Inr b"
  unfolding bc_WriteString_def bc_WriteVInt_def by (intro write_total)

lemma WriteBlockRegion_total: "\<exists>b. WriteBlockRegion r = Inr b"
  unfolding WriteBlockRegion_def by (intro write_total)

lemma write_regions_total: "\<exists>b. write_regions rs = Inr b"
  by (induction rs) (simp, unfold write_regions.simps, intro write_total WriteBlockRegion_total)

lemma write_meta_entry_total: "\<exists>b. write_meta_entry e = Inr b"
  unfolding write_meta_entry_def by (intro write_total bc_WriteString_total WriteBlockRegion_total)

lemma write_meta_entries_total: "\<exists>b. write_meta_entries m names = Inr b"
  by (induction names) (simp, unfold write_meta_entries.simps, intro write_total write_meta_entry_total)

lemma bc_Close_total: "\<exists>o2. bc_Close o1 = Inr o2"
proof -
  have di: "\<exists>b. WriteDataIndex di = Inr b" for di
    unfolding WriteDataIndex_def bc_WriteVInt_def
    by (intro write_total bc_WriteString_total write_regions_total)
  have mi: "\<exists>b. WriteMetaIndex m = Inr b" for m
    unfolding WriteMetaIndex_def bc_WriteVInt_def by (intro write_total write_meta_entries_total)
  have ft: "\<exists>b. WriteFooter \<lparr>FVersion = APIVersion3, OffsetIndexMeta = x, OffsetCryptoParams = y\<rparr> = Inr b" for x y
    by (simp add: WriteFooter_def CompatibleWith_def)
  show ?thesis
    unfolding bc_Close_def Let_def by (cases "wclosed o1") (simp_all, intro write_total di mi ft)
qed

definition meta_fitting :: "extra_meta \<Rightarrow> bool" where
  "meta_fitting = (\<lambda>(name, codec, b, raw). b \<noteq> [] \<and> int (length b) \<le> MaxCompressedBlockSize \<and>
     int raw \<le> MaxRawBlockSize \<and> length name + length codec \<le> 1000)"

lemma AppendMetaBlock_ok:
  assumes open_o: "\<not> wclosed o1" and fresh: "name \<notin> fst ` set (wmeta o1)" and fits: "meta_fitting (name, codec, b, raw)"
  defines "region \<equiv> \<lparr>Offset = written o1, CompressedSize = of_nat (length b), RawSize = of_nat raw\<rparr>"
  defines "o2 \<equiv> o1\<lparr>wout := wout o1 @ b,
    wmeta := wmeta o1 @ [(name, \<lparr>MName = name, CompressionAlgo = codec, MRegion = region\<rparr>)]\<rparr>"
  shows "AppendMetaBlock name codec b (of_nat raw) o1 = Inr (region, o2)"
    and "\<lbrakk>length (wout o2) < 2 ^ 63; meta_ok L (int (length (wout o1))) (wmeta o1); L \<le> int (length (wout o1));
      length (wmeta o1) < 100\<rbrakk> \<Longrightarrow> meta_ok L (int (length (wout o2))) (wmeta o2) \<and> stored (wout o2) region b"
proof -
  have raw: "sint (of_nat raw :: int64) = int raw"
    using fits by (intro sint_of_nat_64) (simp add: meta_fitting_def MaxRawBlockSize_def)
  show "AppendMetaBlock name codec b (of_nat raw) o1 = Inr (region, o2)"
    using assms(1,2) raw update_append [OF fresh]
    by (simp add: AppendMetaBlock_def Let_def region_def o2_def map_of_eq_None_iff)
  assume small: "length (wout o2) < 2 ^ 63" and m: "meta_ok L (int (length (wout o1))) (wmeta o1)"
    and L: "L \<le> int (length (wout o1))" and n: "length (wmeta o1) < 100"
  have off: "sint (Offset region) = int (length (wout o1))" "sint (CompressedSize region) = int (length b)"
    using small by (simp_all add: region_def o2_def written_def sint_of_nat_64)
  have "in_bounds (int (length (wout o1))) (int (length (wout o2))) region"
    using off raw fits by (auto simp: in_bounds_def region_end_def meta_fitting_def o2_def region_def)
  then have "meta_ok L (int (length (wout o2))) (wmeta o2)"
    unfolding o2_def using fresh n L fits
    by (simp, intro meta_ok_snoc [OF m]) (auto simp: small_entry_def meta_fitting_def)
  moreover have "stored (wout o2) region b"
    using off fits by (intro storedI [of _ "wout o1" _ "[]"]) (auto simp: meta_fitting_def o2_def)
  ultimately show "meta_ok L (int (length (wout o2))) (wmeta o2) \<and> stored (wout o2) region b"
    by simp
qed

lemma append_metas_ok:
  assumes "\<not> wclosed o1" "distinct (map fst (wmeta o1) @ map fst ms)" "\<forall>m\<in>set ms. meta_fitting m"
  shows "\<exists>o2. append_metas ms o1 = Inr o2 \<and> \<not> wclosed o2 \<and> wblocks o2 = wblocks o1 \<and> wcodec o2 = wcodec o1 \<and>
    (\<exists>x. wout o2 = wout o1 @ x \<and> length x \<le> 2 ^ 28 * length ms) \<and>
    (\<exists>y. wmeta o2 = wmeta o1 @ y \<and> map fst y = map fst ms) \<and>
    (\<forall>L. length (wout o2) < 2 ^ 63 \<longrightarrow> meta_ok L (int (length (wout o1))) (wmeta o1) \<longrightarrow>
       L \<le> int (length (wout o1)) \<longrightarrow> length (wmeta o1) + length ms \<le> 100 \<longrightarrow>
       meta_ok L (int (length (wout o2))) (wmeta o2))"
  using assms
proof (induction ms arbitrary: o1)
  case (Cons m ms)
  obtain name codec b raw where m: "m = (name, codec, b, raw)"
    by (metis prod_cases4)
  have pre: "name \<notin> fst ` set (wmeta o1)" "meta_fitting (name, codec, b, raw)"
    using Cons.prems(2,3) m by auto
  let ?region = "\<lparr>Offset = written o1, CompressedSize = of_nat (length b), RawSize = of_nat raw\<rparr> :: block_region"
  let ?o1 = "o1\<lparr>wout := wout o1 @ b,
    wmeta := wmeta o1 @ [(name, \<lparr>MName = name, CompressionAlgo = codec, MRegion = ?region\<rparr>)]\<rparr>"
  note put = AppendMetaBlock_ok [OF Cons.prems(1) pre]
  have "\<not> wclosed ?o1" "distinct (map fst (wmeta ?o1) @ map fst ms)" "\<forall>m\<in>set ms. meta_fitting m"
    using Cons.prems m by auto
  from Cons.IH [OF this] obtain o2 where o2: "append_metas ms ?o1 = Inr o2" "\<not> wclosed o2"
    "wblocks o2 = wblocks ?o1" "wcodec o2 = wcodec ?o1" "\<exists>x. wout o2 = wout ?o1 @ x \<and> length x \<le> 2 ^ 28 * length ms"
    "\<exists>y. wmeta o2 = wmeta ?o1 @ y \<and> map fst y = map fst ms"
    "\<forall>L. length (wout o2) < 2 ^ 63 \<longrightarrow> meta_ok L (int (length (wout ?o1))) (wmeta ?o1) \<longrightarrow>
       L \<le> int (length (wout ?o1)) \<longrightarrow> length (wmeta ?o1) + length ms \<le> 100 \<longrightarrow>
       meta_ok L (int (length (wout o2))) (wmeta o2)"
    by blast
  have "meta_ok L (int (length (wout o2))) (wmeta o2)"
    if "length (wout o2) < 2 ^ 63" "meta_ok L (int (length (wout o1))) (wmeta o1)" "L \<le> int (length (wout o1))"
      "length (wmeta o1) + length (m # ms) \<le> 100" for L
    using o2(5,7) that put(2) [OF _ that(2,3)] by auto
  moreover have "append_metas (m # ms) o1 = Inr o2"
    using put(1) o2(1) m by simp
  moreover have "\<exists>x. wout o2 = wout o1 @ x \<and> length x \<le> 2 ^ 28 * length (m # ms)"
    using o2(5) pre(2) by (auto simp: meta_fitting_def MaxCompressedBlockSize_def)
  ultimately show ?case
    using o2(2-4,6) m by (intro exI [of _ o2]) auto
qed (auto intro: exI [of _ "[]"])

section \<open>The column families of a group\<close>

definition family_count :: "cell list \<Rightarrow> bytes \<Rightarrow> nat" where
  "family_count cs cf = length (filter (\<lambda>c. ColumnFamily (fst c) = cf) cs)"

definition family_set :: "cell list \<Rightarrow> bytes set" where
  "family_set cs = ColumnFamily ` fst ` set cs"

lemma families_snoc: "families (cs @ [c]) = count_family (ColumnFamily (fst c)) (families cs)"
  by (simp add: families_def)

lemma families_map_of:
  "map_of (families cs) cf = (if family_count cs cf = 0 then None else Some (of_nat (family_count cs cf)))"
proof (induction cs arbitrary: cf rule: rev_induct)
  case (snoc c cs)
  then show ?case
    by (simp add: families_snoc count_family_def update_conv' family_count_def)
qed (simp add: families_def family_count_def)

lemma families_distinct: "distinct (map fst (families cs))"
  by (induction cs rule: rev_induct) (auto simp: families_snoc count_family_def distinct_update, simp add: families_def)

lemma families_names: "fst ` set (families cs) = family_set cs"
proof -
  have "fst ` set (families cs) = dom (map_of (families cs))"
    by (simp add: dom_map_of_conv_image_fst)
  also have "\<dots> = family_set cs"
    by (auto simp: dom_def families_map_of family_count_def family_set_def filter_empty_conv split: if_splits)
  finally show ?thesis .
qed

lemma length_families: "length (families cs) = card (family_set cs)"
  using distinct_card [OF families_distinct [of cs]] families_names [of cs] by simp

lemma length_write_families:
  "length (write_families (families cs)) = 4 + 12 * card (family_set cs) + (\<Sum>cf\<in>family_set cs. length cf)"
proof -
  have "length (concat (map family_bytes m)) = 12 * length m + sum_list (map length (map fst m))" for m
    by (induction m) auto
  moreover have "sum_list (map length (map fst (families cs))) = (\<Sum>cf\<in>family_set cs. length cf)"
    using sum_list_distinct_conv_sum_set [OF families_distinct [of cs], of length] families_names [of cs] by simp
  ultimately show ?thesis
    by (simp add: write_families_def length_families del: map_map)
qed

text \<open>
  The limits on a group: the size of its entry in the index, and the number of its column
  families, which only the reader checks.
\<close>

definition modest_families :: "cell list \<Rightarrow> bool" where
  "modest_families cs \<longleftrightarrow> card (family_set cs) \<le> 2 ^ 20 \<and> (\<Sum>cf\<in>family_set cs. length cf) \<le> 2 ^ 26 \<and> length cs < 2 ^ 63"

definition few_families :: "cell list \<Rightarrow> bool" where
  "few_families cs \<longleftrightarrow> modest_families cs \<and> int (card (family_set cs)) \<le> maxColumnFamilies"

lemma families_fit_few:
  assumes "few_families cs" "\<forall>c\<in>set cs. small_cell c"
  shows "families_fit (families cs)"
proof -
  have "int (length cf) \<le> maxIndexDataBytes \<and> 0 \<le> sint n" if cf: "(cf, n) \<in> set (families cs)" for cf n
  proof -
    have "cf \<in> family_set cs" "map_of (families cs) cf = Some n"
      using cf families_names [of cs] families_distinct [of cs] by force+
    moreover have "family_count cs cf \<le> length cs"
      by (simp add: family_count_def)
    moreover have "length cf \<le> 2 ^ 24" if "cf \<in> family_set cs"
      using assms(2) that by (force simp: family_set_def small_cell_def small_key_def key_bytes_def)
    ultimately show ?thesis
      using assms(1) sint_of_nat_64 [of "family_count cs cf"]
      by (auto simp: families_map_of few_families_def modest_families_def limit_defs split: if_splits)
  qed
  then show ?thesis
    using assms(1) families_distinct [of cs] by (auto simp: families_fit_def few_families_def length_families)
qed

lemma check_families_ok:
  "\<lbrakk>distinct (map fst m); fst ` set m \<inter> seen = {}\<rbrakk> \<Longrightarrow> check_families m seen = Inr (seen \<union> fst ` set m)"
  by (induction m arbitrary: seen) auto

section \<open>Opening the file\<close>

lemma validateDataRegions_ok:
  assumes "sorted_wrt (\<lambda>a b. region_end a \<le> sint (Offset b)) rs" "\<forall>r\<in>set rs. in_bounds 0 hi r"
    "hi \<le> sint limit" "hi < 2 ^ 63"
    "\<forall>p. previous = Some p \<longrightarrow> in_bounds 0 hi p \<and> (\<forall>r\<in>set rs. region_end p \<le> sint (Offset r))"
  shows "validateDataRegions rs previous limit = None"
  using assms
proof (induction rs arbitrary: previous)
  case (Cons r rs)
  have "sint (Offset p + CompressedSize p) = region_end p" if "in_bounds 0 hi p" for p
  proof -
    have "Offset p + CompressedSize p = word_of_int (region_end p)"
      by (simp add: region_end_def)
    also have "sint (word_of_int (region_end p) :: int64) = region_end p"
      unfolding sint_sbintrunc' using that assms(4)
      by (intro signed_take_bit_int_eq_self) (auto simp: in_bounds_def region_end_def)
    finally show ?thesis .
  qed
  moreover have "ValidateBlockRegion r limit = None"
    using Cons.prems(2,3) by (intro ValidateBlockRegion_in_bounds [of 0 hi]) auto
  moreover have "validateDataRegions rs (Some r) limit = None"
    using Cons.prems by (intro Cons.IH) auto
  ultimately show ?case
    using Cons.prems(5) by (auto split: option.splits)
qed simp

lemma decompressNone_ok: "length raw < 2 ^ 63 \<Longrightarrow> decompressNone raw (of_nat (length raw)) = Inr raw"
  by (simp add: decompressNone_def sint_of_nat_64)

context rfile_codec
begin

lemma group_bytes:
  assumes few: "modest_families cs" "\<forall>c\<in>set cs. small_cell c" and root: "length (WriteIndexBlock root) \<le> 2 ^ 27"
  obtains b where "writeRFileIndexMeta [default_group cs n root] = Inr b" "b \<noteq> []"
    "int (length b) \<le> MaxCompressedBlockSize"
proof -
  have key: "key_bytes k \<le> 2 ^ 24" if "first_key cs = Some k" for k
    using that few(2) by (cases cs) (auto simp: first_key_def small_cell_def small_key_def)
  have "length (case first_key cs of None \<Rightarrow> [] | Some k \<Rightarrow> WriteKey k) \<le> 2 ^ 24 + 46"
  proof (cases "first_key cs")
    case (Some k)
    then show ?thesis
      using key [of k] length_WriteKey [of k] by simp
  qed simp
  moreover have "length (write_families (families cs)) \<le> 2 ^ 26 + 2 ^ 24"
    using few(1) by (simp add: length_write_families modest_families_def)
  ultimately show ?thesis
    using that root
    by (simp add: writeRFileIndexMeta_def WriteLocalityGroup_def default_group_def hasMultiLevelIndex_def
        hasStartBlock_def version_defs WriteBool_def MaxCompressedBlockSize_def)
qed

text \<open>A block of the container is read back through the closed file.\<close>

lemma placed_fetch:
  assumes pl: "placed cmp codec o1 region raw" and regs: "regions_ok o1"
    and bc: "Source bc = bytes_ReadAt (wout o1 @ x)" "int (length (wout o1)) \<le> sint (DataRegionEnd bc)"
      "sint (DataRegionEnd bc) \<le> sint (FileLength bc)"
  shows "fetchDataBlock bc dcmp (if length (wblocks o1) > 0 then Some (set (wblocks o1)) else None) region codec = Inr raw"
proof -
  obtain z where z: "region \<in> set (wblocks o1)" "Encode cmp raw codec = Inr z" "stored (wout o1) region z"
    "raw \<noteq> []" "length raw \<le> 2 ^ 27" "RawSize region = of_nat (length raw)"
    using pl by (auto simp: placed_def)
  have "in_bounds 0 (sint (DataRegionEnd bc)) region"
    using regs z(1) bc(2) by (auto simp: regions_ok_def intro: in_bounds_mono)
  then have "fetchDataBlock bc dcmp (if length (wblocks o1) > 0 then Some (set (wblocks o1)) else None) region codec =
      dec z (RawSize region)"
    using z(1) bc dcmp_codec stored_append [OF z(3)] by (intro fetchDataBlock_stored) auto
  moreover have "dec z (of_nat (length raw)) = Inr raw"
    using Encode_ok [OF z(4,5)] z(2) by auto
  ultimately show ?thesis
    using z(6) by simp
qed

lemma regs_count:
  assumes "list_all2 (node St n) es ts" "regs_ok o1 (concat (map snd ts))"
  shows "length (concat (map fst ts)) \<le> length (wblocks o1)"
proof -
  have "length (concat (map fst ts)) \<le> length (concat (map snd ts))"
    using assms(1)
  proof (induction rule: list_all2_induct)
    case (Cons e es t ts)
    then show ?case
      using node_lengths [of St n e t] by simp
  qed simp
  also have "\<dots> = card (set (concat (map snd ts)))"
    using assms(2) distinct_card [of "concat (map snd ts)"] by (auto simp: regs_ok_def distinct_map simp del: set_concat)
  also have "\<dots> \<le> card (set (wblocks o1))"
    using assms(2) by (intro card_mono) (auto simp: regs_ok_def)
  also have "\<dots> \<le> length (wblocks o1)"
    by (rule card_length)
  finally show ?thesis .
qed

lemma leaves_sorted:
  assumes "list_all2 (leaf_of o1) ls B" "sorted_cells (concat B)"
  shows "sorted (map EKey ls)"
proof -
  have "sorted (map EKey ls) \<and> (\<forall>e\<in>set ls. \<exists>c\<in>set (concat B). EKey e = fst c)"
    using assms
  proof (induction rule: list_all2_induct)
    case (Cons e ls b B)
    have e: "EKey e = fst (last b)" "last b \<in> set b"
      using Cons.hyps(1) by (auto simp: leaf_of_def)
    have IH: "sorted (map EKey ls)" "\<forall>e\<in>set ls. \<exists>c\<in>set (concat B). EKey e = fst c"
      using Cons.IH Cons.prems by (auto simp: sorted_append)
    have "\<forall>x\<in>set b. \<forall>y\<in>set (concat B). fst x \<le> fst y"
      using Cons.prems by (simp add: sorted_append)
    then have "EKey e \<le> EKey x" if "x \<in> set ls" for x
      using IH(2) that e by fastforce
    moreover have "\<forall>x\<in>set (e # ls). \<exists>c\<in>set b \<union> set (concat B). EKey x = fst c"
      using IH(2) e by (metis UnI1 UnI2 set_ConsD)
    ultimately show ?case
      using IH(1) by simp
  qed simp
  then show ?thesis
    by blast
qed

lemma region_key_distinct: "distinct (map Offset rs) \<Longrightarrow> distinct (map region_key rs)"
  by (auto simp: distinct_map region_key_def inj_on_def)

text \<open>The reader over a root the writer built.\<close>

lemma rooted_reader:
  assumes root: "rooted o1 B root" and s: "sorted_cells (concat B)" "\<forall>c\<in>set (concat B). small_cell c"
    and n: "int (length (wblocks o1)) \<le> maxDataIndexBlocks"
    and bc: "Source bc = bytes_ReadAt (wout o1 @ x)" "int (length (wout o1)) \<le> sint (DataRegionEnd bc)"
      "sint (DataRegionEnd bc) \<le> sint (FileLength bc)"
  defines "declared \<equiv> if length (wblocks o1) > 0 then Some (set (wblocks o1)) else None"
  shows "reader_ok B (new_reader bc dcmp V8 root codec declared)" "ValidateBlock (Some root) = None"
    "block_NumEntries root = 0 \<longleftrightarrow> B = []" "length B < 2 ^ 31" "block_fits root"
proof -
  obtain k es ts where t: "Level root = of_nat k" "2 ^ k \<le> length B + 1" "block_entries root es" "block_fits root"
    "list_all2 (node (ixblock o1) k) es ts" "list_all2 (leaf_of o1) (concat (map fst ts)) B"
    "regs_ok o1 (concat (map snd ts))" "regions_ok o1"
    using root by (auto simp: rooted_def)
  let ?ls = "concat (map fst ts)" and ?r = "new_reader bc dcmp V8 root codec declared"
  have len: "length B = length ?ls"
    using t(6) by (simp add: list_all2_lengthD)
  then have B: "length B \<le> 2 ^ 20"
    using regs_count [OF t(5,7)] n by (simp add: maxDataIndexBlocks_def)
  then show "length B < 2 ^ 31"
    by simp
  have k: "k \<le> 64"
  proof (rule ccontr)
    assume "\<not> k \<le> 64"
    then have "(2 :: nat) ^ 64 \<le> 2 ^ k"
      by (intro power_increasing) auto
    then show False
      using t(2) B by simp
  qed
  have sorted: "sorted (map EKey ?ls)"
    using leaves_sorted [OF t(6) s(1)] .
  show "ValidateBlock (Some root) = None"
    using nodes_validate [OF t(5) sorted t(3,1) k] t(1) level_of_nat(1) [OF k] k
    by (simp add: ValidateBlock_def validateRootLevel_def maxTraversalDepth_def)
  have "length es = block_NumEntries root"
    using t(3) by (simp add: block_entries_def)
  then show "block_NumEntries root = 0 \<longleftrightarrow> B = []"
    using nodes_leaves(1) [OF t(5)] len by (metis length_0_conv)
  show "block_fits root" by (fact t(4))
  note fetch = placed_fetch [OF _ t(8) bc, folded declared_def]
  have rd: "read_level bc dcmp declared codec V8 region = Inr (Some b)" if "ixblock o1 region b" for region b
  proof -
    have "fetchDataBlock bc dcmp declared region codec = Inr (WriteIndexBlock b)"
      using that by (intro fetch) (simp add: ixblock_def)
    moreover have "ReadIndexBlock (WriteIndexBlock b) V8 = Inr (b, [])"
      using that ReadIndexBlock_WriteIndexBlock [of b V8 "[]"]
      by (simp add: ixblock_def hasMultiLevelIndex_def version_defs)
    ultimately show ?thesis
      by (simp add: read_level_def)
  qed
  have "collectLeaves (Some root) (Some (read_level bc dcmp declared codec V8)) = Inr ?ls"
    using collectLeaves_nodes [of "ixblock o1" "read_level bc dcmp declared codec V8", OF rd t(1) k t(3,5) sorted]
      region_key_distinct t(7) by (simp add: regs_ok_def)
  then have all: "all_leaves ?r = Inr ?ls"
    by (simp add: all_leaves_def reader_leaves_def new_reader_def)
  have "leaf_block (seeked ?r) e b" if "leaf_of o1 e b" "\<forall>c\<in>set b. small_cell c" for e b
    using that fetch [of "region_of e" "EncodeCells None b"] small_cell_fits
    by (auto simp: leaf_block_def leaf_of_def seeked_def new_reader_def)
  then have "list_all2 (leaf_block (seeked ?r)) ?ls B"
    using t(6) s(2) by (elim list.rel_mono_strong) auto
  then show "reader_ok B ?r"
    using all s(1) by (auto simp: reader_ok_def leaves_ok_def seeked_def new_reader_def)
qed

end

definition extras_ok :: "extra_meta list \<Rightarrow> bool" where
  "extras_ok extra \<longleftrightarrow> distinct (map fst extra) \<and> IndexMetaBlockName \<notin> fst ` set extra \<and>
     DataIndexBlockName \<notin> fst ` set extra \<and> (\<forall>m\<in>set extra. meta_fitting m) \<and> length extra < 90"

lemma meta_names: "IndexMetaBlockName \<noteq> DataIndexBlockName" "length IndexMetaBlockName + length CodecNone \<le> 1000"
  by (simp_all add: IndexMetaBlockName_def DataIndexBlockName_def CodecNone_def str_def)

lemma bc_Close_blocks: "bc_Close o1 = Inr o2 \<Longrightarrow> wblocks o2 = wblocks o1"
  by (auto simp: bc_Close_def res_simps Let_def split: if_splits)

lemma CodecNone_fetch:
  assumes "stored f region raw" "Source bc = bytes_ReadAt f" "dcmp CodecNone = Some decompressNone"
    "in_bounds lo (int (length f)) region" "0 \<le> lo" "FileLength bc = of_nat (length f)" "length f < 2 ^ 63"
    "RawSize region = of_nat (length raw)"
  shows "fetchBlock bc dcmp region CodecNone = Inr raw"
proof -
  have "length raw \<le> length f"
    using assms(1) by (auto simp: stored_def)
  then show ?thesis
    using fetchBlock_stored [where dec = dcmp and codec = CodecNone, OF assms(1,2,3)] assms(4-8) decompressNone_ok [of raw] sint_of_nat_64 [of "length f"]
      in_bounds_mono [OF assms(4), of 0 "int (length f)"]
    by simp
qed

lemma closed_length:
  assumes close: "bc_Close o2 = Inr o3" "\<not> wclosed o2" and m: "meta_ok L (int (length (wout o2))) (wmeta o2)"
    and L: "L \<le> int (length (wout o2))" and fresh: "DataIndexBlockName \<notin> fst ` set (wmeta o2)" "length (wmeta o2) < 100"
    and fits: "length (wcodec o2) \<le> 1000" "int (length (wblocks o2)) \<le> maxDataIndexBlocks" "length (wout o2) \<le> 2 ^ 49"
  shows "length (wout o3) < 2 ^ 63"
proof -
  obtain di mi tr where c: "WriteDataIndex \<lparr>DefaultCompression = wcodec o2, Blocks = wblocks o2\<rparr> = Inr di"
    "WriteMetaIndex (closed_meta o2 di) = Inr mi"
    "WriteFooter \<lparr>FVersion = APIVersion3, OffsetIndexMeta = of_nat (length (wout o2 @ di)),
       OffsetCryptoParams = of_nat (length (wout o2 @ di @ mi))\<rparr> = Inr tr"
    "wout o3 = wout o2 @ di @ mi @ replicate 8 0 @ tr"
    using bc_Close_spec [OF close fresh(1)] by metis
  have di: "di \<noteq> []" "length di \<le> 2 ^ 26"
    using length_WriteDataIndex [OF c(1)] fits(1,2) by (auto simp: maxDataIndexBlocks_def)
  have "length mi \<le> 2 ^ 26"
  proof -
    have "meta_ok L (int (length (wout o2 @ di))) (closed_meta o2 di)"
      using di fits(3) by (intro closed_meta_ok [OF m L fresh]) (simp_all add: MaxCompressedBlockSize_def)
    from length_WriteMetaIndex(2) [OF c(2) this] show ?thesis
      by (simp add: maxMetaIndexRegionSize_def)
  qed
  moreover have "length tr = 36"
    using c(3) by (auto simp: WriteFooter_def split: if_splits)
  ultimately show ?thesis
    using di(2) fits(3) by (simp add: c(4))
qed

context rfile_codec
begin

lemma load_codec:
  assumes bc: "Source bc = bytes_ReadAt f" "FileLength bc = of_nat (length f)" "length f < 2 ^ 63"
      "map_of (MetaIndex bc) = map_of (closed_meta o2 di)"
    and di: "WriteDataIndex \<lparr>DefaultCompression = wcodec o2, Blocks = wblocks o2\<rparr> = Inr di" "di \<noteq> []"
      "int (length di) \<le> MaxCompressedBlockSize" "f = wout o2 @ di @ post"
    and o2: "wblocks o2 = wblocks o1" "wcodec o2 = codec" "regions_ok o1"
      "int (length (wblocks o1)) \<le> maxDataIndexBlocks"
      "int (length (wout o1)) \<le> sint (DataRegionEnd bc)" "length (wout o1) < 2 ^ 63"
      "DataIndexBlockName \<notin> fst ` set (wmeta o2)"
  shows "loadDataCodec bc dcmp =
    Inr (codec, if length (wblocks o1) > 0 then Some (set (wblocks o1)) else None)"
proof -
  let ?region = "\<lparr>Offset = written o2, CompressedSize = of_nat (length di), RawSize = of_nat (length di)\<rparr>"
  have len: "length (wout o2) < 2 ^ 63" "length di < 2 ^ 63"
    using bc(3) di(4) by simp_all
  then have si: "sint (of_nat (length di) :: int64) = int (length di)" "sint (written o2) = int (length (wout o2))"
    by (simp_all add: written_def sint_of_nat_64)
  have "stored f ?region di"
    using si di by (intro storedI [of _ "wout o2" _ post]) simp_all
  moreover have "in_bounds 0 (int (length f)) ?region"
    using si di by (simp add: in_bounds_def region_end_def MaxRawBlockSize_def MaxCompressedBlockSize_def)
  ultimately have "fetchBlock bc dcmp ?region CodecNone = Inr di"
    by (intro CodecNone_fetch [where dcmp = dcmp and lo = 0, OF _ bc(1) dcmp_none _ _ bc(2,3)]) simp_all
  moreover have "MetaBlockEntry bc DataIndexBlockName =
      Inr \<lparr>MName = DataIndexBlockName, CompressionAlgo = CodecNone, MRegion = ?region\<rparr>"
    using bc(4) o2(7) by (simp add: MetaBlockEntry_def closed_meta_def map_add_def map_of_eq_None_iff [THEN iffD2])
  moreover have "ReadDataIndex di = Inr \<lparr>DefaultCompression = codec, Blocks = wblocks o1\<rparr>"
    using ReadDataIndex_write [OF di(1), of "[]"] o2(1,2,4) codec_name(2) by simp
  moreover have "validateDataRegions (wblocks o1) None (DataRegionEnd bc) = None"
    using o2(3,5,6) by (intro validateDataRegions_ok [of _ "int (length (wout o1))"]) (auto simp: regions_ok_def)
  ultimately show ?thesis
    by (simp add: loadDataCodec_def)
qed

text \<open>The group in the index is one the reader accepts.\<close>

lemma group_accepted:
  assumes few: "few_families cs" "\<forall>c\<in>set cs. small_cell c"
    and root: "ValidateBlock (Some root) = None" "block_NumEntries root = 0 \<longleftrightarrow> B = []" "length B < 2 ^ 31"
      "block_fits root"
  shows "group_fits (default_group cs (of_nat (length B)) root)"
    "validateReadableIndex \<lparr>Version = V8, Groups = [default_group cs (of_nat (length B)) root], SampleGroups = [],
       SamplerConfiguration = None, VectorExtension = None\<rparr> = None"
proof -
  have n: "sint (of_nat (length B) :: int32) = int (length B)"
    using root(3) by (rule sint_of_nat_32)
  have "B = []" if "(of_nat (length B) :: int32) = 0"
    using n unfolding that by simp
  then have "(of_nat (length B) :: int32) = 0 \<longleftrightarrow> B = []"
    by auto
  then show "validateReadableIndex \<lparr>Version = V8, Groups = [default_group cs (of_nat (length B)) root], SampleGroups = [],
       SamplerConfiguration = None, VectorExtension = None\<rparr> = None"
    using root(1,2) check_families_ok [OF families_distinct [of cs], of "{}"]
    by (simp add: validateReadableIndex_def default_group_def)
  have "key_bytes k < 2 ^ 31" if "first_key cs = Some k" for k
    using that few(2) by (cases cs) (auto simp: first_key_def small_cell_def small_key_def)
  then show "group_fits (default_group cs (of_nat (length B)) root)"
    using n families_fit_few [OF few] root(4) by (simp add: group_fits_def default_group_def)
qed

definition declared :: "bc_writer \<Rightarrow> block_region set option" where
  "declared o1 = (if length (wblocks o1) > 0 then Some (set (wblocks o1)) else None)"

text \<open>The closed container \<open>o3\<close> was opened as \<open>bc\<close>; \<open>b\<close> is its index block.\<close>

definition reopened :: "bc_writer \<Rightarrow> bytes \<Rightarrow> bc_writer \<Rightarrow> bc_reader \<Rightarrow> bool" where
  "reopened o1 b o3 bc \<longleftrightarrow> bc_NewReader (bytes_ReadAt (wout o3)) (of_nat (length (wout o3))) = Inr bc \<and>
     (\<exists>x. Source bc = bytes_ReadAt (wout o1 @ x)) \<and> int (length (wout o1)) \<le> sint (DataRegionEnd bc) \<and>
     sint (DataRegionEnd bc) \<le> sint (FileLength bc) \<and> length (wout o1) < 2 ^ 63 \<and>
     (\<exists>e. MetaBlockEntry bc IndexMetaBlockName = Inr e \<and>
       fetchBlock bc dcmp (MRegion e) (CompressionAlgo e) = Inr b) \<and>
     (regions_ok o1 \<longrightarrow> loadDataCodec bc dcmp = Inr (codec, declared o1))"

lemma closed_container:
  assumes fin: "finished cs w" and cs: "modest_families cs" "\<forall>c\<in>set cs. small_cell c"
    and extra: "extras_ok extra"
  obtains rfIdx o2 o3 where "writeRFileIndexMeta (localityGroups w) = Inr rfIdx"
    "append_metas ((IndexMetaBlockName, CodecNone, rfIdx, length rfIdx) # extra) (bc_out w) = Inr o2"
    "bc_Close o2 = Inr o3"
    "int (length (wblocks o3)) \<le> maxDataIndexBlocks \<longrightarrow> (\<exists>bc. reopened (bc_out w) rfIdx o3 bc)"
    "wblocks o3 = wblocks (bc_out w)"
proof -
  let ?o1 = "bc_out w"
  obtain root n where w: "\<not> wclosed ?o1" "wmeta ?o1 = []" "wcodec ?o1 = codec"
    "localityGroups w = [default_group cs n root]" "length (WriteIndexBlock root) \<le> 2 ^ 27" "dense ?o1"
    using fin by (auto simp: finished_def)
  obtain b where b: "writeRFileIndexMeta (localityGroups w) = Inr b" "b \<noteq> []" "int (length b) \<le> MaxCompressedBlockSize"
    using group_bytes [OF cs(1,2) w(5)] w(4) by metis
  let ?region = "\<lparr>Offset = written ?o1, CompressedSize = of_nat (length b), RawSize = of_nat (length b)\<rparr>"
  let ?e = "\<lparr>MName = IndexMetaBlockName, CompressionAlgo = CodecNone, MRegion = ?region\<rparr>"
  let ?o1' = "?o1\<lparr>wout := wout ?o1 @ b, wmeta := wmeta ?o1 @ [(IndexMetaBlockName, ?e)]\<rparr>"
  have fits: "meta_fitting (IndexMetaBlockName, CodecNone, b, length b)"
    using b meta_names(2) by (simp add: meta_fitting_def MaxCompressedBlockSize_def MaxRawBlockSize_def)
  note put = AppendMetaBlock_ok [OF w(1) _ fits, unfolded w(2)]
  have "\<not> wclosed ?o1'" "distinct (map fst (wmeta ?o1') @ map fst extra)" "\<forall>m\<in>set extra. meta_fitting m"
    using w(1,2) extra by (auto simp: extras_ok_def)
  from append_metas_ok [OF this] obtain o2 x y where o2: "append_metas extra ?o1' = Inr o2" "\<not> wclosed o2"
    "wblocks o2 = wblocks ?o1" "wcodec o2 = codec" "wout o2 = wout ?o1' @ x" "wmeta o2 = wmeta ?o1' @ y"
    "map fst y = map fst extra" "length x \<le> 2 ^ 28 * length extra"
    and m2: "\<And>L. \<lbrakk>length (wout o2) < 2 ^ 63; meta_ok L (int (length (wout ?o1'))) (wmeta ?o1');
      L \<le> int (length (wout ?o1')); length (wmeta ?o1') + length extra \<le> 100\<rbrakk> \<Longrightarrow>
      meta_ok L (int (length (wout o2))) (wmeta o2)"
    using w(3) by auto
  obtain o3 where o3: "bc_Close o2 = Inr o3"
    using bc_Close_total by blast
  have run: "append_metas ((IndexMetaBlockName, CodecNone, b, length b) # extra) ?o1 = Inr o2"
    using put(1) o2(1) w(2) by simp
  have names: "DataIndexBlockName \<notin> fst ` set (wmeta o2)" "length (wmeta o2) < 100"
  proof -
    have "map fst (wmeta o2) = IndexMetaBlockName # map fst extra"
      using o2(6,7) w(2) by simp
    then have "fst ` set (wmeta o2) = insert IndexMetaBlockName (fst ` set extra)" "length (wmeta o2) = Suc (length extra)"
      by (metis list.set_map list.simps(15), metis length_Cons length_map)
    then show "DataIndexBlockName \<notin> fst ` set (wmeta o2)" "length (wmeta o2) < 100"
      using extra meta_names(1) by (auto simp: extras_ok_def)
  qed
  have "\<exists>bc. reopened ?o1 b o3 bc"
    if blocks: "int (length (wblocks o3)) \<le> maxDataIndexBlocks"
  proof -
    let ?L = "int (length (wout ?o1))"
    have wc: "length (wcodec o2) \<le> 1000" "int (length (wblocks o2)) \<le> maxDataIndexBlocks"
      using o2(4) codec_name(2) blocks bc_Close_blocks [OF o3] by simp_all
    have "length (wout ?o1) \<le> 2 ^ 48"
      using w(6) wc(2) o2(3) by (simp add: dense_def maxDataIndexBlocks_def)
    then have len2: "length (wout o2) \<le> 2 ^ 49"
      using o2(5,8) b(3) extra by (auto simp: MaxCompressedBlockSize_def extras_ok_def)
    then have lens: "length (wout o2) < 2 ^ 63" "length (wout ?o1') < 2 ^ 63" "length (wout ?o1) < 2 ^ 63"
      using o2(5) by auto
    have m1: "meta_ok ?L (int (length (wout ?o1'))) (wmeta ?o1') \<and> stored (wout ?o1') ?region b"
      using put(2) [of ?L] lens(2) w(2) by (simp add: meta_ok_def)
    have m: "meta_ok ?L (int (length (wout o2))) (wmeta o2)"
      using m1 lens(1) extra w(2) by (intro m2) (auto simp: extras_ok_def)
    have small: "length (wout o3) < 2 ^ 63"
      using len2 o2(5) by (intro closed_length [OF o3 o2(2) m _ names wc]) simp_all
    obtain bc di post where bc: "bc_NewReader (bytes_ReadAt (wout o3)) (of_nat (length (wout o3))) = Inr bc"
      "Source bc = bytes_ReadAt (wout o3)" "FileLength bc = of_nat (length (wout o3))"
      "map_of (MetaIndex bc) = map_of (closed_meta o2 di)" "?L \<le> sint (DataRegionEnd bc)"
      "WriteDataIndex \<lparr>DefaultCompression = wcodec o2, Blocks = wblocks o2\<rparr> = Inr di"
      "wout o3 = wout o2 @ di @ post" "di \<noteq> []" "int (length di) \<le> MaxCompressedBlockSize"
      "sint (DataRegionEnd bc) \<le> int (length (wout o3))"
    proof (rule bc_NewReader_Close [OF o3 o2(2) m _ _ names wc small])
      show "0 \<le> ?L" "?L \<le> int (length (wout o2))"
        using o2(5) by simp_all
    qed (use that in blast)
    have src: "Source bc = bytes_ReadAt (wout ?o1 @ b @ x @ di @ post)"
      using bc(2,7) o2(5) by simp
    have flen: "sint (DataRegionEnd bc) \<le> sint (FileLength bc)"
      unfolding bc(3) sint_of_nat_64 [OF small] by (fact bc(10))
    have nb: "int (length (wblocks ?o1)) \<le> maxDataIndexBlocks"
      using wc(2) o2(3) by simp
    have "MetaBlockEntry bc IndexMetaBlockName = Inr ?e"
      using bc(4) o2(6) w(2) meta_names(1) by (simp add: MetaBlockEntry_def closed_meta_def map_add_def)
    moreover have "fetchBlock bc dcmp ?region CodecNone = Inr b"
    proof (rule CodecNone_fetch [where dcmp = dcmp and lo = ?L, OF _ bc(2) dcmp_none _ _ bc(3) small])
      show "stored (wout o3) ?region b"
        using m1 bc(7) o2(5) stored_append [of "wout ?o1'" ?region b "x @ di @ post"] by simp
      show "in_bounds ?L (int (length (wout o3))) ?region"
        using m1 bc(7) o2(5) w(2) in_bounds_mono [of ?L "int (length (wout ?o1'))" ?region ?L "int (length (wout o3))"]
        by (simp add: meta_ok_def)
    qed simp_all
    moreover have "loadDataCodec bc dcmp = Inr (codec, declared ?o1)" if "regions_ok ?o1"
      unfolding declared_def by (rule load_codec [OF bc(2,3) small bc(4,6,8,9,7) o2(3,4) that nb bc(5) lens(3) names(1)])
    ultimately have "reopened ?o1 b o3 bc"
      using bc(1,5) src flen lens(3) by (auto simp: reopened_def)
    then show ?thesis
      by blast
  qed
  then show ?thesis
    using that [OF b(1) run o3] o2(3) bc_Close_blocks [OF o3] by simp
qed

lemma closed_file:
  assumes fin: "finished cs w" and cs: "few_families cs" "\<forall>c\<in>set cs. small_cell c" "sorted_cells cs"
    and b: "writeRFileIndexMeta (localityGroups w) = Inr b" and blocks: "int (length (wblocks (bc_out w))) \<le> maxDataIndexBlocks"
    and bc: "reopened (bc_out w) b o3 bc"
  shows "\<exists>r B. rfile_Open None bc dcmp = Inr r \<and> concat B = cs \<and> reader_ok B r \<and> skipPred r = None"
proof -
  let ?o1 = "bc_out w"
  obtain x e where op: "Source bc = bytes_ReadAt (wout ?o1 @ x)" "int (length (wout ?o1)) \<le> sint (DataRegionEnd bc)"
    "sint (DataRegionEnd bc) \<le> sint (FileLength bc)" "length (wout ?o1) < 2 ^ 63"
    "MetaBlockEntry bc IndexMetaBlockName = Inr e" "fetchBlock bc dcmp (MRegion e) (CompressionAlgo e) = Inr b"
    "regions_ok ?o1 \<Longrightarrow> loadDataCodec bc dcmp = Inr (codec, declared ?o1)"
    using bc by (auto simp: reopened_def)
  obtain root B where w: "localityGroups w = [default_group cs (of_nat (length B)) root]" "concat B = cs" "rooted ?o1 B root"
    using fin op(4) by (auto simp: finished_def)
  note rd = rooted_reader [OF w(3) _ _ blocks op(1-3), unfolded w(2), OF cs(3,2)]
  note acc = group_accepted [OF cs(1,2) rd(2-5)]
  have "index_Parse b = Inr \<lparr>Version = V8, Groups = [default_group cs (of_nat (length B)) root], SampleGroups = [],
      SamplerConfiguration = None, VectorExtension = None\<rparr>"
    using index_Parse_write [OF b [unfolded w(1)]] acc(1) by (simp add: limit_defs)
  moreover have "regions_ok ?o1"
    using w(3) by (auto simp: rooted_def)
  ultimately have "rfile_Open None bc dcmp = Inr (new_reader bc dcmp V8 root codec (declared ?o1))"
    using acc(2) op(5-7) by (simp add: rfile_Open_def pickDefaultLG_def default_group_def)
  then show ?thesis
    using rd(1) w(2) by (auto simp: new_reader_def declared_def)
qed

text \<open>A group with more families than the reader allows is refused.\<close>

lemma too_many_families:
  assumes fin: "finished cs w" and cs: "modest_families cs" "int (card (family_set cs)) > maxColumnFamilies"
    and b: "writeRFileIndexMeta (localityGroups w) = Inr b" and bc: "reopened (bc_out w) b o3 bc"
  shows "\<exists>e. rfile_Open None bc dcmp = Inl e \<and> errors_Is e ErrCorruptColumnFamilies"
proof -
  obtain n root where g: "localityGroups w = [default_group cs n root]"
    using fin by (auto simp: finished_def)
  obtain e where op: "MetaBlockEntry bc IndexMetaBlockName = Inr e" "fetchBlock bc dcmp (MRegion e) (CompressionAlgo e) = Inr b"
    using bc by (auto simp: reopened_def)
  have "\<exists>x e. index_Parse b = Inl (Wrap x (Joined [ErrCorruptColumnFamilies, e]))"
    using b [unfolded g] cs
    by (intro index_Parse_over_limit) (auto simp: default_group_def length_families modest_families_def)
  then show ?thesis
    using op errors_Is_ErrCorruptColumnFamilies by (auto simp: rfile_Open_def)
qed

end

end
