(* ===== verification/RFile_Source.thy ===== *)
theory RFile_Source
  imports RFile_Reader
begin

text \<open>
  \<^verbatim>\<open>RFileSource\<close> (\<^verbatim>\<open>internal/iterrt/source_rfile.go\<close>): the leaf iterator over an RFile. It
  seeks the reader to the start of the range and steps it over the cells outside the range
  or of other column families. The theory proves that it satisfies the contract \<open>skvi\<close> of
  the iterator interface over a reader whose blocks decode, and that the reader's \<^verbatim>\<open>Seek\<close>
  loses cells when a cell filter is set.
\<close>

section \<open>The iterator\<close>

record rfile_source =
  rdr :: rfile_reader
  opener :: "rfile_reader res option"
  frng :: range
  fcfs :: "bytes list"
  finclusive :: bool
  ftop :: "cell option"
  ferr :: "go_err option"

definition NewRFileSource :: "rfile_reader \<Rightarrow> rfile_reader res option \<Rightarrow> rfile_source" where
  "NewRFileSource r op = \<lparr>rdr = r, opener = op, frng = zero_range, fcfs = [], finclusive = False,
     ftop = None, ferr = None\<rparr>"

definition rsrc_Init :: "'a option \<Rightarrow> options \<Rightarrow> environment \<Rightarrow> rfile_source \<Rightarrow> rfile_source res" where
  "rsrc_Init source options env s =
     (if source \<noteq> None
      then Inl (Errorf ''iterrt: RFileSource is a leaf iterator, source must be nil'') else Inr s)"

text \<open>The loop of \<^verbatim>\<open>advance\<close>. \<open>None\<close> is a call that does not return.\<close>

partial_function (option) rsrc_advance :: "rfile_source \<Rightarrow> rfile_source step" where
  "rsrc_advance s =
     (case rfile_Next (rdr s) of
        None \<Rightarrow> None
      | Some (Inl e, r) \<Rightarrow>
          let s = s\<lparr>rdr := r\<rparr> in
          if errors_Is e EOF then Some (s\<lparr>ftop := None\<rparr>, None)
          else Some (s\<lparr>ferr := Some e\<rparr>, Some e)
      | Some (Inr (k, v), r) \<Rightarrow>
          let s = s\<lparr>rdr := r\<rparr> in
          if BeforeStart (frng s) k then rsrc_advance s
          else if AfterEnd (frng s) k then Some (s\<lparr>ftop := None\<rparr>, None)
          else if \<not> cfAllowed (ColumnFamily k) (fcfs s) (finclusive s) then rsrc_advance s
          else Some (s\<lparr>ftop := Some (Clone k, cloneBytes v)\<rparr>, None))"

definition rsrc_Seek :: "range \<Rightarrow> bytes list \<Rightarrow> bool \<Rightarrow> rfile_source \<Rightarrow> rfile_source step" where
  "rsrc_Seek r cfs inclusive s =
     (let s = s\<lparr>frng := r, fcfs := cfs, finclusive := inclusive, ferr := None, ftop := None\<rparr>;
          start = (if \<not> InfiniteStart r then Start r else None)
      in case rfile_Seek start (rdr s) of
           (rd, Some e) \<Rightarrow> Some (s\<lparr>rdr := rd, ferr := Some e\<rparr>, Some e)
         | (rd, None) \<Rightarrow> rsrc_advance (s\<lparr>rdr := rd\<rparr>))"

definition rsrc_Next :: "rfile_source \<Rightarrow> rfile_source step" where
  "rsrc_Next s =
     (case ferr s of
        Some e \<Rightarrow> Some (s, Some e)
      | None \<Rightarrow>
          if ftop s = None
          then Some (s, Some (Errorf ''iterrt: RFileSource.Next called without a top''))
          else rsrc_advance (s\<lparr>ftop := None\<rparr>))"

definition rsrc_HasTop :: "rfile_source \<Rightarrow> bool" where
  "rsrc_HasTop s \<longleftrightarrow> ftop s \<noteq> None"

definition rsrc_GetTopKey :: "rfile_source \<Rightarrow> key option" where
  "rsrc_GetTopKey s = map_option fst (ftop s)"

definition rsrc_GetTopValue :: "rfile_source \<Rightarrow> bytes" where
  "rsrc_GetTopValue s = (case ftop s of None \<Rightarrow> [] | Some c \<Rightarrow> snd c)"

text \<open>\<^verbatim>\<open>DeepCopy\<close> reopens the file; \<open>None\<close> is its panic.\<close>

definition rsrc_DeepCopy :: "rfile_source \<Rightarrow> rfile_source option" where
  "rsrc_DeepCopy s =
     (case opener s of
        None \<Rightarrow> None
      | Some (Inl e) \<Rightarrow> None
      | Some (Inr r) \<Rightarrow> Some (NewRFileSource r (opener s)))"

definition rsrc_skvi :: "rfile_source skvi" where
  "rsrc_skvi = \<lparr>Seek = rsrc_Seek, Next = rsrc_Next, HasTop = rsrc_HasTop,
                GetTopKey = rsrc_GetTopKey, GetTopValue = rsrc_GetTopValue\<rparr>"

section \<open>The contract\<close>

definition rsrc_wf :: "cell list list \<Rightarrow> rfile_source \<Rightarrow> bool" where
  "rsrc_wf B s \<longleftrightarrow> reader_ok B (rdr s)"

definition rsrc_selects :: "rfile_source \<Rightarrow> cell \<Rightarrow> bool" where
  "rsrc_selects s = selects (frng s) (fcfs s) (finclusive s)"

definition rsrc_rem :: "cell list list \<Rightarrow> rfile_source \<Rightarrow> cell list" where
  "rsrc_rem B s =
     (case ftop s of None \<Rightarrow> [] | Some c \<Rightarrow> c # filter (rsrc_selects s) (reader_rem B (rdr s)))"

definition rsrc_ready :: "cell list list \<Rightarrow> rfile_source \<Rightarrow> bool" where
  "rsrc_ready B s \<longleftrightarrow> reader_ready B (rdr s) \<and> ferr s = None \<and>
     (\<forall>c. ftop s = Some c \<longrightarrow> sorted_cells (c # reader_rem B (rdr s)))"

definition rsrc_view :: "cell list list \<Rightarrow> rfile_source \<Rightarrow> range \<Rightarrow> bytes list \<Rightarrow> bool \<Rightarrow> cell list" where
  "rsrc_view B s r cfs inclusive = filter (selects r cfs inclusive) (reader_view B (rdr s))"

lemma rsrc_view_cong:
  "\<lbrakk>same_file (rdr s) (rdr s'); leaves (seeked (rdr s')) = leaves (seeked (rdr s))\<rbrakk> \<Longrightarrow>
     rsrc_view B s' = rsrc_view B s"
  by (intro ext) (simp add: rsrc_view_def reader_view_cong)

lemma rsrc_advance_spec:
  assumes "reader_ready B (rdr s)" "ferr s = None" "ftop s = None" "sorted_cells (reader_rem B (rdr s))"
  shows "\<exists>s'. rsrc_advance s = Some (s', None) \<and> rsrc_ready B s' \<and>
    rsrc_rem B s' = filter (rsrc_selects s) (reader_rem B (rdr s)) \<and>
    same_file (rdr s) (rdr s') \<and> leaves (rdr s') = leaves (rdr s)"
  using assms
proof (induction "reader_rem B (rdr s)" arbitrary: s)
  case Nil
  obtain r' where r': "rfile_Next (rdr s) = Some (Inl EOF, r')" "reader_ready B r'" "same_file (rdr s) r'"
    "leaves r' = leaves (rdr s)"
    using rfile_Next_spec [OF Nil.prems(1)] by (auto simp flip: Nil.hyps)
  then show ?case
    using Nil by (auto simp: rsrc_advance.simps rsrc_ready_def rsrc_rem_def simp flip: Nil.hyps)
next
  case (Cons c cs)
  note rem = Cons.hyps(2) [symmetric]
  obtain r' where r': "rfile_Next (rdr s) = Some (Inr c, r')" "reader_ready B r'" "reader_rem B r' = cs"
    "same_file (rdr s) r'" "leaves r' = leaves (rdr s)"
    using rfile_Next_spec [OF Cons.prems(1)] by (auto simp: rem)
  obtain k v where c: "c = (k, v)"
    by fastforce
  let ?s = "s\<lparr>rdr := r'\<rparr>"
  have sorted: "sorted_cells (c # cs)"
    using Cons.prems(4) by (simp add: rem)
  have IH: "\<exists>s'. rsrc_advance ?s = Some (s', None) \<and> rsrc_ready B s' \<and>
      rsrc_rem B s' = filter (rsrc_selects s) cs \<and> same_file (rdr s) (rdr s') \<and> leaves (rdr s') = leaves (rdr s)"
    using Cons.hyps(1) [of ?s] r' Cons.prems sorted by (auto simp: rsrc_selects_def intro: same_file_trans)
  consider (skip) "BeforeStart (frng s) k \<or> \<not> AfterEnd (frng s) k \<and> \<not> cfAllowed (ColumnFamily k) (fcfs s) (finclusive s)"
    | (after) "\<not> BeforeStart (frng s) k" "AfterEnd (frng s) k"
    | (top) "selects (frng s) (fcfs s) (finclusive s) c"
    by (auto simp: selects_def c)
  then show ?case
  proof cases
    case skip
    then have "rsrc_advance s = rsrc_advance ?s" "\<not> rsrc_selects s c"
      using r'(1) by (auto simp: rsrc_advance.simps [of s] c rsrc_selects_def selects_def Let_def)
    then show ?thesis
      using IH by (simp add: rem)
  next
    case after
    then have "rsrc_advance s = Some (?s\<lparr>ftop := None\<rparr>, None)"
      using r'(1) by (simp add: rsrc_advance.simps [of s] c)
    moreover have "filter (rsrc_selects s) (c # cs) = []"
      unfolding rsrc_selects_def using filter_selects_AfterEnd [OF sorted] after(2) by (simp add: c)
    ultimately show ?thesis
      using r' Cons.prems by (simp add: rem rsrc_ready_def rsrc_rem_def)
  next
    case top
    then have "rsrc_advance s = Some (?s\<lparr>ftop := Some c\<rparr>, None)"
      using r'(1) by (simp add: rsrc_advance.simps [of s] c selects_def cloneBytes_def)
    then show ?thesis
      using r' Cons.prems top sorted by (auto simp: rem rsrc_ready_def rsrc_rem_def rsrc_selects_def)
  qed
qed


lemma before_BeforeStart:
  "before (if \<not> InfiniteStart r then Start r else None) c \<Longrightarrow> BeforeStart r (fst c)"
  by (auto simp: before_def BeforeStart_iff split: if_splits option.splits)

lemma filter_selects_dropWhile:
  "filter (selects r cfs inclusive) (dropWhile (before (if \<not> InfiniteStart r then Start r else None)) cs) =
     filter (selects r cfs inclusive) cs"
proof (induction cs)
  case (Cons c cs)
  then show ?case
    using before_BeforeStart [of r c] by (simp add: selects_def del: if_not_P)
qed simp

lemma rsrc_Seek_spec:
  assumes "rsrc_wf B s"
  shows "\<exists>s'. rsrc_Seek r cfs inclusive s = Some (s', None) \<and> rsrc_ready B s' \<and>
    rsrc_rem B s' = rsrc_view B s r cfs inclusive \<and> rsrc_view B s' = rsrc_view B s"
proof -
  let ?t = "if \<not> InfiniteStart r then Start r else None"
  obtain rd where rd: "rfile_Seek ?t (rdr s) = (rd, None)" "reader_ready B rd"
    "reader_rem B rd = dropWhile (before ?t) (reader_view B (rdr s))" "same_file (rdr s) rd"
    "leaves rd = leaves (seeked (rdr s))"
    using rfile_Seek_spec [of B "rdr s" ?t] assms by (auto simp: rsrc_wf_def)
  let ?s = "s\<lparr>frng := r, fcfs := cfs, finclusive := inclusive, ferr := None, ftop := None, rdr := rd\<rparr>"
  have "sorted_cells (reader_rem B rd)"
    unfolding rd(3) using reader_view_sorted [of B "rdr s"] assms
    by (simp add: rsrc_wf_def dropWhile_eq_drop sorted_cells_drop)
  then obtain s' where s': "rsrc_advance ?s = Some (s', None)" "rsrc_ready B s'"
    "rsrc_rem B s' = filter (selects r cfs inclusive) (reader_rem B rd)"
    "same_file rd (rdr s')" "leaves (rdr s') = leaves rd"
    using rsrc_advance_spec [of B ?s] rd(2) by (auto simp: rsrc_selects_def)
  have "rsrc_Seek r cfs inclusive s = Some (s', None)"
    using rd(1) s'(1) by (simp add: rsrc_Seek_def Let_def)
  moreover have "rsrc_rem B s' = rsrc_view B s r cfs inclusive"
    using s'(3) unfolding rd(3) filter_selects_dropWhile by (simp add: rsrc_view_def)
  moreover have "leaves (seeked (rdr s')) = leaves (seeked (rdr s))"
    using ready_ok(2) [of B "rdr s'"] s'(2,5) rd(5) by (simp add: rsrc_ready_def)
  ultimately show ?thesis
    using s'(2,4) rd(4) rsrc_view_cong [of s s' B] by (auto intro: same_file_trans)
qed

lemma rsrc_Next_spec:
  assumes ready: "rsrc_ready B s" and rem: "rsrc_rem B s = c # cs"
  shows "\<exists>s'. rsrc_Next s = Some (s', None) \<and> rsrc_ready B s' \<and> rsrc_rem B s' = cs \<and>
    rsrc_view B s' = rsrc_view B s"
proof -
  have top: "ftop s = Some c" and cs: "cs = filter (rsrc_selects s) (reader_rem B (rdr s))"
    using rem by (auto simp: rsrc_rem_def split: option.splits)
  have r: "reader_ready B (rdr s)" "ferr s = None" "sorted_cells (reader_rem B (rdr s))"
    using ready top by (auto simp: rsrc_ready_def)
  then obtain s' where s': "rsrc_advance (s\<lparr>ftop := None\<rparr>) = Some (s', None)" "rsrc_ready B s'"
    "rsrc_rem B s' = cs" "same_file (rdr s) (rdr s')" "leaves (rdr s') = leaves (rdr s)"
    using rsrc_advance_spec [of B "s\<lparr>ftop := None\<rparr>"] cs by (auto simp: rsrc_selects_def)
  moreover have "leaves (seeked (rdr s')) = leaves (seeked (rdr s))"
    using ready_ok(2) [of B "rdr s'"] ready_ok(2) [OF r(1)] s'(2,5) by (simp add: rsrc_ready_def)
  ultimately show ?thesis
    using r(2) top rsrc_view_cong [of s s' B] by (auto simp: rsrc_Next_def)
qed

interpretation rsrc: skvi rsrc_skvi "rsrc_wf B" "rsrc_ready B" "rsrc_rem B" "rsrc_view B" for B
proof
  show "rsrc_wf B s" if "rsrc_ready B s" for s
    using that ready_ok(1) by (simp add: rsrc_wf_def rsrc_ready_def)
  show "sorted_cells (rsrc_rem B s)" if "rsrc_ready B s" for s
    using that sorted_cells_filter [of "reader_rem B (rdr s)" "rsrc_selects s"]
    by (force simp: rsrc_ready_def rsrc_rem_def split: option.splits)
  show "\<exists>s'. Seek rsrc_skvi r cfs inclusive s = Some (s', None) \<and> rsrc_ready B s' \<and>
      rsrc_rem B s' = rsrc_view B s r cfs inclusive \<and> rsrc_view B s' = rsrc_view B s"
    if "rsrc_wf B s" for s r cfs inclusive
    using rsrc_Seek_spec [OF that] by (simp add: rsrc_skvi_def)
  show "\<exists>s'. Next rsrc_skvi s = Some (s', None) \<and> rsrc_ready B s' \<and> rsrc_rem B s' = cs \<and>
      rsrc_view B s' = rsrc_view B s" if "rsrc_ready B s" "rsrc_rem B s = c # cs" for s c cs
    using rsrc_Next_spec [OF that] by (simp add: rsrc_skvi_def)
qed (auto simp: rsrc_skvi_def rsrc_HasTop_def rsrc_GetTopKey_def rsrc_GetTopValue_def rsrc_rem_def
    split: option.splits)

end
