(* ===== verification/RFile_Scan.thy ===== *)
theory RFile_Scan
  imports RFile_Roundtrip RFile_Source
begin

text \<open>
  The RFile writer, the reader and \<^verbatim>\<open>RFileSource\<close> together: a file written from a sorted
  list of cells, opened and scanned over a range, yields the cells of the range.
\<close>

context rfile_codec
begin

lemma rfile_NewWriter_ok:
  assumes "(if Codec o1 = [] then CodecNone else Codec o1) = codec"
    "(case Compressor o1 of None \<Rightarrow> dflt | Some c \<Rightarrow> c) = cmp" "BlockSize o1 \<le> 2 ^ 26" "IndexBlockSize o1 \<le> 2 ^ 22"
  obtains w where "rfile_NewWriter dflt o1 = Inr w" "writing [] [] w" "\<not> closed w"
proof -
  obtain w where w: "rfile_NewWriter dflt o1 = Inr w"
    using assms(1,2) cmp_codec by (simp add: rfile_NewWriter_def Let_def)
  then have "writing [] [] w \<and> \<not> closed w"
    using assms cmp_codec
    by (auto simp: rfile_NewWriter_def writing_def set_up_def buffered_def pend_def final_key_def first_key_def
        families_def DefaultBlockSize_def DefaultIndexBlockSize_def MaxRunBlockSize_def bc_NewWriter_def dense_def
        indexed_def regions_ok_def regs_ok_def Let_def split: if_splits)
  with w that show ?thesis
    by blast
qed

lemma write_rfile_finished:
  assumes "(if Codec o1 = [] then CodecNone else Codec o1) = codec"
    "(case Compressor o1 of None \<Rightarrow> dflt | Some c \<Rightarrow> c) = cmp" "BlockSize o1 \<le> 2 ^ 26" "IndexBlockSize o1 \<le> 2 ^ 22"
    and cs: "modest_families cs" "\<forall>c\<in>set cs. small_cell c" "sorted_cells cs" and extra: "extras_ok extra"
  obtains w b out where "finished cs w" "writeRFileIndexMeta (localityGroups w) = Inr b"
    "write_rfile dflt o1 extra cs = Inr out" "wblocks out = wblocks (bc_out w)"
    "int (length (wblocks out)) \<le> maxDataIndexBlocks \<longrightarrow> (\<exists>bc. reopened (bc_out w) b out bc)"
proof -
  obtain w where w: "rfile_NewWriter dflt o1 = Inr w" "writing [] [] w" "\<not> closed w"
    using rfile_NewWriter_ok [OF assms(1-4)] .
  obtain B bl w1 where w1: "append_cells cs w = Inr w1" "writing B bl w1" "\<not> closed w1" "concat B @ bl = cs"
    using append_cells_ok [OF w(2,3) cs(2)] cs(3) by auto
  have "pend (w1\<lparr>closed := True\<rparr>) = pend w1" "indexed B (w1\<lparr>closed := True\<rparr>) = indexed B w1"
    "set_up (w1\<lparr>closed := True\<rparr>) = set_up w1" "buffered bl (w1\<lparr>closed := True\<rparr>) = buffered bl w1"
    by (simp_all add: indexed_def pend_def set_up_def buffered_def)
  then have "writing B bl (w1\<lparr>closed := True\<rparr>)"
    using w1(2) by (simp add: writing_def)
  then obtain w2 where w2: "finalizeCurrentLocalityGroup (w1\<lparr>closed := True\<rparr>) = Inr w2" "finished cs w2"
    using finalize_ok w1(4) by metis
  obtain b o2 o3 where c: "writeRFileIndexMeta (localityGroups w2) = Inr b"
    "append_metas ((IndexMetaBlockName, CodecNone, b, length b) # extra) (bc_out w2) = Inr o2"
    "bc_Close o2 = Inr o3"
    "int (length (wblocks o3)) \<le> maxDataIndexBlocks \<longrightarrow> (\<exists>bc. reopened (bc_out w2) b o3 bc)"
    "wblocks o3 = wblocks (bc_out w2)"
    by (rule closed_container [OF w2(2) cs(1,2) extra])
  have "write_rfile dflt o1 extra cs = Inr o3"
    using w(1) w1(1,3) w2(1) c(1,2,3) by (simp add: write_rfile_def rfile_Close_def del: append_metas.simps)
  then show ?thesis
    using that [OF w2(2) c(1)] c(4,5) by blast
qed

end

section \<open>An example\<close>

definition plain_compressor :: compressor where
  "plain_compressor = [CodecNone \<mapsto> encodeNone]"

definition plain_decompressor :: decompressor where
  "plain_decompressor = [CodecNone \<mapsto> decompressNone]"

interpretation plain: rfile_codec encodeNone decompressNone plain_compressor plain_decompressor CodecNone
  by unfold_locales (simp_all add: plain_compressor_def plain_decompressor_def CodecNone_def str_def)

definition example_cell :: "byte \<Rightarrow> cell" where
  "example_cell b = (\<lparr>Row = [b], ColumnFamily = [], ColumnQualifier = [], ColumnVisibility = [],
                      Timestamp = 0, Deleted = False\<rparr>, [b])"

definition example_options :: writer_options where
  "example_options = \<lparr>Codec = [], BlockSize = 0, IndexBlockSize = 0, Compressor = None\<rparr>"

lemma append_metas_blocks: "append_metas ms o1 = Inr o2 \<Longrightarrow> wblocks o2 = wblocks o1"
  by (induction ms arbitrary: o1) (auto simp: res_simps AppendMetaBlock_def Let_def split: if_splits)

text \<open>A single cell makes a single block, and the root is the only index block.\<close>

lemma one_cell_one_block:
  assumes "write_rfile plain_compressor example_options [] [(k, v)] = Inr out"
  shows "length (wblocks out) = 1"
proof -
  obtain w w1 w2 where w: "rfile_NewWriter plain_compressor example_options = Inr w"
    "rfile_Append (Some k) v w = Inr w1" "rfile_Close [] w1 = Inr w2" "out = bc_out w2"
    using assms by (auto simp: write_rfile_def res_simps)
  have w1: "blockBuf w1 = EncodeKey None k v" "pendingLeaf w1 = None" "levels w1 = []" "wblocks (bc_out w1) = []"
    "\<not> closed w1"
    using w(1,2) by (auto simp: rfile_NewWriter_def rfile_Append_def Let_def bc_NewWriter_def split: if_splits)
  obtain w3 o2 o3 ms where w3: "finalizeCurrentLocalityGroup (w1\<lparr>closed := True\<rparr>) = Inr w3"
    "append_metas ms (bc_out w3) = Inr o2" "bc_Close o2 = Inr o3" "out = o3"
    using w(3,4) w1(5) by (auto simp: rfile_Close_def res_simps simp del: append_metas.simps)
  then have "wblocks out = wblocks (bc_out w3)"
    using append_metas_blocks bc_Close_blocks by metis
  moreover have "length (wblocks (bc_out w3)) = 1"
  proof -
    obtain w4 where w4: "flushDataBlock (w1\<lparr>closed := True\<rparr>) = Inr w4" 
      "length (wblocks (bc_out w4)) = 1" "levels w4 = []" "pendingLeaf w4 \<noteq> None"
      using w3(1) w1 length_EncodeKey(2) [of None k v]
      by (auto simp: finalizeCurrentLocalityGroup_def flushDataBlock_def res_simps Let_def AppendDataBlock_def split: if_splits)
    then obtain p w5 where w5: "indexAdd p True w4 = Inr w5" "wblocks (bc_out w3) = wblocks (bc_out w5)"
      using w3(1) by (auto simp: finalizeCurrentLocalityGroup_def res_simps)
    then show ?thesis
      using w4(2,3) by (auto simp: indexAdd_def indexAddAtLevel_def get_level_def addEntry_def res_simps Let_def
          indexFlushLevel.simps)
  qed
  ultimately show ?thesis
    by simp
qed

section \<open>Scanning a written file\<close>

lemma reader_view_all: "\<lbrakk>reader_ok B r; skipPred r = None\<rbrakk> \<Longrightarrow> reader_view B r = concat B"
  by (simp add: reader_view_def kept_def skipped_def seeked_def map_nth)

text \<open>
  C4: an RFile written from a sorted list of cells is read back. For every codec whose
  decoder inverts its encoder (the locale \<open>rfile_codec\<close> states what is relied on of the
  third-party compression code), \<^verbatim>\<open>NewWriter\<close>, \<^verbatim>\<open>Append\<close> of every cell and \<^verbatim>\<open>Close\<close>
  succeed for cells of moderate size and any block sizes up to the stated bounds; and as
  long as the file has no more blocks than a reader accepts, \<^verbatim>\<open>bcfile.NewReader\<close> and
  \<^verbatim>\<open>rfile.Open\<close> accept it and a scan through \<^verbatim>\<open>RFileSource\<close> over any range and any set of
  column families returns exactly the appended cells it selects, in order.
\<close>

theorem written_file_scans:
  assumes "rfile_codec enc dec cmp dcmp codec"
    "(if Codec o1 = [] then CodecNone else Codec o1) = codec"
    "(case Compressor o1 of None \<Rightarrow> dflt | Some c \<Rightarrow> c) = cmp" "BlockSize o1 \<le> 2 ^ 26" "IndexBlockSize o1 \<le> 2 ^ 22"
    "few_families cs" "\<forall>c\<in>set cs. small_cell c" "sorted_cells cs" "extras_ok extra"
  shows "\<exists>out. write_rfile dflt o1 extra cs = Inr out \<and> (int (length (wblocks out)) \<le> maxDataIndexBlocks \<longrightarrow>
    (\<exists>bc rd s. bc_NewReader (bytes_ReadAt (wout out)) (of_nat (length (wout out))) = Inr bc \<and>
      rfile_Open None bc dcmp = Inr rd \<and>
      rsrc_Seek r cfs inclusive (NewRFileSource rd None) = Some (s, None) \<and>
      drain_loop rsrc_skvi [] s = Some (filter (selects r cfs inclusive) cs, None)))"
proof -
  have scan: "\<exists>s. rsrc_Seek r cfs inclusive (NewRFileSource rd None) = Some (s, None) \<and>
      drain_loop rsrc_skvi [] s = Some (filter (selects r cfs inclusive) cs, None)"
    if "concat B = cs" "reader_ok B rd" "skipPred rd = None" for B rd
  proof -
    have "rsrc_wf B (NewRFileSource rd None)"
      using that(2) by (simp add: rsrc_wf_def NewRFileSource_def)
    from rsrc.scan_spec [OF this, of r cfs inclusive] show ?thesis
      using reader_view_all [OF that(2,3)] that(1) by (simp add: rsrc_skvi_def rsrc_view_def NewRFileSource_def)
  qed
  note rc = assms(1)
  have modest: "modest_families cs"
    using assms(6) by (simp add: few_families_def)
  obtain w b out where out: "rfile_codec.finished cmp codec cs w" "writeRFileIndexMeta (localityGroups w) = Inr b"
    "write_rfile dflt o1 extra cs = Inr out" "wblocks out = wblocks (bc_out w)"
    "int (length (wblocks out)) \<le> maxDataIndexBlocks \<longrightarrow> (\<exists>bc. rfile_codec.reopened dcmp codec (bc_out w) b out bc)"
    by (rule rfile_codec.write_rfile_finished [OF rc assms(2-5) modest assms(7-9)])
  have "\<exists>bc rd s. bc_NewReader (bytes_ReadAt (wout out)) (of_nat (length (wout out))) = Inr bc \<and>
      rfile_Open None bc dcmp = Inr rd \<and>
      rsrc_Seek r cfs inclusive (NewRFileSource rd None) = Some (s, None) \<and>
      drain_loop rsrc_skvi [] s = Some (filter (selects r cfs inclusive) cs, None)"
    if blocks: "int (length (wblocks out)) \<le> maxDataIndexBlocks"
  proof -
    obtain bc where bc: "rfile_codec.reopened dcmp codec (bc_out w) b out bc"
      using out(5) blocks by blast
    obtain rd B where "rfile_Open None bc dcmp = Inr rd" "concat B = cs" "reader_ok B rd" "skipPred rd = None"
      using rfile_codec.closed_file [OF rc out(1) assms(6-8) out(2) _ bc] blocks out(4) by auto
    then show ?thesis
      using scan [of B rd] rfile_codec.reopened_def [OF rc] bc by auto
  qed
  then show ?thesis
    using out(3) by blast
qed

theorem written_file_scans_witness:
  "\<exists>out bc rd s. write_rfile plain_compressor example_options [] [example_cell 7] = Inr out \<and>
     bc_NewReader (bytes_ReadAt (wout out)) (of_nat (length (wout out))) = Inr bc \<and>
     rfile_Open None bc plain_decompressor = Inr rd \<and>
     rsrc_Seek InfiniteRange [] False (NewRFileSource rd None) = Some (s, None) \<and>
     drain_loop rsrc_skvi [] s = Some ([example_cell 7], None)"
proof -
  have c: "small_cell (example_cell 7)" "few_families [example_cell 7]" "extras_ok []"
    "selects InfiniteRange [] False (example_cell 7)"
    by (simp_all add: example_cell_def small_cell_def small_key_def key_bytes_def few_families_def modest_families_def family_set_def
        limit_defs extras_ok_def selects_def BeforeStart_iff AfterEnd_def InfiniteRange_def cfAllowed_def)
  have "\<exists>out. write_rfile plain_compressor example_options [] [example_cell 7] = Inr out \<and>
    (int (length (wblocks out)) \<le> maxDataIndexBlocks \<longrightarrow>
    (\<exists>bc rd s. bc_NewReader (bytes_ReadAt (wout out)) (of_nat (length (wout out))) = Inr bc \<and>
      rfile_Open None bc plain_decompressor = Inr rd \<and>
      rsrc_Seek InfiniteRange [] False (NewRFileSource rd None) = Some (s, None) \<and>
      drain_loop rsrc_skvi [] s = Some (filter (selects InfiniteRange [] False) [example_cell 7], None)))"
    by (rule written_file_scans [OF plain.rfile_codec_axioms]) (simp_all add: example_options_def c)
  then obtain out where out: "write_rfile plain_compressor example_options [] [example_cell 7] = Inr out"
    "int (length (wblocks out)) \<le> maxDataIndexBlocks \<longrightarrow>
    (\<exists>bc rd s. bc_NewReader (bytes_ReadAt (wout out)) (of_nat (length (wout out))) = Inr bc \<and>
      rfile_Open None bc plain_decompressor = Inr rd \<and>
      rsrc_Seek InfiniteRange [] False (NewRFileSource rd None) = Some (s, None) \<and>
      drain_loop rsrc_skvi [] s = Some ([example_cell 7], None))"
    using c(4) by auto
  have "length (wblocks out) = 1"
    using one_cell_one_block out(1) by (simp add: example_cell_def)
  then show ?thesis
    using out by (simp add: maxDataIndexBlocks_def)
qed

end
