(* ===== verification/RFile_Filter.thy ===== *)
theory RFile_Filter
  imports RFile_Scan
begin

text \<open>
  The RFile reader with a cell filter (\<^verbatim>\<open>SetFilter\<close>, which the scan server uses for column
  visibilities). A filter makes a block look empty when it accepts none of its cells, and
  \<^verbatim>\<open>Seek\<close> takes the second such block for the end of the file.
\<close>

section \<open>Blocks without an accepted cell\<close>

lemma NextView_filtered:
  assumes "\<forall>c\<in>set b. cell_fits c \<and> \<not> f (fst c)"
  shows "\<exists>blk. NextView (SetFilter (Some f) (NewReader (EncodeCells None b) (int (length b)))) = (Inl EOF, blk)"
proof -
  let ?blk = "SetFilter (Some f) (NewReader (EncodeCells None b) (int (length b)))"
  have at: "reader_at ?blk b"
    using assms by (intro reader_at_NewReader) simp
  have "dropWhile (\<lambda>c. \<not> accepts (accept ?blk) c) b = []"
    using assms by (simp add: accepts_def SetFilter_def)
  then have "fst (NextView_loop ?blk) = Inl EOF"
    using NextView_loop_spec [OF at] by (simp del: dropWhile_eq_Nil_conv)
  then show ?thesis
    using at by (cases "NextView_loop ?blk") (simp add: NextView_def reader_at_def)
qed

lemma openLeaf_filtered:
  assumes "leaf_block r (leaves r ! i) b" "rfilter r = Some f"
  shows "openLeaf i r =
    Inr (r\<lparr>currentBlk := Some (SetFilter (Some f) (NewReader (EncodeCells None b) (int (length b))))\<rparr>)"
  using assms by (simp add: openLeaf_def leaf_block_def Let_def)

lemma seek_scan_EOF: "NextView blk = (Inl EOF, blk') \<Longrightarrow> seek_scan target blk = (Inr None, blk')"
  by (simp add: seek_scan.simps)

lemma firstNonSkippedFrom_None: "skipPred r = None \<Longrightarrow> firstNonSkippedFrom i r = i"
  by (simp add: firstNonSkippedFrom_def)

lemma leaf_block_cong:
  "\<lbrakk>rbc r' = rbc r; rdec r' = rdec r; dataBlockSet r' = dataBlockSet r; dataCodec r' = dataCodec r\<rbrakk> \<Longrightarrow>
     leaf_block r' = leaf_block r"
  by (intro ext) (simp add: leaf_block_def)

lemma seek_next_block_filtered:
  assumes "leaf_block r (leaves r ! 1) b" "rfilter r = Some f" "skipPred r = None" "leafIdx r = 0" "1 < length (leaves r)"
    "\<forall>c\<in>set b. \<not> f (fst c)"
  shows "\<exists>r'. seek_next_block r = (r', None) \<and> exhausted r' \<and> lastErr r' = lastErr r"
proof -
  let ?r = "r\<lparr>currentBlk := None, pending := None, leafIdx := 1\<rparr>"
  have "\<forall>c\<in>set b. cell_fits c \<and> \<not> f (fst c)"
    using assms(1,6) by (simp add: leaf_block_def)
  then obtain blk where blk: "NextView (SetFilter (Some f) (NewReader (EncodeCells None b) (int (length b)))) = (Inl EOF, blk)"
    using NextView_filtered by blast
  have "openLeaf 1 ?r =
      Inr (?r\<lparr>currentBlk := Some (SetFilter (Some f) (NewReader (EncodeCells None b) (int (length b))))\<rparr>)"
    using assms leaf_block_cong [of ?r r] by (intro openLeaf_filtered) simp_all
  then show ?thesis
    using assms blk
    by (simp add: seek_next_block_def closeCurrentBlock_def firstNonSkippedFrom_None Let_def)
qed

section \<open>A reader over given blocks\<close>

text \<open>Uncompressed blocks one after the other, opened through \<^verbatim>\<open>NewReaderFromShared\<close>.\<close>

fun block_leaves :: "nat \<Rightarrow> cell list list \<Rightarrow> index_entry list" where
  "block_leaves off [] = []"
| "block_leaves off (b # bs) =
     \<lparr>EKey = fst (last b), ENumEntries = of_nat (length b), EOffset = of_nat off,
      ECompressedSize = of_nat (length (EncodeCells None b)), ERawSize = of_nat (length (EncodeCells None b))\<rparr>
     # block_leaves (off + length (EncodeCells None b)) bs"

definition block_reader :: "cell list list \<Rightarrow> rfile_reader" where
  "block_reader bs =
     (let f = concat (map (EncodeCells None) bs);
          bc = \<lparr>Source = bytes_ReadAt f, FileLength = of_nat (length f),
                Footer = \<lparr>FVersion = APIVersion3, OffsetIndexMeta = of_nat (length f),
                          OffsetCryptoParams = of_nat (length f)\<rparr>, MetaIndex = []\<rparr>;
          sf = (new_reader bc plain_decompressor V8
                 \<lparr>Level = 0, BOffset = 0, HasNext = False, Offsets = [], Data = []\<rparr>
                 CodecNone None)\<lparr>leaves := block_leaves 0 bs\<rparr>
      in NewReaderFromShared sf plain_decompressor)"

definition leaf_at :: "bytes \<Rightarrow> index_entry \<Rightarrow> cell list \<Rightarrow> bool" where
  "leaf_at f leaf b \<longleftrightarrow> sint (ENumEntries leaf) = int (length b) \<and> EKey leaf = fst (last b) \<and>
     in_bounds 0 (int (length f)) (region_of leaf) \<and> sint (ERawSize leaf) = int (length (EncodeCells None b)) \<and>
     stored f (region_of leaf) (EncodeCells None b)"

lemma block_leaves_stored:
  assumes "f = pre @ concat (map (EncodeCells None) bs)" "length f < 2 ^ 28" "\<forall>b\<in>set bs. b \<noteq> []"
  shows "list_all2 (leaf_at f) (block_leaves (length pre) bs) bs"
  using assms
proof (induction bs arbitrary: pre)
  case (Cons b bs)
  let ?c = "EncodeCells None b"
  let ?leaf = "\<lparr>EKey = fst (last b), ENumEntries = of_nat (length b), EOffset = of_nat (length pre),
      ECompressedSize = of_nat (length ?c), ERawSize = of_nat (length ?c)\<rparr>"
  have f: "f = pre @ ?c @ concat (map (EncodeCells None) bs)"
    using Cons.prems(1) by simp
  have ne: "?c \<noteq> []"
    using Cons.prems(3) by simp
  have si: "sint (of_nat (length pre) :: int64) = int (length pre)" "sint (of_nat (length ?c) :: int64) = int (length ?c)"
    "sint (of_nat (length b) :: int32) = int (length b)"
    using Cons.prems(2) length_EncodeCells [of b None] unfolding f
    by (auto intro!: sint_of_nat_64 sint_of_nat_32)
  have "leaf_at f ?leaf b"
    unfolding leaf_at_def using si ne Cons.prems(2)
    by (auto simp: region_of_def in_bounds_def region_end_def MaxCompressedBlockSize_def MaxRawBlockSize_def f
        intro!: storedI [of _ pre])
  moreover have "list_all2 (leaf_at f) (block_leaves (length (pre @ ?c)) bs) bs"
    using Cons.prems by (intro Cons.IH) simp_all
  ultimately show ?case
    by simp
qed simp

lemma block_reader_ok:
  assumes sorted: "sorted_cells (concat bs)" and bs: "\<forall>b\<in>set bs. b \<noteq> []" "\<forall>c\<in>set (concat bs). cell_fits c"
    and small: "length (concat (map (EncodeCells None) bs)) < 2 ^ 28"
  shows "reader_ok bs (block_reader bs)" "skipPred (block_reader bs) = None"
proof -
  let ?f = "concat (map (EncodeCells None) bs)" and ?r = "block_reader bs"
  have r: "all_leaves ?r = Inr (block_leaves 0 bs)" "leaves ?r = block_leaves 0 bs" "rfilter ?r = None"
    "dataBlockSet ?r = None" "dataCodec ?r = CodecNone" "rdec ?r = plain_decompressor"
    "Source (rbc ?r) = bytes_ReadAt ?f" "FileLength (rbc ?r) = of_nat (length ?f)"
    "DataRegionEnd (rbc ?r) = of_nat (length ?f)"
    by (simp_all add: block_reader_def NewReaderFromShared_def new_reader_def all_leaves_def DataRegionEnd_def Let_def)
  have len: "sint (of_nat (length ?f) :: int64) = int (length ?f)"
    using small by (intro sint_of_nat_64) simp
  have "leaf_block ?r leaf b" if l: "leaf_at ?f leaf b" and b: "b \<in> set bs" for leaf b
  proof -
    have "fetchDataBlock (rbc ?r) (rdec ?r) (dataBlockSet ?r) (region_of leaf) (dataCodec ?r) =
        decompressNone (EncodeCells None b) (RawSize (region_of leaf))"
      using l r len by (intro fetchDataBlock_stored [where f = ?f]) (simp_all add: leaf_at_def plain_decompressor_def)
    then show ?thesis
      using l b bs by (auto simp: leaf_block_def leaf_at_def decompressNone_def region_of_def)
  qed
  moreover have "list_all2 (leaf_at ?f) (block_leaves 0 bs) bs"
    using block_leaves_stored [of ?f "[]" bs] small bs(1) by simp
  ultimately have "list_all2 (leaf_block ?r) (block_leaves 0 bs) bs"
    by (elim list.rel_mono_strong) auto
  moreover have "seeked ?r = ?r"
    using r(1,2) by (simp add: seeked_def)
  ultimately show "reader_ok bs ?r"
    using r sorted by (simp add: reader_ok_def leaves_ok_def)
  show "skipPred ?r = None"
    by (simp add: block_reader_def NewReaderFromShared_def new_reader_def Let_def)
qed

section \<open>A seek with a filter\<close>

text \<open>
  C39: a seek with a filter gives up too early. If the filter accepts no cell of the first
  two blocks, \<^verbatim>\<open>Seek(nil)\<close> reports success and \<^verbatim>\<open>Next\<close> then reports the end of the file,
  whatever cells the later blocks hold.
\<close>

theorem filtered_seek_gives_up:
  assumes ok: "reader_ok (b1 # b2 # bs) r" and none: "skipPred r = None"
    and rejected: "\<forall>c\<in>set (b1 @ b2). \<not> f (fst c)"
  shows "\<exists>r'. rfile_Seek None (rfile_SetFilter (Some f) r) = (r', None) \<and> rfile_Next r' = Some (Inl EOF, r')"
proof -
  let ?B = "b1 # b2 # bs" and ?r = "rfile_SetFilter (Some f) r"
  let ?rc = "closeCurrentBlock (?r\<lparr>exhausted := False, lastErr := None\<rparr>)"
  obtain ls where ls: "all_leaves r = Inr ls"
    using ok by (auto simp: reader_ok_def)
  let ?ra = "?rc\<lparr>leaves := ls, leafIdx := 0\<rparr>"
  have same: "rbc ?ra = rbc (seeked r)" "rdec ?ra = rdec (seeked r)" "dataBlockSet ?ra = dataBlockSet (seeked r)"
    "dataCodec ?ra = dataCodec (seeked r)" "rfilter ?ra = Some f" "skipPred ?ra = None" "leaves ?ra = ls"
    "lastErr ?ra = None"
    using none by (simp_all add: closeCurrentBlock_def rfile_SetFilter_def seeked_def)
  have all: "all_leaves ?rc = Inr ls"
    using ls all_leaves_cong [of ?rc r] by (simp add: closeCurrentBlock_def rfile_SetFilter_def)
  have "list_all2 (leaf_block (seeked r)) ls ?B"
    using ok ls by (simp add: reader_ok_def leaves_ok_def seeked_def)
  then have lb: "leaf_block ?ra (ls ! 0) b1" "leaf_block ?ra (ls ! 1) b2" "1 < length ls"
    using leaf_block_cong [OF same(1-4)] by (auto simp: list_all2_Cons2)
  let ?blk = "SetFilter (Some f) (NewReader (EncodeCells None b1) (int (length b1)))"
  obtain blk where blk: "NextView ?blk = (Inl EOF, blk)"
    using NextView_filtered [of b1 f] lb(1) rejected by (auto simp: leaf_block_def)
  have opened: "openLeaf 0 ?ra = Inr (?ra\<lparr>currentBlk := Some ?blk\<rparr>)"
    using same lb(1) by (intro openLeaf_filtered) simp_all
  let ?rb = "?ra\<lparr>currentBlk := Some blk\<rparr>"
  obtain r' where r': "seek_next_block ?rb = (r', None)" "exhausted r'" "lastErr r' = lastErr ?rb"
    using seek_next_block_filtered [of ?rb b2 f] same lb leaf_block_cong [of ?rb ?ra] rejected by auto
  have "seek_block None (?ra\<lparr>currentBlk := Some ?blk\<rparr>) = (r', None)"
    using seek_scan_EOF [OF blk] r'(1) by (simp add: seek_block_def)
  then have "rfile_Seek None ?r = (r', None)"
    unfolding rfile_Seek_def Let_def all sum.case
    using lb(3) opened same(6) by (auto simp: firstNonSkippedFrom_None)
  moreover have "rfile_Next r' = Some (Inl EOF, r')"
    using r' same(8) by (simp add: rfile_Next_def)
  ultimately show ?thesis
    by blast
qed

text \<open>Three blocks of one cell each; only the last one is accepted, and it is never returned.\<close>

theorem filtered_seek_gives_up_witness:
  "\<exists>r'. rfile_Seek None (rfile_SetFilter (Some (\<lambda>k. Row k = [3]))
      (block_reader [[example_cell 1], [example_cell 2], [example_cell 3]])) = (r', None) \<and>
    rfile_Next r' = Some (Inl EOF, r')"
proof (rule filtered_seek_gives_up)
  let ?bs = "[[example_cell 1], [example_cell 2], [example_cell 3]]"
  have "length (EncodeCells None [example_cell x]) \<le> 100" for x
    using length_EncodeKey(1) [of None "fst (example_cell x)" "snd (example_cell x)"]
    by (simp add: example_cell_def key_bytes_def)
  from this [of 1] this [of 2] this [of 3] have "length (concat (map (EncodeCells None) ?bs)) < 2 ^ 28"
    by simp
  moreover have "sorted_cells (concat ?bs)" "\<forall>c\<in>set (concat ?bs). cell_fits c"
    by (simp_all add: example_cell_def cell_fits_def key_fits_def key_le_rank key_rank_def)
  ultimately show "reader_ok ?bs (block_reader ?bs)" "skipPred (block_reader ?bs) = None"
    using block_reader_ok [of ?bs] by simp_all
qed (simp add: example_cell_def)

end
