(* ===== verification/Spec2Isabelle.thy ===== *)
theory Spec2Isabelle
  imports Rel_Key Tablet_Run RFile_Filter
begin

text \<open>
  Verification of the storage core of shoal, a Go implementation of an Accumulo-style sorted
  key-value store.

  \<^bold>\<open>The program.\<close> A cell is a key (row, column family, qualifier, visibility, timestamp, delete
  flag) and a value. A tablet (\<^verbatim>\<open>internal/tablet\<close>) owns a directory: mutations
  (\<^verbatim>\<open>internal/cclient\<close>) go to a write-ahead log (\<^verbatim>\<open>internal/localwal\<close>) and into a memtable, a
  skip list; a flush writes the memtable to an immutable file, a manifest lists the files in
  recency order, and a compaction (\<^verbatim>\<open>internal/compaction\<close>) rewrites them. Reads and compactions
  run stacks of iterators (\<^verbatim>\<open>internal/iterrt\<close>): the sources are merged, deletes suppressed, old
  versions dropped, cells filtered by time or by visibility expression (\<^verbatim>\<open>internal/visfilter\<close>).
  An immutable file is an RFile (\<^verbatim>\<open>internal/rfile\<close>): prefix-compressed keys in compressed
  blocks, a tree of index blocks, and the BCFile container that holds both. Everything else in
  the repository (servers, query language, explorer, bindings) is built on top of this core.

  \<^bold>\<open>Theories and code.\<close> Definitions keep the names of the Go functions; where packages share a
  name a prefix tells them apart (\<open>bc_\<close>, \<open>rfile_\<close>, \<open>rsrc_\<close>, \<open>wal_\<close>, \<open>tablet_\<close>, and the iterator's
  name for its methods).

  \<^item> \<open>Shoal_Prelude\<close>: bytes, fixed-width integers as words, Go errors, the result type, and the
    collections \<open>res_simps\<close> and others that carry the component proofs. \<open>Stream_Codec\<close>: decoders
    of self-delimiting records and the locale \<open>record_log\<close> of logs made of them.
  \<^item> \<open>Wire_Key\<close>, \<open>Wire_Varint\<close>, \<open>Wire_Data\<close> (\<^verbatim>\<open>rfile/wire\<close>): the key and its order, Hadoop
    integers, the primitives of the file formats. \<open>Rel_Key\<close> (\<^verbatim>\<open>rfile/relkey\<close>): the codec of a
    data block.
  \<^item> \<open>BCFile_Data\<close>, \<open>BCFile_File\<close> (\<^verbatim>\<open>rfile/bcfile\<close>, \<^verbatim>\<open>rfile/bcfile/block\<close>): the container's integers,
    strings and regions; footer, meta index, data index, reader and writer. \<open>RFile_Index\<close>,
    \<open>RFile_Meta\<close> (\<^verbatim>\<open>rfile/index\<close>): index entries and blocks, the walker, locality groups, the
    serialized index. \<open>RFile_Reader\<close>, \<open>RFile_Writer\<close> (\<^verbatim>\<open>rfile/reader.go\<close>, \<^verbatim>\<open>rfile/writer.go\<close>) and
    \<open>RFile_Source\<close> (\<^verbatim>\<open>iterrt/source_rfile.go\<close>). \<open>RFile_Tree\<close>, \<open>RFile_Levels\<close>, \<open>RFile_Append\<close> and
    \<open>RFile_Roundtrip\<close> hold the proof of the round trip, \<open>RFile_Scan\<close> its statement, \<open>RFile_Filter\<close>
    the reader with a cell filter.
  \<^item> \<open>Iter_Core\<close>: ranges, the iterator interface as a record of operations and its contract as
    the locale \<open>skvi\<close>, \<^verbatim>\<open>SliceSource\<close>. \<open>Cell_Spec\<close>: the abstract store, what versions, deletes and
    merges mean on sorted cell lists. \<open>Iter_Versioning\<close>, \<open>Iter_Deleting\<close>, \<open>Go_Heap\<close> and
    \<open>Iter_Merge\<close>, \<open>Iter_Filters\<close> (as-of, visibility, tombstones only): the iterators.
    \<open>Iter_Registry\<close>, \<open>Iter_Stack\<close> (\<^verbatim>\<open>registry.go\<close>, \<^verbatim>\<open>stack.go\<close>): which stacks are accepted and how
    one is built. \<open>Vis_Filter\<close>: visibility expressions. \<open>Compaction\<close>: \<^verbatim>\<open>buildSource\<close> and
    \<^verbatim>\<open>StreamCells\<close>.
  \<^item> \<open>Skip_List\<close>, \<open>Mem_Iter\<close> (\<^verbatim>\<open>internal/memtable\<close>) and \<open>Tablet_Memtable\<close>
    (\<^verbatim>\<open>tablet/memtable.go\<close>): the skip lists as nodes in a store of addresses, and their iterators.
  \<^item> \<open>Cclient_Mutation\<close>, \<open>Local_WAL\<close>: mutations and the log. \<open>Tablet_Names\<close>, \<open>Tablet_Manifest\<close>,
    \<open>Tablet_Source\<close>, \<open>Tablet_Write\<close>, \<open>Tablet_Compact\<close> (\<^verbatim>\<open>tablet/tablet.go\<close>,
    \<^verbatim>\<open>tombstone_retention.go\<close>): file names, the manifest, reads and conditions, writes, flush, open
    and close, compaction. \<open>Tablet_Run\<close>: all operations in any order, with crashes between them.

  \<^bold>\<open>State and effects.\<close> A struct is a record and a method a function from the record to its new
  value. Errors are values of a sum type, with the wrapped error kept so that \<^verbatim>\<open>errors.Is\<close> can be
  stated. What the operating system or the storage backend answers is an argument of the
  operation (a write cut short, a sync that fails, a name already taken), so a theorem about an
  operation covers every answer. A tablet's lock makes each operation one step; the mutex and the
  group-commit goroutine of the log appear only as the order of steps. Writers append to memory
  and do not fail on their own; an RFile writer that reports an error is not used again, so its
  state is dropped. Go maps are maps or association lists without duplicate keys, in an order the
  theorems do not depend on.

  \<^bold>\<open>Loops.\<close> Loops over data are structural or have a termination proof; among these are the two
  traversals of the index tree, which end because a level decreases, and \<open>indexFlushLevel\<close>, whose
  cascade ends although each flush may add a level. A loop over an iterator is a
  \<open>partial_function\<close> in the option monad, and the contract \<open>skvi\<close> proves that it returns. The
  visibility parser has fuel, the length of its input, and is proved never to run out of it.

  \<^bold>\<open>What is proved.\<close>
  \<^item> The key order is total. Every codec inverts its writer: integers, primitives, keys, data
    blocks, mutations, log records, container, index. The index of an RFile answers a seek like a
    search of its leaves.
  \<^item> Writing sorted cells to an RFile and scanning the reopened file returns the cells of the
    range. The compression is an argument with the locale \<open>rfile_codec\<close> as its law. The
    hypotheses are the limits the reader enforces, with room for the encoding: keys up to 16 MiB,
    values up to 32 MiB, \<open>BlockSize\<close> up to 64 MiB and \<open>IndexBlockSize\<close> up to 4 MiB, 65536 column
    families with at most 64 MiB of names, and \<open>2 ^ 20\<close> blocks.
  \<^item> Every iterator satisfies the contract over any source that does, with its view given by the
    abstract store, and so does every stack of them. The registry accepts exactly the declared
    specifications.
  \<^item> Both skip lists refine insertion into a sorted list. A crash of the log keeps a prefix of the
    appended records with every synced one in it.
  \<^item> A tablet refines a table of durable cells and a log of pending mutations, in every
    interleaving of writes, conditional writes, flushes, compactions, failures, crashes and
    reopenings: a scan returns the table's view, an acknowledged write survives, a flush changes no
    scan, a compaction keeps the live view and the tombstones consumers of exports need.
  \<^item> Some theorems record behaviour that is not what the code means to do: a seek that misses a
    tombstone with the largest timestamp, a validation that panics, a log that is poisoned by a
    torn tail, a filtered seek that ends early, an index that is written and cannot be read.

  \<^bold>\<open>Not modelled.\<close> In the tablet an immutable file is its sorted cells and its embedding state: the
  round trip of the RFile is proved for the file format, the second format (Parquet) is a
  third-party encoding. Left out of the modelled packages are the caches, prefetching, block
  overlays, adjacency index and embedding metadata (they change which blocks are read, not which
  cells are returned), loggers and contexts. Above the core, the engine's table map and its
  exports, the graph, vector and term-index iterators, the quorum log, the Thrift services, the
  scan and tablet servers, ShoalQL, the explorer and its gateways, the decision and promotion
  services, and the language bindings are not modelled: they are network services, generated code,
  numerical code, or applications over the operations modelled here.
\<close>

end
